(* ===== verification/AE_Prelude.thy ===== *)
theory AE_Prelude
  imports Main "HOL-Library.Word" "HOL-Library.Monad_Syntax"
begin

text \<open>
  Shared vocabulary of the development: bytes and the C integer types as words, pointers
  as optional addresses, the two proof collections of the component theories and the
  generic lemmas on lists and options they use.

  Conventions of all theories. A C++ object is a record or a datatype. An operation that
  can run into undefined behaviour of the language (an access outside a block, the use
  of a null pointer, a signed overflow), fail an \<open>assert\<close>, or loop forever returns an
  \<open>option\<close>, and \<open>None\<close> stands for all of these. A theorem that an operation
  returns \<open>Some\<close> is therefore a memory safety and termination statement as well.
\<close>

unbundle bit_operations_syntax

type_synonym byte = "8 word"
type_synonym int16_t = "16 word"
type_synonym int32_t = "32 word"
type_synonym int64_t = "64 word"

text \<open>A pointer is \<open>None\<close> for NULL and an address otherwise; a heap maps addresses
  to objects.\<close>

type_synonym ptr = "nat option"
type_synonym 'n heap = "nat \<rightharpoonup> 'n"

named_theorems inv_intros \<open>every operation keeps the invariant of its component\<close>
named_theorems absn \<open>an operation seen through the abstraction function of its component\<close>

subsection \<open>Options as computations that may fail\<close>

definition check :: "bool \<Rightarrow> unit option" where
  "check b = (if b then Some () else None)"

lemma check_bind [simp]: "check b \<bind> f = (if b then f () else None)"
  by (simp add: check_def)

lemma check_eq_Some [simp]: "check b = Some u \<longleftrightarrow> b"
  by (simp add: check_def)

text \<open>\<open>succeeds c Q\<close>: the computation returns, and its result satisfies \<open>Q\<close>
  (total correctness). One rule per construct carries the proofs of straight-line code.\<close>

definition succeeds :: "'a option \<Rightarrow> ('a \<Rightarrow> bool) \<Rightarrow> bool" where
  "succeeds c Q \<longleftrightarrow> (\<exists>x. c = Some x \<and> Q x)"

lemma succeeds_simps [simp]:
  "succeeds (Some x) Q \<longleftrightarrow> Q x"
  "succeeds None Q \<longleftrightarrow> False"
  by (simp_all add: succeeds_def)

lemma succeeds_bind: "succeeds c R \<Longrightarrow> (\<And>x. R x \<Longrightarrow> succeeds (f x) Q) \<Longrightarrow> succeeds (c \<bind> f) Q"
  by (auto simp: succeeds_def)

lemma succeeds_mono: "succeeds c R \<Longrightarrow> (\<And>x. R x \<Longrightarrow> Q x) \<Longrightarrow> succeeds c Q"
  by (auto simp: succeeds_def)

lemma succeedsE: "succeeds c Q \<Longrightarrow> (\<And>x. c = Some x \<Longrightarrow> Q x \<Longrightarrow> thesis) \<Longrightarrow> thesis"
  by (auto simp: succeeds_def)

lemma succeeds_ex: "succeeds c Q \<longleftrightarrow> (\<exists>x. c = Some x \<and> Q x)"
  by (simp add: succeeds_def)

definition deref :: "'n heap \<Rightarrow> ptr \<Rightarrow> 'n option" where
  "deref h p = (case p of None \<Rightarrow> None | Some a \<Rightarrow> h a)"

lemma deref_simps [simp]:
  "deref h None = None"
  "deref h (Some a) = h a"
  by (simp_all add: deref_def)

subsection \<open>Lists written in place\<close>

text \<open>\<open>memcpy\<close> into a block: the bytes \<open>src\<close> replace those from offset
  \<open>off\<close> on; \<open>None\<close> when they do not fit.\<close>

definition blit :: "'a list \<Rightarrow> nat \<Rightarrow> 'a list \<Rightarrow> 'a list option" where
  "blit m off src =
     (if off + length src \<le> length m
      then Some (take off m @ src @ drop (off + length src) m) else None)"

lemma length_blit: "blit m off src = Some m' \<Longrightarrow> length m' = length m"
  by (auto simp: blit_def split: if_splits)

lemma take_blit:
  "blit m off src = Some m' \<Longrightarrow> n \<le> off \<Longrightarrow> take n m' = take n m"
  by (auto simp: blit_def min_def split: if_splits)

lemma blit_region:
  "blit m off src = Some m' \<Longrightarrow> take (length src) (drop off m') = src"
  by (auto simp: blit_def split: if_splits)

lemma blit_Some_iff: "(\<exists>m'. blit m off src = Some m') \<longleftrightarrow> off + length src \<le> length m"
  by (auto simp: blit_def)

definition seg :: "nat \<Rightarrow> nat \<Rightarrow> 'a list \<Rightarrow> 'a list" where
  "seg i j xs = take (j - i) (drop i xs)"

lemma length_seg [simp]: "length (seg i j xs) = min (j - i) (length xs - i)"
  by (auto simp: seg_def)

lemma seg_same [simp]: "seg i i xs = []"
  by (simp add: seg_def)

lemma seg_all [simp]: "length xs \<le> j \<Longrightarrow> seg 0 j xs = xs"
  by (simp add: seg_def)

lemma seg_append_seg:
  "i \<le> j \<Longrightarrow> j \<le> k \<Longrightarrow> k \<le> length xs \<Longrightarrow> seg i j xs @ seg j k xs = seg i k xs"
  by (rule nth_equalityI) (auto simp: seg_def nth_append add.commute)

lemma seg_blit_append:
  assumes "blit m j src = Some m'" and "i \<le> j"
  shows "seg i (j + length src) m' = seg i j m @ src"
proof -
  from assms(1) have len: "j + length src \<le> length m"
    and m': "m' = take j m @ src @ drop (j + length src) m"
    by (auto simp: blit_def split: if_splits)
  have "seg i (j + length src) m' = take (j + length src - i) (drop i (take j m) @ src @ drop (j + length src) m)"
    using assms(2) len by (simp add: seg_def m')
  also have "\<dots> = drop i (take j m) @ src"
  proof -
    have "length (drop i (take j m)) = j - i"
      using assms(2) len by simp
    moreover have "j + length src - i = (j - i) + length src"
      using assms(2) by simp
    ultimately show ?thesis by simp
  qed
  also have "drop i (take j m) = seg i j m"
    by (simp add: seg_def drop_take)
  finally show ?thesis .
qed

lemma take_seg: "take n (seg i j xs) = seg i (min j (i + n)) xs"
  by (simp add: seg_def min_def) (metis add.commute diff_le_mono le_diff_conv min.absorb1 min.commute nat_le_linear take_take)

lemma drop_seg: "drop n (seg i j xs) = seg (i + n) j xs"
  by (simp add: seg_def drop_take add.commute)

lemma nth_seg: "k < j - i \<Longrightarrow> i + k < length xs \<Longrightarrow> seg i j xs ! k = xs ! (i + k)"
  by (simp add: seg_def)

lemma seg_update_beyond [simp]: "j \<le> k \<Longrightarrow> seg i j (xs[k := v]) = seg i j xs"
  by (rule nth_equalityI) (auto simp: seg_def)

lemma seg_extend:
  "i \<le> j \<Longrightarrow> j + k \<le> length m \<Longrightarrow> seg i (j + k) m = seg i j m @ map (\<lambda>n. m ! (j + n)) [0..<k]"
  by (rule nth_equalityI) (auto simp: seg_def nth_append add.commute)

lemma upt_numeral_Cons: "m < numeral k \<Longrightarrow> [m..<numeral k] = m # [Suc m..<numeral k]"
  by (simp add: upt_conv_Cons)

subsection \<open>Bytes of a machine integer\<close>

lemma ucast_signed_drop_bit:
  fixes n :: "'a::len word"
  shows "k + 8 \<le> LENGTH('a) \<Longrightarrow> ucast (signed_drop_bit k n) = (ucast (drop_bit k n) :: byte)"
  by (rule bit_word_eqI) (auto simp: bit_ucast_iff bit_signed_drop_bit_iff bit_drop_bit_eq)

lemma push_drop_ucast:
  fixes n :: "'a::len word"
  shows "8 \<le> LENGTH('a) \<Longrightarrow> push_bit 8 (drop_bit 8 n) OR ucast (ucast n :: byte) = n"
  by (rule bit_word_eqI) (auto simp: bit_simps)

lemma ucast_ucast_drop:
  fixes n :: "'a::len word"
  shows "LENGTH('a) \<le> k + 8 \<Longrightarrow> ucast (ucast (drop_bit k n) :: byte) = drop_bit k n"
  by (rule bit_word_eqI) (auto simp: bit_simps dest: bit_imp_le_length)

end
