(* ===== verification/Float32.thy ===== *)
theory Float32
  imports AE_Prelude
begin

text \<open>
  The single-precision arithmetic that \<open>DataBuffer::expand\<close>
  (\<open>network/anet/databuffer.h\<close>) uses to compute the size of a new block: a
  \<open>float\<close> is converted from an \<open>int\<close>, reduced by one, compared with one, and
  multiplied by \<open>1.5\<close>. All values that occur are at least 1, so a \<open>float\<close> is
  represented by the natural number \<open>n\<close> that stands for \<open>n / 2 ^ 24\<close>, and the
  result of an operation is rounded to 24 significant bits, ties to even. The theory
  shows what is needed of the rounding: it is the identity on values that fit in 24
  significant bits, it is monotone enough for the growth loop, and a difference of a
  float and a small integer is exact.
\<close>

fun bitlen :: "nat \<Rightarrow> nat" where
  "bitlen n = (if n = 0 then 0 else Suc (bitlen (n div 2)))"

declare bitlen.simps [simp del]

lemma bitlen_0 [simp]: "bitlen 0 = 0"
  by (simp add: bitlen.simps)

lemma bitlen_pos: "0 < n \<Longrightarrow> bitlen n = Suc (bitlen (n div 2))"
  by (simp add: bitlen.simps)

lemma less_bitlen: "n < 2 ^ bitlen n"
proof (induction n rule: bitlen.induct)
  case (1 n)
  then show ?case by (cases "n = 0") (auto simp: bitlen_pos)
qed

lemma bitlen_ge: "0 < n \<Longrightarrow> 2 ^ (bitlen n - 1) \<le> n"
proof (induction n rule: bitlen.induct)
  case (1 n)
  show ?case
  proof (cases "n div 2 = 0")
    case True
    with 1 have "n = 1" by auto
    then show ?thesis by (simp add: bitlen_pos)
  next
    case False
    with 1 have "2 ^ (bitlen (n div 2) - 1) \<le> n div 2" by auto
    moreover have "bitlen (n div 2) \<noteq> 0"
      using False by (simp add: bitlen_pos)
    ultimately have "2 ^ bitlen (n div 2) \<le> n div 2 * 2"
      by (metis Suc_diff_1 mult.commute mult_le_mono1 neq0_conv power_Suc)
    then show ?thesis using "1.prems" by (simp add: bitlen_pos)
  qed
qed

lemma bitlen_mono: "m \<le> n \<Longrightarrow> bitlen m \<le> bitlen n"
proof (rule ccontr)
  assume le: "m \<le> n" and "\<not> bitlen m \<le> bitlen n"
  then have lt: "bitlen n \<le> bitlen m - 1" and "0 < m"
    by (auto intro: gr0I)
  then have "2 ^ bitlen n \<le> (2::nat) ^ (bitlen m - 1)" by simp
  also have "\<dots> \<le> m" using \<open>0 < m\<close> by (rule bitlen_ge)
  finally show False using less_bitlen [of n] le by simp
qed

lemma bitlen_le_iff: "bitlen n \<le> k \<longleftrightarrow> n < 2 ^ k"
proof
  assume "bitlen n \<le> k"
  then have "(2::nat) ^ bitlen n \<le> 2 ^ k" by simp
  with less_bitlen [of n] show "n < 2 ^ k" by linarith
next
  assume lt: "n < 2 ^ k"
  show "bitlen n \<le> k"
  proof (cases "n = 0")
    case False
    then have "(2::nat) ^ (bitlen n - 1) < 2 ^ k"
      using bitlen_ge [of n] lt by (meson le_less_trans neq0_conv)
    then show ?thesis by simp
  qed simp
qed

subsection \<open>Rounding to 24 significant bits\<close>

definition rnd24 :: "nat \<Rightarrow> nat" where
  "rnd24 n =
     (let s = bitlen n - 24; q = n div 2 ^ s; r = n mod 2 ^ s in
      (if 2 * r > 2 ^ s \<or> (2 * r = 2 ^ s \<and> odd q) then q + 1 else q) * 2 ^ s)"

definition is_f32 :: "nat \<Rightarrow> bool" where
  "is_f32 n \<longleftrightarrow> 2 ^ (bitlen n - 24) dvd n"

lemma rnd24_exact: "is_f32 n \<Longrightarrow> rnd24 n = n"
  by (auto simp: rnd24_def is_f32_def Let_def)

lemma rnd24_ge_floor: "n div 2 ^ (bitlen n - 24) * 2 ^ (bitlen n - 24) \<le> rnd24 n"
  by (auto simp: rnd24_def Let_def)

lemma rnd24_le_ceil: "rnd24 n \<le> n + 2 ^ (bitlen n - 24)"
proof -
  let ?s = "bitlen n - 24"
  have "rnd24 n \<le> (n div 2 ^ ?s + 1) * 2 ^ ?s"
    unfolding rnd24_def Let_def by (rule mult_le_mono1) auto
  also have "\<dots> = n div 2 ^ ?s * 2 ^ ?s + 2 ^ ?s" by simp
  also have "\<dots> \<le> n + 2 ^ ?s" by simp
  finally show ?thesis .
qed

lemma top_split: "2 ^ 24 \<le> n \<Longrightarrow> (2::nat) ^ (bitlen n - 1) = 2 ^ (bitlen n - 24) * 2 ^ 23"
proof -
  assume "2 ^ 24 \<le> n"
  then have "\<not> bitlen n \<le> 24" by (simp add: bitlen_le_iff)
  then have "bitlen n - 1 = (bitlen n - 24) + 23" by simp
  then show ?thesis by (simp only: power_add)
qed

lemma ulp_le: "2 ^ 24 \<le> n \<Longrightarrow> 2 ^ (bitlen n - 24) * 2 ^ 23 \<le> n"
  using bitlen_ge [of n] top_split [of n] by (cases "n = 0") simp_all

lemma rnd24_ge_top: "2 ^ 24 \<le> n \<Longrightarrow> 2 ^ (bitlen n - 1) \<le> rnd24 n"
proof -
  assume big: "2 ^ 24 \<le> n"
  let ?u = "2 ^ (bitlen n - 24) :: nat"
  have "2 ^ 23 \<le> n div ?u"
    using ulp_le [OF big] by (simp add: less_eq_div_iff_mult_less_eq mult.commute)
  then have "2 ^ 23 * ?u \<le> n div ?u * ?u" by (rule mult_le_mono1)
  also have "\<dots> \<le> rnd24 n" by (rule rnd24_ge_floor)
  finally show ?thesis by (simp only: top_split [OF big] mult.commute)
qed

lemma rnd24_ge_pow: "24 \<le> k \<Longrightarrow> 2 ^ k \<le> n \<Longrightarrow> 2 ^ k \<le> rnd24 n"
proof -
  assume k: "24 \<le> k" and n: "2 ^ k \<le> n"
  have "(2::nat) ^ 24 \<le> 2 ^ k" using k by (rule power_increasing) simp
  with n have "2 ^ 24 \<le> n" by linarith
  then have "2 ^ (bitlen n - 1) \<le> rnd24 n" by (rule rnd24_ge_top)
  moreover have "\<not> bitlen n \<le> k" using n by (simp add: bitlen_le_iff)
  then have "(2::nat) ^ k \<le> 2 ^ (bitlen n - 1)" by (intro power_increasing) simp_all
  ultimately show ?thesis by linarith
qed

lemma rnd24_lower: "2 ^ 24 \<le> n \<Longrightarrow> 8 * n \<le> 9 * rnd24 n"
proof -
  assume big: "2 ^ 24 \<le> n"
  let ?s = "bitlen n - 24"
  have "n = n div 2 ^ ?s * 2 ^ ?s + n mod 2 ^ ?s"
    by (simp only: div_mult_mod_eq)
  moreover have "n mod 2 ^ ?s < 2 ^ ?s" by simp
  ultimately have "n < rnd24 n + 2 ^ ?s"
    using rnd24_ge_floor [of n] by linarith
  moreover have "2 ^ ?s * 2 ^ 23 \<le> n" using big by (rule ulp_le)
  ultimately show ?thesis by simp
qed

lemma rnd24_upper: "2 ^ 24 \<le> n \<Longrightarrow> 8 * rnd24 n \<le> 9 * n"
  using rnd24_le_ceil [of n] ulp_le [of n] by simp

lemma is_f32_small: "n < 2 ^ 24 \<Longrightarrow> is_f32 n"
  using bitlen_le_iff [of n 24] by (simp add: is_f32_def)

text \<open>The result of a rounding is a float, also where it carries into a new bit.\<close>

lemma is_f32_rnd24: "is_f32 (rnd24 n)"
proof -
  let ?s = "bitlen n - 24"
  obtain q where q: "rnd24 n = q * 2 ^ ?s" and qle: "q \<le> n div 2 ^ ?s + 1"
    unfolding rnd24_def Let_def by force
  have "bitlen n \<le> 24 + ?s" by simp
  then have "n < 2 ^ (24 + ?s)" by (simp only: bitlen_le_iff)
  then have "n div 2 ^ ?s < 2 ^ 24" by (simp add: power_add less_mult_imp_div_less)
  with qle have "q \<le> 2 ^ 24" by simp
  show ?thesis
  proof (cases "q = 2 ^ 24")
    case True
    then have eq: "rnd24 n = 2 ^ (24 + ?s)" using q by (simp add: power_add)
    have "bitlen (rnd24 n) \<le> 25 + ?s" by (simp add: bitlen_le_iff eq)
    then have "2 ^ (bitlen (rnd24 n) - 24) dvd (2::nat) ^ (24 + ?s)"
      by (intro le_imp_power_dvd) simp
    then show ?thesis by (simp only: is_f32_def eq)
  next
    case False
    with \<open>q \<le> 2 ^ 24\<close> have "rnd24 n < 2 ^ (24 + ?s)"
      using q by (simp add: power_add)
    then have "bitlen (rnd24 n) - 24 \<le> ?s"
      using bitlen_le_iff [of "rnd24 n" "24 + ?s"] by simp
    then have "(2::nat) ^ (bitlen (rnd24 n) - 24) dvd 2 ^ ?s"
      by (rule le_imp_power_dvd)
    then show ?thesis by (simp add: is_f32_def q)
  qed
qed

subsection \<open>The operations of the growth loop\<close>

text \<open>\<open>(float)i\<close> for a non-negative \<open>int\<close>, the difference of a float and a
  smaller one, \<open>f *= 1.5\<close> and \<open>(int)f\<close>.\<close>

definition f32_of :: "nat \<Rightarrow> nat" where
  "f32_of i = rnd24 (i * 2 ^ 24)"

definition f32_minus :: "nat \<Rightarrow> nat \<Rightarrow> nat" where
  "f32_minus a b = rnd24 (a - b)"

definition f32_times_1_5 :: "nat \<Rightarrow> nat" where
  "f32_times_1_5 a = rnd24 (3 * a div 2)"

definition f32_to_int :: "nat \<Rightarrow> nat" where
  "f32_to_int a = a div 2 ^ 24"

lemma is_f32_of_small: "i \<le> 2 ^ 24 \<Longrightarrow> is_f32 (i * 2 ^ 24)"
proof (cases "i = 2 ^ 24")
  case True
  have "bitlen ((2::nat) ^ 48) \<le> 49" by (simp add: bitlen_le_iff)
  then have "2 ^ (bitlen ((2::nat) ^ 48) - 24) dvd (2::nat) ^ 48"
    by (intro le_imp_power_dvd) simp
  moreover have "i * 2 ^ 24 = 2 ^ 48" using True by simp
  ultimately show ?thesis by (simp only: is_f32_def)
next
  case False
  moreover assume "i \<le> 2 ^ 24"
  ultimately have "i * 2 ^ 24 < 2 ^ 48" by simp
  then have "bitlen (i * 2 ^ 24) - 24 \<le> 24" using bitlen_le_iff [of "i * 2 ^ 24" 48] by simp
  then have "2 ^ (bitlen (i * 2 ^ 24) - 24) dvd (2::nat) ^ 24" by (rule le_imp_power_dvd)
  then show ?thesis by (simp add: is_f32_def)
qed

lemma f32_of_small: "i \<le> 2 ^ 24 \<Longrightarrow> f32_of i = i * 2 ^ 24"
  unfolding f32_of_def by (intro rnd24_exact is_f32_of_small)

text \<open>
  A float minus an integer that is exact in 24 bits is exact itself as long as the
  difference stays below \<open>2 ^ 24\<close>: its unit in the last place divides both.
\<close>

lemma f32_minus_exact:
  assumes "is_f32 b" and "d * 2 ^ 24 \<le> b" and "b - d * 2 ^ 24 < 2 ^ 48"
  shows "f32_minus b (d * 2 ^ 24) = b - d * 2 ^ 24"
proof -
  let ?x = "b - d * 2 ^ 24"
  have "bitlen ?x - 24 \<le> bitlen b - 24" using bitlen_mono [of ?x b] by simp
  then have "(2::nat) ^ (bitlen ?x - 24) dvd 2 ^ (bitlen b - 24)" by (rule le_imp_power_dvd)
  also have "\<dots> dvd b" using assms(1) by (simp add: is_f32_def)
  finally have "2 ^ (bitlen ?x - 24) dvd b" .
  moreover have "bitlen ?x - 24 \<le> 24" using assms(3) bitlen_le_iff [of ?x 48] by simp
  then have "2 ^ (bitlen ?x - 24) dvd d * (2::nat) ^ 24"
    by (intro dvd_mult le_imp_power_dvd)
  ultimately have "2 ^ (bitlen ?x - 24) dvd ?x" by (rule dvd_diff_nat)
  then show ?thesis by (simp add: f32_minus_def rnd24_exact is_f32_def)
qed

lemma f32_times_grows: "2 ^ 24 \<le> a \<Longrightarrow> 5 * a \<le> 4 * f32_times_1_5 a"
proof -
  assume a: "2 ^ 24 \<le> a"
  then have "2 ^ 24 \<le> 3 * a div 2" by arith
  then have "8 * (3 * a div 2) \<le> 9 * f32_times_1_5 a"
    unfolding f32_times_1_5_def by (rule rnd24_lower)
  with a show ?thesis by simp
qed

lemma f32_times_bounded: "2 ^ 24 \<le> a \<Longrightarrow> 8 * f32_times_1_5 a \<le> 14 * a"
proof -
  assume a: "2 ^ 24 \<le> a"
  then have "2 ^ 24 \<le> 3 * a div 2" by arith
  then have "8 * f32_times_1_5 a \<le> 9 * (3 * a div 2)"
    unfolding f32_times_1_5_def by (rule rnd24_upper)
  then show ?thesis by simp
qed

end
