(* ===== verification/DataBuffer.thy ===== *)
theory DataBuffer
  imports Float32
begin

text \<open>
  \<open>anet::DataBuffer\<close> (\<open>network/anet/databuffer.h\<close>): the growing byte buffer
  between the sockets and the packet streamers. The block that \<open>_pstart\<close> points to
  is a byte list (\<open>None\<close> while the pointer is NULL), \<open>_pdata\<close> and \<open>_pfree\<close>
  are offsets into it and \<open>_pend\<close> is its length. Reads and writes outside the block
  give \<open>None\<close>. \<open>malloc\<close> is taken to succeed; the bytes of a fresh block, which
  are indeterminate in C, are zero here and no theorem reads them. The lemmas show that
  the buffer is a byte queue (\<open>contents\<close>), that writing appends and reading
  consumes, that integers and strings survive the trip through the buffer, and for
  which sizes \<open>expand\<close> provides the room that was asked for.
\<close>

record databuffer =
  pstart :: "byte list option"
  pdata :: nat
  pfree :: nat

definition pend :: "databuffer \<Rightarrow> nat" where
  "pend db = (case pstart db of None \<Rightarrow> 0 | Some m \<Rightarrow> length m)"

definition malloc :: "nat \<Rightarrow> byte list" where
  "malloc n = replicate n 0"

definition INITIAL_BUFFER_SIZE :: nat where
  "INITIAL_BUFFER_SIZE = 1024"

definition db_new :: databuffer where
  "db_new = \<lparr>pstart = None, pdata = 0, pfree = 0\<rparr>"

subsection \<open>Sizes and moving the ends\<close>

definition db_getSpaceUsed :: "databuffer \<Rightarrow> int" where
  "db_getSpaceUsed db = (case pstart db of None \<Rightarrow> 0 | Some m \<Rightarrow> int (pend db))"

definition db_getDataLen :: "databuffer \<Rightarrow> int" where
  "db_getDataLen db = int (pfree db) - int (pdata db)"

definition db_getFreeLen :: "databuffer \<Rightarrow> int" where
  "db_getFreeLen db = int (pend db) - int (pfree db)"

definition db_clear :: "databuffer \<Rightarrow> databuffer" where
  "db_clear db = db\<lparr>pdata := 0, pfree := 0\<rparr>"

definition db_drainData :: "nat \<Rightarrow> databuffer \<Rightarrow> databuffer" where
  "db_drainData len db =
     (let db1 = db\<lparr>pdata := pdata db + len\<rparr>;
          db2 = (if pdata db1 > pfree db1 then db1\<lparr>pdata := pfree db1\<rparr> else db1)
      in if pdata db2 = pfree db2 then db_clear db2 else db2)"

definition db_pourData :: "nat \<Rightarrow> databuffer \<Rightarrow> databuffer option" where
  "db_pourData len db = do {
     check (pend db \<ge> pfree db + len);
     Some (db\<lparr>pfree := pfree db + len\<rparr>) }"

definition db_stripData :: "nat \<Rightarrow> databuffer \<Rightarrow> databuffer option" where
  "db_stripData len db = do {
     check (pfree db \<ge> pdata db + len);
     Some (db\<lparr>pfree := pfree db - len\<rparr>) }"

definition db_shrink :: "databuffer \<Rightarrow> databuffer option" where
  "db_shrink db =
     (case pstart db of
        None \<Rightarrow> Some db
      | Some m \<Rightarrow>
          do {
            check (pdata db \<le> pfree db);
            let dlen = pfree db - pdata db;
            if dlen > 0 then do {
              newbuf \<leftarrow> blit (malloc dlen) 0 (seg (pdata db) (pfree db) m);
              Some (db\<lparr>pstart := Some newbuf, pdata := 0, pfree := dlen\<rparr>) }
            else Some (db\<lparr>pstart := None, pdata := 0, pfree := 0\<rparr>) })"

subsection \<open>Making room\<close>

text \<open>The loop \<open>while (len < need) len <<= 1\<close> on an \<open>int\<close>; a shift past
  \<open>2 ^ 31\<close> is a signed overflow.\<close>

partial_function (option) db_initial_len :: "nat \<Rightarrow> nat \<Rightarrow> nat option" where
  "db_initial_len len need =
     (if len < need
      then (if 2 * len < 2 ^ 31 then db_initial_len (2 * len) need else None)
      else Some len)"

text \<open>The loop \<open>while (bufsize - dlen < need) bufsize *= 1.5\<close> on a \<open>float\<close>.\<close>

partial_function (option) db_grow :: "nat \<Rightarrow> nat \<Rightarrow> nat \<Rightarrow> nat option" where
  "db_grow bufsize dlen need =
     (if f32_minus bufsize (f32_of dlen) < f32_of need
      then db_grow (f32_times_1_5 bufsize) dlen need
      else Some bufsize)"

definition db_expand :: "nat \<Rightarrow> databuffer \<Rightarrow> databuffer option" where
  "db_expand need db =
     (case pstart db of
        None \<Rightarrow> do {
          len \<leftarrow> db_initial_len INITIAL_BUFFER_SIZE need;
          Some (db\<lparr>pstart := Some (malloc len), pdata := 0, pfree := 0\<rparr>) }
      | Some m \<Rightarrow>
          if pend db < pfree db + need then
            (let flen = (pend db - pfree db) + pdata db;
                 dlen = pfree db - pdata db
             in do {
               check (flen < need \<or> flen * 4 < 2 ^ 31);
               if flen < need \<or> flen * 4 < dlen then do {
                 bufsize \<leftarrow> db_grow (f32_of (pend db * 2)) dlen need;
                 check (f32_to_int bufsize < 2 ^ 31);
                 newbuf \<leftarrow> blit (malloc (f32_to_int bufsize)) 0 (seg (pdata db) (pfree db) m);
                 Some (db\<lparr>pstart := Some newbuf, pdata := 0, pfree := dlen\<rparr>) }
               else do {
                 m' \<leftarrow> blit m 0 (seg (pdata db) (pfree db) m);
                 Some (db\<lparr>pstart := Some m', pfree := dlen, pdata := 0\<rparr>) } })
          else Some db)"

definition db_ensureFree :: "nat \<Rightarrow> databuffer \<Rightarrow> databuffer option" where
  "db_ensureFree len db = db_expand len db"

subsection \<open>Writing\<close>

text \<open>\<open>_pfree[i] = v\<close>.\<close>

definition db_put :: "nat \<Rightarrow> byte \<Rightarrow> databuffer \<Rightarrow> databuffer option" where
  "db_put i v db = do {
     m \<leftarrow> pstart db;
     check (pfree db + i < length m);
     Some (db\<lparr>pstart := Some (m[pfree db + i := v])\<rparr>) }"

definition db_advance :: "nat \<Rightarrow> databuffer \<Rightarrow> databuffer option" where
  "db_advance k db = Some (db\<lparr>pfree := pfree db + k\<rparr>)"

definition db_writeInt8 :: "byte \<Rightarrow> databuffer \<Rightarrow> databuffer option" where
  "db_writeInt8 n db = do {
     db \<leftarrow> db_expand 1 db;
     db \<leftarrow> db_put 0 n db;
     db_advance 1 db }"

definition db_writeInt16 :: "int16_t \<Rightarrow> databuffer \<Rightarrow> databuffer option" where
  "db_writeInt16 n db = do {
     db \<leftarrow> db_expand 2 db;
     db \<leftarrow> db_put 1 (ucast n) db;
     let n = signed_drop_bit 8 n;
     db \<leftarrow> db_put 0 (ucast n) db;
     db_advance 2 db }"

definition db_writeInt32 :: "int32_t \<Rightarrow> databuffer \<Rightarrow> databuffer option" where
  "db_writeInt32 n db = do {
     db \<leftarrow> db_expand 4 db;
     db \<leftarrow> db_put 3 (ucast n) db;
     let n = signed_drop_bit 8 n;
     db \<leftarrow> db_put 2 (ucast n) db;
     let n = signed_drop_bit 8 n;
     db \<leftarrow> db_put 1 (ucast n) db;
     let n = signed_drop_bit 8 n;
     db \<leftarrow> db_put 0 (ucast n) db;
     db_advance 4 db }"

definition db_writeInt64 :: "int64_t \<Rightarrow> databuffer \<Rightarrow> databuffer option" where
  "db_writeInt64 n db = do {
     db \<leftarrow> db_expand 8 db;
     db \<leftarrow> db_put 7 (ucast n) db;
     let n = signed_drop_bit 8 n;
     db \<leftarrow> db_put 6 (ucast n) db;
     let n = signed_drop_bit 8 n;
     db \<leftarrow> db_put 5 (ucast n) db;
     let n = signed_drop_bit 8 n;
     db \<leftarrow> db_put 4 (ucast n) db;
     let n = signed_drop_bit 8 n;
     db \<leftarrow> db_put 3 (ucast n) db;
     let n = signed_drop_bit 8 n;
     db \<leftarrow> db_put 2 (ucast n) db;
     let n = signed_drop_bit 8 n;
     db \<leftarrow> db_put 1 (ucast n) db;
     let n = signed_drop_bit 8 n;
     db \<leftarrow> db_put 0 (ucast n) db;
     db_advance 8 db }"

definition db_writeBytes :: "byte list \<Rightarrow> databuffer \<Rightarrow> databuffer option" where
  "db_writeBytes src db = do {
     db \<leftarrow> db_expand (length src) db;
     m \<leftarrow> pstart db;
     m' \<leftarrow> blit m (pfree db) src;
     Some (db\<lparr>pstart := Some m', pfree := pfree db + length src\<rparr>) }"

text \<open>\<open>fillInt32\<close> on a destination \<open>getData() + off\<close> inside the buffer.\<close>

definition db_poke :: "nat \<Rightarrow> byte \<Rightarrow> databuffer \<Rightarrow> databuffer option" where
  "db_poke off v db = do {
     m \<leftarrow> pstart db;
     check (pdata db + off < length m);
     Some (db\<lparr>pstart := Some (m[pdata db + off := v])\<rparr>) }"

definition db_fillInt32 :: "nat \<Rightarrow> 32 word \<Rightarrow> databuffer \<Rightarrow> databuffer option" where
  "db_fillInt32 off n db = do {
     db \<leftarrow> db_poke (off + 3) (ucast n) db;
     let n = drop_bit 8 n;
     db \<leftarrow> db_poke (off + 2) (ucast n) db;
     let n = drop_bit 8 n;
     db \<leftarrow> db_poke (off + 1) (ucast n) db;
     let n = drop_bit 8 n;
     db_poke off (ucast n) db }"

text \<open>The bytes a socket read leaves at \<open>getFree()\<close>, before \<open>pourData\<close>
  makes them part of the data.\<close>

definition db_fillFree :: "byte list \<Rightarrow> databuffer \<Rightarrow> databuffer option" where
  "db_fillFree bs db = do {
     m \<leftarrow> pstart db;
     m' \<leftarrow> blit m (pfree db) bs;
     Some (db\<lparr>pstart := Some m'\<rparr>) }"

subsection \<open>Reading\<close>

text \<open>\<open>_pdata[i]\<close>.\<close>

definition db_get :: "nat \<Rightarrow> databuffer \<Rightarrow> byte option" where
  "db_get i db = do {
     m \<leftarrow> pstart db;
     check (pdata db + i < length m);
     Some (m ! (pdata db + i)) }"

definition db_consume :: "nat \<Rightarrow> databuffer \<Rightarrow> databuffer" where
  "db_consume k db = db\<lparr>pdata := pdata db + k\<rparr>"

definition db_readInt8 :: "databuffer \<Rightarrow> (byte \<times> databuffer) option" where
  "db_readInt8 db = do {
     b0 \<leftarrow> db_get 0 db;
     Some (b0, db_consume 1 db) }"

definition shl8_or :: "'a::len word \<Rightarrow> byte \<Rightarrow> 'a word" where
  "shl8_or n b = push_bit 8 n OR ucast b"

definition db_readInt16 :: "databuffer \<Rightarrow> (int16_t \<times> databuffer) option" where
  "db_readInt16 db = do {
     b0 \<leftarrow> db_get 0 db; let n = ucast b0;
     b1 \<leftarrow> db_get 1 db; let n = shl8_or n b1;
     Some (n, db_consume 2 db) }"

definition db_readInt32 :: "databuffer \<Rightarrow> (int32_t \<times> databuffer) option" where
  "db_readInt32 db = do {
     b0 \<leftarrow> db_get 0 db; let n = ucast b0;
     b1 \<leftarrow> db_get 1 db; let n = shl8_or n b1;
     b2 \<leftarrow> db_get 2 db; let n = shl8_or n b2;
     b3 \<leftarrow> db_get 3 db; let n = shl8_or n b3;
     Some (n, db_consume 4 db) }"

definition db_readInt64 :: "databuffer \<Rightarrow> (int64_t \<times> databuffer) option" where
  "db_readInt64 db = do {
     b0 \<leftarrow> db_get 0 db; let n = ucast b0;
     b1 \<leftarrow> db_get 1 db; let n = shl8_or n b1;
     b2 \<leftarrow> db_get 2 db; let n = shl8_or n b2;
     b3 \<leftarrow> db_get 3 db; let n = shl8_or n b3;
     b4 \<leftarrow> db_get 4 db; let n = shl8_or n b4;
     b5 \<leftarrow> db_get 5 db; let n = shl8_or n b5;
     b6 \<leftarrow> db_get 6 db; let n = shl8_or n b6;
     b7 \<leftarrow> db_get 7 db; let n = shl8_or n b7;
     Some (n, db_consume 8 db) }"

text \<open>\<open>memcpy(dst, _pdata, len)\<close> and the advance of \<open>_pdata\<close>.\<close>

definition db_peekBytes :: "nat \<Rightarrow> databuffer \<Rightarrow> byte list option" where
  "db_peekBytes len db = do {
     m \<leftarrow> pstart db;
     check (pdata db + len \<le> length m);
     Some (seg (pdata db) (pdata db + len) m) }"

definition db_readBytes :: "nat \<Rightarrow> databuffer \<Rightarrow> (byte list \<times> databuffer) option" where
  "db_readBytes len db = do {
     dst \<leftarrow> db_peekBytes len db;
     Some (dst, db_consume len db) }"

text \<open>\<open>read(std::string &)\<close> and \<open>write(const std::string &)\<close>: a length in four
  bytes, then the characters. A negative length makes the string constructor throw.\<close>

definition db_readString :: "databuffer \<Rightarrow> (byte list \<times> databuffer) option" where
  "db_readString db = do {
     (size, db) \<leftarrow> db_readInt32 db;
     check (0 \<le> sint size);
     value \<leftarrow> (if size = 0 then Some [] else db_peekBytes (nat (sint size)) db);
     Some (value, db_drainData (nat (sint size)) db) }"

definition db_writeString :: "byte list \<Rightarrow> databuffer \<Rightarrow> databuffer option" where
  "db_writeString value db = do {
     db \<leftarrow> db_writeInt32 (of_nat (length value)) db;
     db_writeBytes value db }"

text \<open>
  \<open>findBytes\<close>: the loop reads \<open>_pdata[i]\<close> as \<open>unsigned char\<close> and compares it
  with \<open>findstr[0]\<close>, a signed \<open>char\<close>, before it calls \<open>memcmp\<close>.
\<close>

function db_findBytes_loop :: "byte list \<Rightarrow> databuffer \<Rightarrow> int \<Rightarrow> int \<Rightarrow> int option" where
  "db_findBytes_loop findstr db dLen i =
     (if i < dLen then do {
        c \<leftarrow> db_get (nat i) db;
        if uint c = sint (hd findstr)
        then do {
          s \<leftarrow> db_peekBytes (length findstr) (db_consume (nat i) db);
          if s = findstr then Some i else db_findBytes_loop findstr db dLen (i + 1) }
        else db_findBytes_loop findstr db dLen (i + 1) }
      else Some (-1))"
  by pat_completeness auto
termination
  by (relation "measure (\<lambda>(findstr, db, dLen, i). nat (dLen - i))") auto

definition db_findBytes :: "byte list \<Rightarrow> databuffer \<Rightarrow> int option" where
  "db_findBytes findstr db =
     (if findstr = [] then None
      else db_findBytes_loop findstr db (db_getDataLen db - int (length findstr) + 1) 0)"

declare db_findBytes_loop.simps [simp del]


subsection \<open>The buffer as a byte queue\<close>

definition contents :: "databuffer \<Rightarrow> byte list" where
  "contents db = (case pstart db of None \<Rightarrow> [] | Some m \<Rightarrow> seg (pdata db) (pfree db) m)"

definition db_inv :: "databuffer \<Rightarrow> bool" where
  "db_inv db \<longleftrightarrow>
     pdata db \<le> pfree db \<and> pfree db \<le> pend db \<and> pend db < 2 ^ 29 \<and>
     (case pstart db of None \<Rightarrow> True | Some m \<Rightarrow> m \<noteq> [])"

lemma db_inv_new [inv_intros]: "db_inv db_new"
  by (simp add: db_inv_def db_new_def pend_def)

lemma contents_new [absn]: "contents db_new = []"
  by (simp add: contents_def db_new_def)

lemma length_contents: "db_inv db \<Longrightarrow> length (contents db) = pfree db - pdata db"
  by (auto simp: contents_def db_inv_def pend_def split: option.splits)

lemma getDataLen_contents [absn]: "db_inv db \<Longrightarrow> db_getDataLen db = int (length (contents db))"
  by (simp add: length_contents db_getDataLen_def db_inv_def of_nat_diff)

lemma contents_None [simp]: "pstart db = None \<Longrightarrow> contents db = []"
  by (simp add: contents_def)

lemma contents_clear [absn]: "contents (db_clear db) = []"
  by (simp add: contents_def db_clear_def split: option.split)

lemma db_inv_clear [inv_intros]: "db_inv db \<Longrightarrow> db_inv (db_clear db)"
  by (auto simp: db_inv_def db_clear_def pend_def split: option.splits)

lemma contents_drain [absn]:
  assumes "db_inv db"
  shows "contents (db_drainData len db) = drop len (contents db)"
proof (cases "pstart db")
  case None
  then show ?thesis
    by (simp add: db_drainData_def Let_def db_clear_def)
next
  case (Some m)
  show ?thesis
  proof (cases "pdata db + len < pfree db")
    case True
    with Some show ?thesis
      by (simp add: db_drainData_def contents_def Let_def drop_seg)
  next
    case False
    then have "db_drainData len db = db_clear (db\<lparr>pdata := pfree db\<rparr>)"
      by (auto simp: db_drainData_def Let_def)
    moreover have "length (contents db) \<le> len"
      using False assms by (simp add: length_contents)
    ultimately show ?thesis by (simp add: contents_clear)
  qed
qed

lemma db_inv_drain [inv_intros]: "db_inv db \<Longrightarrow> db_inv (db_drainData len db)"
  by (auto simp: db_drainData_def Let_def db_inv_def db_clear_def pend_def split: option.splits)

lemma contents_consume:
  "db_inv db \<Longrightarrow> k \<le> length (contents db) \<Longrightarrow>
     contents (db_consume k db) = drop k (contents db) \<and> db_inv (db_consume k db)"
  by (auto simp: db_consume_def length_contents contents_def db_inv_def pend_def drop_seg
      split: option.splits)

lemma strip_ok:
  assumes "db_inv db" and "len \<le> length (contents db)"
  shows "\<exists>db'. db_stripData len db = Some db' \<and> db_inv db' \<and>
           contents db' = take (length (contents db) - len) (contents db)"
proof -
  from assms have le: "pdata db + len \<le> pfree db"
    by (auto simp: length_contents db_inv_def)
  then have "seg (pdata db) (pfree db - len) m = take (pfree db - pdata db - len) (seg (pdata db) (pfree db) m)"
    for m :: "byte list"
    by (simp add: seg_def min_def diff_diff_left add.commute)
  with assms le show ?thesis
    by (auto simp: db_stripData_def length_contents db_inv_def contents_def pend_def
        split: option.splits)
qed

lemma shrink_ok:
  assumes "db_inv db"
  shows "\<exists>db'. db_shrink db = Some db' \<and> db_inv db' \<and> contents db' = contents db \<and>
           pend db' = length (contents db)"
proof (cases "pstart db")
  case None
  with assms show ?thesis by (auto simp: db_shrink_def pend_def db_inv_def)
next
  case (Some m)
  let ?s = "seg (pdata db) (pfree db) m"
  have len: "length ?s = pfree db - pdata db"
    using assms Some length_contents [of db] by (simp add: contents_def)
  have "blit (malloc (pfree db - pdata db)) 0 ?s = Some ?s"
    unfolding blit_def malloc_def by (simp add: len del: length_seg)
  moreover have "?s \<noteq> []" if "0 < pfree db - pdata db"
    using that len by (metis length_greater_0_conv)
  ultimately show ?thesis
    using assms Some len
    by (auto simp: db_shrink_def Let_def db_inv_def contents_def pend_def simp del: length_seg)
qed

subsection \<open>When expand makes enough room\<close>

lemma initial_len_ok:
  assumes "0 < len" and "len \<le> 2 ^ 30" and "need \<le> 2 ^ 30" and "\<exists>k. len * 2 ^ k = 2 ^ 30"
  shows "\<exists>r. db_initial_len len need = Some r \<and> need \<le> r \<and> len \<le> r \<and> r \<le> max len (2 * need)"
  using assms
proof (induction "2 ^ 30 - len" arbitrary: len rule: less_induct)
  case less
  show ?case
  proof (cases "len < need")
    case True
    from less.prems(4) obtain k where k: "len * 2 ^ k = 2 ^ 30" by blast
    with True less.prems(3) have "k \<noteq> 0" by (intro notI) simp
    then obtain k' where "k = Suc k'" by (cases k) auto
    with k have k': "2 * len * 2 ^ k' = 2 ^ 30" by simp
    have le: "2 * len \<le> 2 ^ 30"
      using k' by (metis dvd_imp_le dvd_triv_left zero_less_numeral zero_less_power)
    have "\<exists>r. db_initial_len (2 * len) need = Some r \<and> need \<le> r \<and> 2 * len \<le> r \<and> r \<le> max (2 * len) (2 * need)"
      by (rule less.hyps) (use less.prems True le k' in auto)
    with True le show ?thesis
      by (subst db_initial_len.simps) (auto simp: max_def)
  next
    case False
    then show ?thesis by (subst db_initial_len.simps) simp
  qed
qed

lemma initial_len_1024:
  "need \<le> 2 ^ 30 \<Longrightarrow>
     \<exists>r. db_initial_len INITIAL_BUFFER_SIZE need = Some r \<and> need \<le> r \<and> 1024 \<le> r \<and> r \<le> max 1024 (2 * need)"
  unfolding INITIAL_BUFFER_SIZE_def
  by (rule initial_len_ok) (auto intro!: exI [of _ 20])

text \<open>
  The growth loop stops with a size that fits, as long as the data and the request are
  at most \<open>2 ^ 24\<close> bytes: then no conversion and no comparison of the loop rounds.
\<close>

lemma grow_ok:
  assumes "is_f32 b" and "2 ^ 24 \<le> b" and "dlen * 2 ^ 24 \<le> b"
    and "dlen \<le> 2 ^ 24" and "need \<le> 2 ^ 24"
  shows "\<exists>r. db_grow b dlen need = Some r \<and> is_f32 r \<and> (dlen + need) * 2 ^ 24 \<le> r \<and>
           r \<le> max b (2 ^ 50)"
  using assms
proof (induction "2 ^ 50 - b" arbitrary: b rule: less_induct)
  case less
  let ?x = "b - dlen * 2 ^ 24"
  have conv: "f32_of dlen = dlen * 2 ^ 24" "f32_of need = need * 2 ^ 24"
    using less.prems by (simp_all add: f32_of_small del: power_Suc)
  show ?case
  proof (cases "f32_minus b (f32_of dlen) < f32_of need")
    case False
    have "need * 2 ^ 24 \<le> ?x"
    proof (cases "?x < 2 ^ 48")
      case True
      with less.prems have "f32_minus b (dlen * 2 ^ 24) = ?x" by (intro f32_minus_exact)
      with False conv show ?thesis by simp
    next
      case big: False
      have "need * 2 ^ 24 \<le> 2 ^ 24 * 2 ^ 24" using less.prems by (intro mult_le_mono1)
      with big show ?thesis by simp
    qed
    then have "(dlen + need) * 2 ^ 24 \<le> b" using less.prems(3) by (simp add: algebra_simps)
    with False less.prems(1) show ?thesis by (subst db_grow.simps) simp
  next
    case True
    have "?x < 2 ^ 48"
    proof (rule ccontr)
      assume big: "\<not> ?x < 2 ^ 48"
      then have "2 ^ 48 \<le> rnd24 ?x" by (intro rnd24_ge_pow) simp_all
      moreover have "need * 2 ^ 24 \<le> 2 ^ 24 * 2 ^ 24" using less.prems by (intro mult_le_mono1)
      ultimately show False using True conv by (simp add: f32_minus_def)
    qed
    moreover have "dlen * 2 ^ 24 \<le> 2 ^ 24 * 2 ^ 24" using less.prems by (intro mult_le_mono1)
    ultimately have small: "b < 2 ^ 49" by simp
    let ?b = "f32_times_1_5 b"
    have up: "5 * b \<le> 4 * ?b" using less.prems(2) by (rule f32_times_grows)
    have bd: "8 * ?b \<le> 14 * b" using less.prems(2) by (rule f32_times_bounded)
    have "\<exists>r. db_grow ?b dlen need = Some r \<and> is_f32 r \<and> (dlen + need) * 2 ^ 24 \<le> r \<and> r \<le> max ?b (2 ^ 50)"
    proof (rule less.hyps)
      show "2 ^ 50 - ?b < 2 ^ 50 - b" using up small less.prems(2) by simp
      show "is_f32 ?b" by (simp add: f32_times_1_5_def is_f32_rnd24)
      show "2 ^ 24 \<le> ?b" "dlen * 2 ^ 24 \<le> ?b" using up less.prems(2,3) by simp_all
    qed (use less.prems in auto)
    moreover have "?b \<le> 2 ^ 50" using bd small by simp
    ultimately show ?thesis using True small by (subst db_grow.simps) (auto simp: max_def)
  qed
qed


text \<open>
  The requests of the buffer's clients: data and request of at most 16 MiB each.
\<close>

definition db_fits :: "nat \<Rightarrow> databuffer \<Rightarrow> bool" where
  "db_fits need db \<longleftrightarrow> db_inv db \<and> length (contents db) \<le> 2 ^ 24 \<and> need \<le> 2 ^ 24"

lemma f32_of_ge: "1 \<le> i \<Longrightarrow> 2 ^ 24 \<le> f32_of i"
proof (cases "i \<le> 2 ^ 24")
  case False
  then have "2 ^ 24 * 2 ^ 24 \<le> i * 2 ^ 24" by (intro mult_le_mono1) simp
  then have "8 * 2 ^ 48 \<le> 9 * f32_of i"
    using rnd24_lower [of "i * 2 ^ 24"] by (simp add: f32_of_def)
  then show ?thesis by simp
qed (simp add: f32_of_small del: power_Suc)

lemma f32_of_le: "i \<le> 2 ^ 26 \<Longrightarrow> f32_of i \<le> 2 ^ 51"
proof (cases "i = 0")
  case True
  then show ?thesis by (simp add: f32_of_def rnd24_def)
next
  case False
  assume "i \<le> 2 ^ 26"
  moreover have "8 * f32_of i \<le> 9 * (i * 2 ^ 24)"
    unfolding f32_of_def by (rule rnd24_upper) (use False in simp)
  ultimately show ?thesis by simp
qed

lemma expand_realloc:
  assumes "db_fits need db" and "pstart db = Some m" and "pend db < pfree db + need"
    and "flen = (pend db - pfree db) + pdata db" and "flen < need \<or> flen * 4 < pfree db - pdata db"
  shows "\<exists>r. db_grow (f32_of (pend db * 2)) (pfree db - pdata db) need = Some r \<and>
           pfree db - pdata db + need \<le> f32_to_int r \<and> f32_to_int r \<le> 2 ^ 27"
proof -
  let ?d = "pfree db - pdata db"
  from assms(1) have d: "?d \<le> 2 ^ 24" and n: "need \<le> 2 ^ 24" and inv: "db_inv db"
    by (auto simp: db_fits_def length_contents)
  from inv assms(2) have le: "pdata db \<le> pfree db" "pfree db \<le> pend db" "1 \<le> pend db"
    by (auto simp: db_inv_def pend_def Suc_le_eq)
  from assms(4,5) d n le have small: "pend db \<le> 2 ^ 25" by auto
  let ?b = "f32_of (pend db * 2)"
  have b0: "is_f32 ?b" by (simp add: f32_of_def is_f32_rnd24)
  have b1: "2 ^ 24 \<le> ?b" using le by (intro f32_of_ge) simp
  have "8 * (pend db * 2 * 2 ^ 24) \<le> 9 * ?b"
    unfolding f32_of_def by (rule rnd24_lower) (use le in simp)
  then have b2: "?d * 2 ^ 24 \<le> ?b" using le by simp
  have b3: "?b \<le> 2 ^ 51" using small by (intro f32_of_le) simp
  from grow_ok [OF b0 b1 b2 d n] obtain r where
    r: "db_grow ?b ?d need = Some r" "(?d + need) * 2 ^ 24 \<le> r" "r \<le> max ?b (2 ^ 50)" by blast
  from r(3) b3 have "r \<le> 2 ^ 51" by simp
  then have "f32_to_int r \<le> 2 ^ 27" by (simp add: f32_to_int_def)
  moreover have "?d + need \<le> f32_to_int r"
    using r(2) by (simp add: f32_to_int_def less_eq_div_iff_mult_less_eq)
  ultimately show ?thesis using r(1) by blast
qed

lemma expand_ok:
  assumes "db_fits need db"
  shows "\<exists>db'. db_expand need db = Some db' \<and> db_inv db' \<and> contents db' = contents db \<and>
           pfree db' + need \<le> pend db' \<and> pstart db' \<noteq> None"
proof (cases "pstart db")
  case None
  from assms have "need \<le> 2 ^ 24" by (simp add: db_fits_def)
  then obtain r where "db_initial_len INITIAL_BUFFER_SIZE need = Some r"
    "need \<le> r" "1024 \<le> r" "r \<le> max 1024 (2 * need)"
    using initial_len_1024 [of need] by auto
  with None \<open>need \<le> 2 ^ 24\<close> show ?thesis
    by (auto simp: db_expand_def db_inv_def contents_def pend_def malloc_def)
next
  case (Some m)
  let ?d = "pfree db - pdata db" and ?f = "(pend db - pfree db) + pdata db"
  let ?s = "seg (pdata db) (pfree db) m"
  from assms have inv: "db_inv db" and n: "need \<le> 2 ^ 24" and d: "?d \<le> 2 ^ 24"
    by (auto simp: db_fits_def length_contents)
  have s: "length ?s = ?d" "contents db = ?s"
    using inv Some length_contents [of db] by (simp_all add: contents_def)
  from inv have le: "pdata db \<le> pfree db" "pfree db \<le> pend db" "pend db < 2 ^ 29"
    by (auto simp: db_inv_def)
  have pend: "pend db = length m" using Some by (simp add: pend_def)
  show ?thesis
  proof (cases "pend db < pfree db + need")
    case False
    with inv Some show ?thesis by (auto simp: db_expand_def)
  next
    case short: True
    show ?thesis
    proof (cases "?f < need \<or> ?f * 4 < ?d")
      case True
      from expand_realloc [OF assms Some short refl True] obtain r where
        r: "db_grow (f32_of (pend db * 2)) ?d need = Some r" "?d + need \<le> f32_to_int r"
          "f32_to_int r \<le> 2 ^ 27" by blast
      have "blit (malloc (f32_to_int r)) 0 ?s = Some (?s @ drop ?d (malloc (f32_to_int r)))"
        using r(2) s(1) by (simp add: blit_def malloc_def del: length_seg)
      moreover have "?f < need \<or> ?f * 4 < 2 ^ 31" using le by auto
      ultimately have "db_expand need db = Some (db\<lparr>pstart := Some (?s @ drop ?d (malloc (f32_to_int r))),
          pdata := 0, pfree := ?d\<rparr>)"
        using Some short True r by (auto simp: db_expand_def Let_def)
      moreover have "0 < need" using short le by simp
      ultimately show ?thesis
        using r s by (auto simp: db_inv_def pend_def contents_def seg_def malloc_def simp del: length_seg)
    next
      case False
      have "blit m 0 ?s = Some (?s @ drop ?d m)"
        using s(1) le pend by (simp add: blit_def del: length_seg)
      moreover have "?f < need \<or> ?f * 4 < 2 ^ 31" using le by auto
      ultimately have "db_expand need db = Some (db\<lparr>pstart := Some (?s @ drop ?d m), pfree := ?d, pdata := 0\<rparr>)"
        using Some short False by (auto simp: db_expand_def Let_def)
      with s inv False le pend Some show ?thesis
        by (auto simp: db_inv_def pend_def contents_def seg_def simp del: length_seg)
    qed
  qed
qed


subsection \<open>Writing appends to the queue\<close>

text \<open>The state between \<open>expand\<close> and the moment \<open>_pfree\<close> is advanced: the
  bytes \<open>frees\<close> from \<open>_pfree\<close> on may be set without touching the contents.\<close>

definition room :: "nat \<Rightarrow> databuffer \<Rightarrow> bool" where
  "room k db \<longleftrightarrow> db_inv db \<and> pfree db + k \<le> pend db \<and> pstart db \<noteq> None"

definition frees :: "nat \<Rightarrow> databuffer \<Rightarrow> byte list" where
  "frees k db = (case pstart db of None \<Rightarrow> [] | Some m \<Rightarrow> map (\<lambda>i. m ! (pfree db + i)) [0..<k])"

lemma expand_room:
  "db_fits need db \<Longrightarrow>
     succeeds (db_expand need db)
       (\<lambda>d. room need d \<and> contents d = contents db \<and> length (frees need d) = need)"
  using expand_ok [of need db] by (auto simp: room_def succeeds_def frees_def)

lemma put_room:
  assumes "room k db" and "i < k"
  shows "succeeds (db_put i v db)
           (\<lambda>d. room k d \<and> contents d = contents db \<and> frees k d = (frees k db)[i := v])"
proof -
  from assms obtain m where m: "pstart db = Some m" "pfree db + k \<le> length m"
    by (auto simp: room_def pend_def split: option.splits)
  then have "map (\<lambda>j. m[pfree db + i := v] ! (pfree db + j)) [0..<k] =
      (map (\<lambda>j. m ! (pfree db + j)) [0..<k])[i := v]"
    using assms(2) by (intro nth_equalityI) (auto simp: nth_list_update)
  with m assms show ?thesis
    by (auto simp: room_def db_put_def db_inv_def pend_def contents_def frees_def)
qed

lemma advance_room:
  assumes "room k db"
  shows "succeeds (db_advance k db) (\<lambda>d. db_inv d \<and> contents d = contents db @ frees k db)"
proof -
  from assms obtain m where m: "pstart db = Some m" "pfree db + k \<le> length m"
    by (auto simp: room_def pend_def split: option.splits)
  with assms seg_extend [of "pdata db" "pfree db" k m] show ?thesis
    by (auto simp: room_def db_advance_def db_inv_def pend_def contents_def frees_def)
qed

lemma put_bind:
  assumes "room k db \<and> contents db = c \<and> frees k db = fs" and "i < k"
    and "\<And>d. room k d \<and> contents d = c \<and> frees k d = fs[i := v] \<Longrightarrow> succeeds (f d) Q"
  shows "succeeds (db_put i v db \<bind> f) Q"
  using assms(1,2) put_room [of k db i v] by (intro succeeds_bind [where R = "\<lambda>d. room k d \<and> contents d = c \<and> frees k d = fs[i := v]"])
    (auto intro: assms(3))

lemma expand_bind:
  assumes "db_fits k db"
    and "\<And>d fs. room k d \<and> contents d = contents db \<and> frees k d = fs \<Longrightarrow> length fs = k \<Longrightarrow> succeeds (f d) Q"
  shows "succeeds (db_expand k db \<bind> f) Q"
  using expand_room [OF assms(1)] by (rule succeeds_bind) (auto intro: assms(2))

lemma advance_end:
  "room k db \<and> contents db = c \<and> frees k db = fs \<Longrightarrow> c @ fs = c' \<Longrightarrow>
     succeeds (db_advance k db) (\<lambda>d. db_inv d \<and> contents d = c')"
  using advance_room [of k db] by auto

lemma list_of_length_8: "length fs = 8 \<Longrightarrow> \<exists>a b c d e f g h. fs = [a, b, c, d, e, f, g, h]"
  by (auto simp: numeral_eq_Suc length_Suc_conv)

lemma list_of_length_4: "length fs = 4 \<Longrightarrow> \<exists>a b c d. fs = [a, b, c, d]"
  by (auto simp: numeral_eq_Suc length_Suc_conv)

lemma list_of_length_2: "length fs = 2 \<Longrightarrow> \<exists>a b. fs = [a, b]"
  by (auto simp: numeral_eq_Suc length_Suc_conv)

lemma writeInt8_ok:
  "db_fits 1 db \<Longrightarrow>
     succeeds (db_writeInt8 n db) (\<lambda>d. db_inv d \<and> contents d = contents db @ [n])"
  unfolding db_writeInt8_def
  by (rule expand_bind, assumption, rule put_bind, assumption, simp, rule advance_end, assumption)
    (auto simp: length_Suc_conv)

lemma writeInt16_ok:
  "db_fits 2 db \<Longrightarrow>
     succeeds (db_writeInt16 n db)
       (\<lambda>d. db_inv d \<and> contents d = contents db @ [ucast (drop_bit 8 n), ucast n])"
  unfolding db_writeInt16_def Let_def
  by (rule expand_bind, assumption, (rule put_bind, assumption, simp)+, rule advance_end, assumption)
    (auto simp: ucast_signed_drop_bit dest!: list_of_length_2)

definition be32 :: "32 word \<Rightarrow> byte list" where
  "be32 n = [ucast (drop_bit 24 n), ucast (drop_bit 16 n), ucast (drop_bit 8 n), ucast n]"

definition be64 :: "64 word \<Rightarrow> byte list" where
  "be64 n = [ucast (drop_bit 56 n), ucast (drop_bit 48 n), ucast (drop_bit 40 n), ucast (drop_bit 32 n),
             ucast (drop_bit 24 n), ucast (drop_bit 16 n), ucast (drop_bit 8 n), ucast n]"

lemma writeInt32_ok:
  "db_fits 4 db \<Longrightarrow>
     succeeds (db_writeInt32 n db) (\<lambda>d. db_inv d \<and> contents d = contents db @ be32 n)"
  unfolding db_writeInt32_def Let_def
  by (rule expand_bind, assumption, (rule put_bind, assumption, simp)+, rule advance_end, assumption)
    (auto simp: be32_def signed_drop_bit_signed_drop_bit ucast_signed_drop_bit dest!: list_of_length_4)

lemma writeInt64_ok:
  "db_fits 8 db \<Longrightarrow>
     succeeds (db_writeInt64 n db) (\<lambda>d. db_inv d \<and> contents d = contents db @ be64 n)"
  unfolding db_writeInt64_def Let_def
  by (rule expand_bind, assumption, (rule put_bind, assumption, simp)+, rule advance_end, assumption)
    (auto simp: be64_def signed_drop_bit_signed_drop_bit ucast_signed_drop_bit dest!: list_of_length_8)

lemma writeBytes_ok:
  assumes "db_fits (length src) db"
  shows "succeeds (db_writeBytes src db) (\<lambda>d. db_inv d \<and> contents d = contents db @ src)"
  unfolding db_writeBytes_def
proof (rule succeeds_bind [OF expand_room [OF assms]], elim conjE)
  fix d assume room: "room (length src) d" and c: "contents d = contents db"
  from room obtain m where m: "pstart d = Some m" "pfree d + length src \<le> length m"
    and inv: "db_inv d" by (auto simp: room_def pend_def split: option.splits)
  then obtain m' where m': "blit m (pfree d) src = Some m'" by (auto simp: blit_def)
  with inv m have "seg (pdata d) (pfree d + length src) m' = seg (pdata d) (pfree d) m @ src"
    by (intro seg_blit_append) (auto simp: db_inv_def)
  with m m' inv c length_blit [OF m'] show "succeeds (pstart d \<bind> (\<lambda>m. blit m (pfree d) src \<bind>
      (\<lambda>m'. Some (d\<lparr>pstart := Some m', pfree := pfree d + length src\<rparr>))))
      (\<lambda>d. db_inv d \<and> contents d = contents db @ src)"
    by (auto simp: db_inv_def pend_def contents_def)
qed


subsection \<open>Reading consumes from the queue\<close>

lemma get_contents:
  assumes "db_inv db" and "i < length (contents db)"
  shows "db_get i db = Some (contents db ! i)"
proof -
  from assms(2) obtain m where m: "pstart db = Some m" by (cases "pstart db") auto
  with assms show ?thesis
    by (auto simp: db_get_def contents_def db_inv_def pend_def nth_seg)
qed

lemma peek_contents:
  assumes "db_inv db" and "len \<le> length (contents db)" and "pstart db \<noteq> None"
  shows "db_peekBytes len db = Some (take len (contents db))"
proof -
  from assms(3) obtain m where m: "pstart db = Some m" by auto
  have "pdata db + len \<le> pfree db" using assms(1,2) by (auto simp: length_contents db_inv_def)
  with m assms(1) show ?thesis
    by (auto simp: db_peekBytes_def contents_def db_inv_def pend_def take_seg min_def)
qed

lemma contents_alloc: "contents db \<noteq> [] \<Longrightarrow> pstart db \<noteq> None"
  by (cases "pstart db") auto

lemma readBytes_ok:
  assumes "db_inv db" and "contents db = bs @ rest" and "bs \<noteq> []"
  shows "succeeds (db_readBytes (length bs) db) (\<lambda>(v, d). v = bs \<and> db_inv d \<and> contents d = rest)"
  using assms contents_consume [of db "length bs"] peek_contents [of db "length bs"] contents_alloc [of db]
  by (auto simp: db_readBytes_def)

lemma readInt8_ok:
  assumes "db_inv db" and "contents db = n # rest"
  shows "succeeds (db_readInt8 db) (\<lambda>(v, d). v = n \<and> db_inv d \<and> contents d = rest)"
  using assms contents_consume [of db 1] by (auto simp: db_readInt8_def get_contents)

lemma shl8_or_drop:
  fixes n :: "'a::len word"
  shows "8 \<le> LENGTH('a) \<Longrightarrow> k' = 8 + k \<Longrightarrow> shl8_or (drop_bit k' n) (ucast (drop_bit k n)) = drop_bit k n"
  using push_drop_ucast [of "drop_bit k n"] by (simp add: shl8_or_def drop_bit_drop_bit)

lemma shl8_or_last:
  fixes n :: "'a::len word"
  shows "8 \<le> LENGTH('a) \<Longrightarrow> shl8_or (drop_bit 8 n) (ucast n) = n"
  using push_drop_ucast [of n] by (simp add: shl8_or_def)

lemma readInt16_ok:
  assumes "db_inv db" and "contents db = ucast (drop_bit 8 n) # ucast n # rest"
  shows "succeeds (db_readInt16 db) (\<lambda>(v, d). v = n \<and> db_inv d \<and> contents d = rest)"
  using assms contents_consume [of db 2] ucast_ucast_drop [of 8 n]
  by (auto simp: db_readInt16_def get_contents Let_def shl8_or_last)

lemma readInt32_ok:
  assumes "db_inv db" and "contents db = be32 n @ rest"
  shows "succeeds (db_readInt32 db) (\<lambda>(v, d). v = n \<and> db_inv d \<and> contents d = rest)"
  using assms contents_consume [of db 4] ucast_ucast_drop [of 24 n]
  by (auto simp: db_readInt32_def be32_def get_contents Let_def shl8_or_drop shl8_or_last)

lemma readInt64_ok:
  assumes "db_inv db" and "contents db = be64 n @ rest"
  shows "succeeds (db_readInt64 db) (\<lambda>(v, d). v = n \<and> db_inv d \<and> contents d = rest)"
  using assms contents_consume [of db 8] ucast_ucast_drop [of 56 n]
  by (auto simp: db_readInt64_def be64_def get_contents Let_def shl8_or_drop shl8_or_last)

lemma length_be32 [simp]: "length (be32 n) = 4"
  by (simp add: be32_def)

lemma length_be64 [simp]: "length (be64 n) = 8"
  by (simp add: be64_def)

text \<open>The wire form of a string, and the two operations in terms of it.\<close>

definition enc_string :: "byte list \<Rightarrow> byte list" where
  "enc_string v = be32 (of_nat (length v)) @ v"

lemma fits_mono: "db_inv d \<Longrightarrow> length (contents d) + need \<le> 2 ^ 24 \<Longrightarrow> db_fits need d"
  by (auto simp: db_fits_def)

lemma writeString_ok:
  assumes "db_inv db" and "length (contents db) + 4 + length v \<le> 2 ^ 24"
  shows "succeeds (db_writeString v db) (\<lambda>d. db_inv d \<and> contents d = contents db @ enc_string v)"
  unfolding db_writeString_def
proof (rule succeeds_bind [OF writeInt32_ok])
  show "db_fits 4 db" using assms by (intro fits_mono) auto
next
  fix d assume d: "db_inv d \<and> contents d = contents db @ be32 (of_nat (length v))"
  with assms(2) have "db_fits (length v) d" by (intro fits_mono) auto
  from writeBytes_ok [OF this] show "succeeds (db_writeBytes v d) (\<lambda>d. db_inv d \<and> contents d = contents db @ enc_string v)"
    using d by (auto simp: enc_string_def elim: succeeds_mono)
qed

lemma sint_of_nat_small: "k < 2 ^ 31 \<Longrightarrow> sint (of_nat k :: 32 word) = int k"
  using int_word_sint [of "int k", where 'a = 32] by simp

lemma readString_ok:
  assumes "db_inv db" and "contents db = enc_string v @ rest" and "length v < 2 ^ 31"
  shows "succeeds (db_readString db) (\<lambda>(w, d). w = v \<and> db_inv d \<and> contents d = rest)"
  unfolding db_readString_def
proof (rule succeeds_bind [OF readInt32_ok])
  show "db_inv db" by (rule assms)
  show "contents db = be32 (of_nat (length v)) @ v @ rest"
    using assms(2) by (simp add: enc_string_def)
  fix x :: "int32_t \<times> databuffer"
  assume "case x of (w, d) \<Rightarrow> w = of_nat (length v) \<and> db_inv d \<and> contents d = v @ rest"
  then obtain d where x: "x = (of_nat (length v), d)" and d: "db_inv d" "contents d = v @ rest"
    by (cases x) auto
  have n: "sint (of_nat (length v) :: 32 word) = int (length v)"
    using assms(3) by (rule sint_of_nat_small)
  then have z: "(of_nat (length v) :: 32 word) = 0 \<longleftrightarrow> v = []"
    by (cases v) auto
  have "v \<noteq> [] \<Longrightarrow> db_peekBytes (length v) d = Some v"
    using d peek_contents [of d "length v"] contents_alloc [of d] by auto
  with x n z d show "succeeds (case x of (sz, db) \<Rightarrow>
      check (0 \<le> sint sz) \<bind> (\<lambda>_. (if sz = 0 then Some [] else db_peekBytes (nat (sint sz)) db) \<bind>
        (\<lambda>value. Some (value, db_drainData (nat (sint sz)) db))))
      (\<lambda>(w, d). w = v \<and> db_inv d \<and> contents d = rest)"
    by (auto simp: contents_drain db_inv_drain)
qed


subsection \<open>Searching\<close>

definition occurs_at :: "byte list \<Rightarrow> byte list \<Rightarrow> nat \<Rightarrow> bool" where
  "occurs_at s xs i \<longleftrightarrow> i + length s \<le> length xs \<and> take (length s) (drop i xs) = s"

lemma sint_uint_eq: "uint (c :: byte) = sint (d :: byte) \<longleftrightarrow> c = d \<and> 0 \<le> sint d"
proof -
  have "uint d = sint d" if "0 \<le> sint d"
    using that uint_sint [of d] sint_lt [of d] by (simp add: take_bit_int_eq_self)
  moreover have "0 \<le> uint c" by simp
  ultimately show ?thesis by (metis word_uint_eq_iff)
qed

lemma findBytes_loop_step:
  assumes "db_inv db" and "s \<noteq> []" and "i + length s \<le> length (contents db)"
  shows "db_findBytes_loop s db (int (length (contents db)) - int (length s) + 1) (int i) =
           (if 0 \<le> sint (hd s) \<and> occurs_at s (contents db) i then Some (int i)
            else db_findBytes_loop s db (int (length (contents db)) - int (length s) + 1) (int (Suc i)))"
proof -
  let ?c = "contents db" and ?d = "db_consume i db"
  from assms(2) have l: "0 < length s" by simp
  have i: "i < length ?c" using assms(3) l by linarith
  have g: "db_get i db = Some (?c ! i)" using assms(1) i by (rule get_contents)
  have "contents ?d = drop i ?c \<and> db_inv ?d" using assms(1) i by (intro contents_consume) auto
  moreover have "contents db \<noteq> []" using i by auto
  then have "pstart ?d \<noteq> None" using contents_alloc [of db] by (simp add: db_consume_def)
  ultimately have p: "db_peekBytes (length s) ?d = Some (take (length s) (drop i ?c))"
    using assms(3) by (subst peek_contents) auto
  have h: "occurs_at s ?c i \<Longrightarrow> ?c ! i = hd s"
    using l i by (metis hd_drop_conv_nth hd_take occurs_at_def)
  have lt: "int i < int (length ?c) - int (length s) + 1" using assms(3) by simp
  show ?thesis
    using g p h lt assms(3)
    by (subst db_findBytes_loop.simps) (auto simp: sint_uint_eq occurs_at_def algebra_simps)
qed

lemma findBytes_loop_spec:
  assumes "db_inv db" and "s \<noteq> []"
  shows "db_findBytes_loop s db (int (length (contents db)) - int (length s) + 1) (int i) =
           Some (if 0 \<le> sint (hd s) \<and> (\<exists>j\<ge>i. occurs_at s (contents db) j)
                 then int (LEAST j. i \<le> j \<and> occurs_at s (contents db) j) else - 1)"
proof (induction "length (contents db) - i" arbitrary: i rule: less_induct)
  case less
  let ?c = "contents db"
  show ?case
  proof (cases "i + length s \<le> length ?c")
    case False
    then have "\<not> (\<exists>j\<ge>i. occurs_at s ?c j)" by (auto simp: occurs_at_def)
    with False show ?thesis by (subst db_findBytes_loop.simps) auto
  next
    case True
    show ?thesis
    proof (cases "0 \<le> sint (hd s) \<and> occurs_at s ?c i")
      case hit: True
      then have "(LEAST j. i \<le> j \<and> occurs_at s ?c j) = i" by (intro Least_equality) auto
      with hit show ?thesis by (subst findBytes_loop_step [OF assms True]) auto
    next
      case miss: False
      have ge: "i \<le> j \<and> occurs_at s ?c j \<longleftrightarrow> Suc i \<le> j \<and> occurs_at s ?c j" if "0 \<le> sint (hd s)" for j
        using miss that by (metis Suc_leD le_antisym not_less_eq_eq)
      have "length ?c - Suc i < length ?c - i" using True assms(2) by (cases s) auto
      from less.hyps [OF this] miss ge show ?thesis
        by (subst findBytes_loop_step [OF assms True]) auto
    qed
  qed
qed

subsection \<open>Where the float arithmetic is too coarse\<close>

lemma bitlen_pow2: "bitlen (2 ^ k) = Suc k"
  by (induction k) (simp_all add: bitlen_pos)

lemma rnd24_pow2: "24 \<le> k \<Longrightarrow> rnd24 (2 ^ k) = 2 ^ k"
  by (rule rnd24_exact) (simp add: is_f32_def bitlen_pow2 le_imp_power_dvd)

lemma f32_of_2_25_plus_1: "f32_of (2 ^ 25 + 1) = 2 ^ 49"
proof -
  let ?n = "(2 ^ 25 + 1) * 2 ^ 24 :: nat"
  have "bitlen ?n \<le> 50" by (simp add: bitlen_le_iff)
  moreover have "\<not> bitlen ?n \<le> 49" by (simp add: bitlen_le_iff)
  ultimately have "bitlen ?n = 50" by linarith
  then show ?thesis by (simp add: f32_of_def rnd24_def)
qed

lemma expand_coarse:
  assumes "pstart db = Some m" and "length m = 2 ^ 25" and "pdata db = 0" and "pfree db = 2 ^ 25"
  shows "succeeds (db_expand (2 ^ 25 + 1) db) (\<lambda>d. pfree d = 2 ^ 25 \<and> pend d = 2 ^ 26)"
proof -
  have pd: "pend db = 2 ^ 25" using assms by (simp add: pend_def)
  have a: "f32_of (2 ^ 26) = 2 ^ 50" "f32_of (2 ^ 25) = 2 ^ 49"
    using rnd24_pow2 [of 50] rnd24_pow2 [of 49] by (simp_all add: f32_of_def)
  have "f32_minus (2 ^ 50) (2 ^ 49) = 2 ^ 49"
    using rnd24_pow2 [of 49] by (simp add: f32_minus_def)
  then have "db_grow (2 ^ 50) (2 ^ 25) (2 ^ 25 + 1) = Some (2 ^ 50)"
    by (subst db_grow.simps) (simp only: a f32_of_2_25_plus_1, simp)
  moreover have "f32_of (pend db * 2) = 2 ^ 50" using a by (simp add: pd)
  ultimately have g: "db_grow (f32_of (pend db * 2)) (2 ^ 25) (2 ^ 25 + 1) = Some (2 ^ 50)" by (simp only:)
  have i: "f32_to_int (2 ^ 50) = 2 ^ 26" by (simp add: f32_to_int_def)
  have "blit (malloc (2 ^ 26)) 0 (seg 0 (2 ^ 25) m) = Some (m @ drop (2 ^ 25) (malloc (2 ^ 26)))"
    using assms(2) by (simp add: blit_def malloc_def)
  then show ?thesis
    using assms g i pd
    by (simp add: db_expand_def Let_def malloc_def pend_def)
qed


lemma ensureFree_ok:
  "db_fits need db \<Longrightarrow> succeeds (db_ensureFree need db)
     (\<lambda>d. db_inv d \<and> contents d = contents db \<and> pfree d + need \<le> pend d \<and> pstart d \<noteq> None)"
  using expand_ok [of need db] by (auto simp: db_ensureFree_def succeeds_def)

lemma fill_pour_ok:
  assumes "db_inv db" and "pfree db + length bs \<le> pend db" and "pstart db \<noteq> None"
  shows "succeeds (do { d \<leftarrow> db_fillFree bs db; db_pourData (length bs) d })
    (\<lambda>d. db_inv d \<and> contents d = contents db @ bs)"
proof -
  obtain m where m: "pstart db = Some m"
    using assms(3) by auto
  obtain m' where m': "blit m (pfree db) bs = Some m'"
    using assms(2) m by (auto simp: blit_def pend_def)
  have "seg (pdata db) (pfree db + length bs) m' = seg (pdata db) (pfree db) m @ bs"
    using m' by (rule seg_blit_append) (use assms(1) in \<open>simp add: db_inv_def\<close>)
  then show ?thesis
    using m m' assms length_blit [OF m']
    by (auto simp: db_fillFree_def db_pourData_def db_inv_def pend_def contents_def)
qed

subsection \<open>The abstract byte queue and the refinement\<close>

text \<open>
  The contract of the buffer: a byte list to which data is appended at the end and from
  which it is taken at the front. \<open>q_step\<close> refuses an operation that asks for more
  bytes than there are, and data or requests beyond \<open>q_limit\<close> bytes, the range in
  which \<open>expand\<close> is exact.
\<close>

datatype db_op =
    WriteBytes "byte list"
  | WriteInt8 byte
  | WriteInt16 int16_t
  | WriteInt32 int32_t
  | WriteInt64 int64_t
  | EnsureFree nat
  | Pour "byte list"
  | Drain nat
  | Strip nat
  | Clear
  | Shrink

fun db_step :: "db_op \<Rightarrow> databuffer \<Rightarrow> databuffer option" where
  "db_step (WriteBytes bs) db = db_writeBytes bs db"
| "db_step (WriteInt8 n) db = db_writeInt8 n db"
| "db_step (WriteInt16 n) db = db_writeInt16 n db"
| "db_step (WriteInt32 n) db = db_writeInt32 n db"
| "db_step (WriteInt64 n) db = db_writeInt64 n db"
| "db_step (EnsureFree n) db = db_ensureFree n db"
| "db_step (Pour bs) db = do {
     db \<leftarrow> db_ensureFree (length bs) db;
     db \<leftarrow> db_fillFree bs db;
     db_pourData (length bs) db }"
| "db_step (Drain n) db = Some (db_drainData n db)"
| "db_step (Strip n) db = db_stripData n db"
| "db_step Clear db = Some (db_clear db)"
| "db_step Shrink db = db_shrink db"

fun db_run :: "db_op list \<Rightarrow> databuffer \<Rightarrow> databuffer option" where
  "db_run [] db = Some db"
| "db_run (x # xs) db = db_step x db \<bind> db_run xs"

definition q_limit :: nat where
  "q_limit = 2 ^ 24"

definition q_append :: "byte list \<Rightarrow> byte list \<Rightarrow> byte list option" where
  "q_append q bs = (if length q + length bs \<le> q_limit then Some (q @ bs) else None)"

fun q_step :: "db_op \<Rightarrow> byte list \<Rightarrow> byte list option" where
  "q_step (WriteBytes bs) q = q_append q bs"
| "q_step (WriteInt8 n) q = q_append q [n]"
| "q_step (WriteInt16 n) q = q_append q [ucast (drop_bit 8 n), ucast n]"
| "q_step (WriteInt32 n) q = q_append q (be32 n)"
| "q_step (WriteInt64 n) q = q_append q (be64 n)"
| "q_step (EnsureFree n) q = (if length q \<le> q_limit \<and> n \<le> q_limit then Some q else None)"
| "q_step (Pour bs) q = q_append q bs"
| "q_step (Drain n) q = Some (drop n q)"
| "q_step (Strip n) q = (if n \<le> length q then Some (take (length q - n) q) else None)"
| "q_step Clear q = Some []"
| "q_step Shrink q = Some q"

fun q_run :: "db_op list \<Rightarrow> byte list \<Rightarrow> byte list option" where
  "q_run [] q = Some q"
| "q_run (x # xs) q = q_step x q \<bind> q_run xs"

lemma q_append_fits:
  "db_inv db \<Longrightarrow> q_append (contents db) bs = Some q \<Longrightarrow>
     db_fits (length bs) db \<and> q = contents db @ bs"
  by (auto simp: q_append_def q_limit_def db_fits_def split: if_splits)

lemma db_step_refines:
  assumes "db_inv db" and "q_step x (contents db) = Some q"
  shows "succeeds (db_step x db) (\<lambda>d. db_inv d \<and> contents d = q)"
proof (cases x)
  case (WriteBytes bs)
  with assms q_append_fits writeBytes_ok show ?thesis by fastforce
next
  case (WriteInt8 n)
  with assms q_append_fits [of db "[n]" q] writeInt8_ok [of db n] show ?thesis by auto
next
  case (WriteInt16 n)
  with assms q_append_fits [of db "[ucast (drop_bit 8 n), ucast n]" q] writeInt16_ok [of db n] show ?thesis
    by (simp add: numeral_2_eq_2)
next
  case (WriteInt32 n)
  with assms q_append_fits [of db "be32 n" q] writeInt32_ok [of db n] show ?thesis by auto
next
  case (WriteInt64 n)
  with assms q_append_fits [of db "be64 n" q] writeInt64_ok [of db n] show ?thesis by auto
next
  case (EnsureFree n)
  with assms have "db_fits n db" and "q = contents db"
    by (auto simp: db_fits_def q_limit_def split: if_splits)
  with EnsureFree expand_ok [of n db] show ?thesis
    by (auto simp: db_ensureFree_def succeeds_def)
next
  case (Pour bs)
  with assms q_append_fits have f: "db_fits (length bs) db" and q: "q = contents db @ bs"
    by simp_all
  obtain d where "db_ensureFree (length bs) db = Some d" "db_inv d" "contents d = contents db" "pfree d + length bs \<le> pend d" "pstart d \<noteq> None"
    using ensureFree_ok [OF f] by (auto elim!: succeedsE)
  with fill_pour_ok [of d bs] Pour q show ?thesis by simp
next
  case (Drain n)
  with assms show ?thesis by (auto simp: contents_drain db_inv_drain)
next
  case (Strip n)
  with assms strip_ok [of db n] show ?thesis by (auto simp: succeeds_def split: if_splits)
next
  case Clear
  with assms show ?thesis by (auto simp: contents_clear db_inv_clear)
next
  case Shrink
  with assms shrink_ok [of db] show ?thesis by (auto simp: succeeds_def)
qed

subsection \<open>Properties\<close>

text \<open>
  Property C11. \<open>DataBuffer::expand\<close>: for a well-formed buffer whose data and whose
  request are at most 16 MiB each, the call returns (both size loops terminate, nothing
  overflows), keeps the contents and the invariant, and leaves at least \<open>need\<close> free
  bytes behind the data.
\<close>

theorem expand_provides_room:
  assumes "db_fits need db"
  shows "\<exists>d. db_expand need db = Some d \<and> db_inv d \<and> contents d = contents db \<and>
           pfree d + need \<le> pend d"
  using expand_ok [OF assms] by blast

theorem expand_provides_room_witness:
  "\<exists>d. db_expand 10 \<lparr>pstart = Some [1, 2, 3], pdata = 1, pfree = 3\<rparr> = Some d \<and> db_inv d \<and>
     contents d = [2, 3] \<and> pfree d + 10 \<le> pend d"
proof -
  let ?db = "\<lparr>pstart = Some [1, 2, 3], pdata = 1, pfree = 3\<rparr>"
  have c: "contents ?db = [2, 3]" by (simp add: contents_def seg_def)
  then have "db_fits 10 ?db" by (simp add: db_fits_def db_inv_def pend_def)
  from expand_provides_room [OF this] show ?thesis by (simp only: c)
qed

text \<open>
  Property C40. \<open>DataBuffer::expand\<close> computes the new size in single precision, which
  is too coarse above 16 MiB: on a full buffer of 32 MiB a request for \<open>2 ^ 25 + 1\<close>
  bytes leaves room for only \<open>2 ^ 25\<close>, and \<open>writeBytes\<close> of that many bytes then
  writes past the end of the block.
\<close>

theorem expand_float_rounding:
  assumes "pstart db = Some m" and "length m = 2 ^ 25" and "pdata db = 0" and "pfree db = 2 ^ 25"
    and "length src = 2 ^ 25 + 1"
  shows "(\<exists>d. db_expand (2 ^ 25 + 1) db = Some d \<and> pend d - pfree d = 2 ^ 25) \<and>
         db_writeBytes src db = None"
proof -
  from expand_coarse [OF assms(1-4)] obtain d where
    d: "db_expand (2 ^ 25 + 1) db = Some d" "pfree d = 2 ^ 25" "pend d = 2 ^ 26"
    by (rule succeedsE) auto
  have "db_writeBytes src db = None"
    using d assms(5) by (auto simp: db_writeBytes_def blit_def pend_def bind_eq_None_conv split: option.splits)
  with d show ?thesis by auto
qed

theorem expand_float_rounding_witness:
  "db_writeBytes (replicate (2 ^ 25 + 1) 7)
     \<lparr>pstart = Some (replicate (2 ^ 25) 0), pdata = 0, pfree = 2 ^ 25\<rparr> = None"
  by (rule expand_float_rounding [where m = "replicate (2 ^ 25) 0", THEN conjunct2])
    (simp_all only: databuffer.select_convs length_replicate)

text \<open>
  Property C4. The buffer refines a byte queue: every sequence of writes of bytes and integers,
  reservations, pours (\<open>ensureFree\<close>, bytes stored at \<open>getFree()\<close>, \<open>pourData\<close>), drains, strips,
  clears and shrinks that the queue accepts runs to the end on the buffer (no assertion
  fails, no access leaves the block) and the data of the buffer is then the queue. The queue
  accepts up to 2 ^ 24 bytes of data and reservations of up to 2 ^ 24 bytes.
\<close>

theorem databuffer_refines_queue:
  assumes "db_inv db" and "q_run xs (contents db) = Some q"
  shows "\<exists>d. db_run xs db = Some d \<and> db_inv d \<and> contents d = q"
  using assms
proof (induction xs arbitrary: db)
  case Nil
  then show ?case by auto
next
  case (Cons x xs)
  from Cons.prems(2) obtain q' where q': "q_step x (contents db) = Some q'" "q_run xs q' = Some q"
    by (auto simp: bind_eq_Some_conv)
  from db_step_refines [OF Cons.prems(1) q'(1)] obtain d where
    "db_step x db = Some d" "db_inv d" "contents d = q'" by (rule succeedsE) auto
  with Cons.IH [of d] q'(2) show ?case by auto
qed

theorem databuffer_refines_queue_witness:
  "\<exists>d. db_run [WriteInt32 258, Pour [9, 8, 7], Drain 3, Strip 1, Shrink] db_new = Some d \<and>
     db_inv d \<and> contents d = [2, 9, 8]"
proof -
  have "q_run [WriteInt32 258, Pour [9, 8, 7], Drain 3, Strip 1, Shrink] (contents db_new) = Some [2, 9, 8]"
    by (simp add: contents_new q_append_def be32_def q_limit_def)
  from databuffer_refines_queue [OF db_inv_new this] show ?thesis .
qed

text \<open>An integer of one of the four widths, and the calls that write and read it.\<close>

datatype any_int = Int8 byte | Int16 int16_t | Int32 int32_t | Int64 int64_t

fun db_writeAny :: "any_int \<Rightarrow> databuffer \<Rightarrow> databuffer option" where
  "db_writeAny (Int8 n) db = db_writeInt8 n db"
| "db_writeAny (Int16 n) db = db_writeInt16 n db"
| "db_writeAny (Int32 n) db = db_writeInt32 n db"
| "db_writeAny (Int64 n) db = db_writeInt64 n db"

text \<open>The reader uses the width of the integer it is given, not its value.\<close>

fun db_readAny :: "any_int \<Rightarrow> databuffer \<Rightarrow> (any_int \<times> databuffer) option" where
  "db_readAny (Int8 n) db = do { (v, db) \<leftarrow> db_readInt8 db; Some (Int8 v, db) }"
| "db_readAny (Int16 n) db = do { (v, db) \<leftarrow> db_readInt16 db; Some (Int16 v, db) }"
| "db_readAny (Int32 n) db = do { (v, db) \<leftarrow> db_readInt32 db; Some (Int32 v, db) }"
| "db_readAny (Int64 n) db = do { (v, db) \<leftarrow> db_readInt64 db; Some (Int64 v, db) }"

fun db_writeInts :: "any_int list \<Rightarrow> databuffer \<Rightarrow> databuffer option" where
  "db_writeInts [] db = Some db"
| "db_writeInts (i # is) db = db_writeAny i db \<bind> db_writeInts is"

fun db_readInts :: "any_int list \<Rightarrow> databuffer \<Rightarrow> (any_int list \<times> databuffer) option" where
  "db_readInts [] db = Some ([], db)"
| "db_readInts (i # is) db = do { (v, db) \<leftarrow> db_readAny i db; (vs, db) \<leftarrow> db_readInts is db; Some (v # vs, db) }"

fun enc_int :: "any_int \<Rightarrow> byte list" where
  "enc_int (Int8 n) = [n]"
| "enc_int (Int16 n) = [ucast (drop_bit 8 n), ucast n]"
| "enc_int (Int32 n) = be32 n"
| "enc_int (Int64 n) = be64 n"

text \<open>The widths of a list of integers, with all values zero.\<close>

fun width_of :: "any_int \<Rightarrow> any_int" where
  "width_of (Int8 n) = Int8 0"
| "width_of (Int16 n) = Int16 0"
| "width_of (Int32 n) = Int32 0"
| "width_of (Int64 n) = Int64 0"

lemma writeAny_ok:
  "db_fits (length (enc_int i)) db \<Longrightarrow> succeeds (db_writeAny i db) (\<lambda>d. db_inv d \<and> contents d = contents db @ enc_int i)"
  using writeInt8_ok [of db] writeInt16_ok [of db] writeInt32_ok [of db] writeInt64_ok [of db]
  by (cases i) (simp_all add: numeral_2_eq_2)

lemma readAny_ok:
  "db_inv db \<Longrightarrow> contents db = enc_int i @ rest \<Longrightarrow>
     succeeds (db_readAny (width_of i) db) (\<lambda>(v, d). v = i \<and> db_inv d \<and> contents d = rest)"
  using readInt8_ok [of db _ rest] readInt16_ok [of db _ rest] readInt32_ok [of db _ rest] readInt64_ok [of db _ rest]
  by (cases i) (force elim!: succeedsE)+

lemma writeInts_ok:
  "db_inv db \<Longrightarrow> length (contents db) + length (concat (map enc_int is)) \<le> 2 ^ 24 \<Longrightarrow>
     succeeds (db_writeInts is db) (\<lambda>d. db_inv d \<and> contents d = contents db @ concat (map enc_int is))"
proof (induction "is" arbitrary: db)
  case (Cons i "is")
  obtain d where "db_writeAny i db = Some d" "db_inv d" "contents d = contents db @ enc_int i"
    using writeAny_ok [of i db] Cons.prems by (auto simp: db_fits_def elim!: succeedsE)
  with Cons.IH [of d] Cons.prems show ?case by simp
qed simp

lemma readInts_ok:
  "db_inv db \<Longrightarrow> contents db = concat (map enc_int is) @ rest \<Longrightarrow>
     succeeds (db_readInts (map width_of is) db) (\<lambda>(vs, d). vs = is \<and> db_inv d \<and> contents d = rest)"
proof (induction "is" arbitrary: db)
  case (Cons i "is")
  obtain d where d: "db_readAny (width_of i) db = Some (i, d)" "db_inv d" "contents d = concat (map enc_int is) @ rest"
    using readAny_ok [of db i "concat (map enc_int is) @ rest"] Cons.prems by (auto elim!: succeedsE)
  obtain d' where "db_readInts (map width_of is) d = Some (is, d')" "db_inv d'" "contents d' = rest"
    using Cons.IH [OF d(2,3)] by (auto elim!: succeedsE)
  with d(1) show ?case by simp
qed simp

text \<open>
  Property C32. Integers survive the buffer: any list of integers of 8, 16, 32 and 64 bits, written
  behind what the buffer holds (together at most 2 ^ 24 bytes), stands behind the old data,
  and once the old data is drained the integers are read back in the order in which they were written.
\<close>

theorem int_round_trip:
  assumes "db_inv db" and "length (contents db) + length (concat (map enc_int is)) \<le> 2 ^ 24"
  shows "succeeds (db_writeInts is db) (\<lambda>d. take (length (contents db)) (contents d) = contents db \<and>
    succeeds (db_readInts (map width_of is) (db_drainData (length (contents db)) d)) (\<lambda>(vs, d'). vs = is \<and> contents d' = []))"
proof -
  obtain d where d: "db_writeInts is db = Some d" "db_inv d" "contents d = contents db @ concat (map enc_int is)"
    using writeInts_ok [OF assms] by (auto elim!: succeedsE)
  from readInts_ok [OF db_inv_drain [OF d(2)], of "length (contents db)" "is" "[]"] d show ?thesis
    by (auto simp: contents_drain elim!: succeeds_mono)
qed

theorem int_round_trip_witness:
  "\<exists>db. contents db = [7, 8] \<and> succeeds (db_writeInts [Int64 (-2), Int8 200, Int16 (-300), Int32 70000] db)
     (\<lambda>d. take 2 (contents d) = [7, 8] \<and> succeeds (db_readInts [Int64 0, Int8 0, Int16 0, Int32 0] (db_drainData 2 d))
       (\<lambda>(vs, d'). vs = [Int64 (-2), Int8 200, Int16 (-300), Int32 70000] \<and> contents d' = []))"
proof -
  obtain db where db: "db_inv db" "contents db = [7, 8]"
    using writeBytes_ok [of "[7, 8]" db_new] by (auto simp: db_fits_def db_inv_new contents_new elim!: succeedsE)
  have l: "length (contents db) = 2"
    by (simp add: db)
  have "length (contents db) + length (concat (map enc_int [Int64 (-2), Int8 200, Int16 (-300), Int32 70000])) \<le> 2 ^ 24"
    by (simp add: db be32_def be64_def)
  from int_round_trip [OF db(1) this] db(2) show ?thesis
    unfolding l list.map width_of.simps by auto
qed

text \<open>Lists of strings.\<close>

fun db_writeStrings :: "byte list list \<Rightarrow> databuffer \<Rightarrow> databuffer option" where
  "db_writeStrings [] db = Some db"
| "db_writeStrings (v # vs) db = db_writeString v db \<bind> db_writeStrings vs"

fun db_readStrings :: "nat \<Rightarrow> databuffer \<Rightarrow> (byte list list \<times> databuffer) option" where
  "db_readStrings 0 db = Some ([], db)"
| "db_readStrings (Suc n) db = do {
     (v, db) \<leftarrow> db_readString db;
     (vs, db) \<leftarrow> db_readStrings n db;
     Some (v # vs, db) }"

lemma writeStrings_ok:
  "db_inv db \<Longrightarrow> length (contents db) + length (concat (map enc_string vs)) \<le> 2 ^ 24 \<Longrightarrow>
     succeeds (db_writeStrings vs db) (\<lambda>d. db_inv d \<and> contents d = contents db @ concat (map enc_string vs))"
proof (induction vs arbitrary: db)
  case (Cons v vs)
  from Cons.prems have "length (contents db) + 4 + length v \<le> 2 ^ 24" by (simp add: enc_string_def)
  from writeString_ok [OF Cons.prems(1) this] obtain d where
    d: "db_writeString v db = Some d" "db_inv d" "contents d = contents db @ enc_string v"
    by (auto elim!: succeedsE)
  with Cons.IH [of d] Cons.prems(2) show ?case by simp
qed simp

lemma readStrings_ok:
  "db_inv db \<Longrightarrow> contents db = concat (map enc_string vs) \<Longrightarrow> \<forall>v \<in> set vs. length v < 2 ^ 31 \<Longrightarrow>
     succeeds (db_readStrings (length vs) db) (\<lambda>(ws, d). ws = vs \<and> contents d = [])"
proof (induction vs arbitrary: db)
  case (Cons v vs)
  from readString_ok [OF Cons.prems(1), of v "concat (map enc_string vs)"] Cons.prems obtain d where
    d: "db_readString db = Some (v, d)" "db_inv d" "contents d = concat (map enc_string vs)"
    by (auto elim!: succeedsE)
  from Cons.IH [OF d(2,3)] Cons.prems(3) obtain d' where
    "db_readStrings (length vs) d = Some (vs, d')" "contents d' = []" by (auto elim!: succeedsE)
  with d show ?case by simp
qed simp

text \<open>
  Property C33. Strings survive the buffer: a list of strings written with \<open>writeString\<close> behind
  what the buffer holds (together with their four length bytes each at most 2 ^ 24 bytes)
  stands behind the old data, and once that is drained the strings are read back
  one by one, whatever bytes they hold.
\<close>

theorem string_round_trip:
  assumes "db_inv db" and "length (contents db) + length (concat (map enc_string vs)) \<le> 2 ^ 24"
  shows "succeeds (db_writeStrings vs db) (\<lambda>d. take (length (contents db)) (contents d) = contents db \<and>
    succeeds (db_readStrings (length vs) (db_drainData (length (contents db)) d)) (\<lambda>(ws, d'). ws = vs \<and> contents d' = []))"
proof -
  obtain d where d: "db_writeStrings vs db = Some d" "db_inv d" "contents d = contents db @ concat (map enc_string vs)"
    using writeStrings_ok [OF assms] by (auto elim!: succeedsE)
  have "\<forall>v\<in>set vs. length v < 2 ^ 31"
  proof
    fix v
    assume "v \<in> set vs"
    then have "length (enc_string v) \<le> length (concat (map enc_string vs))"
      by (auto simp: length_concat intro: member_le_sum_list)
    with assms(2) show "length v < 2 ^ 31" by (simp add: enc_string_def)
  qed
  from readStrings_ok [OF db_inv_drain [OF d(2)] _ this, of "length (contents db)"] d show ?thesis
    by (simp add: contents_drain)
qed

theorem string_round_trip_witness:
  "\<exists>db. contents db = [7, 8] \<and> succeeds (db_writeStrings [[104, 105], [], [0, 255, 10]] db) (\<lambda>d. take 2 (contents d) = [7, 8] \<and>
     succeeds (db_readStrings 3 (db_drainData 2 d)) (\<lambda>(ws, d'). ws = [[104, 105], [], [0, 255, 10]] \<and> contents d' = []))"
proof -
  obtain db where db: "db_inv db" "contents db = [7, 8]"
    using writeBytes_ok [of "[7, 8]" db_new] by (auto simp: db_fits_def db_inv_new contents_new elim!: succeedsE)
  have l: "length (contents db) = 2" "length [[104, 105], [], [0, 255, 10::byte]] = 3"
    by (simp_all add: db)
  have "length (contents db) + length (concat (map enc_string [[104, 105], [], [0, 255, 10]])) \<le> 2 ^ 24"
    by (simp add: db enc_string_def be32_def)
  from string_round_trip [OF db(1) this] db(2) show ?thesis
    unfolding l by auto
qed

text \<open>
  Property C34. \<open>DataBuffer::findBytes\<close> returns the first position at which the
  pattern occurs in the data, or -1 when it does not occur, provided its first byte is
  below 128. The code compares an \<open>unsigned char\<close> with a (signed) \<open>char\<close>, so a
  pattern that starts with a byte of 128 or more is never found, wherever it occurs.
\<close>

theorem findBytes_first_occurrence:
  assumes "db_inv db" and "s \<noteq> []"
  shows "db_findBytes s db =
           Some (if 0 \<le> sint (hd s) \<and> (\<exists>j. occurs_at s (contents db) j)
                 then int (LEAST j. occurs_at s (contents db) j) else - 1)"
  using findBytes_loop_spec [OF assms, of 0] assms
  by (simp add: db_findBytes_def getDataLen_contents)

theorem findBytes_first_occurrence_witness:
  "db_findBytes [13, 10] \<lparr>pstart = Some [65, 13, 13, 10, 13, 10], pdata = 1, pfree = 6\<rparr> = Some 1 \<and>
   db_findBytes [200] \<lparr>pstart = Some [65, 200], pdata = 0, pfree = 2\<rparr> = Some (- 1)"
proof -
  let ?db = "\<lparr>pstart = Some [65, 13, 13, 10, 13, 10], pdata = 1, pfree = 6\<rparr>"
  let ?e = "\<lparr>pstart = Some [65, 200], pdata = 0, pfree = 2\<rparr>"
  have c: "contents ?db = [13, 13, 10, 13, 10]" by (simp add: contents_def seg_def)
  have inv: "db_inv ?db" "db_inv ?e" by (simp_all add: db_inv_def pend_def)
  have o: "occurs_at [13, 10] (contents ?db) 1" "\<not> occurs_at [13, 10] (contents ?db) 0"
    unfolding c by (simp_all add: occurs_at_def)
  have "(LEAST j. occurs_at [13, 10] (contents ?db) j) = 1"
  proof (rule Least_equality)
    fix y assume "occurs_at [13, 10] (contents ?db) y"
    with o(2) show "1 \<le> y" by (cases y) auto
  qed (rule o(1))
  moreover have "\<exists>j. occurs_at [13, 10] (contents ?db) j" using o by blast
  ultimately show ?thesis
    using findBytes_first_occurrence [OF inv(1), of "[13, 10]"]
      findBytes_first_occurrence [OF inv(2), of "[200]"] by simp
qed

end
