(* ===== verification/PacketQueues.thy ===== *)
theory PacketQueues
  imports AE_Prelude "HOL-Library.Multiset"
begin

text \<open>
  \<open>anet::PacketQueue\<close> and \<open>anet::OrderedPacketQueue\<close>
  (\<open>network/anet/packetqueue.cpp\<close>, \<open>orderedpacketqueue.cpp\<close>): intrusive singly
  linked lists of packets. The packets live in a heap, the link is the field
  \<open>_next\<close> of the packet, and every operation writes the links exactly where the code
  does; following a null link gives \<open>None\<close>. The abstraction \<open>pq_rep\<close> reads the
  list of addresses off the heap. The lemmas show that push, pop and the moves compute
  the list operations they are meant to, that the ordered queue stays sorted by expire
  time and keeps the arrival order among equal times, and that nothing but links changes.
\<close>

record pnode =
  pnext :: ptr
  pexpire :: int

record pqueue =
  qhead :: ptr
  qtail :: ptr
  qsize :: "64 word"

definition pq_new :: pqueue where
  "pq_new = \<lparr>qhead = None, qtail = None, qsize = 0\<rparr>"

definition set_next :: "ptr \<Rightarrow> ptr \<Rightarrow> 'a pnode_scheme heap \<Rightarrow> 'a pnode_scheme heap option" where
  "set_next p nx h = do {
     a \<leftarrow> p;
     n \<leftarrow> h a;
     Some (h(a \<mapsto> n\<lparr>pnext := nx\<rparr>)) }"

definition get_next :: "ptr \<Rightarrow> 'a pnode_scheme heap \<Rightarrow> ptr option" where
  "get_next p h = map_option pnext (deref h p)"

definition get_expire :: "ptr \<Rightarrow> 'a pnode_scheme heap \<Rightarrow> int option" where
  "get_expire p h = map_option pexpire (deref h p)"

subsection \<open>PacketQueue\<close>

definition pq_pop :: "'a pnode_scheme heap \<Rightarrow> pqueue \<Rightarrow> (ptr \<times> pqueue) option" where
  "pq_pop h q =
     (if qhead q = None then Some (None, q)
      else do {
        let packet = qhead q;
        hd' \<leftarrow> get_next (qhead q) h;
        let q = q\<lparr>qhead := hd'\<rparr>;
        let q = (if qhead q = None then q\<lparr>qtail := None\<rparr> else q);
        let q = q\<lparr>qsize := qsize q - 1\<rparr>;
        Some (packet, q) })"

definition pq_push :: "nat \<Rightarrow> 'a pnode_scheme heap \<Rightarrow> pqueue \<Rightarrow> ('a pnode_scheme heap \<times> pqueue) option" where
  "pq_push packet h q = do {
     h \<leftarrow> set_next (Some packet) None h;
     (h, q) \<leftarrow> (if qtail q = None then Some (h, q\<lparr>qhead := Some packet\<rparr>)
                 else do { h \<leftarrow> set_next (qtail q) (Some packet) h; Some (h, q) });
     let q = q\<lparr>qtail := Some packet\<rparr>;
     Some (h, q\<lparr>qsize := qsize q + 1\<rparr>) }"

definition pq_size :: "pqueue \<Rightarrow> 64 word" where
  "pq_size q = qsize q"

definition pq_empty :: "pqueue \<Rightarrow> bool" where
  "pq_empty q \<longleftrightarrow> qsize q = 0"

text \<open>\<open>moveTo\<close>: the first queue is \<open>*this\<close>, the second \<open>*destQueue\<close>.\<close>

definition pq_moveTo ::
  "'a pnode_scheme heap \<Rightarrow> pqueue \<Rightarrow> pqueue \<Rightarrow> ('a pnode_scheme heap \<times> pqueue \<times> pqueue) option" where
  "pq_moveTo h q dest =
     (if qhead q = None then Some (h, q, dest)
      else do {
        (h, dest) \<leftarrow> (if qtail dest = None then Some (h, dest\<lparr>qhead := qhead q\<rparr>)
                       else do { h \<leftarrow> set_next (qtail dest) (qhead q) h; Some (h, dest) });
        let dest = dest\<lparr>qtail := qtail q\<rparr>;
        let dest = dest\<lparr>qsize := qsize dest + qsize q\<rparr>;
        let q = q\<lparr>qhead := None, qtail := None\<rparr>;
        Some (h, q\<lparr>qsize := 0\<rparr>, dest) })"

text \<open>\<open>moveBack\<close>: the first queue is \<open>*this\<close>, the second \<open>*srcQueue\<close>.\<close>

definition pq_moveBack ::
  "'a pnode_scheme heap \<Rightarrow> pqueue \<Rightarrow> pqueue \<Rightarrow> ('a pnode_scheme heap \<times> pqueue \<times> pqueue) option" where
  "pq_moveBack h q src =
     (if qhead src = None then Some (h, q, src)
      else do {
        (h, q) \<leftarrow> (if qtail q = None then Some (h, q\<lparr>qhead := qhead src\<rparr>)
                    else do { h \<leftarrow> set_next (qtail q) (qhead src) h; Some (h, q) });
        let q = q\<lparr>qtail := qtail src\<rparr>;
        let q = q\<lparr>qsize := qsize q + qsize src\<rparr>;
        let src = src\<lparr>qhead := None, qtail := None\<rparr>;
        Some (h, q, src\<lparr>qsize := 0\<rparr>) })"

text \<open>The loop of \<open>getTimeoutList\<close>; \<open>lst\<close> and \<open>tail\<close> are its local variables
  \<open>list\<close> and \<open>tail\<close>.\<close>

partial_function (option) pq_timeout_loop ::
  "int \<Rightarrow> 'a pnode_scheme heap \<Rightarrow> pqueue \<Rightarrow> ptr \<Rightarrow> ptr \<Rightarrow> ('a pnode_scheme heap \<times> pqueue \<times> ptr \<times> ptr) option" where
  "pq_timeout_loop now h q lst tail =
     (if qhead q = None then Some (h, q, lst, tail)
      else do {
        t \<leftarrow> get_expire (qhead q) h;
        if t \<ge> now then Some (h, q, lst, tail)
        else do {
          (h, lst) \<leftarrow> (if tail = None then Some (h, qhead q)
                        else do { h \<leftarrow> set_next tail (qhead q) h; Some (h, lst) });
          let tail = qhead q;
          let q = q\<lparr>qsize := qsize q - 1\<rparr>;
          hd' \<leftarrow> get_next (qhead q) h;
          pq_timeout_loop now h (q\<lparr>qhead := hd'\<rparr>) lst tail } })"

definition pq_getTimeoutList ::
  "int \<Rightarrow> 'a pnode_scheme heap \<Rightarrow> pqueue \<Rightarrow> ('a pnode_scheme heap \<times> pqueue \<times> ptr) option" where
  "pq_getTimeoutList now h q = do {
     (h, q, lst, tail) \<leftarrow> pq_timeout_loop now h q None None;
     h \<leftarrow> (if tail \<noteq> None then set_next tail None h else Some h);
     let q = (if qhead q = None then q\<lparr>qtail := qhead q\<rparr> else q);
     Some (h, q, lst) }"

text \<open>The destructor: the loop reads the link of a packet before it frees it.\<close>

partial_function (option) pq_free_loop :: "'a pnode_scheme heap \<Rightarrow> ptr \<Rightarrow> 'a pnode_scheme heap option" where
  "pq_free_loop h p =
     (case p of None \<Rightarrow> Some h
      | Some a \<Rightarrow> do {
          n \<leftarrow> h a;
          pq_free_loop (h(a := None)) (pnext n) })"

definition pq_destroy :: "'a pnode_scheme heap \<Rightarrow> pqueue \<Rightarrow> ('a pnode_scheme heap \<times> pqueue) option" where
  "pq_destroy h q = do {
     h \<leftarrow> pq_free_loop h (qhead q);
     Some (h, q\<lparr>qhead := None, qtail := None, qsize := 0\<rparr>) }"

subsection \<open>OrderedPacketQueue\<close>

text \<open>The search loop of \<open>push\<close>: it stops at the first packet \<open>p1\<close> that expires
  later; \<open>p2\<close> is its predecessor.\<close>

partial_function (option) opq_find :: "int \<Rightarrow> 'a pnode_scheme heap \<Rightarrow> ptr \<Rightarrow> ptr \<Rightarrow> (ptr \<times> ptr) option" where
  "opq_find expireTime h p1 p2 = do {
     t \<leftarrow> get_expire p1 h;
     if expireTime \<ge> t then do { nx \<leftarrow> get_next p1 h; opq_find expireTime h nx p1 }
     else Some (p1, p2) }"

definition opq_push :: "nat \<Rightarrow> 'a pnode_scheme heap \<Rightarrow> pqueue \<Rightarrow> ('a pnode_scheme heap \<times> pqueue) option" where
  "opq_push packet h q = do {
     h \<leftarrow> set_next (Some packet) None h;
     let q = q\<lparr>qsize := qsize q + 1\<rparr>;
     if qhead q = None then Some (h, q\<lparr>qhead := Some packet, qtail := Some packet\<rparr>)
     else do {
       expireTime \<leftarrow> get_expire (Some packet) h;
       tailTime \<leftarrow> get_expire (qtail q) h;
       if expireTime \<ge> tailTime then do {
         h \<leftarrow> set_next (qtail q) (Some packet) h;
         Some (h, q\<lparr>qtail := Some packet\<rparr>) }
       else do {
         headTime \<leftarrow> get_expire (qhead q) h;
         if expireTime < headTime then do {
           h \<leftarrow> set_next (Some packet) (qhead q) h;
           Some (h, q\<lparr>qhead := Some packet\<rparr>) }
         else do {
           (p1, p2) \<leftarrow> opq_find expireTime h (qhead q) (qhead q);
           h \<leftarrow> set_next (Some packet) p1 h;
           h \<leftarrow> set_next p2 (Some packet) h;
           Some (h, q) } } } }"

partial_function (option) opq_merge_loop ::
  "'a pnode_scheme heap \<Rightarrow> ptr \<Rightarrow> ptr \<Rightarrow> ptr \<Rightarrow> ('a pnode_scheme heap \<times> ptr \<times> ptr \<times> ptr) option" where
  "opq_merge_loop h cur l r =
     (if l \<noteq> None \<and> r \<noteq> None then do {
        lt \<leftarrow> get_expire l h;
        rt \<leftarrow> get_expire r h;
        if lt < rt then do {
          h \<leftarrow> set_next cur l h;
          l' \<leftarrow> get_next l h;
          cur' \<leftarrow> get_next cur h;
          opq_merge_loop h cur' l' r }
        else do {
          h \<leftarrow> set_next cur r h;
          r' \<leftarrow> get_next r h;
          cur' \<leftarrow> get_next cur h;
          opq_merge_loop h cur' l r' } }
      else Some (h, cur, l, r))"

definition opq_moveBack ::
  "'a pnode_scheme heap \<Rightarrow> pqueue \<Rightarrow> pqueue \<Rightarrow> ('a pnode_scheme heap \<times> pqueue \<times> pqueue) option" where
  "opq_moveBack h q src =
     (if qhead src = None then Some (h, q, src)
      else do {
        let q = q\<lparr>qsize := qsize q + qsize src\<rparr>;
        let src = src\<lparr>qsize := 0\<rparr>;
        if qhead q = None then
          Some (h, q\<lparr>qhead := qhead src, qtail := qtail src\<rparr>, src\<lparr>qhead := None, qtail := None\<rparr>)
        else do {
          srcTail \<leftarrow> get_expire (qtail src) h;
          headTime \<leftarrow> get_expire (qhead q) h;
          if srcTail \<le> headTime then do {
            h \<leftarrow> set_next (qtail src) (qhead q) h;
            Some (h, q\<lparr>qhead := qhead src\<rparr>, src\<lparr>qhead := None, qtail := None\<rparr>) }
          else do {
            let lIter = qhead q;
            let rIter = qhead src;
            lt \<leftarrow> get_expire lIter h;
            rt \<leftarrow> get_expire rIter h;
            (head, lIter, rIter) \<leftarrow>
              (if lt < rt then do { l' \<leftarrow> get_next lIter h; Some (lIter, l', rIter) }
               else do { r' \<leftarrow> get_next rIter h; Some (rIter, lIter, r') });
            (h, currIter, lIter, rIter) \<leftarrow> opq_merge_loop h head lIter rIter;
            (h, q) \<leftarrow>
              (if lIter \<noteq> None then do { h \<leftarrow> set_next currIter lIter h; Some (h, q) }
               else do { h \<leftarrow> set_next currIter rIter h; Some (h, q\<lparr>qtail := qtail src\<rparr>) });
            Some (h, q\<lparr>qhead := head\<rparr>, src\<lparr>qhead := None, qtail := None\<rparr>) } } })"

text \<open>\<open>moveTo\<close> of the ordered queue is \<open>destQueue->moveBack(this)\<close>; in the
  program the destination is an ordered queue as well.\<close>

definition opq_moveTo ::
  "'a pnode_scheme heap \<Rightarrow> pqueue \<Rightarrow> pqueue \<Rightarrow> ('a pnode_scheme heap \<times> pqueue \<times> pqueue) option" where
  "opq_moveTo h q dest = do {
     (h, dest, q) \<leftarrow> opq_moveBack h dest q;
     Some (h, q, dest) }"

subsection \<open>Linked segments\<close>

fun pseg :: "'a pnode_scheme heap \<Rightarrow> ptr \<Rightarrow> nat list \<Rightarrow> ptr \<Rightarrow> bool" where
  "pseg h p [] e \<longleftrightarrow> p = e"
| "pseg h p (a # as) e \<longleftrightarrow> p = Some a \<and> (\<exists>n. h a = Some n \<and> pseg h (pnext n) as e)"

definition pq_rep :: "'a pnode_scheme heap \<Rightarrow> pqueue \<Rightarrow> nat list \<Rightarrow> bool" where
  "pq_rep h q xs \<longleftrightarrow>
     pseg h (qhead q) xs None \<and> distinct xs \<and>
     qtail q = (if xs = [] then None else Some (last xs)) \<and> qsize q = of_nat (length xs)"

definition expire_of :: "'a pnode_scheme heap \<Rightarrow> nat \<Rightarrow> int" where
  "expire_of h a = pexpire (the (h a))"

text \<open>\<open>relinked S h h'\<close>: the heap \<open>h'\<close> differs from \<open>h\<close> in nothing
  but links of packets of \<open>S\<close>.\<close>

definition relinked :: "nat set \<Rightarrow> 'a pnode_scheme heap \<Rightarrow> 'a pnode_scheme heap \<Rightarrow> bool" where
  "relinked S h h' \<longleftrightarrow>
     (\<forall>a. a \<notin> S \<longrightarrow> h' a = h a) \<and>
     (\<forall>a. map_option (pnext_update (\<lambda>_. None)) (h' a) = map_option (pnext_update (\<lambda>_. None)) (h a))"

lemma pseg_append: "pseg h p (xs @ ys) e \<longleftrightarrow> (\<exists>m. pseg h p xs m \<and> pseg h m ys e)"
  by (induction xs arbitrary: p) auto

lemma pseg_dom: "pseg h p xs e \<Longrightarrow> a \<in> set xs \<Longrightarrow> \<exists>n. h a = Some n"
  by (induction xs arbitrary: p) auto

lemma relinked_refl [simp]: "relinked S h h"
  by (simp add: relinked_def)

lemma relinked_trans: "relinked S h h' \<Longrightarrow> relinked T h' h'' \<Longrightarrow> S \<union> T \<subseteq> U \<Longrightarrow> relinked U h h''"
  unfolding relinked_def by (metis Un_iff subsetD)

lemma relinked_mono: "relinked S h h' \<Longrightarrow> S \<subseteq> T \<Longrightarrow> relinked T h h'"
  by (auto simp: relinked_def)

lemma relinked_upd: "h a = Some n \<Longrightarrow> relinked {a} h (h(a \<mapsto> n\<lparr>pnext := x\<rparr>))"
  by (auto simp: relinked_def)

lemma relinked_expire:
  fixes h h' :: "'a pnode_scheme heap"
  assumes "relinked S h h'"
  shows "expire_of h' = expire_of h"
proof
  fix a
  have "map_option pexpire (map_option (pnext_update (\<lambda>_. None)) (h' a)) =
        map_option pexpire (map_option (pnext_update (\<lambda>_. None)) (h a))"
    using assms by (simp add: relinked_def)
  then have "map_option pexpire (h' a) = map_option pexpire (h a)"
    by (simp add: option.map_comp comp_def)
  then show "expire_of h' a = expire_of h a"
    by (cases "h a"; cases "h' a") (simp_all add: expire_of_def)
qed

lemma relinked_dom: "relinked S h h' \<Longrightarrow> dom h' = dom h"
  by (auto simp: relinked_def dom_def) (metis not_None_eq option.map_disc_iff)+

lemma pseg_relinked: "relinked S h h' \<Longrightarrow> S \<inter> set xs = {} \<Longrightarrow> pseg h p xs e \<Longrightarrow> pseg h' p xs e"
  by (induction xs arbitrary: p) (auto simp: relinked_def)

lemma set_next_eq:
  "h a = Some n \<Longrightarrow> set_next (Some a) nx h = Some (h(a \<mapsto> n\<lparr>pnext := nx\<rparr>))"
  by (simp add: set_next_def)

text \<open>Linking the last packet of a segment to another place, and nothing else.\<close>

lemma set_next_last:
  assumes "pseg h p (xs @ [a]) e" and "distinct (xs @ [a])"
  shows "succeeds (set_next (Some a) e' h) (\<lambda>h'. pseg h' p (xs @ [a]) e' \<and> relinked {a} h h')"
proof -
  obtain n where n: "h a = Some n" and xs: "pseg h p xs (Some a)"
    using assms(1) by (auto simp: pseg_append)
  have "pseg (h(a \<mapsto> n\<lparr>pnext := e'\<rparr>)) p xs (Some a)"
    using pseg_relinked [OF _ _ xs] relinked_upd [of h a n, OF n] assms(2) by fastforce
  then show ?thesis
    using n by (auto simp: set_next_eq pseg_append relinked_upd)
qed

lemma pq_rep_Nil [simp]: "pq_rep h q [] \<longleftrightarrow> q = pq_new"
  by (cases q) (auto simp: pq_rep_def pq_new_def)

lemma pq_rep_new [simp]: "pq_rep h pq_new xs \<longleftrightarrow> xs = []"
  by (cases xs) (auto simp: pq_rep_def pq_new_def)

lemma pq_rep_head: "pq_rep h q xs \<Longrightarrow> qhead q = (if xs = [] then None else Some (hd xs))"
  by (cases xs) (auto simp: pq_rep_def)

lemma pq_rep_relinked: "relinked S h h' \<Longrightarrow> S \<inter> set xs = {} \<Longrightarrow> pq_rep h q xs \<Longrightarrow> pq_rep h' q xs"
  by (auto simp: pq_rep_def intro: pseg_relinked)

lemma pq_rep_dom: "pq_rep h q xs \<Longrightarrow> set xs \<subseteq> dom h"
  by (auto simp: pq_rep_def dest: pseg_dom)

lemma get_expire_eq: "a \<in> dom h \<Longrightarrow> get_expire (Some a) h = Some (expire_of h a)"
  by (auto simp: get_expire_def expire_of_def)

text \<open>Two representations never describe different lists: the heap determines it.\<close>

lemma pseg_unique:
  "pseg h p xs None \<Longrightarrow> pseg h p ys None \<Longrightarrow> xs = ys"
proof (induction xs arbitrary: p ys)
  case Nil
  then show ?case by (cases ys) auto
next
  case (Cons a xs)
  then show ?case by (cases ys) auto
qed

subsection \<open>PacketQueue refines lists\<close>

lemma pq_link:
  assumes "pq_rep h q xs" and "xs \<noteq> []" and "pseg h p ys None" and "set xs \<inter> set ys = {}"
  shows "succeeds (set_next (qtail q) p h)
           (\<lambda>h'. pseg h' (qhead q) (xs @ ys) None \<and> relinked {last xs} h h')"
proof -
  obtain zs b where xs: "xs = zs @ [b]"
    using assms(2) by (metis append_butlast_last_id)
  have "succeeds (set_next (Some b) p h) (\<lambda>h'. pseg h' (qhead q) (zs @ [b]) p \<and> relinked {b} h h')"
    using assms(1) set_next_last [of h "qhead q" zs b None p] by (simp add: pq_rep_def xs)
  then have "succeeds (set_next (Some b) p h)
      (\<lambda>h'. pseg h' (qhead q) (xs @ ys) None \<and> relinked {b} h h')"
    by (rule succeeds_mono) (use assms(3,4) pseg_relinked [of "{b}" h _ ys p None] in \<open>auto simp: pseg_append xs\<close>)
  moreover have "qtail q = Some b"
    using assms(1) by (simp add: pq_rep_def xs)
  ultimately show ?thesis
    by (simp add: xs)
qed

lemma pq_pop_rep:
  "pq_rep h q (a # xs) \<Longrightarrow> succeeds (pq_pop h q) (\<lambda>(p, q'). p = Some a \<and> pq_rep h q' xs)"
  by (cases xs) (auto simp: pq_rep_def pq_pop_def get_next_def Let_def)

lemma pq_pop_new: "pq_pop h pq_new = Some (None, pq_new)"
  by (simp add: pq_pop_def pq_new_def)

lemma pq_push_rep:
  assumes "pq_rep h q xs" and "p \<notin> set xs" and "p \<in> dom h"
  shows "succeeds (pq_push p h q) (\<lambda>(h', q'). pq_rep h' q' (xs @ [p]) \<and> relinked (insert p (set xs)) h h')"
proof -
  obtain n where n: "h p = Some n"
    using assms(3) by auto
  let ?h1 = "h(p \<mapsto> n\<lparr>pnext := None\<rparr>)"
  have r1: "relinked {p} h ?h1"
    using n by (rule relinked_upd)
  have rep1: "pq_rep ?h1 q xs"
    using r1 _ assms(1) by (rule pq_rep_relinked) (use assms(2) in simp)
  show ?thesis
  proof (cases "xs = []")
    case True
    then show ?thesis
      using assms(1) n r1 by (simp add: pq_push_def set_next_eq pq_rep_def pq_new_def Let_def)
  next
    case False
    have "succeeds (set_next (qtail q) (Some p) ?h1)
        (\<lambda>h'. pseg h' (qhead q) (xs @ [p]) None \<and> relinked {last xs} ?h1 h')"
      using rep1 False by (rule pq_link) (use assms(2) in auto)
    then obtain h2 where h2: "set_next (qtail q) (Some p) ?h1 = Some h2"
      "pseg h2 (qhead q) (xs @ [p]) None" "relinked {last xs} ?h1 h2"
      by (auto elim: succeedsE)
    have "relinked (insert p (set xs)) h h2"
      using r1 h2(3) by (rule relinked_trans) (use False in auto)
    with h2(1,2) False assms(1,2) n show ?thesis
      by (auto simp: pq_push_def set_next_eq pq_rep_def Let_def)
  qed
qed

text \<open>Appending a whole queue, the body shared by \<open>moveTo\<close> and \<open>moveBack\<close>.\<close>

lemma pq_moveBack_rep:
  assumes "pq_rep h q xs" and "pq_rep h src ys" and "set xs \<inter> set ys = {}"
  shows "succeeds (pq_moveBack h q src)
    (\<lambda>(h', q', src'). pq_rep h' q' (xs @ ys) \<and> src' = pq_new \<and> relinked (set xs \<union> set ys) h h')"
proof (cases "ys = []")
  case True
  then show ?thesis
    using assms by (simp add: pq_moveBack_def pq_new_def)
next
  case ys: False
  have p: "pseg h (qhead src) ys None" "qhead src \<noteq> None"
    using assms(2) ys pq_rep_head [OF assms(2)] by (auto simp: pq_rep_def)
  show ?thesis
  proof (cases "xs = []")
    case True
    then show ?thesis
      using assms p by (auto simp: pq_moveBack_def pq_rep_def pq_new_def Let_def)
  next
    case False
    obtain h2 where h2: "set_next (qtail q) (qhead src) h = Some h2"
      "pseg h2 (qhead q) (xs @ ys) None" "relinked {last xs} h h2"
      using pq_link [OF assms(1) False p(1) assms(3)] by (auto elim: succeedsE)
    have "relinked (set xs \<union> set ys) h h2"
      using h2(3) by (rule relinked_mono) (use False in auto)
    with h2(1,2) ys False assms p(2) show ?thesis
      by (auto simp: pq_moveBack_def pq_rep_def pq_new_def Let_def)
  qed
qed

lemma pq_moveTo_moveBack:
  "pq_moveTo h q dest = map_option (\<lambda>(h', d, s). (h', s, d)) (pq_moveBack h dest q)"
  by (cases "set_next (qtail dest) (qhead q) h") (auto simp: pq_moveTo_def pq_moveBack_def Let_def)

lemma pq_free_loop_rep:
  "pseg h p xs None \<Longrightarrow> distinct xs \<Longrightarrow> pq_free_loop h p = Some (h |` (- set xs))"
proof (induction xs arbitrary: h p)
  case Nil
  then show ?case
    by (simp add: pq_free_loop.simps)
next
  case (Cons a xs)
  then obtain n where n: "p = Some a" "h a = Some n" "pseg h (pnext n) xs None"
    by auto
  have "pseg (h(a := None)) (pnext n) xs None"
    using n(3) Cons.prems(2) by (induction xs arbitrary: n) (auto simp: fun_upd_def)
  then have "pq_free_loop (h(a := None)) (pnext n) = Some ((h(a := None)) |` (- set xs))"
    by (rule Cons.IH) (use Cons.prems(2) in simp)
  then show ?case
    using n by (subst pq_free_loop.simps) (auto simp: restrict_map_def)
qed

text \<open>\<open>getTimeoutList\<close> cuts the packets at the head that expired before \<open>now\<close>
  off the queue.\<close>

lemma get_next_seg: "pseg h (Some a) (a # xs) e \<Longrightarrow> succeeds (get_next (Some a) h) (\<lambda>nx. pseg h nx xs e)"
  by (auto simp: get_next_def)

lemma pq_timeout_loop_rep:
  assumes "pseg h (qhead q) ys None" and "distinct (ts @ ys)" and "qsize q = of_nat (length ys)"
    and "pseg h lst ts (if ts = [] then None else qhead q)"
    and "tail = (if ts = [] then None else Some (last ts))"
  shows "succeeds (pq_timeout_loop now h q lst tail)
     (\<lambda>(h', q', lst', tail'). h' = h \<and>
        (let as = takeWhile (\<lambda>a. expire_of h a < now) ys; bs = dropWhile (\<lambda>a. expire_of h a < now) ys
         in pseg h (qhead q') bs None \<and> pseg h lst' (ts @ as) (if ts @ as = [] then None else qhead q') \<and>
            tail' = (if ts @ as = [] then None else Some (last (ts @ as))) \<and>
            qsize q' = of_nat (length bs) \<and> qtail q' = qtail q))"
  using assms
proof (induction ys arbitrary: q lst tail ts)
  case Nil
  then show ?case
    by (simp add: pq_timeout_loop.simps Let_def)
next
  case (Cons a ys)
  obtain n where n: "qhead q = Some a" "h a = Some n" "pseg h (pnext n) ys None"
    using Cons.prems(1) by auto
  show ?case
  proof (cases "expire_of h a < now")
    case False
    then show ?thesis
      using Cons.prems n by (subst pq_timeout_loop.simps) (auto simp: get_expire_def expire_of_def)
  next
    case True
    let ?q = "q\<lparr>qsize := qsize q - 1, qhead := pnext n\<rparr>"
    let ?lst = "if tail = None then Some a else lst"
    have same: "set_next (Some (last ts)) (Some a) h = Some h" if "ts \<noteq> []"
    proof -
      obtain zs b where ts: "ts = zs @ [b]"
        using \<open>ts \<noteq> []\<close> by (metis append_butlast_last_id)
      then obtain m where "h b = Some m" "pnext m = Some a"
        using Cons.prems(4) n(1) by (auto simp: pseg_append)
      then show ?thesis
        by (simp add: ts set_next_eq map_upd_triv)
    qed
    have "succeeds (pq_timeout_loop now h ?q ?lst (Some a))
       (\<lambda>(h', q', lst', tail'). h' = h \<and>
        (let as = takeWhile (\<lambda>a. expire_of h a < now) ys; bs = dropWhile (\<lambda>a. expire_of h a < now) ys
         in pseg h (qhead q') bs None \<and>
            pseg h lst' ((ts @ [a]) @ as) (if (ts @ [a]) @ as = [] then None else qhead q') \<and>
            tail' = (if (ts @ [a]) @ as = [] then None else Some (last ((ts @ [a]) @ as))) \<and>
            qsize q' = of_nat (length bs) \<and> qtail q' = qtail ?q))"
      by (rule Cons.IH) (use Cons.prems n in \<open>auto simp: pseg_append\<close>)
    moreover have "pq_timeout_loop now h q lst tail = pq_timeout_loop now h ?q ?lst (Some a)"
      using True n Cons.prems(5) same
      by (subst pq_timeout_loop.simps) (auto simp: get_expire_def get_next_def expire_of_def Let_def)
    ultimately show ?thesis
      using True by (auto simp: Let_def simp del: last_append elim!: succeeds_mono)
  qed
qed

lemma pq_getTimeoutList_rep:
  fixes now :: int
  assumes "pq_rep h q xs"
  defines "as \<equiv> takeWhile (\<lambda>a. expire_of h a < now) xs"
    and "bs \<equiv> dropWhile (\<lambda>a. expire_of h a < now) xs"
  shows "succeeds (pq_getTimeoutList now h q)
    (\<lambda>(h', q', lst). pq_rep h' q' bs \<and> pseg h' lst as None \<and> relinked (set as) h h')"
proof -
  have dist: "distinct (as @ bs)"
    using assms(1) by (simp add: pq_rep_def as_def bs_def)
  obtain q' lst tail where loop: "pq_timeout_loop now h q None None = Some (h, q', lst, tail)"
    "pseg h (qhead q') bs None" "pseg h lst as (if as = [] then None else qhead q')"
    "tail = (if as = [] then None else Some (last as))" "qsize q' = of_nat (length bs)"
    "qtail q' = qtail q"
    using pq_timeout_loop_rep [of h q xs "[]" None None now] assms(1)
    by (auto simp: pq_rep_def as_def bs_def Let_def elim!: succeedsE split: prod.splits)
  have tail: "bs \<noteq> [] \<Longrightarrow> qtail q' = Some (last bs)"
    using assms(1) loop(6) unfolding pq_rep_def bs_def
    by (metis last_appendR takeWhile_dropWhile_id append_is_Nil_conv)
  show ?thesis
  proof (cases "as = []")
    case True
    then show ?thesis
      using loop tail dist by (cases bs) (auto simp: pq_getTimeoutList_def pq_rep_def Let_def)
  next
    case False
    then obtain zs b where as: "as = zs @ [b]"
      by (metis append_butlast_last_id)
    have "succeeds (set_next (Some b) None h) (\<lambda>h'. pseg h' lst (zs @ [b]) None \<and> relinked {b} h h')"
      by (rule set_next_last) (use loop(3) dist in \<open>auto simp: as\<close>)
    then obtain h2 where h2: "set_next (Some b) None h = Some h2" "pseg h2 lst as None" "relinked {b} h h2"
      by (auto simp: as elim: succeedsE)
    have "pseg h2 (qhead q') bs None"
      using h2(3) _ loop(2) by (rule pseg_relinked) (use dist as in auto)
    moreover have "relinked (set as) h h2"
      using h2(3) by (rule relinked_mono) (simp add: as)
    ultimately show ?thesis
      using h2 loop(1,4,5) tail dist as
      by (cases bs) (auto simp: pq_getTimeoutList_def pq_rep_def Let_def)
  qed
qed

subsection \<open>OrderedPacketQueue refines sorted lists\<close>

abbreviation opq_sorted :: "(nat \<Rightarrow> int) \<Rightarrow> nat list \<Rightarrow> bool" where
  "opq_sorted ex xs \<equiv> sorted (map ex xs)"

text \<open>The list operations the ordered queue is meant to compute: insertion behind every
  packet that does not expire later, and the merge that prefers the second queue on
  equal times.\<close>

definition opq_insert :: "(nat \<Rightarrow> int) \<Rightarrow> nat \<Rightarrow> nat list \<Rightarrow> nat list" where
  "opq_insert ex p xs = takeWhile (\<lambda>a. ex a \<le> ex p) xs @ p # dropWhile (\<lambda>a. ex a \<le> ex p) xs"

fun opq_merge :: "(nat \<Rightarrow> int) \<Rightarrow> nat list \<Rightarrow> nat list \<Rightarrow> nat list" where
  "opq_merge ex [] ys = ys"
| "opq_merge ex (x # xs) [] = x # xs"
| "opq_merge ex (x # xs) (y # ys) =
     (if ex x < ex y then x # opq_merge ex xs (y # ys) else y # opq_merge ex (x # xs) ys)"

lemma mset_opq_insert [simp]: "mset (opq_insert ex p xs) = add_mset p (mset xs)"
proof -
  have "mset (opq_insert ex p xs) = add_mset p (mset (takeWhile (\<lambda>a. ex a \<le> ex p) xs @ dropWhile (\<lambda>a. ex a \<le> ex p) xs))"
    unfolding opq_insert_def by (simp del: takeWhile_dropWhile_id)
  then show ?thesis
    by simp
qed

lemma mset_opq_merge [simp]: "mset (opq_merge ex xs ys) = mset xs + mset ys"
  by (induction ex xs ys rule: opq_merge.induct) auto

lemma set_opq_insert [simp]: "set (opq_insert ex p xs) = insert p (set xs)"
  by (metis mset_opq_insert set_mset_add_mset_insert set_mset_mset)

lemma set_opq_merge [simp]: "set (opq_merge ex xs ys) = set xs \<union> set ys"
  by (metis mset_opq_merge set_mset_mset set_mset_union)

lemma length_opq_merge [simp]: "length (opq_merge ex xs ys) = length xs + length ys"
  by (induction ex xs ys rule: opq_merge.induct) auto

lemma distinct_opq_merge: "distinct (xs @ ys) \<Longrightarrow> distinct (opq_merge ex xs ys)"
  by (induction ex xs ys rule: opq_merge.induct) auto

lemma sorted_opq_insert [inv_intros]:
  assumes "opq_sorted ex xs"
  shows "opq_sorted ex (opq_insert ex p xs)"
proof -
  have "ex p \<le> ex a" if "a \<in> set (dropWhile (\<lambda>a. ex a \<le> ex p) xs)" for a
    using assms that by (induction xs) (auto split: if_splits)
  moreover have "opq_sorted ex (takeWhile (\<lambda>a. ex a \<le> ex p) xs)"
    and "opq_sorted ex (dropWhile (\<lambda>a. ex a \<le> ex p) xs)"
    using assms by (metis map_append sorted_append takeWhile_dropWhile_id)+
  ultimately show ?thesis
    by (force simp: opq_insert_def sorted_append dest: set_takeWhileD)
qed

lemma sorted_opq_merge [inv_intros]:
  "opq_sorted ex xs \<Longrightarrow> opq_sorted ex ys \<Longrightarrow> opq_sorted ex (opq_merge ex xs ys)"
  by (induction ex xs ys rule: opq_merge.induct) (auto 0 3)

lemma opq_merge_front:
  "ys \<noteq> [] \<Longrightarrow> xs \<noteq> [] \<Longrightarrow> opq_sorted ex ys \<Longrightarrow> ex (last ys) \<le> ex (hd xs) \<Longrightarrow> opq_merge ex xs ys = ys @ xs"
proof (induction ys)
  case (Cons y ys)
  have "ex y \<le> ex (last (y # ys))"
    using Cons.prems(3) last_in_set [of "y # ys"] by (cases ys) auto
  then have "\<not> ex (hd xs) < ex y"
    using Cons.prems(4) by simp
  with Cons show ?case
    by (cases xs; cases "ys = []") auto
qed simp

lemma opq_find_seg:
  assumes "pseg h p1 xs e" and "\<exists>a\<in>set xs. t < expire_of h a"
  defines "as \<equiv> takeWhile (\<lambda>a. expire_of h a \<le> t) xs" and "bs \<equiv> dropWhile (\<lambda>a. expire_of h a \<le> t) xs"
  shows "opq_find t h p1 p2 = Some (Some (hd bs), if as = [] then p2 else Some (last as))"
  using assms(1,2) unfolding as_def bs_def
proof (induction xs arbitrary: p1 p2)
  case (Cons a xs)
  then obtain n where "p1 = Some a" "h a = Some n" "pseg h (pnext n) xs e"
    by auto
  moreover from this Cons have "expire_of h a \<le> t \<Longrightarrow> opq_find t h (pnext n) (Some a) =
      Some (Some (hd (dropWhile (\<lambda>a. expire_of h a \<le> t) xs)),
        if takeWhile (\<lambda>a. expire_of h a \<le> t) xs = [] then Some a
        else Some (last (takeWhile (\<lambda>a. expire_of h a \<le> t) xs)))"
    by fastforce
  ultimately show ?case
    by (subst opq_find.simps) (auto simp: get_expire_def get_next_def expire_of_def)
qed simp

lemma opq_splice:
  assumes "pseg h p (as @ bs) None" and "distinct (as @ bs)" and "as \<noteq> []" and "bs \<noteq> []"
    and "a \<notin> set (as @ bs)" and "h a = Some n" and "pnext n = Some (hd bs)"
  shows "succeeds (set_next (Some (last as)) (Some a) h)
           (\<lambda>h'. pseg h' p (as @ a # bs) None \<and> relinked {last as} h h')"
proof -
  obtain zs b where as: "as = zs @ [b]"
    using assms(3) by (metis append_butlast_last_id)
  have bs: "pseg h (Some (hd bs)) bs None"
    using assms(1,4) by (cases bs) (auto simp: pseg_append)
  have "\<exists>e. pseg h p (zs @ [b]) e"
    using assms(1) unfolding as pseg_append [of h p _ bs] by blast
  then have "succeeds (set_next (Some b) (Some a) h) (\<lambda>h'. pseg h' p (zs @ [b]) (Some a) \<and> relinked {b} h h')"
    using set_next_last [of h p zs b _ "Some a"] assms(2) as by auto
  then have "succeeds (set_next (Some b) (Some a) h) (\<lambda>h'. pseg h' p (as @ a # bs) None \<and> relinked {b} h h')"
  proof (rule succeeds_mono, elim conjE, intro conjI)
    fix h' assume h': "pseg h' p (zs @ [b]) (Some a)" "relinked {b} h h'"
    have "pseg h' (Some a) (a # bs) None"
      using h'(2) _ by (rule pseg_relinked) (use assms bs as in auto)
    with h'(1) show "pseg h' p (as @ a # bs) None"
      by (auto simp: as pseg_append)
  qed
  then show ?thesis
    by (simp add: as)
qed

lemma opq_sorted_le_last: "opq_sorted ex xs \<Longrightarrow> a \<in> set xs \<Longrightarrow> ex a \<le> ex (last xs)"
  by (induction xs) auto

lemma opq_insert_tail: "opq_sorted ex xs \<Longrightarrow> ex (last xs) \<le> ex p \<Longrightarrow> opq_insert ex p xs = xs @ [p]"
proof -
  assume sorted: "opq_sorted ex xs" and p: "ex (last xs) \<le> ex p"
  have "\<forall>a\<in>set xs. ex a \<le> ex p"
    using opq_sorted_le_last [OF sorted] p by fastforce
  then show ?thesis
    by (simp add: opq_insert_def takeWhile_eq_all_conv dropWhile_eq_Nil_conv)
qed

lemma opq_insert_head: "xs \<noteq> [] \<Longrightarrow> ex p < ex (hd xs) \<Longrightarrow> opq_insert ex p xs = p # xs"
  by (cases xs) (simp_all add: opq_insert_def)

lemma length_opq_insert [simp]: "length (opq_insert ex p xs) = Suc (length xs)"
  by (metis mset_opq_insert size_add_mset size_mset)

lemma distinct_opq_insert: "distinct xs \<Longrightarrow> p \<notin> set xs \<Longrightarrow> distinct (opq_insert ex p xs)"
  by (auto simp: opq_insert_def distinct_append dest: set_takeWhileD set_dropWhileD)
    (metis disjoint_iff distinct_append takeWhile_dropWhile_id)

lemma last_opq_insert:
  assumes "xs \<noteq> []" and "ex p < ex (last xs)"
  shows "last (opq_insert ex p xs) = last xs"
proof -
  have "dropWhile (\<lambda>a. ex a \<le> ex p) xs \<noteq> []"
    using assms last_in_set [OF assms(1)] unfolding dropWhile_eq_Nil_conv by (metis not_le)
  then have "last (opq_insert ex p xs) = last (takeWhile (\<lambda>a. ex a \<le> ex p) xs @ dropWhile (\<lambda>a. ex a \<le> ex p) xs)"
    unfolding opq_insert_def by (simp del: takeWhile_dropWhile_id dropWhile_eq_Nil_conv)
  then show ?thesis
    by simp
qed

text \<open>Insertion between two packets of the queue.\<close>

lemma opq_push_middle:
  assumes rep: "pq_rep h q xs" and p: "p \<notin> set xs" "h p = Some n" and "xs \<noteq> []"
    and "ex p < ex (last xs)" and "ex (hd xs) \<le> ex p" and ex: "expire_of h = ex"
  shows "succeeds (do {
           (p1, p2) \<leftarrow> opq_find (ex p) h (qhead q) (qhead q);
           h \<leftarrow> set_next (Some p) p1 h;
           set_next p2 (Some p) h })
         (\<lambda>h'. pseg h' (qhead q) (opq_insert ex p xs) None \<and> relinked (insert p (set xs)) h h')"
proof -
  let ?as = "takeWhile (\<lambda>a. ex a \<le> ex p) xs" and ?bs = "dropWhile (\<lambda>a. ex a \<le> ex p) xs"
  have big: "\<exists>a\<in>set xs. ex p < ex a"
    using assms(4,5) last_in_set by blast
  have as: "?as \<noteq> []"
    using assms(4,6) by (cases xs) auto
  have bs: "?bs \<noteq> []"
    using big unfolding dropWhile_eq_Nil_conv by (metis not_le)
  let ?h2 = "h(p \<mapsto> n\<lparr>pnext := Some (hd ?bs)\<rparr>)"
  have r2: "relinked {p} h ?h2"
    using p(2) by (rule relinked_upd)
  have find: "opq_find (ex p) h (qhead q) (qhead q) = Some (Some (hd ?bs), Some (last ?as))"
    using opq_find_seg [of h "qhead q" xs None "ex p" "qhead q"] rep as big ex by (simp add: pq_rep_def)
  have seg2: "pseg ?h2 (qhead q) (?as @ ?bs) None"
    using r2 _ by (rule pseg_relinked) (use p rep in \<open>auto simp: pq_rep_def\<close>)
  have "succeeds (set_next (Some (last ?as)) (Some p) ?h2)
      (\<lambda>h'. pseg h' (qhead q) (?as @ p # ?bs) None \<and> relinked {last ?as} ?h2 h')"
    using seg2 _ as bs by (rule opq_splice) (use p rep in \<open>auto simp: pq_rep_def\<close>)
  then have "succeeds (set_next (Some (last ?as)) (Some p) ?h2)
      (\<lambda>h'. pseg h' (qhead q) (opq_insert ex p xs) None \<and> relinked (insert p (set xs)) h h')"
    by (rule succeeds_mono)
      (use r2 as set_takeWhileD [OF last_in_set [OF as]] in \<open>auto simp: opq_insert_def intro: relinked_trans\<close>)
  then show ?thesis
    by (simp add: find set_next_eq p(2))
qed

lemma opq_push_rep:
  assumes rep: "pq_rep h q xs" and sorted: "opq_sorted (expire_of h) xs"
    and p: "p \<notin> set xs" "p \<in> dom h"
  shows "succeeds (opq_push p h q)
    (\<lambda>(h', q'). pq_rep h' q' (opq_insert (expire_of h) p xs) \<and> relinked (insert p (set xs)) h h')"
proof (cases "xs = []")
  case True
  then show ?thesis
    using assms by (auto simp: opq_push_def pq_rep_def pq_new_def opq_insert_def set_next_eq relinked_upd)
next
  case False
  let ?ex = "expire_of h"
  obtain n where n: "h p = Some n"
    using p(2) by auto
  define h1 where "h1 = h(p \<mapsto> n\<lparr>pnext := None\<rparr>)"
  have r1: "relinked {p} h h1"
    using n unfolding h1_def by (rule relinked_upd)
  have rep1: "pq_rep h1 q xs"
    using r1 _ rep by (rule pq_rep_relinked) (use p(1) in simp)
  have ex1: "expire_of h1 = ?ex"
    using r1 by (rule relinked_expire)
  have start: "set_next (Some p) None h = Some h1" "h1 p = Some (n\<lparr>pnext := None\<rparr>)"
    using n by (simp_all add: set_next_eq h1_def)
  have ends: "qhead q = Some (hd xs)" "qtail q = Some (last xs)"
    using rep False pq_rep_head [OF rep] by (simp_all add: pq_rep_def)
  have "get_expire (Some a) h1 = Some (?ex a)" if "a \<in> insert p (set xs)" for a
    using that p(2) pq_rep_dom [OF rep] relinked_dom [OF r1] ex1 get_expire_eq [of a h1] by auto
  then have times: "get_expire (Some p) h1 = Some (?ex p)"
    "get_expire (Some (last xs)) h1 = Some (?ex (last xs))" "get_expire (Some (hd xs)) h1 = Some (?ex (hd xs))"
    using False by simp_all
  have fin: "pq_rep h' q' (opq_insert ?ex p xs)"
    if "pseg h' (qhead q') (opq_insert ?ex p xs) None" "qtail q' = Some (last (opq_insert ?ex p xs))"
      "qsize q' = qsize q + 1" for h' q'
    using that rep p(1) distinct_opq_insert [of xs p ?ex] set_opq_insert [of ?ex p xs]
    by (auto simp: pq_rep_def simp del: set_opq_insert)
  note defs = opq_push_def Let_def start ends times
  consider "?ex (last xs) \<le> ?ex p" | "?ex p < ?ex (last xs)" "?ex p < ?ex (hd xs)"
    | "?ex p < ?ex (last xs)" "?ex (hd xs) \<le> ?ex p"
    by linarith
  then show ?thesis
  proof cases
    case 1
    obtain h2 where h2: "set_next (Some (last xs)) (Some p) h1 = Some h2"
      "pseg h2 (qhead q) (xs @ [p]) None" "relinked {last xs} h1 h2"
      using pq_link [OF rep1 False, of "Some p" "[p]"] p(1) ends start(2) by (auto elim: succeedsE)
    have "relinked (insert p (set xs)) h h2"
      using r1 h2(3) by (rule relinked_trans) (use False in auto)
    with 1 h2 fin [of h2 "q\<lparr>qsize := qsize q + 1, qtail := Some p\<rparr>"] show ?thesis
      by (simp add: defs opq_insert_tail [OF sorted 1])
  next
    case 2
    let ?h2 = "h1(p \<mapsto> n\<lparr>pnext := Some (hd xs)\<rparr>)"
    have r2: "relinked {p} h ?h2"
      using n relinked_upd [of h p n "Some (hd xs)"] by (simp add: h1_def)
    have "pseg ?h2 (Some (hd xs)) xs None"
      using r2 _ by (rule pseg_relinked) (use p rep ends in \<open>auto simp: pq_rep_def\<close>)
    moreover have "relinked (insert p (set xs)) h ?h2"
      using r2 by (rule relinked_mono) simp
    ultimately show ?thesis
      using 2 fin [of ?h2 "q\<lparr>qsize := qsize q + 1, qhead := Some p\<rparr>"] False
      by (simp add: defs opq_insert_head set_next_eq)
  next
    case 3
    obtain p1 p2 h2 h3 where mid: "opq_find (?ex p) h1 (Some (hd xs)) (Some (hd xs)) = Some (p1, p2)"
      "set_next (Some p) p1 h1 = Some h2" "set_next p2 (Some p) h2 = Some h3"
      "pseg h3 (Some (hd xs)) (opq_insert ?ex p xs) None" "relinked (insert p (set xs)) h1 h3"
      using opq_push_middle [OF rep1 p(1) start(2) False 3(1,2) ex1] ends
      by (auto simp: succeeds_def bind_eq_Some_conv split: prod.splits)
    have "relinked (insert p (set xs)) h h3"
      using r1 mid(5) by (rule relinked_trans) auto
    with 3 mid fin [of h3 "q\<lparr>qsize := qsize q + 1\<rparr>"] show ?thesis
      by (simp add: defs last_opq_insert [OF False 3(1)])
  qed
qed

lemma opq_merge_step:
  assumes "pseg h p (zs @ [c]) e" and "pseg h (Some a) (a # xs) None" and "pseg h r ys None"
    and "distinct (zs @ [c] @ a # xs @ ys)"
  shows "succeeds (do { h' \<leftarrow> set_next (Some c) (Some a) h;
                        l' \<leftarrow> get_next (Some a) h';
                        cur' \<leftarrow> get_next (Some c) h';
                        Some (h', l', cur') })
          (\<lambda>(h', l', cur'). cur' = Some a \<and> pseg h' p ((zs @ [c]) @ [a]) l' \<and> pseg h' l' xs None \<and>
             pseg h' r ys None \<and> relinked {c} h h')"
proof -
  obtain h' where h': "set_next (Some c) (Some a) h = Some h'" "pseg h' p (zs @ [c]) (Some a)"
    "relinked {c} h h'"
    using set_next_last [OF assms(1), of "Some a"] assms(4) by (auto elim: succeedsE)
  have "pseg h' (Some a) (a # xs) None" "pseg h' r ys None"
    using h'(3) assms by (auto intro!: pseg_relinked [of "{c}" h h'] simp del: pseg.simps)
  with h' show ?thesis
    by (auto simp: get_next_def pseg_append)
qed

text \<open>The merge loop: it extends a merged prefix until one input is used up. Its result
  is a prefix of the merged list \<open>ms\<close> that ends in \<open>cur\<close>, and one non-empty
  rest that ends where its input ended.\<close>

definition opq_merged ::
  "ptr \<Rightarrow> nat list \<Rightarrow> nat \<Rightarrow> nat \<Rightarrow> 'a pnode_scheme heap \<times> ptr \<times> ptr \<times> ptr \<Rightarrow> bool" where
  "opq_merged p ms lx ly = (\<lambda>(h, cur, l, r).
     \<exists>zs c xs ys e. cur = Some c \<and> ms = (zs @ [c]) @ xs @ ys \<and>
       pseg h p (zs @ [c]) e \<and> pseg h l xs None \<and> pseg h r ys None \<and>
       (xs \<noteq> [] \<and> ys = [] \<and> last xs = lx \<or> xs = [] \<and> ys \<noteq> [] \<and> last ys = ly))"

lemma opq_merged_stop:
  assumes "pseg h p (zs @ [c]) e" and "pseg h l xs None" and "pseg h r ys None"
    and "xs \<noteq> [] \<and> ys = [] \<or> xs = [] \<and> ys \<noteq> []"
    and "xs \<noteq> [] \<longrightarrow> last xs = lx" and "ys \<noteq> [] \<longrightarrow> last ys = ly"
  shows "opq_merged p ((zs @ [c]) @ opq_merge ex xs ys) lx ly (h, Some c, l, r)"
  unfolding opq_merged_def prod.case
  by (rule exI [of _ zs], rule exI [of _ c], rule exI [of _ xs], rule exI [of _ ys], rule exI [of _ e])
    (use assms in \<open>cases xs; auto\<close>)

lemma opq_merge_loop_rep:
  assumes "pseg h p (zs @ [c]) e" and "pseg h l xs None" and "pseg h r ys None"
    and "distinct (zs @ [c] @ xs @ ys)" and "expire_of h = ex" and "xs \<noteq> [] \<or> ys \<noteq> []"
    and "xs \<noteq> [] \<longrightarrow> last xs = lx" and "ys \<noteq> [] \<longrightarrow> last ys = ly"
    and "relinked S h0 h" and "set (zs @ [c] @ xs @ ys) \<subseteq> S"
  shows "succeeds (opq_merge_loop h (Some c) l r)
    (\<lambda>res. opq_merged p ((zs @ [c]) @ opq_merge ex xs ys) lx ly res \<and> relinked S h0 (fst res))"
  using assms
proof (induction ex xs ys arbitrary: h zs c e l r rule: opq_merge.induct)
  case (1 ex ys)
  then have "opq_merged p ((zs @ [c]) @ opq_merge ex [] ys) lx ly (h, Some c, l, r)"
    by (intro opq_merged_stop [of h p zs c e]) simp_all
  then show ?case
    using 1 by (subst opq_merge_loop.simps) simp
next
  case (2 ex x xs)
  then have "opq_merged p ((zs @ [c]) @ opq_merge ex (x # xs) []) lx ly (h, Some c, l, r)"
    by (intro opq_merged_stop [of h p zs c e]) simp_all
  then show ?case
    using 2 by (subst opq_merge_loop.simps) simp
next
  case (3 ex x xs y ys)
  have lr: "l = Some x" "r = Some y"
    using 3 by auto
  have times: "get_expire (Some x) h = Some (ex x)" "get_expire (Some y) h = Some (ex y)"
    using 3 by (auto simp: get_expire_def expire_of_def)
  have grow: "expire_of h' = ex \<and> relinked S h0 h'" if "relinked {c} h h'" for h'
    using that 3 relinked_expire [OF that] relinked_trans [of S h0 h "{c}" h' S] by simp
  show ?case
  proof (cases "ex x < ex y")
    case True
    obtain h' l' where h': "set_next (Some c) l h = Some h'" "get_next l h' = Some l'"
      "get_next (Some c) h' = Some (Some x)" "pseg h' p ((zs @ [c]) @ [x]) l'"
      "pseg h' l' xs None" "pseg h' r (y # ys) None" "relinked {c} h h'"
      using opq_merge_step [of h p zs c e x xs r "y # ys"] 3 lr
      by (auto simp: succeeds_def bind_eq_Some_conv)
    have "opq_merge_loop h (Some c) l r = opq_merge_loop h' (Some x) l' r"
      using True times h' lr by (subst opq_merge_loop.simps) simp
    moreover have "succeeds (opq_merge_loop h' (Some x) l' r) (\<lambda>res.
        opq_merged p (((zs @ [c]) @ [x]) @ opq_merge ex xs (y # ys)) lx ly res \<and> relinked S h0 (fst res))"
      by (rule "3.IH"(1) [OF True h'(4-6)]) (use 3 grow [OF h'(7)] in auto)
    ultimately show ?thesis
      using True by simp
  next
    case False
    have "distinct (zs @ [c] @ y # ys @ x # xs)"
      using "3.prems"(4) by auto
    then obtain h' r' where h': "set_next (Some c) r h = Some h'" "get_next r h' = Some r'"
      "get_next (Some c) h' = Some (Some y)" "pseg h' p ((zs @ [c]) @ [y]) r'"
      "pseg h' r' ys None" "pseg h' l (x # xs) None" "relinked {c} h h'"
      using opq_merge_step [of h p zs c e y ys l "x # xs"] 3 lr
      by (auto simp: succeeds_def bind_eq_Some_conv)
    have "opq_merge_loop h (Some c) l r = opq_merge_loop h' (Some y) l r'"
      using False times h' lr by (subst opq_merge_loop.simps) simp
    moreover have "succeeds (opq_merge_loop h' (Some y) l r') (\<lambda>res.
        opq_merged p (((zs @ [c]) @ [y]) @ opq_merge ex (x # xs) ys) lx ly res \<and> relinked S h0 (fst res))"
      by (rule "3.IH"(2) [OF False h'(4,6,5)]) (use 3 grow [OF h'(7)] in auto)
    ultimately show ?thesis
      using False by simp
  qed
qed

lemma opq_merged_finish:
  assumes "opq_merged p ms lx ly (h, cur, l, r)" and "distinct ms"
  shows "succeeds (set_next cur (if l \<noteq> None then l else r) h)
           (\<lambda>h'. pseg h' p ms None \<and> relinked (set ms) h h') \<and>
         last ms = (if l \<noteq> None then lx else ly) \<and> ms \<noteq> []"
proof -
  obtain zs c xs ys e where m: "cur = Some c" "ms = (zs @ [c]) @ xs @ ys" "pseg h p (zs @ [c]) e"
    "pseg h l xs None" "pseg h r ys None"
    "xs \<noteq> [] \<and> ys = [] \<and> last xs = lx \<or> xs = [] \<and> ys \<noteq> [] \<and> last ys = ly"
    using assms(1) unfolding opq_merged_def prod.case by blast
  let ?t = "if l \<noteq> None then l else r"
  have l: "l \<noteq> None \<longleftrightarrow> xs \<noteq> []"
    using m(4) by (cases xs) auto
  have rest: "pseg h ?t (xs @ ys) None"
    using m(4-6) l by auto
  have dist: "distinct (zs @ [c])" "c \<notin> set (xs @ ys)"
    using assms(2) m(2) by auto
  have "succeeds (set_next (Some c) ?t h) (\<lambda>h'. pseg h' p (zs @ [c]) ?t \<and> relinked {c} h h')"
    using m(3) dist(1) by (rule set_next_last)
  then have "succeeds (set_next (Some c) ?t h) (\<lambda>h'. pseg h' p ms None \<and> relinked (set ms) h h')"
  proof (rule succeeds_mono, elim conjE, intro conjI)
    fix h' assume h': "pseg h' p (zs @ [c]) ?t" "relinked {c} h h'"
    have "pseg h' ?t (xs @ ys) None"
      using h'(2) _ rest by (rule pseg_relinked) (use dist(2) in auto)
    with h'(1) show "pseg h' p ms None"
      unfolding m(2) pseg_append [of h' p "zs @ [c]"] by blast
    show "relinked (set ms) h h'"
      using h'(2) by (rule relinked_mono) (simp add: m(2))
  qed
  with m l show ?thesis
    by auto
qed

lemma opq_merge_all:
  assumes xs: "pseg h (Some x) (x # xs) None" and ys: "pseg h (Some y) (y # ys) None"
    and dist: "distinct ((x # xs) @ y # ys)" and ex: "ex = expire_of h"
  shows "succeeds (do {
      (head, l, r) \<leftarrow> (if ex x < ex y then do { l' \<leftarrow> get_next (Some x) h; Some (Some x, l', Some y) }
                       else do { r' \<leftarrow> get_next (Some y) h; Some (Some y, Some x, r') });
      (h', cur, l, r) \<leftarrow> opq_merge_loop h head l r;
      Some (head, h', cur, l, r) })
    (\<lambda>(head, h', res). opq_merged head (opq_merge ex (x # xs) (y # ys))
        (last (x # xs)) (last (y # ys)) (h', res) \<and> relinked (set (x # xs) \<union> set (y # ys)) h h')"
    (is "succeeds _ (\<lambda>(head, h', res). opq_merged head ?ms ?lx ?ly (h', res) \<and> relinked ?S h h')")
proof (cases "ex x < ex y")
  case True
  obtain l where l: "get_next (Some x) h = Some l" "pseg h l xs None" "pseg h (Some x) ([] @ [x]) l"
    using xs by (auto simp: get_next_def)
  have "succeeds (opq_merge_loop h (Some x) l (Some y))
      (\<lambda>res. opq_merged (Some x) (([] @ [x]) @ opq_merge ex xs (y # ys)) ?lx ?ly res \<and> relinked ?S h (fst res))"
    by (rule opq_merge_loop_rep [OF l(3,2) ys]) (use dist ex in auto)
  then show ?thesis
    using True l(1) by (auto simp: succeeds_def)
next
  case False
  obtain r where r: "get_next (Some y) h = Some r" "pseg h r ys None" "pseg h (Some y) ([] @ [y]) r"
    using ys by (auto simp: get_next_def)
  have "succeeds (opq_merge_loop h (Some y) (Some x) r)
      (\<lambda>res. opq_merged (Some y) (([] @ [y]) @ opq_merge ex (x # xs) ys) ?lx ?ly res \<and> relinked ?S h (fst res))"
    by (rule opq_merge_loop_rep [OF r(3) xs r(2)]) (use dist ex in auto)
  then show ?thesis
    using False r(1) by (auto simp: succeeds_def)
qed

lemma opq_moveBack_rep:
  assumes q: "pq_rep h q xs" "opq_sorted (expire_of h) xs"
    and src: "pq_rep h src ys" "opq_sorted (expire_of h) ys" and disj: "set xs \<inter> set ys = {}"
  shows "succeeds (opq_moveBack h q src)
    (\<lambda>(h', q', src'). pq_rep h' q' (opq_merge (expire_of h) xs ys) \<and> src' = pq_new \<and>
       relinked (set xs \<union> set ys) h h')"
proof -
  let ?ms = "opq_merge (expire_of h) xs ys"
  consider "ys = []" | "ys \<noteq> []" "xs = []" | "ys \<noteq> []" "xs \<noteq> []" "expire_of h (last ys) \<le> expire_of h (hd xs)"
    | "ys \<noteq> []" "xs \<noteq> []" "\<not> expire_of h (last ys) \<le> expire_of h (hd xs)"
    by blast
  moreover have ends: "ys \<noteq> [] \<Longrightarrow> qhead src = Some (hd ys)" "ys \<noteq> [] \<Longrightarrow> qtail src = Some (last ys)"
    "xs \<noteq> [] \<Longrightarrow> qhead q = Some (hd xs)" "xs \<noteq> [] \<Longrightarrow> qtail q = Some (last xs)"
    using q(1) src(1) pq_rep_head [OF q(1)] pq_rep_head [OF src(1)] by (simp_all add: pq_rep_def)
  moreover have times: "get_expire (Some a) h = Some (expire_of h a)" if "a \<in> set xs \<union> set ys" for a
    using that pq_rep_dom [OF q(1)] pq_rep_dom [OF src(1)] by (auto intro!: get_expire_eq)
  ultimately show ?thesis
  proof cases
    case 1
    then show ?thesis
      using assms by (cases xs) (simp_all add: opq_moveBack_def pq_new_def)
  next
    case 2
    then show ?thesis
      using assms pq_rep_head [OF src(1)] by (auto simp: opq_moveBack_def pq_rep_def pq_new_def Let_def)
  next
    case 3
    obtain h2 where h2: "set_next (qtail src) (qhead q) h = Some h2"
      "pseg h2 (qhead src) (ys @ xs) None" "relinked {last ys} h h2"
      using pq_link [OF src(1) 3(1), of "qhead q" xs] q(1) disj by (auto simp: pq_rep_def elim: succeedsE)
    have "relinked (set xs \<union> set ys) h h2"
      using h2(3) by (rule relinked_mono) (use 3 in auto)
    with 3 h2 ends times opq_merge_front [OF 3(1,2) src(2) 3(3)] assms show ?thesis
      by (auto simp: opq_moveBack_def pq_rep_def pq_new_def Let_def)
  next
    case 4
    obtain x xs' y ys' where xy: "xs = x # xs'" "ys = y # ys'"
      using 4(1,2) by (meson neq_Nil_conv)
    have rep: "pseg h (Some x) (x # xs') None" "pseg h (Some y) (y # ys') None" "distinct ((x # xs') @ y # ys')"
      using q(1) src(1) disj by (auto simp: pq_rep_def xy)
    note defs = opq_moveBack_def Let_def ends times
    obtain hd' l r h1 cur l' r' where m:
      "(if expire_of h x < expire_of h y then do { l' \<leftarrow> get_next (Some x) h; Some (Some x, l', Some y) }
        else do { r' \<leftarrow> get_next (Some y) h; Some (Some y, Some x, r') }) = Some (hd', l, r)"
      "opq_merge_loop h hd' l r = Some (h1, cur, l', r')"
      "opq_merged hd' ?ms (last xs) (last ys) (h1, cur, l', r')" "relinked (set xs \<union> set ys) h h1"
      using opq_merge_all [OF rep refl] unfolding succeeds_def bind_eq_Some_conv xy [symmetric]
      by (auto simp: bind_eq_Some_conv simp del: opq_merge.simps)
    have ms: "distinct ?ms"
      using rep(3) unfolding xy by (rule distinct_opq_merge)
    obtain h2 where h2: "set_next cur (if l' \<noteq> None then l' else r') h1 = Some h2"
      "pseg h2 hd' ?ms None" "relinked (set ?ms) h1 h2"
      "last ?ms = (if l' \<noteq> None then last xs else last ys)" "?ms \<noteq> []"
      using opq_merged_finish [OF m(3) ms] by (auto elim: succeedsE)
    have "relinked (set xs \<union> set ys) h h2"
      using m(4) h2(3) by (rule relinked_trans) simp
    moreover have "hd xs = x" "hd ys = y" "x \<in> set xs" "y \<in> set ys"
      by (simp_all add: xy)
    ultimately show ?thesis
      using 4 m(1,2) h2(1,2,4,5) ms q(1) src(1)
      by (cases l') (simp_all add: opq_moveBack_def Let_def pq_rep_def pq_new_def ends times)
  qed
qed

subsection \<open>The interface of a packet queue\<close>

text \<open>Connections use a queue through \<open>push\<close>, \<open>pop\<close> and the moves, the first
  and the last of them virtual. \<open>ins\<close> and \<open>cat\<close> are the list operations a
  class promises for them, \<open>ok\<close> its additional invariant.\<close>

fun pq_pushAll ::
  "(nat \<Rightarrow> 'a pnode_scheme heap \<Rightarrow> pqueue \<Rightarrow> ('a pnode_scheme heap \<times> pqueue) option) \<Rightarrow>
   nat list \<Rightarrow> 'a pnode_scheme heap \<Rightarrow> pqueue \<Rightarrow> ('a pnode_scheme heap \<times> pqueue) option" where
  "pq_pushAll push [] h q = Some (h, q)"
| "pq_pushAll push (p # ps) h q = do { (h, q) \<leftarrow> push p h q; pq_pushAll push ps h q }"

partial_function (option) pq_popAll :: "'a pnode_scheme heap \<Rightarrow> pqueue \<Rightarrow> (nat list \<times> pqueue) option" where
  "pq_popAll h q = do {
     (p, q) \<leftarrow> pq_pop h q;
     case p of None \<Rightarrow> Some ([], q)
     | Some a \<Rightarrow> do { (as, q) \<leftarrow> pq_popAll h q; Some (a # as, q) } }"

lemma pq_popAll_rep: "pq_rep h q xs \<Longrightarrow> pq_popAll h q = Some (xs, pq_new)"
proof (induction xs arbitrary: q)
  case Nil
  then show ?case
    by (subst pq_popAll.simps) (simp add: pq_pop_new)
next
  case (Cons a xs)
  then obtain q' where "pq_pop h q = Some (Some a, q')" "pq_rep h q' xs"
    using pq_pop_rep [of h q a xs] by (auto elim: succeedsE)
  with Cons.IH show ?case
    by (subst pq_popAll.simps) simp
qed

locale packet_queue =
  fixes push :: "nat \<Rightarrow> 'a pnode_scheme heap \<Rightarrow> pqueue \<Rightarrow> ('a pnode_scheme heap \<times> pqueue) option"
    and moveBack :: "'a pnode_scheme heap \<Rightarrow> pqueue \<Rightarrow> pqueue \<Rightarrow> ('a pnode_scheme heap \<times> pqueue \<times> pqueue) option"
    and ins :: "(nat \<Rightarrow> int) \<Rightarrow> nat \<Rightarrow> nat list \<Rightarrow> nat list"
    and cat :: "(nat \<Rightarrow> int) \<Rightarrow> nat list \<Rightarrow> nat list \<Rightarrow> nat list"
    and ok :: "(nat \<Rightarrow> int) \<Rightarrow> nat list \<Rightarrow> bool"
  assumes push_rep: "\<lbrakk>pq_rep h q xs; ok (expire_of h) xs; p \<notin> set xs; p \<in> dom h\<rbrakk> \<Longrightarrow>
      succeeds (push p h q) (\<lambda>(h', q'). pq_rep h' q' (ins (expire_of h) p xs) \<and> relinked (insert p (set xs)) h h')"
    and moveBack_rep: "\<lbrakk>pq_rep h q xs; ok (expire_of h) xs; pq_rep h src ys; ok (expire_of h) ys; set xs \<inter> set ys = {}\<rbrakk> \<Longrightarrow>
      succeeds (moveBack h q src) (\<lambda>(h', q', src'). pq_rep h' q' (cat (expire_of h) xs ys) \<and>
        src' = pq_new \<and> relinked (set xs \<union> set ys) h h')"
    and mset_ins: "mset (ins ex p xs) = add_mset p (mset xs)"
    and mset_cat: "mset (cat ex xs ys) = mset xs + mset ys"
    and ok_ins: "ok ex xs \<Longrightarrow> ok ex (ins ex p xs)"
    and ok_cat: "ok ex xs \<Longrightarrow> ok ex ys \<Longrightarrow> ok ex (cat ex xs ys)"
    and ok_Nil: "ok ex []"
begin

lemma set_ins: "set (ins ex p xs) = insert p (set xs)"
  by (metis mset_ins set_mset_add_mset_insert set_mset_mset)

lemma ok_fold: "ok ex xs \<Longrightarrow> ok ex (fold (ins ex) ps xs)"
  by (induction ps arbitrary: xs) (simp_all add: ok_ins)

lemma mset_fold: "mset (fold (ins ex) ps xs) = mset ps + mset xs"
  by (induction ps arbitrary: xs) (simp_all add: mset_ins)

lemma pushAll_rep:
  assumes "pq_rep h q xs" and "ok (expire_of h) xs" and "distinct (ps @ xs)" and "set ps \<subseteq> dom h"
  shows "succeeds (pq_pushAll push ps h q)
    (\<lambda>(h', q'). pq_rep h' q' (fold (ins (expire_of h)) ps xs) \<and> relinked (set ps \<union> set xs) h h')"
  using assms
proof (induction ps arbitrary: h q xs)
  case (Cons p ps)
  obtain h1 q1 where 1: "push p h q = Some (h1, q1)" "pq_rep h1 q1 (ins (expire_of h) p xs)"
    "relinked (insert p (set xs)) h h1"
    using push_rep [of h q xs p] Cons.prems by (auto elim: succeedsE)
  have ex: "expire_of h1 = expire_of h" and dom: "dom h1 = dom h"
    using relinked_expire [OF 1(3)] relinked_dom [OF 1(3)] by simp_all
  have "mset (ps @ ins (expire_of h) p xs) = mset ((p # ps) @ xs)"
    by (simp add: mset_ins)
  then have "distinct (ps @ ins (expire_of h) p xs)"
    using Cons.prems(3) mset_eq_imp_distinct_iff by blast
  then have "succeeds (pq_pushAll push ps h1 q1)
    (\<lambda>(h', q'). pq_rep h' q' (fold (ins (expire_of h1)) ps (ins (expire_of h) p xs)) \<and>
       relinked (set ps \<union> set (ins (expire_of h) p xs)) h1 h')"
    by (intro Cons.IH) (use Cons.prems 1 in \<open>auto simp: ex dom intro: ok_ins\<close>)
  then show ?case
    using 1(1,3) by (auto simp: ex set_ins succeeds_def intro!: relinked_trans)
qed simp

text \<open>Everything pushed comes out once: pushing any packets onto a queue, moving a
  second queue over and popping until the queue is empty never fails and yields each
  packet of the two queues exactly once.\<close>

lemma drain_complete:
  assumes "pq_rep h q xs" and "ok (expire_of h) xs" and "pq_rep h src ys" and "ok (expire_of h) ys"
    and "distinct (ps @ xs @ ys)" and "set ps \<subseteq> dom h"
  shows "succeeds (do { (h, q) \<leftarrow> pq_pushAll push ps h q;
                        (h, q, src) \<leftarrow> moveBack h q src;
                        pq_popAll h q })
     (\<lambda>(as, q'). as = cat (expire_of h) (fold (ins (expire_of h)) ps xs) ys \<and> mset as = mset (ps @ xs @ ys) \<and>
        ok (expire_of h) as \<and> q' = pq_new)"
proof -
  let ?zs = "fold (ins (expire_of h)) ps xs"
  obtain h1 q1 where 1: "pq_pushAll push ps h q = Some (h1, q1)" "pq_rep h1 q1 ?zs"
    "relinked (set ps \<union> set xs) h h1"
    using pushAll_rep [OF assms(1,2), of ps] assms(5,6) by (auto simp: Int_Un_distrib elim: succeedsE)
  have ex: "expire_of h1 = expire_of h"
    using 1(3) by (rule relinked_expire)
  have sz: "set ?zs = set ps \<union> set xs"
    using arg_cong [OF mset_fold, of set_mset "expire_of h" ps xs] by simp
  have "pq_rep h1 src ys"
    using 1(3) _ assms(3) by (rule pq_rep_relinked) (use assms(5) in auto)
  then obtain h2 q2 where 2: "moveBack h1 q1 src = Some (h2, q2, pq_new)" "pq_rep h2 q2 (cat (expire_of h) ?zs ys)"
    using moveBack_rep [OF 1(2) _ _, of src ys] ok_fold assms(2,4,5) ex sz
    by (auto simp: Int_Un_distrib Int_Un_distrib2 elim!: succeedsE)
  have "ok (expire_of h) (cat (expire_of h) ?zs ys)"
    using assms(2,4) ok_fold ok_cat by blast
  with 1(1) 2 show ?thesis
    by (simp add: pq_popAll_rep mset_cat mset_fold)
qed

end

interpretation fifo: packet_queue pq_push pq_moveBack "\<lambda>ex p xs. xs @ [p]" "\<lambda>ex xs ys. xs @ ys" "\<lambda>ex xs. True"
  by unfold_locales (auto intro: pq_push_rep pq_moveBack_rep)

interpretation ordered: packet_queue opq_push opq_moveBack opq_insert opq_merge opq_sorted
  by unfold_locales (auto intro: opq_push_rep opq_moveBack_rep inv_intros)

subsection \<open>Properties\<close>

lemma filter_opq_insert:
  assumes "opq_sorted ex xs"
  shows "filter (\<lambda>a. k = ex a) (opq_insert ex p xs) = filter (\<lambda>a. k = ex a) xs @ filter (\<lambda>a. k = ex a) [p]"
proof -
  let ?as = "takeWhile (\<lambda>a. ex a \<le> ex p) xs" and ?bs = "dropWhile (\<lambda>a. ex a \<le> ex p) xs"
  have "ex p < ex a" if "a \<in> set ?bs" for a
    using assms that by (induction xs) (auto split: if_splits)
  then have "k = ex p \<Longrightarrow> filter (\<lambda>a. k = ex a) ?bs = []"
    by (fastforce simp: filter_empty_conv)
  moreover have "filter (\<lambda>a. k = ex a) xs = filter (\<lambda>a. k = ex a) ?as @ filter (\<lambda>a. k = ex a) ?bs"
    by (metis filter_append takeWhile_dropWhile_id)
  ultimately show ?thesis
    by (auto simp: opq_insert_def)
qed

lemma fold_opq_insert: "fold (opq_insert ex) ps [] = sort_key ex ps"
proof (rule properties_for_sort_key [symmetric])
  show "mset (fold (opq_insert ex) ps []) = mset ps"
    using ordered.mset_fold [of ex ps "[]"] by simp
  show "opq_sorted ex (fold (opq_insert ex) ps [])"
    by (rule ordered.ok_fold) simp
  have "filter (\<lambda>x. ex k = ex x) (fold (opq_insert ex) ps xs) =
      filter (\<lambda>x. ex k = ex x) xs @ filter (\<lambda>x. ex k = ex x) ps"
    if "opq_sorted ex xs" for k xs
    using that by (induction ps arbitrary: xs) (auto simp: filter_opq_insert sorted_opq_insert)
  then show "filter (\<lambda>x. ex k = ex x) (fold (opq_insert ex) ps []) = filter (\<lambda>x. ex k = ex x) ps"
    if "k \<in> set (fold (opq_insert ex) ps [])" for k
    by simp
qed

text \<open>Property C17. \<open>OrderedPacketQueue\<close> as a whole: pushing any distinct packets
  onto an empty ordered queue and popping until it is empty never fails, and the packets
  come out in the order of a stable sort by expire time, packets with equal times in the
  order they were pushed.\<close>

theorem ordered_queue_stable_sort:
  assumes "distinct ps" and "set ps \<subseteq> dom h"
  shows "succeeds (do { (h', q) \<leftarrow> pq_pushAll opq_push ps h pq_new; pq_popAll h' q })
           (\<lambda>(as, q). as = sort_key (expire_of h) ps \<and> q = pq_new)"
  using ordered.pushAll_rep [of h pq_new "[]" ps] assms fold_opq_insert [of "expire_of h" ps]
  by (auto simp: succeeds_def pq_popAll_rep)

theorem ordered_queue_stable_sort_witness:
  "succeeds (do {
      (h', q) \<leftarrow> pq_pushAll opq_push [0, 1, 2, 3]
        [0 \<mapsto> \<lparr>pnext = None, pexpire = 30\<rparr>, 1 \<mapsto> \<lparr>pnext = Some 7, pexpire = 10\<rparr>,
         2 \<mapsto> \<lparr>pnext = None, pexpire = 20\<rparr>, 3 \<mapsto> \<lparr>pnext = None, pexpire = 10\<rparr>] pq_new;
      pq_popAll h' q })
    (\<lambda>(as, q). as = [1, 3, 2, 0] \<and> q = pq_new)"
  using ordered_queue_stable_sort [of "[0, 1, 2, 3]"
    "[0 \<mapsto> \<lparr>pnext = None, pexpire = 30\<rparr>, 1 \<mapsto> \<lparr>pnext = Some 7, pexpire = 10\<rparr>,
      2 \<mapsto> \<lparr>pnext = None, pexpire = 20\<rparr>, 3 \<mapsto> \<lparr>pnext = None, pexpire = 10\<rparr>]"]
  by (simp add: expire_of_def)

text \<open>Property C13. \<open>OrderedPacketQueue::moveBack\<close>: for two disjoint sorted queues the
  pointer code (with its two short cuts) returns, the receiver holds the merge of the two
  lists, which is again sorted, a permutation of both and ends with the right tail and
  size, the source is empty, and no packet field other than a link has changed.\<close>

theorem ordered_moveBack_merges:
  assumes "pq_rep h q xs" and "opq_sorted (expire_of h) xs"
    and "pq_rep h src ys" and "opq_sorted (expire_of h) ys" and "set xs \<inter> set ys = {}"
  shows "succeeds (opq_moveBack h q src)
    (\<lambda>(h', q', src'). pq_rep h' q' (opq_merge (expire_of h) xs ys) \<and>
       opq_sorted (expire_of h') (opq_merge (expire_of h) xs ys) \<and>
       mset (opq_merge (expire_of h) xs ys) = mset xs + mset ys \<and>
       src' = pq_new \<and> relinked (set xs \<union> set ys) h h')"
  using opq_moveBack_rep [OF assms] sorted_opq_merge [OF assms(2,4)]
  by (auto simp: succeeds_def relinked_expire)

theorem ordered_moveBack_merges_witness:
  "succeeds (opq_moveBack
       [0 \<mapsto> \<lparr>pnext = Some 1, pexpire = 10\<rparr>, 1 \<mapsto> \<lparr>pnext = None, pexpire = 30\<rparr>,
        2 \<mapsto> \<lparr>pnext = Some 3, pexpire = 10\<rparr>, 3 \<mapsto> \<lparr>pnext = None, pexpire = 20\<rparr>]
       \<lparr>qhead = Some 0, qtail = Some 1, qsize = 2\<rparr> \<lparr>qhead = Some 2, qtail = Some 3, qsize = 2\<rparr>)
     (\<lambda>(h', q', src'). pq_rep h' q' [2, 0, 3, 1] \<and> src' = pq_new)"
  using ordered_moveBack_merges [of
    "[0 \<mapsto> \<lparr>pnext = Some 1, pexpire = 10\<rparr>, 1 \<mapsto> \<lparr>pnext = None, pexpire = 30\<rparr>,
        2 \<mapsto> \<lparr>pnext = Some 3, pexpire = 10\<rparr>, 3 \<mapsto> \<lparr>pnext = None, pexpire = 20\<rparr>]"
    "\<lparr>qhead = Some 0, qtail = Some 1, qsize = 2\<rparr>" "[0, 1]"
    "\<lparr>qhead = Some 2, qtail = Some 3, qsize = 2\<rparr>" "[2, 3]"]
  by (auto simp: pq_rep_def expire_of_def succeeds_def)

lemma sorted_filter_split:
  assumes "opq_sorted ex xs"
  shows "takeWhile (\<lambda>a. ex a < now) xs = filter (\<lambda>a. ex a < now) xs"
    and "dropWhile (\<lambda>a. ex a < now) xs = filter (\<lambda>a. now \<le> ex a) xs"
proof -
  have late: "filter (\<lambda>a. ex a < now) ys = [] \<and> filter (\<lambda>a. now \<le> ex a) ys = ys"
    if "\<forall>x\<in>set ys. k \<le> ex x" "now \<le> k" for ys k
    using that by (fastforce simp: filter_empty_conv filter_id_conv)
  show "takeWhile (\<lambda>a. ex a < now) xs = filter (\<lambda>a. ex a < now) xs"
    "dropWhile (\<lambda>a. ex a < now) xs = filter (\<lambda>a. now \<le> ex a) xs"
    using assms by (induction xs) (use late in \<open>auto simp: not_less\<close>)
qed

text \<open>Property C30. Timeout scan of an ordered queue: \<open>getTimeoutList\<close> returns, the list
  it hands out consists of exactly the packets with an expire time before \<open>now\<close>, in
  order and terminated, the queue keeps exactly the others, and no packet is lost.\<close>

theorem ordered_timeout_split:
  assumes "pq_rep h q xs" and "opq_sorted (expire_of h) xs"
  shows "succeeds (pq_getTimeoutList now h q)
    (\<lambda>(h', q', lst). pseg h' lst (filter (\<lambda>a. expire_of h a < now) xs) None \<and>
       pq_rep h' q' (filter (\<lambda>a. now \<le> expire_of h a) xs) \<and> relinked (set xs) h h')"
  using pq_getTimeoutList_rep [OF assms(1), of now] sorted_filter_split [OF assms(2)]
  by (auto elim!: succeeds_mono relinked_mono)

theorem ordered_timeout_split_witness:
  "succeeds (pq_getTimeoutList 20
       [0 \<mapsto> \<lparr>pnext = Some 1, pexpire = 10\<rparr>, 1 \<mapsto> \<lparr>pnext = None, pexpire = 20\<rparr>]
       \<lparr>qhead = Some 0, qtail = Some 1, qsize = 2\<rparr>)
     (\<lambda>(h', q', lst). pseg h' lst [0] None \<and> pq_rep h' q' [1])"
  using ordered_timeout_split [of
    "[0 \<mapsto> \<lparr>pnext = Some 1, pexpire = 10\<rparr>, 1 \<mapsto> \<lparr>pnext = None, pexpire = 20\<rparr>]"
    "\<lparr>qhead = Some 0, qtail = Some 1, qsize = 2\<rparr>" "[0, 1]" 20]
  by (auto simp: pq_rep_def expire_of_def succeeds_def)

text \<open>\<open>PacketQueue\<close> as a whole, on a queue \<open>q\<close> and a disjoint queue
  \<open>src\<close>: pushing packets, appending \<open>src\<close> with \<open>moveBack\<close> and popping until
  empty yields first the packets that were in \<open>q\<close>, then the pushed ones, then those
  of \<open>src\<close>, each in its order and each exactly once.\<close>

theorem fifo_queue_order:
  assumes "pq_rep h q xs" and "pq_rep h src ys" and "distinct (ps @ xs @ ys)" and "set ps \<subseteq> dom h"
  shows "succeeds (do { (h, q) \<leftarrow> pq_pushAll pq_push ps h q;
                        (h, q, src) \<leftarrow> pq_moveBack h q src;
                        pq_popAll h q })
     (\<lambda>(as, q'). as = xs @ ps @ ys \<and> q' = pq_new)"
proof -
  have "fold (\<lambda>p xs. xs @ [p]) ps xs = xs @ ps"
    by (induction ps arbitrary: xs) simp_all
  with fifo.drain_complete [OF assms(1) _ assms(2) _ assms(3,4)] show ?thesis
    by (auto elim!: succeeds_mono)
qed

theorem fifo_queue_order_witness:
  "succeeds (do { (h, q) \<leftarrow> pq_pushAll pq_push [4]
            [0 \<mapsto> \<lparr>pnext = None, pexpire = 9\<rparr>, 2 \<mapsto> \<lparr>pnext = None, pexpire = 3\<rparr>,
             4 \<mapsto> \<lparr>pnext = Some 2, pexpire = 5\<rparr>]
            \<lparr>qhead = Some 0, qtail = Some 0, qsize = 1\<rparr>;
         (h, q, src) \<leftarrow> pq_moveBack h q \<lparr>qhead = Some 2, qtail = Some 2, qsize = 1\<rparr>;
         pq_popAll h q })
     (\<lambda>(as, q'). as = [0, 4, 2] \<and> q' = pq_new)"
  using fifo_queue_order [of
    "[0 \<mapsto> \<lparr>pnext = None, pexpire = 9\<rparr>, 2 \<mapsto> \<lparr>pnext = None, pexpire = 3\<rparr>,
      4 \<mapsto> \<lparr>pnext = Some 2, pexpire = 5\<rparr>]"
    "\<lparr>qhead = Some 0, qtail = Some 0, qsize = 1\<rparr>" "[0]"
    "\<lparr>qhead = Some 2, qtail = Some 2, qsize = 1\<rparr>" "[2]" "[4]"]
  by (simp add: pq_rep_def)

text \<open>Property C31. The destructor frees every packet of the queue exactly once, reads no
  freed packet, touches no other packet, and leaves the queue empty.\<close>

theorem destroy_frees_all:
  assumes "pq_rep h q xs"
  shows "pq_destroy h q = Some (h |` (- set xs), pq_new)"
  using assms pq_free_loop_rep [of h "qhead q" xs]
  by (simp add: pq_rep_def pq_destroy_def pq_new_def)

theorem destroy_frees_all_witness:
  "pq_destroy [0 \<mapsto> \<lparr>pnext = Some 1, pexpire = 10\<rparr>, 1 \<mapsto> \<lparr>pnext = None, pexpire = 20\<rparr>]
     \<lparr>qhead = Some 0, qtail = Some 1, qsize = 2\<rparr> = Some (Map.empty, pq_new)"
  using destroy_frees_all [of
    "[0 \<mapsto> \<lparr>pnext = Some 1, pexpire = 10\<rparr>, 1 \<mapsto> \<lparr>pnext = None, pexpire = 20\<rparr>]"
    "\<lparr>qhead = Some 0, qtail = Some 1, qsize = 2\<rparr>" "[0, 1]"]
  by (simp add: pq_rep_def)

end
