(* ===== verification/ChannelPool.thy ===== *)
theory ChannelPool
  imports PacketQueues
begin

text \<open>
  \<open>anet::Channel\<close> and \<open>anet::ChannelPool\<close> (\<open>network/anet/channel.cpp\<close>,
  \<open>channelpool.cpp\<close>): channels wait for the reply to a request. The pool keeps them on
  two doubly linked lists, the free list and the list of channels that wait, sorted by
  expire time, with a hash map from channel ids to waiting channels. The links are
  written on an explicit heap. Each operation runs under the mutex of the list it works
  on, so it is one step. The lemmas show that the links stay consistent under every
  operation, that the map and the waiting list agree, that no channel is lost or on two
  lists, and that generated ids are never zero and do not repeat too early.
\<close>

subsection \<open>Channels\<close>

text \<open>The field \<open>_placeholder\<close>, which only the direct packets use, is left to the
  extension of the record.\<close>

record channel =
  cprev :: ptr
  cnext :: ptr
  cid :: "64 word"
  cexpire :: int
  ctimeout :: int
  chandler :: ptr
  cargs :: ptr

definition ch_init :: "64 word \<Rightarrow> 'a channel_scheme \<Rightarrow> 'a channel_scheme" where
  "ch_init i c = c\<lparr>cprev := None, cnext := None, cid := i, cexpire := 0, ctimeout := 0,
     chandler := None, cargs := None\<rparr>"

definition c_set_next :: "ptr \<Rightarrow> ptr \<Rightarrow> 'a channel_scheme heap \<Rightarrow> 'a channel_scheme heap option" where
  "c_set_next p nx h = do { a \<leftarrow> p; n \<leftarrow> h a; Some (h(a \<mapsto> n\<lparr>cnext := nx\<rparr>)) }"

definition c_set_prev :: "ptr \<Rightarrow> ptr \<Rightarrow> 'a channel_scheme heap \<Rightarrow> 'a channel_scheme heap option" where
  "c_set_prev p pr h = do { a \<leftarrow> p; n \<leftarrow> h a; Some (h(a \<mapsto> n\<lparr>cprev := pr\<rparr>)) }"

subsection \<open>The pool\<close>

text \<open>The heap of channels, the first address not yet given out by \<open>new\<close>, and the
  counter \<open>_globalChannelId\<close>, which is static in the code, belong to the state.\<close>

record 'a chpool =
  ch_heap :: "'a channel_scheme heap"
  ch_brk :: nat
  globalChannelId :: "64 word"
  waitReplyMap :: "64 word \<rightharpoonup> nat"
  clusterList :: "nat list"
  freeListHead :: ptr
  freeListTail :: ptr
  waitReplyHead :: ptr
  waitReplyTail :: ptr
  useCount :: "32 word"

definition AUTO_CHANNEL_ID_MAX :: "64 word" where
  "AUTO_CHANNEL_ID_MAX = 0x0FFFFFFFFFFFFFFF"

definition HTTP_CHANNEL_ID :: "64 word" where
  "HTTP_CHANNEL_ID = 0x10000000"

definition ADMIN_CHANNEL_ID :: "64 word" where
  "ADMIN_CHANNEL_ID = 0x10000001"

definition CHANNEL_CLUSTER_SIZE :: nat where
  "CHANNEL_CLUSTER_SIZE = 64"

definition cp_new :: "64 word \<Rightarrow> 'a chpool" where
  "cp_new g = \<lparr>ch_heap = Map.empty, ch_brk = 0, globalChannelId = g, waitReplyMap = Map.empty,
     clusterList = [], freeListHead = None, freeListTail = None, waitReplyHead = None,
     waitReplyTail = None, useCount = 0\<rparr>"

text \<open>The \<open>do\<close> loop of \<open>createChannelId\<close>; \<open>continue\<close> goes on to the test
  \<open>0 == id\<close>, so an id that is skipped has been set to zero.\<close>

partial_function (option) cp_id_loop :: "64 word \<Rightarrow> (64 word \<times> 64 word) option" where
  "cp_id_loop g =
     (let g = g + 1;
          i = g AND AUTO_CHANNEL_ID_MAX;
          low = ucast (ucast i :: 32 word) :: 64 word;
          i = (if low = HTTP_CHANNEL_ID \<or> low = ADMIN_CHANNEL_ID \<or> low = 0 then 0 else i)
      in if i = 0 then cp_id_loop g else Some (i, g))"

definition createChannelId :: "64 word \<Rightarrow> 64 word \<Rightarrow> (64 word \<times> 64 word) option" where
  "createChannelId chid g =
     (if chid \<le> AUTO_CHANNEL_ID_MAX \<and> chid \<noteq> HTTP_CHANNEL_ID \<and> chid \<noteq> ADMIN_CHANNEL_ID
      then cp_id_loop g else Some (chid, g))"

text \<open>\<open>new Channel[CHANNEL_CLUSTER_SIZE]\<close> at address \<open>base\<close>; the constructor of
  each element is \<open>init(0)\<close>.\<close>

definition new_cluster :: "'a channel_scheme \<Rightarrow> nat \<Rightarrow> 'a channel_scheme heap \<Rightarrow> 'a channel_scheme heap" where
  "new_cluster c0 base h =
     (\<lambda>a. if base \<le> a \<and> a < base + CHANNEL_CLUSTER_SIZE then Some (ch_init 0 c0) else h a)"

fun cp_link_cluster :: "nat list \<Rightarrow> nat \<Rightarrow> 'a channel_scheme heap \<Rightarrow> ptr \<Rightarrow> ('a channel_scheme heap \<times> ptr) option" where
  "cp_link_cluster [] base h tail = Some (h, tail)"
| "cp_link_cluster (i # is) base h tail = do {
     h \<leftarrow> c_set_next tail (Some (base + i)) h;
     h \<leftarrow> c_set_prev (Some (base + i)) tail h;
     t \<leftarrow> deref h tail;
     cp_link_cluster is base h (cnext t) }"

definition cp_takeFree :: "'a channel_scheme \<Rightarrow> 'a chpool \<Rightarrow> (nat \<times> 'a chpool) option" where
  "cp_takeFree c0 s =
     (case freeListHead s of
        None \<Rightarrow> do {
          let base = ch_brk s;
          let h = new_cluster c0 base (ch_heap s);
          let s = s\<lparr>ch_brk := base + CHANNEL_CLUSTER_SIZE, clusterList := clusterList s @ [base]\<rparr>;
          (h, tail) \<leftarrow> cp_link_cluster [2..<CHANNEL_CLUSTER_SIZE] base h (Some (base + 1));
          h \<leftarrow> c_set_prev (Some (base + 1)) None h;
          h \<leftarrow> c_set_next tail None h;
          Some (base, s\<lparr>ch_heap := h, freeListHead := Some (base + 1), freeListTail := tail\<rparr>) }
      | Some a \<Rightarrow> do {
          c \<leftarrow> ch_heap s a;
          let s = s\<lparr>freeListHead := cnext c\<rparr>;
          if freeListHead s \<noteq> None then do {
            h \<leftarrow> c_set_prev (freeListHead s) None (ch_heap s);
            Some (a, s\<lparr>ch_heap := h\<rparr>) }
          else Some (a, s\<lparr>freeListTail := None\<rparr>) })"

definition allocChannel :: "'a channel_scheme \<Rightarrow> 64 word \<Rightarrow> 'a chpool \<Rightarrow> (nat \<times> 'a chpool) option" where
  "allocChannel c0 chid s = do {
     (a, s) \<leftarrow> cp_takeFree c0 s;
     (i, g) \<leftarrow> createChannelId chid (globalChannelId s);
     c \<leftarrow> ch_heap s a;
     Some (a, s\<lparr>globalChannelId := g, ch_heap := (ch_heap s)(a \<mapsto> ch_init i c),
                useCount := useCount s + 1\<rparr>) }"

definition freeWaitingChannel :: "nat \<Rightarrow> 'a chpool \<Rightarrow> 'a chpool option" where
  "freeWaitingChannel a s = do {
     c \<leftarrow> ch_heap s a;
     let s = s\<lparr>waitReplyMap := (waitReplyMap s)(cid c := None)\<rparr>;
     let s = (if Some a = waitReplyHead s then s\<lparr>waitReplyHead := cnext c\<rparr> else s);
     let s = (if Some a = waitReplyTail s then s\<lparr>waitReplyTail := cprev c\<rparr> else s);
     h \<leftarrow> (if cprev c \<noteq> None then c_set_next (cprev c) (cnext c) (ch_heap s) else Some (ch_heap s));
     c \<leftarrow> h a;
     h \<leftarrow> (if cnext c \<noteq> None then c_set_prev (cnext c) (cprev c) h else Some h);
     Some (s\<lparr>ch_heap := h\<rparr>) }"

definition recycleChannel :: "nat \<Rightarrow> 'a chpool \<Rightarrow> 'a chpool option" where
  "recycleChannel a s = do {
     h \<leftarrow> c_set_prev (Some a) (freeListTail s) (ch_heap s);
     h \<leftarrow> c_set_next (Some a) None h;
     (h, s) \<leftarrow> (if freeListTail s = None then Some (h, s\<lparr>freeListHead := Some a\<rparr>)
                 else do { h \<leftarrow> c_set_next (freeListTail s) (Some a) h; Some (h, s) });
     Some (s\<lparr>ch_heap := h, freeListTail := Some a\<rparr>) }"

definition freeChannel :: "ptr \<Rightarrow> 'a chpool \<Rightarrow> (bool \<times> 'a chpool) option" where
  "freeChannel p s =
     (case p of None \<Rightarrow> Some (False, s)
      | Some a \<Rightarrow> do {
          c \<leftarrow> ch_heap s a;
          s \<leftarrow> (if cexpire c > 0 then freeWaitingChannel a s else Some s);
          s \<leftarrow> recycleChannel a s;
          Some (True, s\<lparr>useCount := useCount s - 1\<rparr>) })"

definition findChannel :: "64 word \<Rightarrow> 'a chpool \<Rightarrow> ptr" where
  "findChannel i s = waitReplyMap s i"

partial_function (option) cp_timeout_loop :: "int \<Rightarrow> ptr \<Rightarrow> 'a chpool \<Rightarrow> (ptr \<times> 'a chpool) option" where
  "cp_timeout_loop now p s =
     (case p of None \<Rightarrow> Some (None, s)
      | Some a \<Rightarrow> do {
          c \<leftarrow> ch_heap s a;
          if cexpire c = 0 \<or> cexpire c \<ge> now then Some (p, s)
          else cp_timeout_loop now (cnext c)
                 (s\<lparr>waitReplyMap := (waitReplyMap s)(cid c := None), useCount := useCount s - 1\<rparr>) })"

definition cp_getTimeoutList :: "int \<Rightarrow> 'a chpool \<Rightarrow> (ptr \<times> 'a chpool) option" where
  "cp_getTimeoutList now s =
     (if waitReplyHead s = None then Some (None, s)
      else do {
        (p, s) \<leftarrow> cp_timeout_loop now (waitReplyHead s) s;
        if p \<noteq> waitReplyHead s then do {
          let lst = waitReplyHead s;
          if p = None then Some (lst, s\<lparr>waitReplyHead := None, waitReplyTail := None\<rparr>)
          else do {
            c \<leftarrow> deref (ch_heap s) p;
            h \<leftarrow> c_set_next (cprev c) None (ch_heap s);
            h \<leftarrow> c_set_prev p None h;
            Some (lst, s\<lparr>ch_heap := h, waitReplyHead := p\<rparr>) } }
        else Some (None, s) })"

partial_function (option) cp_last :: "'a channel_scheme heap \<Rightarrow> nat \<Rightarrow> nat option" where
  "cp_last h a = do {
     c \<leftarrow> h a;
     case cnext c of None \<Rightarrow> Some a | Some b \<Rightarrow> cp_last h b }"

definition appendFreeList :: "ptr \<Rightarrow> 'a chpool \<Rightarrow> (bool \<times> 'a chpool) option" where
  "appendFreeList addList s =
     (case addList of None \<Rightarrow> Some (True, s)
      | Some a \<Rightarrow> do {
          tail \<leftarrow> cp_last (ch_heap s) a;
          h \<leftarrow> c_set_prev (Some a) (freeListTail s) (ch_heap s);
          (h, s) \<leftarrow> (if freeListTail s = None then Some (h, s\<lparr>freeListHead := Some a\<rparr>)
                      else do { h \<leftarrow> c_set_next (freeListTail s) (Some a) h; Some (h, s) });
          Some (True, s\<lparr>ch_heap := h, freeListTail := Some tail\<rparr>) })"

text \<open>The search for the first channel that expires later, from the second one on.\<close>

partial_function (option) cp_find_later :: "int \<Rightarrow> 'a channel_scheme heap \<Rightarrow> ptr \<Rightarrow> ptr option" where
  "cp_find_later t h p =
     (case p of None \<Rightarrow> Some None
      | Some a \<Rightarrow> do {
          c \<leftarrow> h a;
          if cexpire c > t then Some p else cp_find_later t h (cnext c) })"

definition addToWaitingList :: "nat \<Rightarrow> 'a chpool \<Rightarrow> 'a chpool option" where
  "addToWaitingList a s = do {
     c \<leftarrow> ch_heap s a;
     if cexpire c = 0 then Some s
     else do {
       let s = s\<lparr>waitReplyMap := (waitReplyMap s)(cid c \<mapsto> a)\<rparr>;
       case waitReplyHead s of
         None \<Rightarrow> Some (s\<lparr>ch_heap := (ch_heap s)(a \<mapsto> c\<lparr>cprev := None, cnext := None\<rparr>),
                         waitReplyHead := Some a, waitReplyTail := Some a\<rparr>)
       | Some w \<Rightarrow> do {
           hc \<leftarrow> ch_heap s w;
           if cexpire hc > cexpire c then do {
             h \<leftarrow> c_set_prev (Some a) None (ch_heap s);
             h \<leftarrow> c_set_next (Some a) (Some w) h;
             h \<leftarrow> c_set_prev (Some w) (Some a) h;
             Some (s\<lparr>ch_heap := h, waitReplyHead := Some a\<rparr>) }
           else do {
             nextChannel \<leftarrow> cp_find_later (cexpire c) (ch_heap s) (cnext hc);
             case nextChannel of
               None \<Rightarrow> do {
                 h \<leftarrow> c_set_prev (Some a) (waitReplyTail s) (ch_heap s);
                 h \<leftarrow> c_set_next (Some a) None h;
                 h \<leftarrow> c_set_next (waitReplyTail s) (Some a) h;
                 Some (s\<lparr>ch_heap := h, waitReplyTail := Some a\<rparr>) }
             | Some b \<Rightarrow> do {
                 nc \<leftarrow> ch_heap s b;
                 let preChannel = cprev nc;
                 h \<leftarrow> c_set_prev (Some a) preChannel (ch_heap s);
                 h \<leftarrow> c_set_next (Some a) (Some b) h;
                 h \<leftarrow> c_set_next preChannel (Some a) h;
                 h \<leftarrow> c_set_prev (Some b) (Some a) h;
                 Some (s\<lparr>ch_heap := h\<rparr>) } } } } }"

subsection \<open>Doubly linked segments\<close>

text \<open>\<open>dseg h pr p xs nx la\<close>: from \<open>p\<close> the channels \<open>xs\<close> are linked
  in both directions; \<open>pr\<close> is the back link of the first, \<open>nx\<close> the forward link
  of the last, and \<open>la\<close> points to the last one (\<open>pr\<close> if there is none).\<close>

fun dseg :: "'a channel_scheme heap \<Rightarrow> ptr \<Rightarrow> ptr \<Rightarrow> nat list \<Rightarrow> ptr \<Rightarrow> ptr \<Rightarrow> bool" where
  "dseg h pr p [] nx la \<longleftrightarrow> p = nx \<and> la = pr"
| "dseg h pr p (a # as) nx la \<longleftrightarrow>
     p = Some a \<and> (\<exists>n. h a = Some n \<and> cprev n = pr \<and> dseg h (Some a) (cnext n) as nx la)"

definition c_relinked :: "nat set \<Rightarrow> 'a channel_scheme heap \<Rightarrow> 'a channel_scheme heap \<Rightarrow> bool" where
  "c_relinked S h h' \<longleftrightarrow>
     (\<forall>a. a \<notin> S \<longrightarrow> h' a = h a) \<and>
     (\<forall>a. map_option (\<lambda>c. c\<lparr>cprev := None, cnext := None\<rparr>) (h' a) =
          map_option (\<lambda>c. c\<lparr>cprev := None, cnext := None\<rparr>) (h a))"

definition cexpire_of :: "'a channel_scheme heap \<Rightarrow> nat \<Rightarrow> int" where
  "cexpire_of h a = cexpire (the (h a))"

definition cid_of :: "'a channel_scheme heap \<Rightarrow> nat \<Rightarrow> 64 word" where
  "cid_of h a = cid (the (h a))"

lemma dseg_append:
  "dseg h pr p (xs @ ys) nx la \<longleftrightarrow> (\<exists>m lm. dseg h pr p xs m lm \<and> dseg h lm m ys nx la)"
  by (induction xs arbitrary: pr p) auto

lemma dseg_dom: "dseg h pr p xs nx la \<Longrightarrow> set xs \<subseteq> dom h"
  by (induction xs arbitrary: pr p) auto

lemma dseg_ends:
  "dseg h pr p xs nx la \<Longrightarrow> p = (if xs = [] then nx else Some (hd xs)) \<and> la = (if xs = [] then pr else Some (last xs))"
  by (induction xs arbitrary: pr p) auto

lemma c_relinked_refl [simp]: "c_relinked S h h"
  by (simp add: c_relinked_def)

lemma c_relinked_trans: "c_relinked S h h' \<Longrightarrow> c_relinked T h' h'' \<Longrightarrow> S \<union> T \<subseteq> U \<Longrightarrow> c_relinked U h h''"
  unfolding c_relinked_def by (metis Un_iff subsetD)

lemma c_relinked_mono: "c_relinked S h h' \<Longrightarrow> S \<subseteq> T \<Longrightarrow> c_relinked T h h'"
  by (auto simp: c_relinked_def)

lemma c_relinked_upd:
  "h a = Some n \<Longrightarrow> c_relinked {a} h (h(a \<mapsto> n\<lparr>cprev := x\<rparr>))"
  "h a = Some n \<Longrightarrow> c_relinked {a} h (h(a \<mapsto> n\<lparr>cnext := x\<rparr>))"
  "h a = Some n \<Longrightarrow> c_relinked {a} h (h(a \<mapsto> n\<lparr>cprev := x, cnext := y\<rparr>))"
  by (auto simp: c_relinked_def)

lemma c_relinked_fields:
  fixes h h' :: "'a channel_scheme heap"
  assumes "c_relinked S h h'"
  shows "cexpire_of h' = cexpire_of h" and "cid_of h' = cid_of h" and "dom h' = dom h"
proof -
  have eq: "map_option (\<lambda>c. c\<lparr>cprev := None, cnext := None\<rparr>) (h' a) =
      map_option (\<lambda>c. c\<lparr>cprev := None, cnext := None\<rparr>) (h a)" for a
    using assms by (simp add: c_relinked_def)
  have "map_option cexpire (h' a) = map_option cexpire (h a)" "map_option cid (h' a) = map_option cid (h a)" for a
    using arg_cong [OF eq [of a], of "map_option cexpire"] arg_cong [OF eq [of a], of "map_option cid"]
    by (simp_all add: option.map_comp comp_def)
  then show "cexpire_of h' = cexpire_of h" "cid_of h' = cid_of h" "dom h' = dom h"
    unfolding cexpire_of_def cid_of_def fun_eq_iff dom_def set_eq_iff mem_Collect_eq
    by (metis option.map_disc_iff option.map_sel)+
qed

lemma dseg_relinked:
  "c_relinked S h h' \<Longrightarrow> S \<inter> set xs = {} \<Longrightarrow> dseg h pr p xs nx la \<Longrightarrow> dseg h' pr p xs nx la"
  by (induction xs arbitrary: pr p) (auto simp: c_relinked_def)

lemma c_set_eq:
  "h a = Some n \<Longrightarrow> c_set_next (Some a) x h = Some (h(a \<mapsto> n\<lparr>cnext := x\<rparr>))"
  "h a = Some n \<Longrightarrow> c_set_prev (Some a) x h = Some (h(a \<mapsto> n\<lparr>cprev := x\<rparr>))"
  by (simp_all add: c_set_next_def c_set_prev_def)

text \<open>Changing the forward link behind a segment, and the back link before one.\<close>

lemma c_set_next_last:
  assumes "dseg h pr p xs nx la" and "distinct xs" and "xs \<noteq> []"
  shows "succeeds (c_set_next la nx' h) (\<lambda>h'. dseg h' pr p xs nx' la \<and> c_relinked {last xs} h h')"
proof -
  obtain zs b where xs: "xs = zs @ [b]"
    using assms(3) by (metis append_butlast_last_id)
  obtain lm n where n: "dseg h pr p zs (Some b) lm" "h b = Some n" "cprev n = lm" "la = Some b"
    using assms(1) by (auto simp: xs dseg_append)
  have r: "c_relinked {b} h (h(b \<mapsto> n\<lparr>cnext := nx'\<rparr>))"
    using n(2) by (rule c_relinked_upd)
  have "dseg (h(b \<mapsto> n\<lparr>cnext := nx'\<rparr>)) pr p zs (Some b) lm"
    using r _ n(1) by (rule dseg_relinked) (use assms(2) xs in auto)
  then show ?thesis
    using n r by (auto simp: xs dseg_append c_set_eq)
qed

lemma c_set_prev_first:
  assumes "dseg h pr p xs nx la" and "distinct xs" and "xs \<noteq> []"
  shows "succeeds (c_set_prev p pr' h) (\<lambda>h'. dseg h' pr' p xs nx la \<and> c_relinked {hd xs} h h')"
proof -
  obtain a as where xs: "xs = a # as"
    using assms(3) by (cases xs) auto
  obtain n where n: "p = Some a" "h a = Some n" "dseg h (Some a) (cnext n) as nx la"
    using assms(1) by (auto simp: xs)
  have r: "c_relinked {a} h (h(a \<mapsto> n\<lparr>cprev := pr'\<rparr>))"
    using n(2) by (rule c_relinked_upd)
  have "dseg (h(a \<mapsto> n\<lparr>cprev := pr'\<rparr>)) (Some a) (cnext n) as nx la"
    using r _ n(3) by (rule dseg_relinked) (use assms(2) xs in auto)
  then show ?thesis
    using n r by (auto simp: xs c_set_eq)
qed

subsection \<open>The waiting list\<close>

definition wait_rep :: "'a chpool \<Rightarrow> nat list \<Rightarrow> bool" where
  "wait_rep s ws \<longleftrightarrow>
     dseg (ch_heap s) None (waitReplyHead s) ws None (waitReplyTail s) \<and> distinct ws \<and>
     opq_sorted (cexpire_of (ch_heap s)) ws \<and> (\<forall>a\<in>set ws. 0 < cexpire_of (ch_heap s) a) \<and>
     inj_on (cid_of (ch_heap s)) (set ws) \<and>
     (\<forall>i a. waitReplyMap s i = Some a \<longleftrightarrow> a \<in> set ws \<and> cid_of (ch_heap s) a = i)"

definition free_rep :: "'a chpool \<Rightarrow> nat list \<Rightarrow> bool" where
  "free_rep s fs \<longleftrightarrow> dseg (ch_heap s) None (freeListHead s) fs None (freeListTail s) \<and> distinct fs"

definition same_free :: "'a chpool \<Rightarrow> 'a chpool \<Rightarrow> bool" where
  "same_free s s' \<longleftrightarrow> freeListHead s' = freeListHead s \<and> freeListTail s' = freeListTail s \<and>
     ch_brk s' = ch_brk s \<and> globalChannelId s' = globalChannelId s \<and> clusterList s' = clusterList s"

definition same_wait :: "'a chpool \<Rightarrow> 'a chpool \<Rightarrow> bool" where
  "same_wait s s' \<longleftrightarrow> waitReplyHead s' = waitReplyHead s \<and> waitReplyTail s' = waitReplyTail s \<and>
     waitReplyMap s' = waitReplyMap s"

lemmas same_defs = same_free_def same_wait_def

lemma free_rep_frame:
  "free_rep s fs \<Longrightarrow> same_free s s' \<Longrightarrow> c_relinked S (ch_heap s) (ch_heap s') \<Longrightarrow> S \<inter> set fs = {} \<Longrightarrow> free_rep s' fs"
  by (auto simp: free_rep_def same_free_def intro: dseg_relinked)

lemma wait_rep_frame:
  assumes "wait_rep s ws" and "same_wait s s'" and r: "c_relinked S (ch_heap s) (ch_heap s')" and "S \<inter> set ws = {}"
  shows "wait_rep s' ws"
  using assms c_relinked_fields [OF r] dseg_relinked [OF r assms(4)]
  by (auto simp: wait_rep_def same_wait_def)

lemma cp_find_later_seg:
  "dseg h pr p xs None la \<Longrightarrow> cp_find_later t h p =
     Some (case dropWhile (\<lambda>a. cexpire_of h a \<le> t) xs of [] \<Rightarrow> None | b # bs \<Rightarrow> Some b)"
proof (induction xs arbitrary: pr p)
  case Nil
  then show ?case
    by (subst cp_find_later.simps) simp
next
  case (Cons a xs)
  then show ?case
    by (subst cp_find_later.simps) (auto simp: cexpire_of_def)
qed

text \<open>Inserting a channel between two segments, either of which may be empty.\<close>

definition link_between :: "nat list \<Rightarrow> nat list \<Rightarrow> ptr \<Rightarrow> ptr \<Rightarrow> nat \<Rightarrow> 'a channel_scheme heap \<Rightarrow> 'a channel_scheme heap option" where
  "link_between as bs lm m a h = do {
      h \<leftarrow> c_set_prev (Some a) lm h;
      h \<leftarrow> c_set_next (Some a) m h;
      h \<leftarrow> (if as = [] then Some h else c_set_next lm (Some a) h);
      (if bs = [] then Some h else c_set_prev m (Some a) h) }"

lemma dseg_insert:
  assumes as: "dseg h None hp as m lm" and bs: "dseg h lm m bs None lt"
    and dist: "distinct (as @ bs)" "a \<notin> set (as @ bs)" and n: "h a = Some n"
  shows "succeeds (link_between as bs lm m a h)
    (\<lambda>h'. dseg h' None (if as = [] then Some a else hp) (as @ a # bs) None (if bs = [] then Some a else lt) \<and>
       c_relinked (insert a (set (as @ bs))) h h')"
proof -
  let ?h1 = "h(a \<mapsto> n\<lparr>cprev := lm, cnext := m\<rparr>)"
  have r1: "c_relinked {a} h ?h1"
    using n by (rule c_relinked_upd)
  have seg1: "dseg ?h1 None hp as m lm" "dseg ?h1 lm m bs None lt"
    using dist by (auto intro: dseg_relinked [OF r1 _ as] dseg_relinked [OF r1 _ bs])
  have "succeeds (if as = [] then Some ?h1 else c_set_next lm (Some a) ?h1)
    (\<lambda>h'. dseg h' None (if as = [] then Some a else hp) as (Some a) lm \<and> c_relinked (set as) ?h1 h')"
  proof (cases "as = []")
    case True
    then show ?thesis using as by simp
  next
    case False
    have "distinct as" using dist(1) by simp
    from c_set_next_last [OF seg1(1) this False, of "Some a"] False show ?thesis
      by (auto elim!: succeeds_mono c_relinked_mono)
  qed
  then obtain h2 where h2: "(if as = [] then Some ?h1 else c_set_next lm (Some a) ?h1) = Some h2"
    "dseg h2 None (if as = [] then Some a else hp) as (Some a) lm" "c_relinked (set as) ?h1 h2"
    by (auto elim: succeedsE)
  have a2: "h2 a = Some (n\<lparr>cprev := lm, cnext := m\<rparr>)"
    using h2(3) dist(2) by (auto simp: c_relinked_def)
  have seg2: "dseg h2 lm m bs None lt"
    using h2(3) _ seg1(2) by (rule dseg_relinked) (use dist(1) in auto)
  have "succeeds (if bs = [] then Some h2 else c_set_prev m (Some a) h2)
    (\<lambda>h'. dseg h' (Some a) m bs None (if bs = [] then Some a else lt) \<and> c_relinked (set bs) h2 h')"
  proof (cases "bs = []")
    case True
    then show ?thesis using bs by simp
  next
    case False
    have "distinct bs" using dist(1) by simp
    from c_set_prev_first [OF seg2 this False, of "Some a"] False show ?thesis
      by (auto elim!: succeeds_mono c_relinked_mono)
  qed
  then obtain h3 where h3: "(if bs = [] then Some h2 else c_set_prev m (Some a) h2) = Some h3"
    "dseg h3 (Some a) m bs None (if bs = [] then Some a else lt)" "c_relinked (set bs) h2 h3"
    by (auto elim: succeedsE)
  have "dseg h3 None (if as = [] then Some a else hp) as (Some a) lm"
    using h3(3) _ h2(2) by (rule dseg_relinked) (use dist(1) in auto)
  moreover have "h3 a = Some (n\<lparr>cprev := lm, cnext := m\<rparr>)"
    using a2 h3(3) dist(2) by (auto simp: c_relinked_def)
  ultimately have "dseg h3 None (if as = [] then Some a else hp) (as @ a # bs) None (if bs = [] then Some a else lt)"
    using h3(2) unfolding dseg_append by auto
  moreover have "c_relinked (insert a (set (as @ bs))) h h3"
    by (rule c_relinked_trans [OF c_relinked_trans [OF r1 h2(3) order.refl] h3(3)]) auto
  ultimately show ?thesis
    using n h2(1) h3(1) by (simp add: c_set_eq link_between_def)
qed

lemma addToWaitingList_block:
  assumes seg: "dseg h None (waitReplyHead s) ws None (waitReplyTail s)" and h: "h = ch_heap s"
    and a: "h a = Some c" "cexpire c \<noteq> 0"
    and as_def: "as = takeWhile (\<lambda>b. cexpire_of h b \<le> cexpire c) ws"
    and bs_def: "bs = dropWhile (\<lambda>b. cexpire_of h b \<le> cexpire c) ws"
    and as: "dseg h None (waitReplyHead s) as m lm" and bs: "dseg h lm m bs None (waitReplyTail s)"
  shows "addToWaitingList a s = do {
      h \<leftarrow> link_between as bs lm m a h;
      Some (s\<lparr>waitReplyMap := (waitReplyMap s)(cid c \<mapsto> a), ch_heap := h,
        waitReplyHead := (if as = [] then Some a else waitReplyHead s),
        waitReplyTail := (if bs = [] then Some a else waitReplyTail s)\<rparr>) }"
proof (cases ws)
  case Nil
  then show ?thesis
    using seg h a as bs by (auto simp: addToWaitingList_def as_def bs_def c_set_eq Let_def link_between_def)
next
  case (Cons w ws')
  obtain wc where w: "waitReplyHead s = Some w" "h w = Some wc" "dseg h (Some w) (cnext wc) ws' None (waitReplyTail s)"
    using seg by (auto simp: Cons)
  show ?thesis
  proof (cases "cexpire wc > cexpire c")
    case True
    then have ab: "as = []" "bs = w # ws'"
      using w(2) by (simp_all add: as_def bs_def Cons cexpire_of_def)
    then have "lm = None" "m = Some w"
      using as bs by simp_all
    then show ?thesis
      using ab w(1,2) a h True by (simp add: addToWaitingList_def Let_def c_set_eq link_between_def)
  next
    case False
    have as': "as \<noteq> []" and bs': "bs = dropWhile (\<lambda>b. cexpire_of h b \<le> cexpire c) ws'"
      using False w(2) by (simp_all add: as_def bs_def Cons cexpire_of_def)
    have find: "cp_find_later (cexpire c) h (cnext wc) = Some m"
      unfolding cp_find_later_seg [OF w(3)] using bs unfolding bs' by (auto split: list.split simp del: dropWhile_eq_Nil_conv)
    show ?thesis
    proof (cases m)
      case None
      then have "bs = []"
        using bs by (cases bs) auto
      then show ?thesis
        using as' w a h False find None bs
        by (cases "c_set_next lm (Some a) (h(a \<mapsto> c\<lparr>cprev := lm, cnext := None\<rparr>))")
          (simp_all add: addToWaitingList_def Let_def c_set_eq link_between_def)
    next
      case (Some b)
      then obtain nc where b: "h b = Some nc" "cprev nc = lm" "bs \<noteq> []"
        using bs by (cases bs) auto
      then show ?thesis
        using as' w a h False find Some
        by (cases "c_set_next lm (Some a) (h(a \<mapsto> c\<lparr>cprev := lm, cnext := m\<rparr>))")
          (auto simp: addToWaitingList_def Let_def c_set_eq link_between_def intro!: Option.bind_cong chpool.equality)
    qed
  qed
qed

lemma addToWaitingList_rep:
  assumes w: "wait_rep s ws" and a: "a \<notin> set ws" "ch_heap s a = Some c" "0 < cexpire c"
    and new: "cid c \<notin> cid_of (ch_heap s) ` set ws"
  shows "succeeds (addToWaitingList a s)
    (\<lambda>s'. wait_rep s' (opq_insert (cexpire_of (ch_heap s)) a ws) \<and> same_free s s' \<and> useCount s' = useCount s \<and>
       c_relinked (insert a (set ws)) (ch_heap s) (ch_heap s'))"
proof -
  let ?h = "ch_heap s"
  let ?as = "takeWhile (\<lambda>b. cexpire_of ?h b \<le> cexpire c) ws"
  let ?bs = "dropWhile (\<lambda>b. cexpire_of ?h b \<le> cexpire c) ws"
  have seg: "dseg ?h None (waitReplyHead s) (?as @ ?bs) None (waitReplyTail s)" and dist: "distinct (?as @ ?bs)"
    using w by (simp_all add: wait_rep_def)
  obtain m lm where ab: "dseg ?h None (waitReplyHead s) ?as m lm" "dseg ?h lm m ?bs None (waitReplyTail s)"
    using seg unfolding dseg_append by blast
  have fields: "cexpire_of ?h a = cexpire c" "cid_of ?h a = cid c"
    using a(2) by (simp_all add: cexpire_of_def cid_of_def)
  have ins: "?as @ a # ?bs = opq_insert (cexpire_of ?h) a ws"
    by (simp add: opq_insert_def fields)
  have "ch_heap s a = Some c" "cexpire c \<noteq> 0" "dseg ?h None (waitReplyHead s) ws None (waitReplyTail s)" "a \<notin> set (?as @ ?bs)"
    using a w by (simp_all add: wait_rep_def)
  note block = addToWaitingList_block [OF this(3) refl this(1,2) refl refl ab] dseg_insert [OF ab dist this(4,1)]
  obtain h' where h': "dseg h' None (if ?as = [] then Some a else waitReplyHead s)
      (opq_insert (cexpire_of ?h) a ws) None (if ?bs = [] then Some a else waitReplyTail s)"
    "c_relinked (insert a (set ws)) ?h h'" "link_between ?as ?bs lm m a ?h = Some h'"
    using block(2) unfolding ins takeWhile_dropWhile_id by (elim succeedsE conjE) blast
  have add: "addToWaitingList a s = Some (s\<lparr>waitReplyMap := (waitReplyMap s)(cid c \<mapsto> a), ch_heap := h',
        waitReplyHead := (if ?as = [] then Some a else waitReplyHead s),
        waitReplyTail := (if ?bs = [] then Some a else waitReplyTail s)\<rparr>)"
    unfolding block(1) h'(3) by simp
  note eqs = c_relinked_fields [OF h'(2)]
  have wr: "inj_on (cid_of ?h) (set ws)" "waitReplyMap s i = Some b \<longleftrightarrow> b \<in> set ws \<and> cid_of ?h b = i" for i b
    using w by (simp_all add: wait_rep_def)
  have "opq_sorted (cexpire_of h') (opq_insert (cexpire_of ?h) a ws)"
    using w by (auto simp: eqs wait_rep_def intro: sorted_opq_insert)
  moreover have "inj_on (cid_of h') (insert a (set ws))"
    using wr(1) new a(1) by (simp add: eqs fields)
  moreover have "\<forall>i b. ((waitReplyMap s)(cid c \<mapsto> a)) i = Some b \<longleftrightarrow> b \<in> insert a (set ws) \<and> cid_of h' b = i"
    using new a(1) by (auto simp: eqs wr(2) fields) (metis imageI)
  ultimately show ?thesis
    using h'(1,2) w a(1) unfolding add
    by (simp add: wait_rep_def same_free_def eqs fields a(3) distinct_opq_insert)
qed

text \<open>Taking a channel out between two segments.\<close>

definition unlink :: "ptr \<Rightarrow> ptr \<Rightarrow> 'a channel_scheme heap \<Rightarrow> 'a channel_scheme heap option" where
  "unlink lm m h = do {
     h \<leftarrow> (if lm \<noteq> None then c_set_next lm m h else Some h);
     (if m \<noteq> None then c_set_prev m lm h else Some h) }"

lemma dseg_unlink:
  assumes as: "dseg h None hp as (Some a) lm" and bs: "dseg h (Some a) m bs None lt"
    and dist: "distinct (as @ bs)"
  shows "succeeds (unlink lm m h)
    (\<lambda>h'. dseg h' None (if as = [] then m else hp) (as @ bs) None (if bs = [] then lm else lt) \<and>
       c_relinked (set (as @ bs)) h h')"
proof -
  have nil: "lm \<noteq> None \<longleftrightarrow> as \<noteq> []" "m \<noteq> None \<longleftrightarrow> bs \<noteq> []"
    using dseg_ends [OF as] dseg_ends [OF bs] by auto
  have "succeeds (if lm \<noteq> None then c_set_next lm m h else Some h)
    (\<lambda>h'. dseg h' None (if as = [] then m else hp) as m lm \<and> c_relinked (set as) h h')"
    using as nil(1) dist c_set_next_last [OF as, of m]
    by (cases "as = []") (auto elim!: succeeds_mono c_relinked_mono)
  then obtain h2 where h2: "(if lm \<noteq> None then c_set_next lm m h else Some h) = Some h2"
    "dseg h2 None (if as = [] then m else hp) as m lm" "c_relinked (set as) h h2"
    by (auto elim: succeedsE)
  have seg2: "dseg h2 (Some a) m bs None lt"
    using h2(3) _ bs by (rule dseg_relinked) (use dist in auto)
  have "succeeds (if m \<noteq> None then c_set_prev m lm h2 else Some h2)
    (\<lambda>h'. dseg h' lm m bs None (if bs = [] then lm else lt) \<and> c_relinked (set bs) h2 h')"
    using seg2 nil(2) dist c_set_prev_first [OF seg2, of lm]
    by (cases "bs = []") (auto elim!: succeeds_mono c_relinked_mono)
  then obtain h3 where h3: "(if m \<noteq> None then c_set_prev m lm h2 else Some h2) = Some h3"
    "dseg h3 lm m bs None (if bs = [] then lm else lt)" "c_relinked (set bs) h2 h3"
    by (auto elim: succeedsE)
  have "dseg h3 None (if as = [] then m else hp) as m lm"
    using h3(3) _ h2(2) by (rule dseg_relinked) (use dist in auto)
  with h3(2) have "dseg h3 None (if as = [] then m else hp) (as @ bs) None (if bs = [] then lm else lt)"
    unfolding dseg_append by blast
  moreover have "c_relinked (set (as @ bs)) h h3"
    using h2(3) h3(3) by (rule c_relinked_trans) simp
  ultimately show ?thesis
    using h2(1) h3(1) by (simp add: unlink_def)
qed

lemma freeWaitingChannel_rep:
  assumes w: "wait_rep s ws" and a: "a \<in> set ws"
  shows "succeeds (freeWaitingChannel a s)
    (\<lambda>s'. wait_rep s' (remove1 a ws) \<and> same_free s s' \<and> useCount s' = useCount s \<and>
       c_relinked (set (remove1 a ws)) (ch_heap s) (ch_heap s'))"
proof -
  let ?h = "ch_heap s"
  obtain as bs where ws: "ws = as @ a # bs" "a \<notin> set as"
    using a by (meson split_list_first)
  then have dist: "distinct (as @ bs)" "a \<notin> set (as @ bs)" "remove1 a ws = as @ bs"
    using w by (auto simp: wait_rep_def remove1_append)
  obtain lm n where seg: "dseg ?h None (waitReplyHead s) as (Some a) lm" "?h a = Some n" "cprev n = lm"
    "dseg ?h (Some a) (cnext n) bs None (waitReplyTail s)"
    using w by (auto simp: wait_rep_def ws dseg_append)
  obtain h' where h': "unlink lm (cnext n) ?h = Some h'"
    "dseg h' None (if as = [] then cnext n else waitReplyHead s) (as @ bs) None (if bs = [] then lm else waitReplyTail s)"
    "c_relinked (set (as @ bs)) ?h h'"
    using dseg_unlink [OF seg(1,4) dist(1)] by (auto elim: succeedsE)
  have same: "h1 a = Some n" if "c_set_next lm (cnext n) ?h = Some h1" for h1
  proof -
    have "as \<noteq> []" "lm = Some (last as)"
      using that dseg_ends [OF seg(1)] by (auto simp: c_set_next_def)
    with that seg(2) dist(2) show ?thesis
      by (auto simp: c_set_next_def bind_eq_Some_conv)
  qed
  have ends: "Some a = waitReplyHead s \<longleftrightarrow> as = []" "Some a = waitReplyTail s \<longleftrightarrow> bs = []"
    using dseg_ends [OF seg(1)] dseg_ends [OF seg(4)] dist(2) by auto
  have free: "freeWaitingChannel a s = Some (s\<lparr>waitReplyMap := (waitReplyMap s)(cid n := None),
      waitReplyHead := (if as = [] then cnext n else waitReplyHead s),
      waitReplyTail := (if bs = [] then lm else waitReplyTail s), ch_heap := h'\<rparr>)"
    using h'(1) seg(2,3) ends same
    by (cases "c_set_next lm (cnext n) ?h"; cases "as = []"; cases "bs = []"; cases lm; cases "cnext n")
      (simp_all add: freeWaitingChannel_def unlink_def Let_def chpool.equality)
  note eqs = c_relinked_fields [OF h'(3)]
  have n: "cid_of ?h a = cid n"
    using seg(2) by (simp add: cid_of_def)
  have wr: "inj_on (cid_of ?h) (set ws)" "waitReplyMap s i = Some b \<longleftrightarrow> b \<in> set ws \<and> cid_of ?h b = i" for i b
    using w by (simp_all add: wait_rep_def)
  have "b = a \<longleftrightarrow> cid_of ?h b = cid n" if "b \<in> set ws" for b
    using inj_on_eq_iff [OF wr(1) that a] n by simp
  then have "\<forall>i b. ((waitReplyMap s)(cid n := None)) i = Some b \<longleftrightarrow> b \<in> set (as @ bs) \<and> cid_of h' b = i"
    using dist(2) by (auto simp: eqs wr(2) ws(1))
  moreover have "opq_sorted (cexpire_of h') (as @ bs)" "inj_on (cid_of h') (set (as @ bs))"
    "\<forall>b\<in>set (as @ bs). 0 < cexpire_of h' b"
    using w inj_on_subset [OF wr(1), of "set (as @ bs)"] by (auto simp: eqs wait_rep_def ws(1) sorted_append)
  ultimately show ?thesis
    using h'(2,3) dist unfolding free by (simp add: wait_rep_def same_free_def)
qed

lemma cp_timeout_loop_seg:
  assumes "dseg h pr p xs None la" and "h = ch_heap s" and "\<forall>a\<in>set xs. 0 < cexpire_of h a"
  shows "cp_timeout_loop now p s =
    Some (case dropWhile (\<lambda>a. cexpire_of h a < now) xs of [] \<Rightarrow> None | b # bs \<Rightarrow> Some b,
      s\<lparr>waitReplyMap := fold (\<lambda>a m. m(cid_of h a := None)) (takeWhile (\<lambda>a. cexpire_of h a < now) xs) (waitReplyMap s),
        useCount := useCount s - of_nat (length (takeWhile (\<lambda>a. cexpire_of h a < now) xs))\<rparr>)"
  using assms
proof (induction xs arbitrary: pr p s)
  case Nil
  then show ?case
    by (subst cp_timeout_loop.simps) simp
next
  case (Cons a xs)
  then obtain n where n: "p = Some a" "ch_heap s a = Some n" "dseg h (Some a) (cnext n) xs None la"
    by auto
  then have t: "cexpire_of h a = cexpire n" "cid_of h a = cid n"
    using Cons.prems(2) by (simp_all add: cexpire_of_def cid_of_def)
  let ?s = "s\<lparr>waitReplyMap := (waitReplyMap s)(cid n := None), useCount := useCount s - 1\<rparr>"
  have "cp_timeout_loop now p s = (if cexpire n < now then cp_timeout_loop now (cnext n) ?s else Some (p, s))"
    using n t Cons.prems(3) by (subst cp_timeout_loop.simps) auto
  then show ?case
    using Cons.IH [OF n(3), of ?s] Cons.prems(2,3) t n(1) by (simp add: algebra_simps)
qed

lemma fold_erase: "fold (\<lambda>a m. m(f a := None)) as m = (\<lambda>i. if i \<in> f ` set as then None else m i)"
  by (induction as arbitrary: m) auto

text \<open>Cutting a list in two in front of its rest.\<close>

lemma dseg_cut:
  assumes "dseg h None p as m lm" and "dseg h lm m (b # bs) None lt" and "distinct (as @ b # bs)" and "as \<noteq> []"
  shows "succeeds (do { h \<leftarrow> c_set_next lm None h; c_set_prev m None h })
    (\<lambda>h'. dseg h' None p as None lm \<and> dseg h' None m (b # bs) None lt \<and> c_relinked (set (as @ b # bs)) h h')"
proof -
  have dist: "distinct as" "distinct (b # bs)" "set as \<inter> set (b # bs) = {}"
    using assms(3) by auto
  obtain h2 where h2: "c_set_next lm None h = Some h2" "dseg h2 None p as None lm" "c_relinked {last as} h h2"
    using c_set_next_last [OF assms(1) dist(1) assms(4), of None] by (auto elim: succeedsE)
  have "dseg h2 lm m (b # bs) None lt"
    using h2(3) _ assms(2) by (rule dseg_relinked) (use dist(3) last_in_set [OF assms(4)] in auto)
  from c_set_prev_first [OF this dist(2), of None]
  obtain h3 where h3: "c_set_prev m None h2 = Some h3" "dseg h3 None m (b # bs) None lt" "c_relinked {b} h2 h3"
    by (auto elim: succeedsE)
  have "dseg h3 None p as None lm"
    using h3(3) _ h2(2) by (rule dseg_relinked) (use dist(3) in auto)
  moreover have "c_relinked (set (as @ b # bs)) h h3"
    using h2(3) h3(3) by (rule c_relinked_trans) (use assms(4) in auto)
  ultimately show ?thesis
    using h2(1) h3(1,2) by simp
qed

text \<open>What remains of the waiting list when its first channels are taken off list and map.\<close>

lemma wait_rep_suffix:
  assumes w: "wait_rep s (as @ bs)" and eqs: "cexpire_of h' = cexpire_of (ch_heap s)" "cid_of h' = cid_of (ch_heap s)"
    and seg: "dseg h' None (waitReplyHead s') bs None (waitReplyTail s')" and h': "h' = ch_heap s'"
    and m: "waitReplyMap s' = fold (\<lambda>a m. m(cid_of (ch_heap s) a := None)) as (waitReplyMap s)"
  shows "wait_rep s' bs"
proof -
  let ?h = "ch_heap s"
  have wr: "inj_on (cid_of ?h) (set (as @ bs))" "waitReplyMap s i = Some b \<longleftrightarrow> b \<in> set (as @ bs) \<and> cid_of ?h b = i"
    "distinct (as @ bs)" "opq_sorted (cexpire_of ?h) (as @ bs)" "\<forall>a\<in>set (as @ bs). 0 < cexpire_of ?h a" for i b
    using w by (simp_all add: wait_rep_def)
  have "cid_of ?h b \<in> cid_of ?h ` set as \<longleftrightarrow> b \<in> set as" if "b \<in> set (as @ bs)" for b
    by (rule inj_on_image_mem_iff [OF wr(1) that]) simp
  then have "(if i \<in> cid_of ?h ` set as then None else waitReplyMap s i) = Some b \<longleftrightarrow> b \<in> set bs \<and> cid_of ?h b = i" for i b
    using wr(2) [of i b] wr(3) by auto
  moreover have "inj_on (cid_of ?h) (set bs)"
    using wr(1) by (rule inj_on_subset) simp
  ultimately show ?thesis
    using seg wr(3-5) unfolding wait_rep_def m fold_erase h' [symmetric] eqs by (simp add: sorted_append)
qed

lemma cp_getTimeoutList_rep:
  assumes w: "wait_rep s ws"
  shows "succeeds (cp_getTimeoutList now s)
    (\<lambda>(p, s'). (\<exists>la. dseg (ch_heap s') None p (filter (\<lambda>a. cexpire_of (ch_heap s) a < now) ws) None la) \<and>
       wait_rep s' (filter (\<lambda>a. now \<le> cexpire_of (ch_heap s) a) ws) \<and> same_free s s' \<and>
       useCount s' = useCount s - of_nat (length (filter (\<lambda>a. cexpire_of (ch_heap s) a < now) ws)) \<and>
       c_relinked (set ws) (ch_heap s) (ch_heap s'))"
proof -
  let ?h = "ch_heap s"
  define as bs where "as = takeWhile (\<lambda>a. cexpire_of ?h a < now) ws" and "bs = dropWhile (\<lambda>a. cexpire_of ?h a < now) ws"
  have ws: "as @ bs = ws"
    by (simp add: as_def bs_def)
  have split: "filter (\<lambda>a. cexpire_of ?h a < now) ws = as" "filter (\<lambda>a. now \<le> cexpire_of ?h a) ws = bs"
    using w sorted_filter_split [of "cexpire_of ?h" ws now] by (simp_all add: as_def bs_def wait_rep_def)
  have dist: "distinct (as @ bs)" and wab: "wait_rep s (as @ bs)"
    using w by (simp_all add: ws wait_rep_def)
  obtain m lm where seg: "dseg ?h None (waitReplyHead s) as m lm" "dseg ?h lm m bs None (waitReplyTail s)"
    using w unfolding wait_rep_def ws [symmetric] dseg_append by blast
  define s1 where "s1 = s\<lparr>waitReplyMap := fold (\<lambda>a m. m(cid_of ?h a := None)) as (waitReplyMap s),
    useCount := useCount s - of_nat (length as)\<rparr>"
  have loop: "cp_timeout_loop now (waitReplyHead s) s = Some (m, s1)"
    using cp_timeout_loop_seg [of ?h None "waitReplyHead s" ws "waitReplyTail s" s now] w seg(2)
    by (cases bs) (auto simp: wait_rep_def s1_def as_def [symmetric] bs_def [symmetric])
  have head: "m \<noteq> waitReplyHead s \<longleftrightarrow> as \<noteq> []" "m = None \<longleftrightarrow> bs = []"
    using dseg_ends [OF seg(1)] dseg_ends [OF seg(2)] dist
    by (auto simp: disjoint_iff) (metis hd_in_set)+
  have s1: "ch_heap s1 = ?h" "waitReplyHead s1 = waitReplyHead s" "waitReplyTail s1 = waitReplyTail s"
    "waitReplyMap s1 = fold (\<lambda>a m. m(cid_of ?h a := None)) as (waitReplyMap s)" "same_free s s1"
    "useCount s1 = useCount s - of_nat (length as)"
    by (simp_all add: s1_def same_free_def)
  consider "as = []" | "as \<noteq> []" "bs = []" | b bs' where "as \<noteq> []" "bs = b # bs'"
    by (cases bs) auto
  then show ?thesis
  proof cases
    case 1
    then have "wait_rep s1 bs"
      using s1 w ws by (simp add: wait_rep_def)
    with w 1 loop head s1 seg ws show ?thesis
      unfolding split by (cases "waitReplyHead s") (auto simp: cp_getTimeoutList_def same_free_def)
  next
    case 2
    have "wait_rep (s1\<lparr>waitReplyHead := None, waitReplyTail := None\<rparr>) bs"
      by (rule wait_rep_suffix [OF wab, of ?h]) (use 2 s1 in simp_all)
    then show ?thesis
      using 2 loop head s1 seg unfolding split by (auto simp: cp_getTimeoutList_def same_free_def)
  next
    case 3
    obtain h1 h2 where h: "c_set_next lm None ?h = Some h1" "c_set_prev m None h1 = Some h2"
      "dseg h2 None (waitReplyHead s) as None lm" "dseg h2 None m bs None (waitReplyTail s)" "c_relinked (set ws) ?h h2"
      using dseg_cut [of ?h "waitReplyHead s" as m lm b bs' "waitReplyTail s"] seg dist 3 ws
      by (auto simp: succeeds_def bind_eq_Some_conv)
    have "wait_rep (s1\<lparr>ch_heap := h2, waitReplyHead := m\<rparr>) bs"
      by (rule wait_rep_suffix [OF wab, of h2]) (use h s1 c_relinked_fields [OF h(5)] in simp_all)
    moreover obtain c where "m = Some b" "?h b = Some c" "cprev c = lm"
      using seg(2) 3 by auto
    moreover have "waitReplyHead s \<noteq> None"
      using dseg_ends [OF seg(1)] 3(1) by simp
    ultimately show ?thesis
      using 3 loop head s1 h unfolding split by (auto simp: cp_getTimeoutList_def same_free_def)
  qed
qed

subsection \<open>The free list\<close>

lemma recycleChannel_rep:
  assumes f: "free_rep s fs" and a: "a \<notin> set fs" "a \<in> dom (ch_heap s)"
  shows "succeeds (recycleChannel a s)
    (\<lambda>s'. free_rep s' (fs @ [a]) \<and> same_wait s s' \<and> useCount s' = useCount s \<and> ch_brk s' = ch_brk s \<and>
       c_relinked (insert a (set fs)) (ch_heap s) (ch_heap s'))"
proof -
  let ?h = "ch_heap s" and ?t = "freeListTail s"
  obtain n where n: "?h a = Some n"
    using a(2) by auto
  have seg: "dseg ?h None (freeListHead s) fs None ?t" "dseg ?h ?t None [] None ?t" "distinct (fs @ [])" "a \<notin> set (fs @ [])"
    using f a(1) by (simp_all add: free_rep_def)
  have t: "?t = None \<longleftrightarrow> fs = []"
    using dseg_ends [OF seg(1)] by auto
  obtain h' where h': "link_between fs [] ?t None a ?h = Some h'" "c_relinked (insert a (set fs)) ?h h'"
    "dseg h' None (if fs = [] then Some a else freeListHead s) (fs @ [a]) None (Some a)"
    using dseg_insert [OF seg n] by (auto elim: succeedsE)
  then show ?thesis
    using n t f a(1) by (cases "fs = []") (auto simp: recycleChannel_def link_between_def c_set_eq free_rep_def same_wait_def)
qed

lemma cp_last_seg: "dseg h pr (Some a) xs None la \<Longrightarrow> cp_last h a = Some (last xs)"
proof (induction xs arbitrary: pr a)
  case (Cons b xs)
  then obtain n where n: "b = a" "h a = Some n" "dseg h (Some a) (cnext n) xs None la"
    by auto
  with Cons.IH [of "Some a"] show ?case
    by (cases xs; subst cp_last.simps) auto
qed simp

lemma appendFreeList_rep:
  assumes f: "free_rep s fs" and xs: "dseg (ch_heap s) None p xs None la" "distinct xs" "set fs \<inter> set xs = {}"
  shows "succeeds (appendFreeList p s)
    (\<lambda>(r, s'). r \<and> free_rep s' (fs @ xs) \<and> same_wait s s' \<and> useCount s' = useCount s \<and> ch_brk s' = ch_brk s \<and>
       c_relinked (set fs \<union> set xs) (ch_heap s) (ch_heap s'))"
proof (cases xs)
  case Nil
  then show ?thesis
    using f xs by (simp add: appendFreeList_def same_wait_def)
next
  case (Cons a xs')
  let ?h = "ch_heap s" and ?t = "freeListTail s"
  have p: "p = Some a" "la = Some (last xs)" "xs \<noteq> []"
    using dseg_ends [OF xs(1)] Cons by auto
  have fseg: "dseg ?h None (freeListHead s) fs None ?t" "distinct fs"
    using f by (simp_all add: free_rep_def)
  obtain h1 where h1: "c_set_prev p ?t ?h = Some h1" "dseg h1 ?t p xs None la" "c_relinked {hd xs} ?h h1"
    using c_set_prev_first [OF xs(1,2) p(3), of ?t] by (auto elim: succeedsE)
  have seg1: "dseg h1 None (freeListHead s) fs None ?t"
    using h1(3) _ fseg(1) by (rule dseg_relinked) (use xs(3) Cons in auto)
  have "succeeds (if ?t = None then Some h1 else c_set_next ?t p h1)
    (\<lambda>h'. dseg h' None (if ?t = None then p else freeListHead s) fs p ?t \<and> c_relinked (set fs) h1 h')"
    using dseg_ends [OF seg1] fseg(2) c_set_next_last [OF seg1 fseg(2), of p]
    by (cases "fs = []") (auto elim!: succeeds_mono c_relinked_mono)
  then obtain h2 where h2: "(if ?t = None then Some h1 else c_set_next ?t p h1) = Some h2"
    "dseg h2 None (if ?t = None then p else freeListHead s) fs p ?t" "c_relinked (set fs) h1 h2"
    by (auto elim: succeedsE)
  have "dseg h2 ?t p xs None la"
    using h2(3) _ h1(2) by (rule dseg_relinked) (use xs(3) in auto)
  with h2(2) have "dseg h2 None (if ?t = None then p else freeListHead s) (fs @ xs) None la"
    unfolding dseg_append by blast
  moreover have "c_relinked (set fs \<union> set xs) ?h h2"
    using h1(3) h2(3) by (rule c_relinked_trans) (use Cons in auto)
  moreover have "cp_last ?h a = Some (last xs)"
    using xs(1) unfolding p(1) by (rule cp_last_seg)
  ultimately show ?thesis
    using h1(1) h2(1) fseg(2) xs(2,3) p
    by (cases ?t) (auto simp: appendFreeList_def free_rep_def same_wait_def)
qed

lemma cp_link_cluster_seg:
  assumes "dseg h None p xs None (Some t)" and "xs \<noteq> []" and "distinct xs" and "distinct is"
    and "\<forall>i\<in>set is. base + i \<notin> set xs \<and> (\<exists>n. h (base + i) = Some n \<and> cnext n = None)"
  shows "succeeds (cp_link_cluster is base h (Some t))
    (\<lambda>(h', tail). dseg h' None p (xs @ map ((+) base) is) None tail \<and>
       c_relinked (set xs \<union> (+) base ` set is) h h')"
  using assms
proof (induction "is" arbitrary: h xs t)
  case (Cons i "is")
  obtain n where i: "base + i \<notin> set xs" "h (base + i) = Some n" "cnext n = None"
    using Cons.prems(5) by auto
  have t: "t = last xs"
    using dseg_ends [OF Cons.prems(1)] Cons.prems(2) by simp
  obtain h1 where h1: "c_set_next (Some t) (Some (base + i)) h = Some h1"
    "dseg h1 None p xs (Some (base + i)) (Some t)" "c_relinked {t} h h1"
    using c_set_next_last [OF Cons.prems(1,3,2), of "Some (base + i)"] t by (auto elim: succeedsE)
  have i1: "h1 (base + i) = Some n"
    using h1(3) i t last_in_set [OF Cons.prems(2)] by (metis c_relinked_def singletonD)
  let ?h2 = "h1(base + i \<mapsto> n\<lparr>cprev := Some t\<rparr>)"
  have r2: "c_relinked {base + i} h1 ?h2"
    using i1 by (rule c_relinked_upd)
  have seg2: "dseg ?h2 None p xs (Some (base + i)) (Some t)"
    using r2 _ h1(2) by (rule dseg_relinked) (use i(1) in simp)
  have "succeeds (deref ?h2 (Some t)) (\<lambda>c. cnext c = Some (base + i))"
    using seg2 Cons.prems(2) t by (cases xs rule: rev_cases) (auto simp: dseg_append)
  then obtain c where c: "?h2 t = Some c" "cnext c = Some (base + i)"
    by (auto elim: succeedsE)
  have r: "c_relinked {t, base + i} h ?h2"
    by (rule c_relinked_trans [OF h1(3) r2]) simp
  have new: "base + j \<notin> set (xs @ [base + i]) \<and> (\<exists>n. ?h2 (base + j) = Some n \<and> cnext n = None)" if "j \<in> set is" for j
  proof -
    have "base + j \<notin> set xs" "\<exists>n. h (base + j) = Some n \<and> cnext n = None" "j \<noteq> i"
      using Cons.prems(4,5) that by auto
    moreover have "base + j \<noteq> t"
      using calculation(1) t Cons.prems(2) by auto
    ultimately show ?thesis
      using r by (auto simp: c_relinked_def)
  qed
  have seg3: "dseg ?h2 None p (xs @ [base + i]) None (Some (base + i))"
    using seg2 i(3) unfolding dseg_append by auto
  have "succeeds (cp_link_cluster is base ?h2 (Some (base + i)))
    (\<lambda>(h', tail). dseg h' None p ((xs @ [base + i]) @ map ((+) base) is) None tail \<and>
       c_relinked (set (xs @ [base + i]) \<union> (+) base ` set is) ?h2 h')"
    by (rule Cons.IH [OF seg3 _ _ _ ballI [OF new]]) (use Cons.prems i(1) in auto)
  then show ?case
    using h1(1) i1 c r t last_in_set [OF Cons.prems(2)]
    by (auto simp: c_set_eq elim!: succeeds_mono intro: c_relinked_trans)
qed auto

text \<open>\<open>takes_free s fs a s' fs'\<close>: the pool gives out \<open>a\<close>, which is on no list then,
  and channels outside the free list are as before.\<close>

definition takes_free :: "'a chpool \<Rightarrow> nat list \<Rightarrow> nat \<Rightarrow> 'a chpool \<Rightarrow> nat list \<Rightarrow> bool" where
  "takes_free s fs a s' fs' \<longleftrightarrow>
     free_rep s' fs' \<and> a \<notin> set fs' \<and> a \<notin> dom (ch_heap s) - set fs \<and>
     dom (ch_heap s') = insert a (set fs') \<union> (dom (ch_heap s) - set fs) \<and>
     set fs' \<inter> (dom (ch_heap s) - set fs) = {} \<and>
     (\<forall>x \<in> dom (ch_heap s) - set fs. ch_heap s' x = ch_heap s x) \<and>
     same_wait s s' \<and> useCount s' = useCount s \<and> globalChannelId s' = globalChannelId s \<and>
     (\<forall>x \<in> dom (ch_heap s'). x < ch_brk s')"

lemma cp_takeFree_cluster:
  assumes brk: "\<forall>x \<in> dom (ch_heap s). x < ch_brk s" and none: "freeListHead s = None"
  shows "succeeds (cp_takeFree c0 s) (\<lambda>(a, s'). a = ch_brk s \<and> takes_free s [] a s' (map ((+) a) [1..<CHANNEL_CLUSTER_SIZE]))"
proof -
  let ?b = "ch_brk s"
  have big: "2 < CHANNEL_CLUSTER_SIZE"
    by (simp add: CHANNEL_CLUSTER_SIZE_def)
  let ?h = "new_cluster c0 ?b (ch_heap s)"
  have new: "?h (?b + i) = Some (ch_init 0 c0)" if "i < CHANNEL_CLUSTER_SIZE" for i
    using that by (simp add: new_cluster_def)
  have "dseg ?h None (Some (?b + 1)) [?b + 1] None (Some (?b + 1))"
    using new [of 1] big by (simp add: ch_init_def)
  then have "succeeds (cp_link_cluster [2..<CHANNEL_CLUSTER_SIZE] ?b ?h (Some (?b + 1)))
    (\<lambda>(h', tail). dseg h' None (Some (?b + 1)) ([?b + 1] @ map ((+) ?b) [2..<CHANNEL_CLUSTER_SIZE]) None tail \<and>
       c_relinked (set [?b + 1] \<union> (+) ?b ` set [2..<CHANNEL_CLUSTER_SIZE]) ?h h')"
    by (rule cp_link_cluster_seg) (auto simp: new_cluster_def ch_init_def)
  moreover have fs: "[?b + 1] @ map ((+) ?b) [2..<CHANNEL_CLUSTER_SIZE] = map ((+) ?b) [1..<CHANNEL_CLUSTER_SIZE]"
    using big upt_conv_Cons [of 1 CHANNEL_CLUSTER_SIZE] by (simp add: numeral_2_eq_2)
  ultimately obtain h1 tail where h1: "cp_link_cluster [2..<CHANNEL_CLUSTER_SIZE] ?b ?h (Some (?b + 1)) = Some (h1, tail)"
    "dseg h1 None (Some (?b + 1)) (map ((+) ?b) [1..<CHANNEL_CLUSTER_SIZE]) None tail"
    "c_relinked (set (map ((+) ?b) [1..<CHANNEL_CLUSTER_SIZE])) ?h h1"
    unfolding fs [symmetric] by (auto elim!: succeedsE)
  have dist: "distinct (map ((+) ?b) [1..<CHANNEL_CLUSTER_SIZE])" "map ((+) ?b) [1..<CHANNEL_CLUSTER_SIZE] \<noteq> []"
    using big by (simp_all add: distinct_map)
  obtain h2 where h2: "c_set_prev (Some (?b + 1)) None h1 = Some h2"
    "dseg h2 None (Some (?b + 1)) (map ((+) ?b) [1..<CHANNEL_CLUSTER_SIZE]) None tail"
    "c_relinked {hd (map ((+) ?b) [1..<CHANNEL_CLUSTER_SIZE])} h1 h2"
    using c_set_prev_first [OF h1(2) dist, of None] by (auto elim: succeedsE)
  obtain h3 where h3: "c_set_next tail None h2 = Some h3"
    "dseg h3 None (Some (?b + 1)) (map ((+) ?b) [1..<CHANNEL_CLUSTER_SIZE]) None tail"
    "c_relinked {last (map ((+) ?b) [1..<CHANNEL_CLUSTER_SIZE])} h2 h3"
    using c_set_next_last [OF h2(2) dist, of None] by (auto elim: succeedsE)
  have r: "c_relinked (set (map ((+) ?b) [1..<CHANNEL_CLUSTER_SIZE])) ?h h3"
    by (rule c_relinked_trans [OF c_relinked_trans [OF h1(3) h2(3) order.refl] h3(3)])
      (use dist(2) in \<open>simp add: hd_in_set last_in_set del: set_map map_is_Nil_conv\<close>)
  have range: "set (map ((+) ?b) [1..<CHANNEL_CLUSTER_SIZE]) = {?b + 1..<?b + CHANNEL_CLUSTER_SIZE}"
    by (simp add: image_add_atLeastLessThan add.commute)
  have dom: "dom h3 = dom (ch_heap s) \<union> {?b..<?b + CHANNEL_CLUSTER_SIZE}"
    unfolding c_relinked_fields(3) [OF r] by (auto simp: new_cluster_def split: if_splits)
  have same: "h3 x = ch_heap s x" if "x \<in> dom (ch_heap s)" for x
  proof -
    have "x < ?b"
      using brk that by blast
    with r show ?thesis
      unfolding c_relinked_def range by (simp add: new_cluster_def)
  qed
  let ?fs = "map ((+) ?b) [1..<CHANNEL_CLUSTER_SIZE]"
  let ?s = "s\<lparr>ch_brk := ?b + CHANNEL_CLUSTER_SIZE, clusterList := clusterList s @ [?b], ch_heap := h3,
    freeListHead := Some (?b + 1), freeListTail := tail\<rparr>"
  have "x \<notin> dom (ch_heap s)" if "?b \<le> x" for x
    using brk that by (meson leD)
  then have fresh: "?b \<notin> dom (ch_heap s)" "set ?fs \<inter> dom (ch_heap s) = {}" "?b \<notin> set ?fs"
    unfolding range by (simp, (meson add_leD1 atLeastLessThan_iff disjoint_iff), simp)
  have "insert ?b (set ?fs) = {?b..<?b + CHANNEL_CLUSTER_SIZE}"
    unfolding range using big by auto
  then have dom': "dom h3 = insert ?b (set ?fs) \<union> dom (ch_heap s)"
    using dom by blast
  have "x < ?b + CHANNEL_CLUSTER_SIZE" if "x \<in> dom h3" for x
    using that brk unfolding dom by (meson UnE atLeastLessThan_iff trans_less_add1)
  then have "takes_free s [] ?b ?s ?fs"
    using h3(2) dist(1) fresh same dom'
    unfolding takes_free_def free_rep_def same_wait_def by (simp del: set_map set_upt)
  then show ?thesis
    using none h1(1) h2(1) h3(1) unfolding cp_takeFree_def by (simp add: Let_def)
qed

lemma cp_takeFree_rep:
  assumes f: "free_rep s fs" and brk: "\<forall>x \<in> dom (ch_heap s). x < ch_brk s"
  shows "succeeds (cp_takeFree c0 s) (\<lambda>(a, s').
    takes_free s fs a s' (case fs of [] \<Rightarrow> map ((+) a) [1..<CHANNEL_CLUSTER_SIZE] | b # fs' \<Rightarrow> fs'))"
proof (cases fs)
  case Nil
  then have "freeListHead s = None"
    using f by (simp add: free_rep_def)
  from cp_takeFree_cluster [OF brk this, of c0] Nil show ?thesis
    by (auto elim!: succeeds_mono)
next
  case (Cons b fs')
  let ?h = "ch_heap s"
  obtain n where n: "freeListHead s = Some b" "?h b = Some n" "dseg ?h (Some b) (cnext n) fs' None (freeListTail s)"
    and dist: "b \<notin> set fs'" "distinct fs'"
    using f Cons by (auto simp: free_rep_def)
  have dom: "set fs \<subseteq> dom ?h"
    using f by (auto simp: free_rep_def dest: dseg_dom)
  show ?thesis
  proof (cases "fs' = []")
    case True
    then have "takes_free s [b] b (s\<lparr>freeListHead := None, freeListTail := None\<rparr>) []"
      using n(2) brk by (auto simp: takes_free_def free_rep_def same_wait_def)
    then show ?thesis
      using n True by (simp add: cp_takeFree_def Cons)
  next
    case False
    obtain h' where h': "c_set_prev (cnext n) None ?h = Some h'" "dseg h' None (cnext n) fs' None (freeListTail s)"
      "c_relinked {hd fs'} ?h h'"
      using c_set_prev_first [OF n(3) dist(2) False, of None] by (auto elim: succeedsE)
    have "cnext n \<noteq> None"
      using dseg_ends [OF n(3)] False by simp
    moreover have "h' x = ?h x" if "x \<notin> set fs'" for x
      using h'(3) that hd_in_set [OF False] by (metis c_relinked_def singletonD)
    then have "takes_free s (b # fs') b (s\<lparr>freeListHead := cnext n, ch_heap := h'\<rparr>) fs'"
      using h'(2) dist brk dom Cons c_relinked_fields(3) [OF h'(3)]
      unfolding takes_free_def by (auto simp: free_rep_def same_wait_def)
    ultimately show ?thesis
      using n(1,2) h'(1) by (simp add: cp_takeFree_def Cons)
  qed
qed

subsection \<open>Channel ids\<close>

definition good_id :: "64 word \<Rightarrow> bool" where
  "good_id i \<longleftrightarrow> (ucast i :: 32 word) \<notin> {0, 0x10000000, 0x10000001} \<and> i \<le> AUTO_CHANNEL_ID_MAX \<and> i \<noteq> 0"

lemma AUTO_CHANNEL_ID_MAX_mask: "AUTO_CHANNEL_ID_MAX = mask 60"
  by (simp add: AUTO_CHANNEL_ID_MAX_def mask_eq_exp_minus_1)

lemma low_mask: "(ucast (g AND AUTO_CHANNEL_ID_MAX) :: 32 word) = ucast g"
  by (rule bit_word_eqI) (auto simp: AUTO_CHANNEL_ID_MAX_mask bit_simps)

lemma ucast_32_64_inj: "(ucast v :: 64 word) = ucast w \<longleftrightarrow> v = w" for v w :: "32 word"
  by (simp add: word_uint_eq_iff uint_up_ucast is_up)

lemma low_skip:
  "(ucast (v :: 32 word) :: 64 word) = HTTP_CHANNEL_ID \<longleftrightarrow> v = 0x10000000"
  "(ucast (v :: 32 word) :: 64 word) = ADMIN_CHANNEL_ID \<longleftrightarrow> v = 0x10000001"
  "(ucast (v :: 32 word) :: 64 word) = 0 \<longleftrightarrow> v = 0"
  using ucast_32_64_inj [of v "0x10000000"] ucast_32_64_inj [of v "0x10000001"] ucast_32_64_inj [of v "0"]
  by (simp_all add: HTTP_CHANNEL_ID_def ADMIN_CHANNEL_ID_def)

lemma cp_id_loop_unfold:
  "cp_id_loop g = (if (ucast (g + 1) :: 32 word) \<in> {0, 0x10000000, 0x10000001} then cp_id_loop (g + 1)
     else Some ((g + 1) AND AUTO_CHANNEL_ID_MAX, g + 1))"
proof -
  have "(g + 1) AND AUTO_CHANNEL_ID_MAX \<noteq> 0" if "(ucast (g + 1) :: 32 word) \<noteq> 0"
    using that low_mask [of "g + 1"] by auto
  then show ?thesis
    by (subst cp_id_loop.simps) (simp add: Let_def low_mask low_skip)
qed

lemma low_succ: "(ucast (g + 1) :: 32 word) = ucast g + 1" for g :: "64 word"
proof transfer
  fix g :: int
  show "take_bit LENGTH(32) (take_bit LENGTH(64) (g + 1)) = take_bit LENGTH(32) (take_bit LENGTH(64) g + 1)"
    using take_bit_add [of 32 "take_bit 64 g" 1] take_bit_add [of 32 g 1] by simp
qed

lemma low_add: "(ucast (g + of_nat k) :: 32 word) = ucast g + of_nat k" for g :: "64 word"
proof (induction k)
  case (Suc k)
  have "(ucast (g + of_nat (Suc k)) :: 32 word) = ucast ((g + of_nat k) + 1)"
    by (simp add: add_ac)
  also have "\<dots> = ucast g + of_nat (Suc k)"
    unfolding low_succ Suc.IH by (simp add: add_ac)
  finally show ?case .
qed simp

lemma skipped_pair:
  "u \<in> {0, 0x10000000, 0x10000001} \<Longrightarrow> u + 1 \<in> {0, 0x10000000, 0x10000001} \<Longrightarrow> u = 0x10000000" for u :: "32 word"
  by auto

text \<open>Three successive counter values are never all skipped.\<close>

lemma cp_id_loop_returns:
  "\<exists>k::nat. 1 \<le> k \<and> k \<le> 3 \<and> cp_id_loop g = Some ((g + of_nat k) AND AUTO_CHANNEL_ID_MAX, g + of_nat k) \<and>
     (ucast (g + of_nat k) :: 32 word) \<notin> {0, 0x10000000, 0x10000001}"
proof -
  define v where "v = (ucast g :: 32 word)"
  have low: "(ucast (g + 1) :: 32 word) = v + 1" "(ucast (g + 1 + 1) :: 32 word) = v + 2" "(ucast (g + 1 + 1 + 1) :: 32 word) = v + 3"
    using low_add [of g 1] low_add [of g 2] low_add [of g 3] by (simp_all add: v_def add.assoc)
  consider "v + 1 \<notin> {0, 0x10000000, 0x10000001}" | "v + 1 \<in> {0, 0x10000000, 0x10000001}" "v + 2 \<notin> {0, 0x10000000, 0x10000001}"
    | "v + 1 \<in> {0, 0x10000000, 0x10000001}" "v + 2 \<in> {0, 0x10000000, 0x10000001}"
    by blast
  then show ?thesis
  proof cases
    case 1
    then show ?thesis
      using cp_id_loop_unfold [of g] low by (intro exI [of _ 1]) simp
  next
    case 2
    then show ?thesis
      using cp_id_loop_unfold [of g] cp_id_loop_unfold [of "g + 1"] low by (intro exI [of _ 2]) (simp add: add.assoc)
  next
    case 3
    have v: "v + 2 = (v + 1) + 1" "v + 1 = w \<longleftrightarrow> v = w - 1" for w
      by (simp_all add: algebra_simps)
    have "v + 1 = 0x10000000"
      by (rule skipped_pair [OF 3(1) 3(2) [unfolded v(1)]])
    then have "v = 0x0FFFFFFF"
      unfolding v(2) by simp
    then show ?thesis
      using cp_id_loop_unfold [of g] cp_id_loop_unfold [of "g + 1"] cp_id_loop_unfold [of "g + 1 + 1"] low
      by (intro exI [of _ 3]) (simp add: add.assoc)
  qed
qed

lemma createChannelId_returns:
  "succeeds (createChannelId chid g) (\<lambda>(i, g').
     if chid \<le> AUTO_CHANNEL_ID_MAX \<and> chid \<noteq> HTTP_CHANNEL_ID \<and> chid \<noteq> ADMIN_CHANNEL_ID
     then good_id i \<and> (\<exists>k::nat. 1 \<le> k \<and> k \<le> 3 \<and> g' = g + of_nat k \<and> (ucast i :: 32 word) = ucast g')
     else i = chid \<and> g' = g)"
proof -
  obtain k :: nat where k: "1 \<le> k" "k \<le> 3"
    "cp_id_loop g = Some ((g + of_nat k) AND AUTO_CHANNEL_ID_MAX, g + of_nat k)"
    "(ucast (g + of_nat k) :: 32 word) \<notin> {0, 0x10000000, 0x10000001}"
    using cp_id_loop_returns by blast
  let ?i = "(g + of_nat k) AND AUTO_CHANNEL_ID_MAX"
  have low: "(ucast ?i :: 32 word) = ucast (g + of_nat k)"
    by (rule low_mask)
  then have "?i \<noteq> 0"
    using k(4) by auto
  then have "good_id ?i"
    using k(4) unfolding good_id_def low by (simp add: word_and_le1)
  with k(1-3) low show ?thesis
    by (auto simp: createChannelId_def)
qed

subsection \<open>The pool as a whole\<close>

text \<open>\<open>us\<close> are the channels given out and not yet given back. A channel waits exactly
  if its expire time is set.\<close>

definition cp_inv :: "'a chpool \<Rightarrow> nat set \<Rightarrow> nat list \<Rightarrow> nat list \<Rightarrow> bool" where
  "cp_inv s us ws fs \<longleftrightarrow>
     wait_rep s ws \<and> free_rep s fs \<and> set fs \<inter> us = {} \<and> set ws \<subseteq> us \<and> finite us \<and>
     dom (ch_heap s) = set fs \<union> us \<and> (\<forall>x\<in>dom (ch_heap s). x < ch_brk s) \<and>
     useCount s = of_nat (card us) \<and>
     (\<forall>a\<in>us. a \<notin> set ws \<longrightarrow> cexpire_of (ch_heap s) a = 0)"

lemma cp_invD:
  assumes "cp_inv s us ws fs"
  shows "wait_rep s ws" "free_rep s fs" "set fs \<inter> us = {}" "set ws \<subseteq> us" "finite us"
    "dom (ch_heap s) = set fs \<union> us" "\<forall>x\<in>dom (ch_heap s). x < ch_brk s" "useCount s = of_nat (card us)"
    "\<forall>a\<in>us. a \<notin> set ws \<longrightarrow> cexpire_of (ch_heap s) a = 0"
  using assms unfolding cp_inv_def by blast+

lemma map_restrict_eq:
  assumes "\<And>i x. m i = Some x \<longleftrightarrow> x \<in> S \<and> f x = i" and "\<And>i x. m' i = Some x \<longleftrightarrow> x \<in> S - T \<and> f x = i"
  shows "m' i = (case m i of None \<Rightarrow> None | Some a \<Rightarrow> if a \<in> T then None else Some a)"
proof (cases "m i")
  case None
  then show ?thesis
    using assms [of i] by (cases "m' i") auto
next
  case (Some a)
  have "m' i = Some x \<longleftrightarrow> x = a \<and> a \<notin> T" for x
    using assms Some by (metis Diff_iff option.inject)
  then show ?thesis
    using Some by (cases "m' i") auto
qed

lemma dseg_agree: "(\<forall>a\<in>set xs. h' a = h a) \<Longrightarrow> dseg h pr p xs nx la \<Longrightarrow> dseg h' pr p xs nx la"
  by (induction xs arbitrary: pr p) auto

lemma wait_rep_agree:
  assumes "wait_rep s ws" and "same_wait s s'" and ag: "\<forall>a\<in>set ws. ch_heap s' a = ch_heap s a"
  shows "wait_rep s' ws"
proof -
  have f: "cexpire_of (ch_heap s') a = cexpire_of (ch_heap s) a" "cid_of (ch_heap s') a = cid_of (ch_heap s) a"
    if "a \<in> set ws" for a
    using ag that by (simp_all add: cexpire_of_def cid_of_def)
  have "map (cexpire_of (ch_heap s')) ws = map (cexpire_of (ch_heap s)) ws"
    using f by simp
  moreover have "inj_on (cid_of (ch_heap s')) (set ws) \<longleftrightarrow> inj_on (cid_of (ch_heap s)) (set ws)"
    by (rule inj_on_cong) (simp add: f)
  ultimately show ?thesis
    using assms dseg_agree [OF ag] f unfolding wait_rep_def same_wait_def by (metis (no_types, lifting))
qed

lemma free_rep_agree:
  "free_rep s fs \<Longrightarrow> freeListHead s' = freeListHead s \<Longrightarrow> freeListTail s' = freeListTail s \<Longrightarrow>
   \<forall>a\<in>set fs. ch_heap s' a = ch_heap s a \<Longrightarrow> free_rep s' fs"
  using dseg_agree [of fs "ch_heap s'" "ch_heap s"] by (auto simp: free_rep_def)

lemma cp_inv_new: "cp_inv (cp_new g) {} [] []"
  by (simp add: cp_inv_def cp_new_def wait_rep_def free_rep_def)

lemma allocChannel_inv:
  assumes inv: "cp_inv s us ws fs"
  shows "succeeds (allocChannel c0 chid s)
    (\<lambda>(a, s'). a \<notin> us \<and> (\<exists>fs'. cp_inv s' (insert a us) ws fs') \<and>
       succeeds (createChannelId chid (globalChannelId s)) (\<lambda>(i, g'). cid_of (ch_heap s') a = i \<and> globalChannelId s' = g') \<and>
       cexpire_of (ch_heap s') a = 0)"
proof -
  have rep: "free_rep s fs" "wait_rep s ws" "dom (ch_heap s) - set fs = us" "\<forall>x\<in>dom (ch_heap s). x < ch_brk s"
    using inv by (auto simp: cp_inv_def)
  obtain a s1 fs1 where 1: "cp_takeFree c0 s = Some (a, s1)" "takes_free s fs a s1 fs1"
    using cp_takeFree_rep [OF rep(1,4), of c0] by (auto elim!: succeedsE)
  have tf: "free_rep s1 fs1" "a \<notin> set fs1" "a \<notin> us" "dom (ch_heap s1) = insert a (set fs1) \<union> us"
    "set fs1 \<inter> us = {}" "\<forall>x\<in>us. ch_heap s1 x = ch_heap s x" "same_wait s s1" "useCount s1 = useCount s"
    "globalChannelId s1 = globalChannelId s" "\<forall>x\<in>dom (ch_heap s1). x < ch_brk s1"
    using 1(2) unfolding takes_free_def rep(3) by blast+
  note iv = cp_invD(4,5,8,9) [OF inv]
  have "a \<in> dom (ch_heap s1)"
    unfolding tf(4) by simp
  then obtain c where c: "ch_heap s1 a = Some c"
    by blast
  obtain i g where ig: "createChannelId chid (globalChannelId s) = Some (i, g)"
    using createChannelId_returns [of chid "globalChannelId s"] by (auto elim: succeedsE)
  let ?s = "s1\<lparr>globalChannelId := g, ch_heap := (ch_heap s1)(a \<mapsto> ch_init i c), useCount := useCount s1 + 1\<rparr>"
  have same: "\<forall>x\<in>us. ch_heap ?s x = ch_heap s x"
    using tf(3,6) by auto
  have "same_wait s ?s" "\<forall>x\<in>set ws. ch_heap ?s x = ch_heap s x"
    using tf(7) by (simp add: same_wait_def) (use same iv(1) in blast)
  then have "wait_rep ?s ws"
    by (rule wait_rep_agree [OF rep(2)])
  moreover have "free_rep ?s fs1"
    by (rule free_rep_agree [OF tf(1)]) (use tf(2) in auto)
  moreover have "cexpire_of (ch_heap ?s) x = cexpire_of (ch_heap s) x" if "x \<in> us" for x
    using same that by (simp add: cexpire_of_def)
  moreover have fields: "cid_of (ch_heap ?s) a = i" "cexpire_of (ch_heap ?s) a = 0"
    by (simp_all add: cid_of_def cexpire_of_def ch_init_def)
  moreover have "dom (ch_heap ?s) = set fs1 \<union> insert a us" "set fs1 \<inter> insert a us = {}"
    using tf(2,4,5) by auto
  moreover have "\<forall>x\<in>dom (ch_heap ?s). x < ch_brk ?s"
    using tf(10) c by auto
  ultimately have "cp_inv ?s (insert a us) ws fs1"
    using iv tf(3,8) unfolding cp_inv_def by auto
  then show ?thesis
    using 1(1) ig c tf(3,9) fields by (auto simp: allocChannel_def)
qed

text \<open>A channel in use that does not wait gets an id and an expire time (as
  \<open>Connection::postPacket\<close> does) and is put on the waiting list.\<close>

definition cp_wait :: "nat \<Rightarrow> 64 word \<Rightarrow> int \<Rightarrow> 'a chpool \<Rightarrow> 'a chpool option" where
  "cp_wait a i e s = do {
     c \<leftarrow> ch_heap s a;
     addToWaitingList a (s\<lparr>ch_heap := (ch_heap s)(a \<mapsto> c\<lparr>cid := i, cexpire := e\<rparr>)\<rparr>) }"

lemma cp_wait_inv:
  assumes inv: "cp_inv s us ws fs" and a: "a \<in> us" "a \<notin> set ws" and e: "0 < e" and i: "findChannel i s = None"
  shows "succeeds (cp_wait a i e s)
    (\<lambda>s'. (\<exists>ws'. cp_inv s' us ws' fs \<and> set ws' = insert a (set ws)) \<and> findChannel i s' = Some a \<and>
       (\<forall>j. j \<noteq> i \<longrightarrow> findChannel j s' = findChannel j s))"
proof -
  note iv = cp_invD [OF inv]
  obtain c where c: "ch_heap s a = Some c"
    using iv(6) a(1) by blast
  let ?c = "c\<lparr>cid := i, cexpire := e\<rparr>"
  define s1 where "s1 = s\<lparr>ch_heap := (ch_heap s)(a \<mapsto> ?c)\<rparr>"
  have s1: "ch_heap s1 a = Some ?c" "dom (ch_heap s1) = dom (ch_heap s)" "same_wait s s1" "same_free s s1"
    "useCount s1 = useCount s" "\<And>x. x \<noteq> a \<Longrightarrow> ch_heap s1 x = ch_heap s x" "waitReplyMap s1 = waitReplyMap s"
    using c by (auto simp: s1_def same_defs)
  have a': "a \<notin> set fs"
    using iv(3) a(1) by blast
  have w1: "wait_rep s1 ws"
    by (rule wait_rep_agree [OF iv(1) s1(3)]) (use s1(6) a(2) in metis)
  have f1: "free_rep s1 fs"
    using s1(4) by (intro free_rep_agree [OF iv(2)]) (simp_all add: same_free_def, use s1(6) a' in metis)
  have wm: "waitReplyMap s j = Some x \<longleftrightarrow> x \<in> set ws \<and> cid_of (ch_heap s) x = j" for j x
    using iv(1) by (simp add: wait_rep_def)
  have ids: "cid_of (ch_heap s1) x = cid_of (ch_heap s) x" "cexpire_of (ch_heap s1) x = cexpire_of (ch_heap s) x" if "x \<noteq> a" for x
    using s1(6) [OF that] by (simp_all add: cid_of_def cexpire_of_def)
  have ida: "cid_of (ch_heap s1) a = i"
    by (simp add: cid_of_def s1(1))
  have "cid_of (ch_heap s1) x \<noteq> i" if "x \<in> set ws" for x
    using wm [of i x] i that ids(1) [of x] a(2) by (metis findChannel_def option.distinct(1))
  then have new: "cid ?c \<notin> cid_of (ch_heap s1) ` set ws"
    by auto
  have e': "0 < cexpire ?c"
    using e by simp
  let ?ws = "opq_insert (cexpire_of (ch_heap s1)) a ws"
  obtain s' where s': "addToWaitingList a s1 = Some s'" "wait_rep s' ?ws"
    "same_free s1 s'" "useCount s' = useCount s1" "c_relinked (insert a (set ws)) (ch_heap s1) (ch_heap s')"
    using addToWaitingList_rep [OF w1 a(2) s1(1) e' new] by (auto elim: succeedsE)
  note eqs = c_relinked_fields [OF s'(5)]
  have "free_rep s' fs"
    using f1 s'(3,5) by (rule free_rep_frame) (use a' iv(3,4) in auto)
  moreover have "\<forall>x\<in>us. x \<notin> set ?ws \<longrightarrow> cexpire_of (ch_heap s') x = 0"
    using iv(9) ids(2) by (auto simp: eqs)
  moreover have "ch_brk s' = ch_brk s"
    using s'(3) s1(4) by (simp add: same_free_def)
  ultimately have "cp_inv s' us ?ws fs"
    unfolding cp_inv_def eqs s1(2) using iv s'(2,4) s1(5) a(1) by simp
  moreover have wm': "waitReplyMap s' j = Some x \<longleftrightarrow> x \<in> insert a (set ws) \<and> cid_of (ch_heap s1) x = j" for j x
    using s'(2) by (simp add: wait_rep_def eqs)
  then have "findChannel i s' = Some a"
    using ida by (simp add: findChannel_def)
  moreover have "waitReplyMap s' j = Some x \<longleftrightarrow> waitReplyMap s j = Some x" if "j \<noteq> i" for j x
    unfolding wm wm' using ids(1) [of x] ida a(2) that by (cases "x = a") auto
  then have "\<forall>j. j \<noteq> i \<longrightarrow> findChannel j s' = findChannel j s"
    unfolding findChannel_def by (metis not_None_eq)
  ultimately show ?thesis
    using c s'(1) by (auto simp: cp_wait_def s1_def)
qed

lemma freeChannel_inv:
  assumes inv: "cp_inv s us ws fs" and a: "a \<in> us"
  shows "succeeds (freeChannel (Some a) s)
    (\<lambda>(r, s'). r \<and> cp_inv s' (us - {a}) (remove1 a ws) (fs @ [a]) \<and>
       (\<forall>i. findChannel i s' = (case findChannel i s of None \<Rightarrow> None | Some b \<Rightarrow> if b \<in> {a} then None else Some b)))"
proof -
  note iv = cp_invD [OF inv]
  obtain c where c: "ch_heap s a = Some c"
    using iv(6) a by blast
  have a': "a \<notin> set fs"
    using iv(3) a by blast
  have dist: "distinct ws"
    using iv(1) by (simp add: wait_rep_def)
  have wait: "0 < cexpire c \<longleftrightarrow> a \<in> set ws"
    using iv(1,9) a c by (auto simp: wait_rep_def cexpire_of_def)
  have "succeeds (if 0 < cexpire c then freeWaitingChannel a s else Some s)
    (\<lambda>s'. wait_rep s' (remove1 a ws) \<and> same_free s s' \<and> useCount s' = useCount s \<and>
       c_relinked (set (remove1 a ws)) (ch_heap s) (ch_heap s'))"
    using freeWaitingChannel_rep [OF iv(1)] iv(1) wait by (simp add: same_free_def remove1_idem)
  then obtain s1 where s1: "(if 0 < cexpire c then freeWaitingChannel a s else Some s) = Some s1"
    "wait_rep s1 (remove1 a ws)" "same_free s s1" "useCount s1 = useCount s"
    "c_relinked (set (remove1 a ws)) (ch_heap s) (ch_heap s1)"
    by (auto elim: succeedsE)
  have ws': "set (remove1 a ws) = set ws - {a}"
    using dist by simp
  note eqs1 = c_relinked_fields [OF s1(5)]
  have f1: "free_rep s1 fs"
    using iv(2) s1(3,5) by (rule free_rep_frame) (use iv(3,4) ws' in auto)
  have "a \<in> dom (ch_heap s1)"
    using c eqs1(3) by blast
  then obtain s2 where s2: "recycleChannel a s1 = Some s2" "free_rep s2 (fs @ [a])" "same_wait s1 s2"
    "useCount s2 = useCount s1" "ch_brk s2 = ch_brk s1" "c_relinked (insert a (set fs)) (ch_heap s1) (ch_heap s2)"
    using recycleChannel_rep [OF f1 a'] by (auto elim: succeedsE)
  note eqs2 = c_relinked_fields [OF s2(6)]
  let ?s = "s2\<lparr>useCount := useCount s2 - 1\<rparr>"
  have w2: "wait_rep s2 (remove1 a ws)"
    using s1(2) s2(3,6) by (rule wait_rep_frame) (use iv(3,4) ws' in auto)
  have "useCount s2 - 1 = of_nat (card (us - {a}))"
    using s2(4) s1(4) iv(5,8) a by (cases "card us") (auto simp: card_Diff_singleton)
  moreover have "wait_rep ?s (remove1 a ws)" "free_rep ?s (fs @ [a])"
    using w2 s2(2) by (simp_all add: wait_rep_def free_rep_def)
  moreover have "ch_brk s2 = ch_brk s"
    using s2(5) s1(3) by (simp add: same_free_def)
  moreover have "dom (ch_heap s2) = set fs \<union> us" "cexpire_of (ch_heap s2) = cexpire_of (ch_heap s)"
    using iv(6) by (simp_all add: eqs1 eqs2)
  ultimately have "cp_inv ?s (us - {a}) (remove1 a ws) (fs @ [a])"
    unfolding cp_inv_def ws' using iv(3-9) a by auto
  moreover have "findChannel i ?s = (case findChannel i s of None \<Rightarrow> None | Some b \<Rightarrow> if b \<in> {a} then None else Some b)" for i
    unfolding findChannel_def by (rule map_restrict_eq [where f = "cid_of (ch_heap s)" and S = "set ws"])
      (use w2 iv(1) in \<open>simp_all add: wait_rep_def eqs1 eqs2 dist\<close>)
  ultimately show ?thesis
    using c s1(1) s2(1) by (simp add: freeChannel_def)
qed

lemma timeout_inv:
  fixes now :: int
  assumes inv: "cp_inv s us ws fs"
  defines "ts \<equiv> filter (\<lambda>a. cexpire_of (ch_heap s) a < now) ws"
    and "ks \<equiv> filter (\<lambda>a. now \<le> cexpire_of (ch_heap s) a) ws"
  shows "succeeds (do { (p, s) \<leftarrow> cp_getTimeoutList now s; appendFreeList p s })
    (\<lambda>(r, s'). r \<and> cp_inv s' (us - set ts) ks (fs @ ts) \<and>
       (\<forall>i. findChannel i s' = (case findChannel i s of None \<Rightarrow> None | Some a \<Rightarrow> if a \<in> set ts then None else Some a)))"
proof -
  note iv = cp_invD [OF inv]
  have ws: "distinct ws" "set ws = set ts \<union> set ks" "set ts \<inter> set ks = {}" "distinct ts" "distinct ks"
    using iv(1) by (auto simp: wait_rep_def ts_def ks_def)
  obtain p s1 la where s1: "cp_getTimeoutList now s = Some (p, s1)" "dseg (ch_heap s1) None p ts None la"
    "wait_rep s1 ks" "same_free s s1" "useCount s1 = useCount s - of_nat (length ts)"
    "c_relinked (set ws) (ch_heap s) (ch_heap s1)"
    using cp_getTimeoutList_rep [OF iv(1), of now] unfolding ts_def ks_def by (auto elim!: succeedsE)
  note eqs1 = c_relinked_fields [OF s1(6)]
  have f1: "free_rep s1 fs"
    using iv(2) s1(4,6) by (rule free_rep_frame) (use iv(3,4) in auto)
  have "set fs \<inter> set ts = {}"
    using iv(3,4) ws(2) by blast
  then obtain s2 where s2: "appendFreeList p s1 = Some (True, s2)" "free_rep s2 (fs @ ts)" "same_wait s1 s2"
    "useCount s2 = useCount s1" "ch_brk s2 = ch_brk s1" "c_relinked (set fs \<union> set ts) (ch_heap s1) (ch_heap s2)"
    using appendFreeList_rep [OF f1 s1(2) ws(4)] by (auto elim!: succeedsE)
  note eqs2 = c_relinked_fields [OF s2(6)]
  have w2: "wait_rep s2 ks"
    using s1(3) s2(3,6) by (rule wait_rep_frame) (use iv(3,4) ws in auto)
  have "set ts \<subseteq> us"
    using iv(4) ws(2) by blast
  then have "card (us - set ts) + length ts = card us"
    using iv(5) ws(4) card_mono [OF iv(5), of "set ts"] by (simp add: card_Diff_subset distinct_card)
  then have "useCount s2 = of_nat (card (us - set ts))"
    using s2(4) s1(5) iv(8) by (metis add_diff_cancel_right' of_nat_add)
  moreover have "ch_brk s2 = ch_brk s"
    using s2(5) s1(4) by (simp add: same_free_def)
  moreover have "dom (ch_heap s2) = set fs \<union> us" "cexpire_of (ch_heap s2) = cexpire_of (ch_heap s)"
    using iv(6) by (simp_all add: eqs1 eqs2)
  ultimately have "cp_inv s2 (us - set ts) ks (fs @ ts)"
    unfolding cp_inv_def using w2 s2(2) iv(3-9) ws by auto
  moreover have "set ks = set ws - set ts"
    using ws(2,3) by blast
  then have "findChannel i s2 = (case findChannel i s of None \<Rightarrow> None | Some a \<Rightarrow> if a \<in> set ts then None else Some a)" for i
    unfolding findChannel_def by (intro map_restrict_eq [where f = "cid_of (ch_heap s)" and S = "set ws"])
      (use w2 iv(1) in \<open>simp_all add: wait_rep_def eqs1 eqs2\<close>)
  ultimately show ?thesis
    using s1(1) s2(1) by simp
qed

subsection \<open>Properties\<close>

text \<open>The states a pool can reach when its clients keep to the protocol: they only use
  channels they were given, put one on the waiting list once and under an id that no
  waiting channel has, and give the timed out ones back. The set holds the channels in
  use.\<close>

inductive cp_reach :: "'a channel_scheme \<Rightarrow> 'a chpool \<Rightarrow> nat set \<Rightarrow> bool" for c0 where
  start: "cp_reach c0 (cp_new g) {}"
| alloc: "cp_reach c0 s us \<Longrightarrow> allocChannel c0 chid s = Some (a, s') \<Longrightarrow> cp_reach c0 s' (insert a us)"
| wait: "cp_reach c0 s us \<Longrightarrow> a \<in> us \<Longrightarrow> cexpire_of (ch_heap s) a = 0 \<Longrightarrow> 0 < e \<Longrightarrow> findChannel i s = None \<Longrightarrow>
    cp_wait a i e s = Some s' \<Longrightarrow> cp_reach c0 s' us"
| free: "cp_reach c0 s us \<Longrightarrow> a \<in> us \<Longrightarrow> freeChannel (Some a) s = Some (r, s') \<Longrightarrow> cp_reach c0 s' (us - {a})"
| timeout: "cp_reach c0 s us \<Longrightarrow> cp_getTimeoutList now s = Some (p, s1) \<Longrightarrow> appendFreeList p s1 = Some (r, s') \<Longrightarrow>
    cp_reach c0 s' (us - {a. 0 < cexpire_of (ch_heap s) a \<and> cexpire_of (ch_heap s) a < now})"

lemma cp_inv_waiting: "cp_inv s us ws fs \<Longrightarrow> a \<in> us \<Longrightarrow> 0 < cexpire_of (ch_heap s) a \<longleftrightarrow> a \<in> set ws"
  using cp_invD(1,9) [of s us ws fs] by (auto simp: wait_rep_def)

lemma cp_reach_inv: "cp_reach c0 s us \<Longrightarrow> \<exists>ws fs. cp_inv s us ws fs"
proof (induction rule: cp_reach.induct)
  case (start g)
  then show ?case
    using cp_inv_new by blast
next
  case (alloc s us chid a s')
  then obtain ws fs where "cp_inv s us ws fs"
    by blast
  from allocChannel_inv [OF this, of c0 chid] alloc(2) show ?case
    by (auto simp: succeeds_def)
next
  case (wait s us a e i s')
  then obtain ws fs where inv: "cp_inv s us ws fs"
    by blast
  have "a \<notin> set ws"
    using cp_inv_waiting [OF inv wait(2)] wait(3) by simp
  from cp_wait_inv [OF inv wait(2) this wait(4,5)] wait(6) show ?case
    by (auto simp: succeeds_def)
next
  case (free s us a r s')
  then obtain ws fs where "cp_inv s us ws fs"
    by blast
  from freeChannel_inv [OF this free(2)] free(3) show ?case
    by (auto simp: succeeds_def)
next
  case (timeout s us now p s1 r s')
  then obtain ws fs where inv: "cp_inv s us ws fs"
    by blast
  have "us - {a. 0 < cexpire_of (ch_heap s) a \<and> cexpire_of (ch_heap s) a < now} =
      us - set (filter (\<lambda>a. cexpire_of (ch_heap s) a < now) ws)"
    using cp_inv_waiting [OF inv] by auto
  with timeout_inv [OF inv, of now] timeout(2,3) show ?case
    by (auto simp: succeeds_def)
qed

text \<open>Property C10. Safety of \<open>ChannelPool\<close> in every state its clients can reach, where a client
  puts a channel in use on the waiting list at most once and under an id that no waiting channel has.
  The waiting list and the free list are consistently linked in both directions and disjoint,
  the waiting list is sorted by expire time and holds exactly the channels in use that have one, the free list holds
  exactly the channels that are not in use; the use count is the number of channels given out; the map finds exactly
  the waiting channels by their ids. Every operation returns without touching a freed or null
  channel: \<open>allocChannel\<close> hands out a channel that is not in use, any channel in
  use can be freed, after which its id is no longer found, \<open>addToWaitingList\<close> makes a channel found by its
  id, and the timeout list can be taken and given back.\<close>

theorem channel_pool_safe:
  assumes "cp_reach c0 s us"
  shows "(\<exists>ws fs. dseg (ch_heap s) None (waitReplyHead s) ws None (waitReplyTail s) \<and>
       dseg (ch_heap s) None (freeListHead s) fs None (freeListTail s) \<and> distinct (ws @ fs) \<and>
       opq_sorted (cexpire_of (ch_heap s)) ws \<and> set ws = {a \<in> us. 0 < cexpire_of (ch_heap s) a} \<and> set fs = dom (ch_heap s) - us) \<and>
    useCount s = of_nat (card us) \<and>
    (\<forall>i a. findChannel i s = Some a \<longleftrightarrow> a \<in> us \<and> 0 < cexpire_of (ch_heap s) a \<and> cid_of (ch_heap s) a = i) \<and>
    succeeds (allocChannel c0 chid s) (\<lambda>(a, s'). a \<notin> us) \<and>
    (\<forall>a\<in>us. succeeds (freeChannel (Some a) s) (\<lambda>(r, s'). r \<and> (\<forall>i. findChannel i s' \<noteq> Some a))) \<and>
    (\<forall>a\<in>us. \<forall>i e. cexpire_of (ch_heap s) a = 0 \<and> 0 < e \<and> findChannel i s = None \<longrightarrow>
       succeeds (do { c \<leftarrow> ch_heap s a; addToWaitingList a (s\<lparr>ch_heap := (ch_heap s)(a \<mapsto> c\<lparr>cid := i, cexpire := e\<rparr>)\<rparr>) })
         (\<lambda>s'. findChannel i s' = Some a)) \<and>
    succeeds (do { (p, s) \<leftarrow> cp_getTimeoutList now s; appendFreeList p s }) (\<lambda>(r, s'). r)"
proof -
  obtain ws fs where inv: "cp_inv s us ws fs"
    using cp_reach_inv [OF assms] by blast
  note iv = cp_invD [OF inv]
  have links: "dseg (ch_heap s) None (waitReplyHead s) ws None (waitReplyTail s) \<and>
    dseg (ch_heap s) None (freeListHead s) fs None (freeListTail s) \<and> distinct (ws @ fs) \<and>
    opq_sorted (cexpire_of (ch_heap s)) ws \<and> set ws = {a \<in> us. 0 < cexpire_of (ch_heap s) a} \<and> set fs = dom (ch_heap s) - us"
    using iv(1-4,6) cp_inv_waiting [OF inv] by (auto simp: wait_rep_def free_rep_def)
  have find: "findChannel i s = Some a \<longleftrightarrow> a \<in> us \<and> 0 < cexpire_of (ch_heap s) a \<and> cid_of (ch_heap s) a = i" for i a
    using iv(1,4) cp_inv_waiting [OF inv, of a] by (auto simp: findChannel_def wait_rep_def)
  have free: "succeeds (freeChannel (Some a) s) (\<lambda>(r, s'). r \<and> (\<forall>i. findChannel i s' \<noteq> Some a))" if "a \<in> us" for a
  proof -
    have "(case x of None \<Rightarrow> None | Some b \<Rightarrow> if b \<in> {a} then None else Some b) \<noteq> Some a" for x
      by (auto split: option.split)
    with freeChannel_inv [OF inv that] show ?thesis
      by (auto elim!: succeeds_mono)
  qed
  have wait: "succeeds (cp_wait a i e s) (\<lambda>s'. findChannel i s' = Some a)"
    if "a \<in> us" "cexpire_of (ch_heap s) a = 0" "0 < e" "findChannel i s = None" for a i e
    using cp_wait_inv [OF inv that(1) _ that(3,4)] cp_inv_waiting [OF inv that(1)] that(2) by (auto elim!: succeeds_mono)
  have alloc: "succeeds (allocChannel c0 chid s) (\<lambda>(a, s'). a \<notin> us)"
    using allocChannel_inv [OF inv, of c0 chid] by (auto elim!: succeeds_mono)
  have timeout: "succeeds (do { (p, s) \<leftarrow> cp_getTimeoutList now s; appendFreeList p s }) (\<lambda>(r, s'). r)"
    using timeout_inv [OF inv, of now] by (auto elim!: succeeds_mono)
  show ?thesis
    using links iv(8) find free wait alloc timeout unfolding cp_wait_def by blast
qed

theorem channel_pool_safe_witness:
  "\<exists>a s. allocChannel \<lparr>cprev = None, cnext = None, cid = 0, cexpire = 0, ctimeout = 0, chandler = None, cargs = None\<rparr>
       0 (cp_new 7) = Some (a, s) \<and> useCount s = 1 \<and>
     succeeds (freeChannel (Some a) s) (\<lambda>(r, s'). r \<and> (\<forall>i. findChannel i s' \<noteq> Some a))"
proof -
  let ?c = "\<lparr>cprev = None, cnext = None, cid = 0, cexpire = 0, ctimeout = 0, chandler = None, cargs = None\<rparr>"
  have "cp_reach ?c (cp_new 7) {}"
    by (rule cp_reach.start)
  then have "succeeds (allocChannel ?c 0 (cp_new 7)) (\<lambda>(a, s'). a \<notin> {})"
    using channel_pool_safe by blast
  then obtain a s where s: "allocChannel ?c 0 (cp_new 7) = Some (a, s)"
    by (auto elim!: succeedsE)
  have "cp_reach ?c s {a}"
    using cp_reach.alloc [OF cp_reach.start s] by simp
  from channel_pool_safe [OF this] have "useCount s = of_nat (card {a})"
    "succeeds (freeChannel (Some a) s) (\<lambda>(r, s'). r \<and> (\<forall>i. findChannel i s' \<noteq> Some a))"
    by blast+
  with s show ?thesis
    by auto
qed

text \<open>Property C28. \<open>addToWaitingList\<close>: a channel with an expire time and a new id goes
  behind every waiting channel that does not expire later and in front of the others;
  the list stays sorted and consistently linked in both directions, the map finds the
  channel, and channels that are not on the list are untouched.\<close>

theorem waiting_list_sorted_insert:
  assumes "wait_rep s ws" and "a \<notin> set ws" and "ch_heap s a = Some c" and "0 < cexpire c"
    and "cid c \<notin> cid_of (ch_heap s) ` set ws"
  shows "succeeds (addToWaitingList a s)
    (\<lambda>s'. wait_rep s' (takeWhile (\<lambda>b. cexpire_of (ch_heap s) b \<le> cexpire c) ws @ a #
                       dropWhile (\<lambda>b. cexpire_of (ch_heap s) b \<le> cexpire c) ws) \<and>
       findChannel (cid c) s' = Some a \<and> (\<forall>b. b \<notin> insert a (set ws) \<longrightarrow> ch_heap s' b = ch_heap s b))"
proof -
  have c: "cexpire_of (ch_heap s) a = cexpire c" "cid_of (ch_heap s) a = cid c"
    using assms(3) by (simp_all add: cexpire_of_def cid_of_def)
  have "findChannel (cid c) s' = Some a"
    if "wait_rep s' (opq_insert (cexpire_of (ch_heap s)) a ws)" "cid_of (ch_heap s') = cid_of (ch_heap s)" for s'
    using that c(2) by (simp add: wait_rep_def findChannel_def)
  with addToWaitingList_rep [OF assms] show ?thesis
    unfolding opq_insert_def c(1)
    by (auto elim!: succeeds_mono dest: c_relinked_fields(2)) (simp add: c_relinked_def)
qed

theorem waiting_list_sorted_insert_witness:
  "succeeds (addToWaitingList 2
      ((cp_new 0)\<lparr>ch_heap := [0 \<mapsto> \<lparr>cprev = None, cnext = Some 1, cid = 5, cexpire = 10, ctimeout = 0, chandler = None, cargs = None\<rparr>,
                   1 \<mapsto> \<lparr>cprev = Some 0, cnext = None, cid = 6, cexpire = 30, ctimeout = 0, chandler = None, cargs = None\<rparr>,
                   2 \<mapsto> \<lparr>cprev = None, cnext = None, cid = 7, cexpire = 20, ctimeout = 0, chandler = None, cargs = None\<rparr>],
        waitReplyMap := [5 \<mapsto> 0, 6 \<mapsto> 1], waitReplyHead := Some 0, waitReplyTail := Some 1\<rparr>))
    (\<lambda>s'. wait_rep s' [0, 2, 1] \<and> findChannel 7 s' = Some 2)"
proof -
  let ?s = "(cp_new 0)\<lparr>ch_heap := [0 \<mapsto> \<lparr>cprev = None, cnext = Some 1, cid = 5, cexpire = 10, ctimeout = 0, chandler = None, cargs = None\<rparr>,
                   1 \<mapsto> \<lparr>cprev = Some 0, cnext = None, cid = 6, cexpire = 30, ctimeout = 0, chandler = None, cargs = None\<rparr>,
                   2 \<mapsto> \<lparr>cprev = None, cnext = None, cid = 7, cexpire = 20, ctimeout = 0, chandler = None, cargs = None\<rparr>],
        waitReplyMap := [5 \<mapsto> 0, 6 \<mapsto> 1], waitReplyHead := Some 0, waitReplyTail := Some 1\<rparr>"
  have "wait_rep ?s [0, 1]"
    by (auto simp: wait_rep_def cexpire_of_def cid_of_def)
  from waiting_list_sorted_insert [OF this, of 2] show ?thesis
    by (auto simp: cexpire_of_def cid_of_def elim!: succeeds_mono)
qed

text \<open>Ids handed out one after the other.\<close>

fun cp_ids :: "nat \<Rightarrow> 64 word \<Rightarrow> 64 word list option" where
  "cp_ids 0 g = Some []"
| "cp_ids (Suc n) g = do { (i, g) \<leftarrow> createChannelId 0 g; is \<leftarrow> cp_ids n g; Some (i # is) }"

lemma cp_ids_counter:
  "succeeds (cp_ids n g) (\<lambda>is. length is = n \<and> (\<forall>i\<in>set is. good_id i) \<and>
     (\<exists>ks::nat list. map (\<lambda>i. ucast i :: 32 word) is = map (\<lambda>k. ucast g + of_nat k) ks \<and> distinct ks \<and>
        (\<forall>k\<in>set ks. 1 \<le> k \<and> k \<le> 3 * n)))"
proof (induction n arbitrary: g)
  case (Suc n)
  obtain i k where k: "createChannelId 0 g = Some (i, g + of_nat k)" "good_id i" "1 \<le> k" "k \<le> 3"
    "(ucast i :: 32 word) = ucast g + of_nat k"
    using createChannelId_returns [of 0 g]
    by (auto simp: succeeds_def AUTO_CHANNEL_ID_MAX_def HTTP_CHANNEL_ID_def ADMIN_CHANNEL_ID_def low_add)
  obtain "is" and ks :: "nat list" where ks: "cp_ids n (g + of_nat k) = Some is" "length is = n" "\<forall>i\<in>set is. good_id i"
    "map (\<lambda>i. ucast i :: 32 word) is = map (\<lambda>j. ucast (g + of_nat k) + of_nat j) ks" "distinct ks"
    "\<forall>j\<in>set ks. 1 \<le> j \<and> j \<le> 3 * n"
    using Suc [of "g + of_nat k"] by (auto elim!: succeedsE)
  let ?ks = "k # map (\<lambda>j. k + j) ks"
  have "map (\<lambda>i. ucast i :: 32 word) (i # is) = map (\<lambda>k. ucast g + of_nat k) ?ks"
    using ks(4) k(5) by (simp add: low_add add.assoc comp_def)
  moreover have "distinct ?ks" "\<forall>j\<in>set ?ks. 1 \<le> j \<and> j \<le> 3 * Suc n"
    using ks(5,6) k(3,4) by (auto simp: distinct_map)
  ultimately show ?case
    using k(1,2) ks(1-3) by (auto intro!: exI [of _ ?ks] simp del: list.map)
qed simp

text \<open>Property C29. Channel ids: however the global counter stands, any number of
  successive ids up to a third of \<open>2\<^sup>3\<^sup>2\<close> is generated without looping forever, none of
  them is zero, the HTTP id or the admin id in its low 32 bits, all are at most
  \<open>AUTO_CHANNEL_ID_MAX\<close>, and they are pairwise different even after the truncation to
  32 bits that \<open>Packet::setChannelId\<close> applies.\<close>

theorem channel_ids_distinct:
  assumes "3 * n < 2 ^ 32"
  shows "succeeds (cp_ids n g) (\<lambda>is. length is = n \<and> (\<forall>i\<in>set is. good_id i) \<and>
           distinct (map (\<lambda>i. ucast i :: 32 word) is))"
proof -
  have "inj_on (\<lambda>k. ucast g + of_nat k :: 32 word) {k. k \<le> 3 * n}"
    using assms by (auto simp: inj_on_def word_of_nat_eq_iff take_bit_nat_eq_self)
  then have "distinct (map (\<lambda>k. ucast g + of_nat k :: 32 word) ks)"
    if "distinct ks" "\<forall>k\<in>set ks. 1 \<le> k \<and> k \<le> 3 * n" for ks :: "nat list"
    using that by (auto simp: distinct_map elim: inj_on_subset)
  with cp_ids_counter [of n g] show ?thesis
    by (auto elim!: succeeds_mono)
qed

theorem channel_ids_distinct_witness:
  "succeeds (cp_ids 1000 (- 1)) (\<lambda>is. length is = 1000 \<and> (\<forall>i\<in>set is. good_id i) \<and>
     distinct (map (\<lambda>i. ucast i :: 32 word) is))"
  by (rule channel_ids_distinct) simp

end
