(* ===== verification/Packets.thy ===== *)
theory Packets
  imports DataBuffer ChannelPool
begin

text \<open>
  \<open>anet::Packet\<close>, \<open>DefaultPacket\<close>, \<open>ControlPacket\<close> and
  \<open>StreamingContext\<close> (\<open>network/anet/packet.h\<close>, \<open>packet.cpp\<close>,
  \<open>defaultpacket.cpp\<close>, \<open>controlpacket.cpp\<close>, \<open>streamingcontext.cpp\<close>). A packet
  extends the list node of the packet queues by its header, its channel and its
  timeout; a default packet adds a body, a block that grows by \<open>realloc\<close>. Sizes of
  type \<open>size_t\<close> are natural numbers: a block is far smaller than \<open>2\<^sup>6\<^sup>3\<close>. The
  lemmas show that the body always lies inside its block, what each operation does to it,
  and that encoding appends the body to a buffer and decoding takes it off again.
\<close>

subsection \<open>Packet\<close>

record packet_header =
  hchid :: "32 word"
  hpcode :: "32 word"
  hdataLen :: "32 word"

definition ANET_PACKET_FLAG :: "32 word" where
  "ANET_PACKET_FLAG = 0x416e4574"

definition PACKET_INFO_LEN :: int where
  "PACKET_INFO_LEN = 16"

definition TIME_MAX :: int where
  "TIME_MAX = 2 ^ 63 - 1"

definition PRE_MAX :: int where
  "PRE_MAX = 2 ^ 63 - 2"

record packet = pnode +
  pheader :: packet_header
  ptimeoutMs :: int
  pchannel :: ptr
  pdequeueCB :: ptr

definition pk_new :: packet where
  "pk_new = \<lparr>pnext = None, pexpire = 0, pheader = \<lparr>hchid = 0, hpcode = 0, hdataLen = 0\<rparr>,
     ptimeoutMs = 0, pchannel = None, pdequeueCB = None\<rparr>"

definition pk_setPacketHeader :: "packet_header option \<Rightarrow> 'a packet_scheme \<Rightarrow> 'a packet_scheme" where
  "pk_setPacketHeader header p = (case header of None \<Rightarrow> p | Some h \<Rightarrow> p\<lparr>pheader := h\<rparr>)"

definition pk_setChannelId :: "64 word \<Rightarrow> 'a packet_scheme \<Rightarrow> 'a packet_scheme" where
  "pk_setChannelId chid p = p\<lparr>pheader := (pheader p)\<lparr>hchid := ucast chid\<rparr>\<rparr>"

definition pk_getChannelId :: "'a packet_scheme \<Rightarrow> 64 word" where
  "pk_getChannelId p = ucast (hchid (pheader p))"

definition pk_setPcode :: "32 word \<Rightarrow> 'a packet_scheme \<Rightarrow> 'a packet_scheme" where
  "pk_setPcode c p = p\<lparr>pheader := (pheader p)\<lparr>hpcode := c\<rparr>\<rparr>"

text \<open>\<open>setChannel\<close> also writes the truncated id back into the channel.\<close>

definition pk_setChannel ::
  "ptr \<Rightarrow> 'b channel_scheme heap \<Rightarrow> 'a packet_scheme \<Rightarrow> ('b channel_scheme heap \<times> 'a packet_scheme) option" where
  "pk_setChannel ch h p =
     (case ch of None \<Rightarrow> Some (h, p)
      | Some a \<Rightarrow> do {
          let p = p\<lparr>pchannel := Some a\<rparr>;
          c \<leftarrow> h a;
          let p = pk_setChannelId (cid c) p;
          Some (h(a \<mapsto> c\<lparr>cid := pk_getChannelId p\<rparr>), p) })"

text \<open>\<open>now\<close> is what \<open>TimeUtil::getTime()\<close> returns; the sum must not overflow.\<close>

definition pk_setExpireTime :: "int \<Rightarrow> int \<Rightarrow> 'a packet_scheme \<Rightarrow> 'a packet_scheme option" where
  "pk_setExpireTime now milliseconds p =
     (if milliseconds < 0 then Some (p\<lparr>pexpire := PRE_MAX\<rparr>)
      else if milliseconds = 0 then Some (p\<lparr>pexpire := 0\<rparr>)
      else do {
        let p = p\<lparr>ptimeoutMs := milliseconds\<rparr>;
        check (now + milliseconds * 1000 \<le> TIME_MAX);
        Some (p\<lparr>pexpire := now + milliseconds * 1000\<rparr>) })"

subsection \<open>ControlPacket\<close>

datatype control_cmd = CMD_BAD_PACKET | CMD_TIMEOUT_PACKET | CMD_CONNECTION_CLOSED
  | CMD_RECEIVE_NEW_CONNECTION | CMD_CLOSE_CONNECTION

definition whatCmd :: "control_cmd \<Rightarrow> string" where
  "whatCmd c = (case c of
      CMD_BAD_PACKET \<Rightarrow> ''Bad Packet received''
    | CMD_TIMEOUT_PACKET \<Rightarrow> ''Packet Timeout''
    | CMD_CONNECTION_CLOSED \<Rightarrow> ''Drop packet due to closing connection''
    | CMD_RECEIVE_NEW_CONNECTION \<Rightarrow> ''Receive new connection''
    | CMD_CLOSE_CONNECTION \<Rightarrow> ''Close connection'')"

text \<open>A packet as the streamers and connections see it: of a regular class, or a
  control packet with its header.\<close>

datatype 'p any_packet = Regular 'p | Control control_cmd packet_header

subsection \<open>DefaultPacket\<close>

text \<open>The block behind \<open>_body\<close>: none, allocated, or already released.\<close>

datatype block = Null | Live "byte list" | Freed

record defaultpacket = packet +
  body :: block
  bodyLength :: nat
  capacity :: nat

definition dp_new :: defaultpacket where
  "dp_new = packet.extend pk_new \<lparr>body = Null, bodyLength = 0, capacity = 0\<rparr>"

text \<open>\<open>free\<close> and \<open>realloc\<close> of the C library. \<open>free\<close> gives the state of the block afterwards;
  releasing it twice is undefined. \<open>realloc\<close> returns the new block, \<open>Null\<close> for a null
  result, and the old block as it is left behind: a request for no bytes releases the block
  and returns null, a request for more than \<open>PTRDIFF_MAX\<close> bytes fails and leaves it as it is.\<close>

definition PTRDIFF_MAX :: nat where
  "PTRDIFF_MAX = 2 ^ 63 - 1"

definition c_free :: "block \<Rightarrow> block option" where
  "c_free b = (case b of Null \<Rightarrow> Some Null | Live m \<Rightarrow> Some Freed | Freed \<Rightarrow> None)"

definition c_realloc :: "block \<Rightarrow> nat \<Rightarrow> (block \<times> block) option" where
  "c_realloc b n = (case b of
      Null \<Rightarrow> if n > PTRDIFF_MAX then Some (Null, Null) else Some (Live (malloc n), Null)
    | Live m \<Rightarrow> if n = 0 then Some (Null, Freed)
        else if n > PTRDIFF_MAX then Some (Null, Live m)
        else Some (Live (take n m @ malloc (n - length m)), Freed)
    | Freed \<Rightarrow> None)"

text \<open>Arithmetic on \<open>size_t\<close>.\<close>

definition size_t :: "int \<Rightarrow> nat" where
  "size_t i = nat (i mod 2 ^ 64)"

definition dp_setCapacity :: "nat \<Rightarrow> defaultpacket \<Rightarrow> (bool \<times> defaultpacket) option" where
  "dp_setCapacity cap p =
     (if cap < bodyLength p then Some (False, p)
      else if cap = capacity p then Some (True, p)
      else do {
        (tmp, old) \<leftarrow> c_realloc (body p) cap;
        if tmp = Null then Some (False, p\<lparr>body := old\<rparr>)
        else Some (True, p\<lparr>body := tmp, capacity := cap\<rparr>) })"

definition block_write :: "block \<Rightarrow> nat \<Rightarrow> byte list \<Rightarrow> block option" where
  "block_write b off src = (case b of
      Live m \<Rightarrow> map_option Live (blit m off src)
    | _ \<Rightarrow> None)"

definition dp_appendBody :: "byte list option \<Rightarrow> nat \<Rightarrow> defaultpacket \<Rightarrow> (bool \<times> defaultpacket) option" where
  "dp_appendBody str len p =
     (if len = 0 \<or> str = None then Some (False, p)
      else do {
        (ok, p) \<leftarrow>
          (if size_t (int (capacity p) - int (bodyLength p)) < len
           then dp_setCapacity (if size_t (int (capacity p) * 2 - int (bodyLength p)) \<ge> len then size_t (int (capacity p) * 2)
                                else size_t (int len * 2 + int (bodyLength p))) p
           else Some (True, p));
        if \<not> ok then Some (False, p)
        else do {
          bs \<leftarrow> str;
          check (len \<le> length bs);
          b \<leftarrow> block_write (body p) (bodyLength p) (take len bs);
          Some (True, p\<lparr>body := b, bodyLength := bodyLength p + len\<rparr>) } })"

definition dp_setBody :: "byte list option \<Rightarrow> nat \<Rightarrow> defaultpacket \<Rightarrow> (bool \<times> defaultpacket) option" where
  "dp_setBody str len p =
     (if len = 0 then do {
        old \<leftarrow> (if body p \<noteq> Null then c_free (body p) else Some Null);
        Some (True, p\<lparr>body := Null, bodyLength := 0, capacity := 0\<rparr>) }
      else do {
        let oriLen = bodyLength p;
        let p = p\<lparr>bodyLength := 0\<rparr>;
        (ok, p) \<leftarrow> dp_appendBody str len p;
        if ok then Some (True, p) else Some (False, p\<lparr>bodyLength := oriLen\<rparr>) })"

text \<open>The destructor, with what it leaves of the block.\<close>

definition dp_destroy :: "defaultpacket \<Rightarrow> block option" where
  "dp_destroy p = (if body p \<noteq> Null then c_free (body p) else Some (body p))"

text \<open>The bytes of \<open>getBody\<close> and \<open>getBodyLen\<close>.\<close>

definition dp_getBody :: "defaultpacket \<Rightarrow> byte list option" where
  "dp_getBody p = (case body p of
      Null \<Rightarrow> if bodyLength p = 0 then Some [] else None
    | Live m \<Rightarrow> if bodyLength p \<le> length m then Some (take (bodyLength p) m) else None
    | Freed \<Rightarrow> None)"

definition dp_encode :: "defaultpacket \<Rightarrow> databuffer \<Rightarrow> (bool \<times> defaultpacket \<times> databuffer) option" where
  "dp_encode p output = do {
     output \<leftarrow> (if bodyLength p > 0 then do { bs \<leftarrow> dp_getBody p; db_writeBytes bs output } else Some output);
     Some (True, p, output) }"

text \<open>\<open>header->_dataLen\<close> is converted to \<open>size_t\<close> in the call of \<open>setBody\<close>; a
  negative one would ask for a copy far beyond the input.\<close>

definition dp_decode ::
  "databuffer \<Rightarrow> packet_header \<Rightarrow> defaultpacket \<Rightarrow> (bool \<times> databuffer \<times> defaultpacket) option" where
  "dp_decode input header p = do {
     check (db_getDataLen input \<ge> sint (hdataLen header));
     check (0 \<le> sint (hdataLen header));
     let len = nat (sint (hdataLen header));
     (rc, p) \<leftarrow> dp_setBody (db_peekBytes len input) len p;
     Some (rc, db_drainData len input, p) }"

subsection \<open>StreamingContext\<close>

record 'p streaming_context =
  sc_packet :: "'p any_packet option"
  completed :: bool
  broken :: bool
  eof :: bool
  errorNo :: int
  errorString :: "string option"

definition sc_new :: "'p streaming_context" where
  "sc_new = \<lparr>sc_packet = None, completed = False, broken = False, eof = False, errorNo = 0, errorString = None\<rparr>"

definition sc_setPacket :: "'p any_packet option \<Rightarrow> ('p, 'a) streaming_context_scheme \<Rightarrow> ('p, 'a) streaming_context_scheme" where
  "sc_setPacket packet c = c\<lparr>sc_packet := packet\<rparr>"

definition sc_stealPacket ::
  "('p, 'a) streaming_context_scheme \<Rightarrow> 'p any_packet option \<times> ('p, 'a) streaming_context_scheme" where
  "sc_stealPacket c = (sc_packet c, c\<lparr>sc_packet := None\<rparr>)"

definition sc_reset :: "('p, 'a) streaming_context_scheme \<Rightarrow> ('p, 'a) streaming_context_scheme" where
  "sc_reset c = (sc_setPacket None c)\<lparr>completed := False, broken := False, eof := False,
     errorNo := 0, errorString := None\<rparr>"

subsection \<open>The body of a default packet\<close>

definition dp_inv :: "defaultpacket \<Rightarrow> bool" where
  "dp_inv p \<longleftrightarrow> (case body p of
      Null \<Rightarrow> capacity p = 0 \<and> bodyLength p = 0
    | Live m \<Rightarrow> length m = capacity p \<and> bodyLength p \<le> capacity p \<and> 0 < capacity p \<and> capacity p \<le> PTRDIFF_MAX
    | Freed \<Rightarrow> False)"

definition dp_body :: "defaultpacket \<Rightarrow> byte list" where
  "dp_body p = (case body p of Live m \<Rightarrow> take (bodyLength p) m | _ \<Rightarrow> [])"

lemma dp_inv_new [inv_intros]: "dp_inv dp_new"
  by (simp add: dp_inv_def dp_new_def packet.defs)

lemma dp_body_new [absn]: "dp_body dp_new = []"
  by (simp add: dp_body_def dp_new_def packet.defs)

lemma length_dp_body: "dp_inv p \<Longrightarrow> length (dp_body p) = bodyLength p"
  by (auto simp: dp_inv_def dp_body_def split: block.splits)

lemma dp_getBody_eq [absn]: "dp_inv p \<Longrightarrow> dp_getBody p = Some (dp_body p)"
  by (auto simp: dp_inv_def dp_body_def dp_getBody_def split: block.splits)

lemma size_t_id: "0 \<le> i \<Longrightarrow> i < 2 ^ 64 \<Longrightarrow> size_t i = nat i"
  by (simp add: size_t_def)

lemma setCapacity_ok:
  assumes "dp_inv p" and "0 < cap \<or> capacity p = 0"
  shows "succeeds (dp_setCapacity cap p)
    (\<lambda>(r, p'). (r \<longleftrightarrow> bodyLength p \<le> cap \<and> cap \<le> PTRDIFF_MAX) \<and> dp_inv p' \<and> dp_body p' = dp_body p \<and>
       capacity p' = (if r then cap else capacity p) \<and> bodyLength p' = bodyLength p \<and>
       packet.truncate p' = packet.truncate p)"
  using assms
  by (auto simp: dp_setCapacity_def dp_inv_def dp_body_def c_realloc_def malloc_def packet.defs min_def PTRDIFF_MAX_def
      split: block.splits)

text \<open>How \<open>appendBody\<close> makes room. No body comes near the 2 ^ 61 bytes below which nothing wraps.\<close>

definition grow_size :: "nat \<Rightarrow> defaultpacket \<Rightarrow> nat" where
  "grow_size len p = (if size_t (int (capacity p) * 2 - int (bodyLength p)) \<ge> len then size_t (int (capacity p) * 2)
     else size_t (int len * 2 + int (bodyLength p)))"

lemma grow_size_ok:
  assumes "bodyLength p \<le> capacity p" "capacity p < bodyLength p + len" "bodyLength p + len \<le> 2 ^ 61"
  shows "bodyLength p + len \<le> grow_size len p \<and> 0 < grow_size len p \<and> grow_size len p \<le> PTRDIFF_MAX"
proof -
  have "size_t (int (capacity p) * 2 - int (bodyLength p)) = capacity p * 2 - bodyLength p" "size_t (int (capacity p) * 2) = capacity p * 2"
    "size_t (int len * 2 + int (bodyLength p)) = len * 2 + bodyLength p"
    using assms by (subst size_t_id; simp)+
  with assms show ?thesis by (auto simp: grow_size_def PTRDIFF_MAX_def)
qed

lemma appendBody_ok:
  assumes p: "dp_inv p" and len: "0 < len" "len \<le> length bs" and le61: "bodyLength p + len \<le> 2 ^ 61"
  shows "succeeds (dp_appendBody (Some bs) len p)
    (\<lambda>(r, p'). r \<and> dp_inv p' \<and> dp_body p' = dp_body p @ take len bs \<and> packet.truncate p' = packet.truncate p)"
proof -
  have le: "bodyLength p \<le> capacity p" "capacity p < 2 ^ 63"
    using p by (auto simp: dp_inv_def PTRDIFF_MAX_def split: block.splits)
  then have d: "size_t (int (capacity p) - int (bodyLength p)) = capacity p - bodyLength p"
    by (subst size_t_id) auto
  have "succeeds (if capacity p - bodyLength p < len then dp_setCapacity (grow_size len p) p else Some (True, p))
    (\<lambda>(r, q). r \<and> dp_inv q \<and> dp_body q = dp_body p \<and> bodyLength q + len \<le> capacity q \<and>
       bodyLength q = bodyLength p \<and> packet.truncate q = packet.truncate p)"
  proof (cases "capacity p - bodyLength p < len")
    case True
    then have n: "bodyLength p + len \<le> grow_size len p" "0 < grow_size len p" "grow_size len p \<le> PTRDIFF_MAX"
      using grow_size_ok [of p len] le(1) le61 by auto
    from setCapacity_ok [OF p, of "grow_size len p"] n True show ?thesis
      by (auto elim!: succeeds_mono)
  qed (use p le in auto)
  then obtain q where q: "(if capacity p - bodyLength p < len then dp_setCapacity (grow_size len p) p else Some (True, p)) = Some (True, q)"
    "dp_inv q" "dp_body q = dp_body p" "bodyLength q + len \<le> capacity q" "packet.truncate q = packet.truncate p"
    by (auto elim!: succeedsE)
  obtain m where m: "body q = Live m" "length m = capacity q"
    using q(2,4) len(1) by (auto simp: dp_inv_def split: block.splits)
  obtain m' where m': "blit m (bodyLength q) (take len bs) = Some m'"
    using q(4) m(2) len(2) by (auto simp: blit_def)
  have "take (bodyLength q + len) m' = take (bodyLength q) m @ take len bs"
    using seg_blit_append [OF m', of 0] len(2) by (simp add: seg_def min_absorb2)
  then show ?thesis
    using q m m' len length_blit [OF m']
    by (auto simp: dp_appendBody_def grow_size_def [symmetric] d block_write_def dp_inv_def dp_body_def packet.defs)
qed

lemma setBody_ok:
  assumes "dp_inv p" and "len = 0 \<or> str = Some bs \<and> len \<le> length bs" and "len \<le> 2 ^ 61"
  shows "succeeds (dp_setBody str len p)
    (\<lambda>(r, p'). r \<and> dp_inv p' \<and> dp_body p' = take len bs \<and> packet.truncate p' = packet.truncate p)"
proof (cases "len = 0")
  case True
  then show ?thesis
    using assms(1) by (auto simp: dp_setBody_def c_free_def dp_inv_def dp_body_def packet.defs split: block.splits)
next
  case False
  let ?p = "p\<lparr>bodyLength := 0\<rparr>"
  have "dp_inv ?p" "dp_body ?p = []" "packet.truncate ?p = packet.truncate p"
    using assms(1) by (auto simp: dp_inv_def dp_body_def packet.defs split: block.splits)
  with appendBody_ok [of ?p len bs] False assms(2,3) show ?thesis
    by (auto simp: dp_setBody_def succeeds_def)
qed

lemma dp_encode_ok:
  assumes "dp_inv p" and "db_inv db" and "length (contents db) + length (dp_body p) \<le> 2 ^ 24"
  shows "succeeds (dp_encode p db) (\<lambda>(r, p', db'). r \<and> p' = p \<and> db_inv db' \<and> contents db' = contents db @ dp_body p)"
proof (cases "bodyLength p = 0")
  case True
  then show ?thesis
    using assms length_dp_body [of p] by (simp add: dp_encode_def)
next
  case False
  have "db_fits (length (dp_body p)) db"
    using assms(2,3) by (rule fits_mono)
  from writeBytes_ok [OF this] False show ?thesis
    using assms(1) by (auto simp: dp_encode_def absn succeeds_def)
qed

lemma dp_decode_ok:
  assumes "dp_inv p" and "db_inv db" and "contents db = bs @ rest" and "sint (hdataLen hdr) = int (length bs)"
  shows "succeeds (dp_decode db hdr p) (\<lambda>(r, db', p'). r \<and> db_inv db' \<and> contents db' = rest \<and>
     dp_inv p' \<and> dp_body p' = bs \<and> packet.truncate p' = packet.truncate p)"
proof -
  have "bs \<noteq> [] \<Longrightarrow> db_peekBytes (length bs) db = Some bs"
    using assms(2,3) peek_contents [of db "length bs"] contents_alloc [of db] by auto
  then have "length bs = 0 \<or> db_peekBytes (length bs) db = Some bs \<and> length bs \<le> length bs"
    by auto
  moreover have "int (length bs) < 2 ^ 31"
    using assms(4) sint_less [of "hdataLen hdr"] by simp
  then have "length bs \<le> 2 ^ 61"
    by simp
  ultimately show ?thesis
    using setBody_ok [OF assms(1), of "length bs" "db_peekBytes (length bs) db" bs] assms(2-4)
    by (auto simp: dp_decode_def getDataLen_contents contents_drain db_inv_drain succeeds_def)
qed

subsection \<open>Properties\<close>

text \<open>Operations on the body of a default packet, and what they do to a byte list.\<close>

datatype dp_op = OpSetBody "byte list" | OpAppendBody "byte list" | OpSetCapacity nat

fun dp_step :: "dp_op \<Rightarrow> defaultpacket \<Rightarrow> (bool \<times> defaultpacket) option" where
  "dp_step (OpSetBody bs) p = dp_setBody (Some bs) (length bs) p"
| "dp_step (OpAppendBody bs) p = dp_appendBody (Some bs) (length bs) p"
| "dp_step (OpSetCapacity n) p = dp_setCapacity n p"

fun dp_spec :: "dp_op \<Rightarrow> byte list \<Rightarrow> bool \<times> byte list" where
  "dp_spec (OpSetBody bs) xs = (True, bs)"
| "dp_spec (OpAppendBody bs) xs = (bs \<noteq> [], xs @ bs)"
| "dp_spec (OpSetCapacity n) xs = (length xs \<le> n \<and> n \<le> PTRDIFF_MAX, xs)"

text \<open>The number of bytes the operations hand over.\<close>

fun dp_bytes :: "dp_op \<Rightarrow> nat" where
  "dp_bytes (OpSetBody bs) = length bs"
| "dp_bytes (OpAppendBody bs) = length bs"
| "dp_bytes (OpSetCapacity n) = 0"

fun dp_run :: "dp_op list \<Rightarrow> defaultpacket \<Rightarrow> (bool list \<times> defaultpacket) option" where
  "dp_run [] p = Some ([], p)"
| "dp_run (x # xs) p = do { (r, p) \<leftarrow> dp_step x p; (rs, p) \<leftarrow> dp_run xs p; Some (r # rs, p) }"

fun dp_run_spec :: "dp_op list \<Rightarrow> byte list \<Rightarrow> bool list \<times> byte list" where
  "dp_run_spec [] b = ([], b)"
| "dp_run_spec (x # xs) b = (let (r, b) = dp_spec x b; (rs, b) = dp_run_spec xs b in (r # rs, b))"

lemma dp_step_refines:
  assumes "dp_inv p" and "x \<noteq> OpSetCapacity 0" and "length (dp_body p) + dp_bytes x \<le> 2 ^ 61"
  shows "succeeds (dp_step x p) (\<lambda>(r, p'). dp_inv p' \<and> (r, dp_body p') = dp_spec x (dp_body p))"
proof (cases x)
  case (OpSetBody bs)
  then show ?thesis
    using setBody_ok [OF assms(1), of "length bs" "Some bs" bs] assms(3) by (auto elim!: succeeds_mono)
next
  case (OpAppendBody bs)
  then show ?thesis
    using appendBody_ok [OF assms(1), of "length bs" bs] assms length_dp_body [of p]
    by (cases "bs = []") (auto simp: dp_appendBody_def elim!: succeeds_mono)
next
  case (OpSetCapacity n)
  then show ?thesis
    using setCapacity_ok [OF assms(1), of n] assms by (auto simp: length_dp_body elim!: succeeds_mono)
qed

lemma dp_spec_length: "length (snd (dp_spec x b)) \<le> length b + dp_bytes x"
  by (cases x) auto

lemma dp_run_refines:
  assumes "dp_inv p" and "OpSetCapacity 0 \<notin> set xs" and "length (dp_body p) + (\<Sum>x\<leftarrow>xs. dp_bytes x) \<le> 2 ^ 61"
  shows "succeeds (dp_run xs p) (\<lambda>(rs, p'). dp_inv p' \<and> (rs, dp_body p') = dp_run_spec xs (dp_body p))"
  using assms
proof (induction xs arbitrary: p)
  case (Cons x xs)
  obtain r q where q: "dp_step x p = Some (r, q)" "dp_inv q" "(r, dp_body q) = dp_spec x (dp_body p)"
    using dp_step_refines [of p x] Cons.prems by (auto elim!: succeedsE)
  have "length (dp_body q) \<le> length (dp_body p) + dp_bytes x"
    using dp_spec_length [of x "dp_body p"] q(3) by (metis snd_conv)
  with Cons.IH [OF q(2)] Cons.prems
  obtain rs p' where "dp_run xs q = Some (rs, p')" "dp_inv p'" "(rs, dp_body p') = dp_run_spec xs (dp_body q)"
    by (auto elim!: succeedsE)
  with q show ?case
    by (auto simp: Let_def split: prod.split)
qed simp

text \<open>Property C37. The body of a \<open>DefaultPacket\<close>: every sequence of \<open>setBody\<close>,
  \<open>appendBody\<close> and \<open>setCapacity\<close> (with a capacity other than zero) on a new packet that hands over at most
  2 ^ 61 bytes stays inside the allocated block, returns the right success flags (a
  capacity is refused when it is below the length of the body or above \<open>PTRDIFF_MAX\<close>), leaves the body that the
  same operations on a byte list produce, and the destructor then releases the block, if there is one, which has not
  been released before.\<close>

theorem default_packet_body:
  assumes "OpSetCapacity 0 \<notin> set xs" and "(\<Sum>x\<leftarrow>xs. dp_bytes x) \<le> 2 ^ 61"
  shows "succeeds (dp_run xs dp_new) (\<lambda>(rs, p). (\<exists>b. dp_getBody p = Some b \<and> (rs, b) = dp_run_spec xs []) \<and>
    dp_destroy p = Some (if body p = Null then Null else Freed))"
proof -
  have d: "dp_destroy p = Some (if body p = Null then Null else Freed)" if "dp_inv p" for p
    using that by (auto simp: dp_destroy_def dp_inv_def c_free_def split: block.splits)
  from dp_run_refines [OF dp_inv_new assms(1)] assms(2) show ?thesis
    by (auto simp: dp_body_new dp_getBody_eq d elim!: succeeds_mono)
qed

theorem default_packet_body_witness:
  "succeeds (dp_run [OpSetBody [1, 2, 3], OpAppendBody [4], OpSetCapacity 2, OpSetCapacity (2 ^ 63)] dp_new)
     (\<lambda>(rs, p). rs = [True, True, False, False] \<and> dp_getBody p = Some [1, 2, 3, 4] \<and> dp_destroy p = Some (if body p = Null then Null else Freed))"
  using default_packet_body [of "[OpSetBody [1, 2, 3], OpAppendBody [4], OpSetCapacity 2, OpSetCapacity (2 ^ 63)]"]
  by (auto simp: PTRDIFF_MAX_def elim!: succeeds_mono)

text \<open>\<open>DefaultPacket::setCapacity(0)\<close> on a packet with a capacity but no
  body: \<open>realloc\<close> releases the block and returns null, the packet reports failure and
  keeps the pointer, and its destructor releases the block a second time.\<close>

theorem setCapacity_zero_double_free:
  assumes "0 < n" "n \<le> PTRDIFF_MAX"
  shows "succeeds (do { (r1, p) \<leftarrow> dp_setCapacity n dp_new; (r2, p) \<leftarrow> dp_setCapacity 0 p; Some (r1, r2, p) })
    (\<lambda>(r1, r2, p). r1 \<and> \<not> r2 \<and> body p = Freed \<and> dp_destroy p = None)"
  using assms by (simp add: dp_setCapacity_def dp_new_def packet.defs c_realloc_def dp_destroy_def c_free_def)

theorem setCapacity_zero_double_free_witness:
  "succeeds (do { (r1, p) \<leftarrow> dp_setCapacity 8 dp_new; (r2, p) \<leftarrow> dp_setCapacity 0 p; Some (r1, r2, p) })
    (\<lambda>(r1, r2, p). r1 \<and> \<not> r2 \<and> body p = Freed \<and> dp_destroy p = None)"
  by (rule setCapacity_zero_double_free) (simp_all add: PTRDIFF_MAX_def)

end
