(* ===== verification/Streamers.thy ===== *)
theory Streamers
  imports Packets
begin

text \<open>
  \<open>anet::DefaultPacketStreamer\<close> (\<open>network/anet/defaultpacketstreamer.cpp\<close>) and
  the receiving side of \<open>anet::TCPConnection\<close> (\<open>tcpconnection.cpp\<close>,
  \<open>readData\<close>). The streamer works on any class of packets; the virtual functions it
  calls are the fields of the record \<open>packet_class\<close> and their contract is the locale
  \<open>packet_codec\<close>, interpreted with \<open>DefaultPacket\<close>. The lemmas show that the
  encoder writes one frame, that a failing packet leaves the buffer unchanged, that a
  malformed frame is rejected, and that a stream of frames is put together again however
  the socket cuts it into pieces.
\<close>

subsection \<open>Packet classes\<close>

record 'p packet_class =
  cl_header :: "'p \<Rightarrow> packet_header"
  cl_setHeader :: "packet_header \<Rightarrow> 'p \<Rightarrow> 'p"
  cl_encode :: "'p \<Rightarrow> databuffer \<Rightarrow> (bool \<times> 'p \<times> databuffer) option"
  cl_decode :: "databuffer \<Rightarrow> packet_header \<Rightarrow> 'p \<Rightarrow> (bool \<times> databuffer \<times> 'p) option"
  cl_create :: "32 word \<Rightarrow> 'p option"

fun ap_header :: "'p packet_class \<Rightarrow> 'p any_packet \<Rightarrow> packet_header" where
  "ap_header cls (Regular p) = cl_header cls p"
| "ap_header cls (Control c h) = h"

fun ap_setHeader :: "'p packet_class \<Rightarrow> packet_header \<Rightarrow> 'p any_packet \<Rightarrow> 'p any_packet" where
  "ap_setHeader cls h (Regular p) = Regular (cl_setHeader cls h p)"
| "ap_setHeader cls h (Control c h0) = Control c h"

fun ap_encode ::
  "'p packet_class \<Rightarrow> 'p any_packet \<Rightarrow> databuffer \<Rightarrow> (bool \<times> 'p any_packet \<times> databuffer) option" where
  "ap_encode cls (Regular p) db = do { (r, p, db) \<leftarrow> cl_encode cls p db; Some (r, Regular p, db) }"
| "ap_encode cls (Control c h) db = Some (False, Control c h, db)"

fun ap_decode ::
  "'p packet_class \<Rightarrow> databuffer \<Rightarrow> packet_header \<Rightarrow> 'p any_packet \<Rightarrow> (bool \<times> databuffer \<times> 'p any_packet) option" where
  "ap_decode cls db h (Regular p) = do { (r, db, p) \<leftarrow> cl_decode cls db h p; Some (r, db, Regular p) }"
| "ap_decode cls db h (Control c h0) = Some (False, db, Control c h0)"

subsection \<open>DefaultPacketStreamer\<close>

definition max_package_size :: int where
  "max_package_size = 0x40000000"

text \<open>The result is the return value, the header, the flag \<open>*broken\<close> and the input.\<close>

definition dps_getPacketInfo ::
  "bool \<Rightarrow> databuffer \<Rightarrow> packet_header \<Rightarrow> bool \<Rightarrow> (bool \<times> packet_header \<times> bool \<times> databuffer) option" where
  "dps_getPacketInfo existPacketHeader input header brk =
     (if existPacketHeader then
        if db_getDataLen input < PACKET_INFO_LEN then Some (False, header, brk, input)
        else do {
          (flag, input) \<leftarrow> db_readInt32 input;
          (chid, input) \<leftarrow> db_readInt32 input;
          (pcode, input) \<leftarrow> db_readInt32 input;
          (dataLen, input) \<leftarrow> db_readInt32 input;
          let header = \<lparr>hchid = chid, hpcode = pcode, hdataLen = dataLen\<rparr>;
          if flag \<noteq> ANET_PACKET_FLAG \<or> sint dataLen < 0 \<or> sint dataLen > max_package_size
          then Some (False, header, True, input)
          else Some (True, header, brk, input) }
      else if db_getDataLen input = 0 then Some (False, header, brk, input)
      else Some (True, header, brk, input))"

definition dps_encode ::
  "'p packet_class \<Rightarrow> bool \<Rightarrow> 'p any_packet \<Rightarrow> databuffer \<Rightarrow> (bool \<times> 'p any_packet \<times> databuffer) option" where
  "dps_encode cls existPacketHeader packet output = do {
     let header = ap_header cls packet;
     let oldLen = db_getDataLen output;
     (dataLenOffset, pcodeOffset, headerSize, output) \<leftarrow>
       (if existPacketHeader then do {
          output \<leftarrow> db_writeInt32 ANET_PACKET_FLAG output;
          output \<leftarrow> db_writeInt32 (hchid header) output;
          let pcodeOffset = db_getDataLen output;
          output \<leftarrow> db_writeInt32 (hpcode header) output;
          let dataLenOffset = db_getDataLen output;
          output \<leftarrow> db_writeInt32 0 output;
          Some (dataLenOffset, pcodeOffset, 16, output) }
        else Some (-1, -1, 0, output));
     (r, packet, output) \<leftarrow> ap_encode cls packet output;
     if \<not> r then do {
       output \<leftarrow> db_stripData (nat (db_getDataLen output - oldLen)) output;
       Some (False, packet, output) }
     else do {
       let len = db_getDataLen output - oldLen - headerSize;
       let packet = ap_setHeader cls ((ap_header cls packet)\<lparr>hdataLen := of_int len\<rparr>) packet;
       check (db_getDataLen output \<ge> oldLen + headerSize);
       output \<leftarrow>
         (if dataLenOffset \<ge> 0 then do {
            output \<leftarrow> db_fillInt32 (nat dataLenOffset) (hdataLen (ap_header cls packet)) output;
            db_fillInt32 (nat pcodeOffset) (hpcode (ap_header cls packet)) output }
          else Some output);
       Some (True, packet, output) } }"

text \<open>\<open>junk\<close> is the content of the local variable \<open>header\<close> before
  \<open>getPacketInfo\<close> sets it, which the code reads when there is no packet header.\<close>

definition dps_processData ::
  "'p packet_class \<Rightarrow> bool \<Rightarrow> packet_header \<Rightarrow> databuffer \<Rightarrow> 'p streaming_context \<Rightarrow>
   (bool \<times> databuffer \<times> 'p streaming_context) option" where
  "dps_processData cls existPacketHeader junk dataBuffer context = do {
     (stop, r, dataBuffer, context) \<leftarrow>
       (if sc_packet context = None then do {
          (ok, header, brokenFlag, dataBuffer) \<leftarrow> dps_getPacketInfo existPacketHeader dataBuffer junk False;
          if \<not> ok then do {
            let context = context\<lparr>broken := brokenFlag\<rparr>;
            Some (True, \<not> brokenFlag \<and> \<not> eof context, dataBuffer, context) }
          else do {
            packet \<leftarrow> cl_create cls (hpcode header);
            let packet = Regular (cl_setHeader cls header packet);
            let context = sc_setPacket (Some packet) context;
            dataBuffer \<leftarrow> db_ensureFree (nat (sint (hdataLen header))) dataBuffer;
            Some (False, True, dataBuffer, context) } }
        else Some (False, True, dataBuffer, context));
     if stop then Some (r, dataBuffer, context)
     else do {
       packet \<leftarrow> sc_packet context;
       let header = ap_header cls packet;
       if db_getDataLen dataBuffer < sint (hdataLen header) then do {
         let context = context\<lparr>broken := eof context\<rparr>;
         Some (\<not> eof context, dataBuffer, context) }
       else do {
         (ok, dataBuffer, packet) \<leftarrow> ap_decode cls dataBuffer header packet;
         context \<leftarrow>
           (if \<not> ok then Some (sc_setPacket (Some (Control CMD_BAD_PACKET (ap_header cls packet))) context)
            else do {
              check (0 \<le> sint (hdataLen (ap_header cls packet)));
              Some (sc_setPacket (Some packet) context) });
         Some (True, dataBuffer, context\<lparr>completed := True\<rparr>) } } }"

subsection \<open>TCPConnection::readData\<close>

text \<open>The streamer of a connection is given by its \<open>processData\<close>; its context is one
  whose \<open>reset\<close> is that of \<open>StreamingContext\<close>. The state holds
  the fields \<open>readData\<close> uses; \<open>delivered\<close> are the packets passed to
  \<open>handlePacket\<close>, in order.\<close>

record ('p, 'c) tcp_input =
  ti_input :: databuffer
  ti_context :: "('p, 'c) streaming_context_scheme"
  ti_maxRecv :: int
  ti_spaceAllocated :: int
  ti_rxBytes :: int
  ti_readCount :: int
  delivered :: "'p any_packet list"

partial_function (option) tc_drain ::
  "(databuffer \<Rightarrow> ('p, 'c) streaming_context_scheme \<Rightarrow> (bool \<times> databuffer \<times> ('p, 'c) streaming_context_scheme) option) \<Rightarrow>
   ('p any_packet \<Rightarrow> packet_header) \<Rightarrow> ('p, 'c) tcp_input \<Rightarrow> ('p, 'c) tcp_input option" where
  "tc_drain process hdr s = do {
     (r, db, ctx) \<leftarrow> process (ti_input s) (ti_context s);
     let s = s\<lparr>ti_input := db, ti_context := ctx\<rparr>;
     if \<not> r then Some s
     else if \<not> completed (ti_context s) then Some s
     else do {
       let (p, ctx) = sc_stealPacket (ti_context s);
       packet \<leftarrow> p;
       let sz = PACKET_INFO_LEN + sint (hdataLen (hdr packet));
       let s = (if sz > ti_maxRecv s then s\<lparr>ti_maxRecv := sz\<rparr> else s);
       let s = s\<lparr>delivered := delivered s @ [packet]\<rparr>;
       tc_drain process hdr (s\<lparr>ti_context := sc_reset ctx\<rparr>) } }"

text \<open>A read from the socket yields an error code or bytes (none at the end of the
  stream); a socket with nothing to read reports \<open>EAGAIN\<close>.\<close>

definition EAGAIN :: int where
  "EAGAIN = 11"

definition tc_addInputSpace :: "int \<Rightarrow> ('p, 'c) tcp_input \<Rightarrow> ('p, 'c) tcp_input" where
  "tc_addInputSpace n s = (if n = 0 then s else s\<lparr>ti_spaceAllocated := ti_spaceAllocated s + n\<rparr>)"

text \<open>One round of the loop: the result is \<open>ret\<close>, \<open>error\<close>, \<open>broken\<close>, the
  state and the socket.\<close>

definition tc_round ::
  "(databuffer \<Rightarrow> ('p, 'c) streaming_context_scheme \<Rightarrow> (bool \<times> databuffer \<times> ('p, 'c) streaming_context_scheme) option) \<Rightarrow>
   ('p any_packet \<Rightarrow> packet_header) \<Rightarrow> nat \<Rightarrow> ('p, 'c) tcp_input \<Rightarrow> (int + byte list) list \<Rightarrow>
   (int \<times> int \<times> bool \<times> ('p, 'c) tcp_input \<times> (int + byte list) list) option" where
  "tc_round process hdr readWriteBufSize s sock = do {
     let oldSpaceUsed = db_getSpaceUsed (ti_input s);
     input \<leftarrow> db_ensureFree readWriteBufSize (ti_input s);
     let s = s\<lparr>ti_input := input\<rparr>;
     let (res, sock) = (case sock of [] \<Rightarrow> (Inl EAGAIN, []) | x # xs \<Rightarrow> (x, xs));
     case res of
       Inl err \<Rightarrow>
         Some (-1, err, False, tc_addInputSpace (db_getSpaceUsed (ti_input s) - oldSpaceUsed) s, sock)
     | Inr bytes \<Rightarrow> do {
         let ret = int (length bytes);
         let s = (if ret = 0 then s\<lparr>ti_context := (ti_context s)\<lparr>eof := True\<rparr>\<rparr> else s);
         input \<leftarrow> db_fillFree bytes (ti_input s);
         input \<leftarrow> db_pourData (length bytes) input;
         let s = s\<lparr>ti_input := input, ti_rxBytes := ti_rxBytes s + ret\<rparr>;
         s \<leftarrow> tc_drain process hdr s;
         let brk = broken (ti_context s);
         Some (ret, 0, brk, tc_addInputSpace (db_getSpaceUsed (ti_input s) - oldSpaceUsed) s, sock) } }"

fun tc_loop ::
  "nat \<Rightarrow> (databuffer \<Rightarrow> ('p, 'c) streaming_context_scheme \<Rightarrow> (bool \<times> databuffer \<times> ('p, 'c) streaming_context_scheme) option) \<Rightarrow>
   ('p any_packet \<Rightarrow> packet_header) \<Rightarrow> nat \<Rightarrow> ('p, 'c) tcp_input \<Rightarrow> (int + byte list) list \<Rightarrow>
   (int \<times> int \<times> bool \<times> int \<times> ('p, 'c) tcp_input \<times> (int + byte list) list) option" where
  "tc_loop 0 process hdr bs s sock = None"
| "tc_loop (Suc n) process hdr bs s sock = do {
     (ret, err, brk, s, sock) \<leftarrow> tc_round process hdr bs s sock;
     if ret = int bs \<and> \<not> brk \<and> n > 0
     then do {
       (ret, err, brk, cnt, s, sock) \<leftarrow> tc_loop n process hdr bs s sock;
       Some (ret, err, brk, cnt + 1, s, sock) }
     else Some (ret, err, brk, 1, s, sock) }"

definition tc_readData ::
  "(databuffer \<Rightarrow> ('p, 'c) streaming_context_scheme \<Rightarrow> (bool \<times> databuffer \<times> ('p, 'c) streaming_context_scheme) option) \<Rightarrow>
   ('p any_packet \<Rightarrow> packet_header) \<Rightarrow> nat \<Rightarrow> ('p, 'c) tcp_input \<Rightarrow> (int + byte list) list \<Rightarrow>
   (bool \<times> ('p, 'c) tcp_input \<times> (int + byte list) list) option" where
  "tc_readData process hdr readWriteBufSize s sock = do {
     (ret, error, brk, readCnt, s, sock) \<leftarrow> tc_loop 10 process hdr readWriteBufSize s sock;
     let s = s\<lparr>ti_readCount := ti_readCount s + readCnt\<rparr>;
     let brk = (if \<not> brk then ret = 0 \<or> ret < 0 \<and> error \<noteq> 0 \<and> error \<noteq> EAGAIN else brk);
     Some (\<not> brk, s, sock) }"

text \<open>The socket is polled level-triggered: as long as there is something to read, the
  component gets another read event. \<open>n\<close> bounds the number of events.\<close>

fun tc_pump ::
  "nat \<Rightarrow> (databuffer \<Rightarrow> ('p, 'c) streaming_context_scheme \<Rightarrow> (bool \<times> databuffer \<times> ('p, 'c) streaming_context_scheme) option) \<Rightarrow>
   ('p any_packet \<Rightarrow> packet_header) \<Rightarrow> nat \<Rightarrow> ('p, 'c) tcp_input \<Rightarrow> (int + byte list) list \<Rightarrow>
   (bool \<times> ('p, 'c) tcp_input \<times> (int + byte list) list) option" where
  "tc_pump 0 process hdr bs s sock = Some (True, s, sock)"
| "tc_pump (Suc n) process hdr bs s sock =
     (if sock = [] then Some (True, s, sock)
      else do {
        (r, s, sock) \<leftarrow> tc_readData process hdr bs s sock;
        if r then tc_pump n process hdr bs s sock else Some (False, s, sock) })"

subsection \<open>Frames\<close>

text \<open>The header of a frame on the wire.\<close>

definition wire_header :: "packet_header \<Rightarrow> byte list" where
  "wire_header h = be32 ANET_PACKET_FLAG @ be32 (hchid h) @ be32 (hpcode h) @ be32 (hdataLen h)"

lemma length_wire_header [simp]: "length (wire_header h) = 16"
  by (simp add: wire_header_def)

lemma getPacketInfo_short:
  "db_inv db \<Longrightarrow> length (contents db) < 16 \<Longrightarrow> dps_getPacketInfo True db junk brk = Some (False, junk, brk, db)"
  by (simp add: dps_getPacketInfo_def getDataLen_contents PACKET_INFO_LEN_def)

lemma readInt32_bind:
  assumes "db_inv db" and "contents db = be32 n @ rest"
    and "\<And>d. db_inv d \<Longrightarrow> contents d = rest \<Longrightarrow> succeeds (f n d) Q"
  shows "succeeds (do { (v, d) \<leftarrow> db_readInt32 db; f v d }) Q"
  by (rule succeeds_bind [OF readInt32_ok [OF assms(1,2)]]) (use assms(3) in auto)

lemma getPacketInfo_header:
  assumes "db_inv db" and "contents db = be32 flag @ be32 (hchid h) @ be32 (hpcode h) @ be32 (hdataLen h) @ rest"
  shows "succeeds (dps_getPacketInfo True db junk False)
    (\<lambda>(ok, h', brk, db'). (ok \<longleftrightarrow> flag = ANET_PACKET_FLAG \<and> 0 \<le> sint (hdataLen h) \<and> sint (hdataLen h) \<le> max_package_size) \<and>
       brk = (\<not> ok) \<and> h' = h \<and> db_inv db' \<and> contents db' = rest)"
proof -
  have len: "\<not> db_getDataLen db < PACKET_INFO_LEN"
    using assms by (simp add: getDataLen_contents PACKET_INFO_LEN_def)
  show ?thesis
    unfolding dps_getPacketInfo_def using len
    by (auto intro!: readInt32_bind [OF assms] readInt32_bind simp: Let_def not_less)
qed

lemma poke_ok:
  assumes "db_inv db" and "off < length (contents db)"
  shows "succeeds (db_poke off v db) (\<lambda>d. db_inv d \<and> contents d = (contents db)[off := v])"
proof -
  obtain m where m: "pstart db = Some m"
    using assms(2) by (cases "pstart db") auto
  have "pdata db + off < pfree db" "pfree db \<le> length m"
    using assms m by (auto simp: length_contents db_inv_def pend_def)
  then have "seg (pdata db) (pfree db) (m[pdata db + off := v]) = (seg (pdata db) (pfree db) m)[off := v]"
    by (simp add: seg_def drop_update_swap take_update_swap)
  with m assms(1) \<open>pdata db + off < pfree db\<close> \<open>pfree db \<le> length m\<close> show ?thesis
    by (simp add: db_poke_def db_inv_def contents_def pend_def)
qed

lemma poke_bind:
  assumes "db_inv db" and "off < length (contents db)"
    and "\<And>d. db_inv d \<Longrightarrow> contents d = (contents db)[off := v] \<Longrightarrow> succeeds (f d) Q"
  shows "succeeds (do { d \<leftarrow> db_poke off v db; f d }) Q"
  by (rule succeeds_bind [OF poke_ok [OF assms(1,2)]]) (use assms(3) in auto)

lemma fillInt32_ok:
  assumes "db_inv db" and "contents db = xs @ ys @ zs" and "length ys = 4"
  shows "succeeds (db_fillInt32 (length xs) n db) (\<lambda>d. db_inv d \<and> contents d = xs @ be32 n @ zs)"
proof -
  obtain a b c e where ys: "ys = [a, b, c, e]"
    using list_of_length_4 [OF assms(3)] by blast
  have "succeeds (db_fillInt32 (length xs) n db) (\<lambda>d. db_inv d \<and> contents d =
    (contents db)[length xs + 3 := ucast n, length xs + 2 := ucast (drop_bit 8 n),
      length xs + 1 := ucast (drop_bit 8 (drop_bit 8 n)), length xs := ucast (drop_bit 8 (drop_bit 8 (drop_bit 8 n)))])"
    unfolding db_fillInt32_def Let_def
    by (intro poke_bind [OF assms(1)] poke_bind succeeds_mono [OF poke_ok]) (use assms(2) ys in auto)
  then show ?thesis
    by (rule succeeds_mono) (use assms(2) ys in \<open>auto simp: be32_def list_update_append drop_bit_drop_bit eval_nat_numeral\<close>)
qed

subsection \<open>The contract of a packet class\<close>

text \<open>\<open>ok\<close> is the invariant of the class and \<open>ser\<close> the bytes of a packet's body.\<close>

locale packet_codec =
  fixes cls :: "'p packet_class" and ok :: "'p \<Rightarrow> bool" and ser :: "'p \<Rightarrow> byte list"
  assumes enc: "\<lbrakk>ok p; db_inv db; length (contents db) + length (ser p) \<le> 2 ^ 24\<rbrakk> \<Longrightarrow>
      succeeds (cl_encode cls p db) (\<lambda>(r, p', db'). r \<and> db_inv db' \<and> contents db' = contents db @ ser p \<and>
        ok p' \<and> ser p' = ser p \<and> cl_header cls p' = cl_header cls p)"
    and dec: "\<lbrakk>ok q; db_inv db; contents db = ser p @ rest; ok p; sint (hdataLen h) = int (length (ser p))\<rbrakk> \<Longrightarrow>
      succeeds (cl_decode cls db h q) (\<lambda>(r, db', q'). r \<and> db_inv db' \<and> contents db' = rest \<and>
        ok q' \<and> ser q' = ser p \<and> cl_header cls q' = cl_header cls q)"
    and create: "\<exists>q. cl_create cls c = Some q \<and> ok q \<and> ser q = []"
    and header_set: "cl_header cls (cl_setHeader cls h p) = h"
    and ok_set: "ok (cl_setHeader cls h p) = ok p"
    and ser_set: "ser (cl_setHeader cls h p) = ser p"

definition wire :: "'p packet_class \<Rightarrow> ('p \<Rightarrow> byte list) \<Rightarrow> 'p \<Rightarrow> byte list" where
  "wire cls ser p = wire_header ((cl_header cls p)\<lparr>hdataLen := of_nat (length (ser p))\<rparr>) @ ser p"

definition sendable :: "('p \<Rightarrow> bool) \<Rightarrow> ('p \<Rightarrow> byte list) \<Rightarrow> 'p \<Rightarrow> bool" where
  "sendable ok ser p \<longleftrightarrow> ok p \<and> length (ser p) \<le> 2 ^ 23"

text \<open>The packet delivered by the receiver and the one the sender had: the same body,
  channel and packet code.\<close>

fun same_packet :: "'p packet_class \<Rightarrow> ('p \<Rightarrow> byte list) \<Rightarrow> 'p \<Rightarrow> 'p any_packet \<Rightarrow> bool" where
  "same_packet cls ser p (Regular q) \<longleftrightarrow> ser q = ser p \<and>
     cl_header cls q = (cl_header cls p)\<lparr>hdataLen := of_nat (length (ser p))\<rparr>"
| "same_packet cls ser p (Control c h) \<longleftrightarrow> False"

text \<open>What the peer has sent and the streamer has not delivered: a header that has been
  read counts as still to come.\<close>

definition pending :: "'p packet_class \<Rightarrow> databuffer \<Rightarrow> 'p streaming_context \<Rightarrow> byte list" where
  "pending cls db ctx = (case sc_packet ctx of Some (Regular q) \<Rightarrow> wire_header (cl_header cls q) @ contents db | _ \<Rightarrow> contents db)"

text \<open>A context between two calls.\<close>

definition receiving :: "'p packet_class \<Rightarrow> ('p \<Rightarrow> bool) \<Rightarrow> databuffer \<Rightarrow> 'p streaming_context \<Rightarrow> bool" where
  "receiving cls ok db ctx \<longleftrightarrow> db_inv db \<and> \<not> completed ctx \<and> \<not> broken ctx \<and> \<not> eof ctx \<and>
     (case sc_packet ctx of None \<Rightarrow> True
      | Some (Regular q) \<Rightarrow> ok q \<and> 0 \<le> sint (hdataLen (cl_header cls q))
      | Some (Control c h) \<Rightarrow> False)"

lemma length_wire: "length (wire cls ser p) = 16 + length (ser p)"
  by (simp add: wire_def)

lemma wire_not_Nil [simp]: "wire cls ser p \<noteq> []"
  using length_wire [of cls ser p] by auto

lemma sendable_len: "sendable ok ser p \<Longrightarrow> sint (of_nat (length (ser p)) :: 32 word) = int (length (ser p))"
  by (rule sint_of_nat_small) (simp add: sendable_def)

lemma be32_decode:
  "shl8_or (shl8_or (shl8_or (ucast (be32 n ! 0)) (be32 n ! 1)) (be32 n ! 2)) (be32 n ! 3) = n"
  using ucast_ucast_drop [of 24 n] by (simp add: be32_def shl8_or_drop shl8_or_last)

lemma be32_inj: "be32 a @ xs = be32 b @ ys \<longleftrightarrow> a = b \<and> xs = ys"
proof
  assume eq: "be32 a @ xs = be32 b @ ys"
  then have "be32 a = be32 b" "xs = ys"
    by (simp_all add: be32_def)
  then show "a = b \<and> xs = ys"
    using be32_decode [of a] be32_decode [of b] by simp
qed simp

lemma wire_header_inj: "wire_header h @ xs = wire_header h' @ ys \<longleftrightarrow> h = h' \<and> xs = ys"
  by (cases h; cases h') (auto simp: wire_header_def be32_inj)

context packet_codec
begin

lemma decode_step:
  assumes ctx: "receiving cls ok db ctx" "sc_packet ctx = Some (Regular q)"
    and p: "ok p" "contents db = ser p @ rest" "sint (hdataLen (cl_header cls q)) = int (length (ser p))"
  shows "succeeds (dps_processData cls True junk db ctx)
    (\<lambda>(r, db', ctx'). r \<and> db_inv db' \<and> contents db' = rest \<and> completed ctx' \<and> \<not> broken ctx' \<and> \<not> eof ctx' \<and>
       (\<exists>q'. sc_packet ctx' = Some (Regular q') \<and> ser q' = ser p \<and> cl_header cls q' = cl_header cls q))"
proof -
  have inv: "ok q" "db_inv db" "\<not> broken ctx" "\<not> eof ctx"
    using ctx by (auto simp: receiving_def)
  have "\<not> db_getDataLen db < sint (hdataLen (cl_header cls q))"
    using inv(2) p(2,3) by (simp add: getDataLen_contents)
  with dec [OF inv(1,2) p(2,1,3)] inv ctx(2) p(3) show ?thesis
    by (auto simp: dps_processData_def sc_setPacket_def succeeds_def)
qed

lemma wait_step:
  assumes ctx: "receiving cls ok db ctx" "sc_packet ctx = Some (Regular q)"
    and short: "int (length (contents db)) < sint (hdataLen (cl_header cls q))"
  shows "succeeds (dps_processData cls True junk db ctx)
    (\<lambda>(r, db', ctx'). r \<and> db' = db \<and> receiving cls ok db' ctx' \<and> sc_packet ctx' = sc_packet ctx)"
proof -
  have inv: "db_inv db" "\<not> eof ctx"
    using ctx by (auto simp: receiving_def)
  with short ctx show ?thesis
    by (auto simp: dps_processData_def getDataLen_contents receiving_def)
qed

text \<open>Reading a header is a step of its own: the call continues as if the packet had
  been in the context before.\<close>

lemma header_step:
  assumes ctx: "receiving cls ok db ctx" "sc_packet ctx = None"
    and h: "contents db = wire_header h @ rest" "0 \<le> sint (hdataLen h)" "sint (hdataLen h) \<le> 2 ^ 23"
    and small: "length rest \<le> 2 ^ 24"
  shows "\<exists>db' ctx' q. dps_processData cls True junk db ctx = dps_processData cls True junk db' ctx' \<and>
    receiving cls ok db' ctx' \<and> sc_packet ctx' = Some (Regular q) \<and> cl_header cls q = h \<and> contents db' = rest"
proof -
  have inv: "db_inv db"
    using ctx by (simp add: receiving_def)
  have "contents db = be32 ANET_PACKET_FLAG @ be32 (hchid h) @ be32 (hpcode h) @ be32 (hdataLen h) @ rest"
    using h(1) by (simp add: wire_header_def)
  from getPacketInfo_header [OF inv this, of junk] h(2,3)
  obtain d1 where d1: "dps_getPacketInfo True db junk False = Some (True, h, False, d1)" "db_inv d1" "contents d1 = rest"
    by (auto simp: max_package_size_def elim!: succeedsE)
  have "db_fits (nat (sint (hdataLen h))) d1"
    using d1(2,3) small h(3) by (auto simp: db_fits_def)
  from ensureFree_ok [OF this] obtain d2 where d2: "db_ensureFree (nat (sint (hdataLen h))) d1 = Some d2"
    "db_inv d2" "contents d2 = rest"
    using d1(3) by (auto elim: succeedsE)
  obtain q where q: "cl_create cls (hpcode h) = Some q" "ok q"
    using create by blast
  let ?q = "cl_setHeader cls h q"
  let ?ctx = "sc_setPacket (Some (Regular ?q)) ctx"
  have "dps_processData cls True junk db ctx = dps_processData cls True junk d2 ?ctx"
    using d1(1) d2(1) q(1) ctx(2) by (simp add: dps_processData_def sc_setPacket_def Let_def)
  moreover have "receiving cls ok d2 ?ctx"
    using ctx(1) d2(2) q(2) h(2) by (simp add: receiving_def sc_setPacket_def ok_set header_set)
  ultimately show ?thesis
    using d2(3) by (intro exI [of _ d2] exI [of _ ?ctx] exI [of _ ?q]) (simp add: sc_setPacket_def header_set)
qed

lemma process_complete:
  assumes ctx: "receiving cls ok db ctx" and p: "sendable ok ser p"
    and pend: "pending cls db ctx = wire cls ser p @ rest" and small: "length (ser p @ rest) \<le> 2 ^ 24"
  shows "succeeds (dps_processData cls True junk db ctx)
    (\<lambda>(r, db', ctx'). r \<and> db_inv db' \<and> contents db' = rest \<and> completed ctx' \<and> \<not> broken ctx' \<and> \<not> eof ctx' \<and>
       (\<exists>q. sc_packet ctx' = Some (Regular q) \<and> same_packet cls ser p (Regular q)))"
proof -
  let ?h = "(cl_header cls p)\<lparr>hdataLen := of_nat (length (ser p))\<rparr>"
  have okp: "ok p" and len: "sint (hdataLen ?h) = int (length (ser p))"
    using p sendable_len [OF p] by (simp_all add: sendable_def)
  have le: "sint (hdataLen ?h) \<le> 2 ^ 23"
    using p len by (simp add: sendable_def)
  have "\<exists>d c q. dps_processData cls True junk db ctx = dps_processData cls True junk d c \<and>
    receiving cls ok d c \<and> sc_packet c = Some (Regular q) \<and> cl_header cls q = ?h \<and> contents d = ser p @ rest"
  proof (cases "sc_packet ctx")
    case None
    then have "contents db = wire_header ?h @ ser p @ rest"
      using pend by (simp add: pending_def wire_def)
    from header_step [OF ctx None this _ le small] len show ?thesis
      by simp
  next
    case (Some x)
    then obtain q where q: "x = Regular q"
      using ctx by (cases x) (auto simp: receiving_def)
    then have "cl_header cls q = ?h" "contents db = ser p @ rest"
      using pend Some by (auto simp: pending_def wire_def wire_header_inj)
    then show ?thesis
      using ctx Some q by (intro exI [of _ db] exI [of _ ctx] exI [of _ q]) simp
  qed
  then obtain d c q where eq: "dps_processData cls True junk db ctx = dps_processData cls True junk d c"
    and c: "receiving cls ok d c" "sc_packet c = Some (Regular q)" and h: "cl_header cls q = ?h"
    and cont: "contents d = ser p @ rest"
    by blast
  from decode_step [OF c okp cont, of junk] len h show ?thesis
    unfolding eq by (auto elim!: succeeds_mono)
qed

lemma process_partial:
  assumes ctx: "receiving cls ok db ctx" and p: "sendable ok ser p"
    and pend: "pending cls db ctx @ x = wire cls ser p" and x: "x \<noteq> []"
  shows "succeeds (dps_processData cls True junk db ctx)
    (\<lambda>(r, db', ctx'). r \<and> receiving cls ok db' ctx' \<and> pending cls db' ctx' = pending cls db ctx)"
proof (cases "sc_packet ctx = None \<and> length (contents db) < 16")
  case True
  then have "db_inv db"
    using ctx by (simp add: receiving_def)
  with True ctx getPacketInfo_short [of db junk False] show ?thesis
    by (auto simp: dps_processData_def receiving_def pending_def)
next
  case False
  let ?h = "(cl_header cls p)\<lparr>hdataLen := of_nat (length (ser p))\<rparr>"
  have len: "sint (hdataLen ?h) = int (length (ser p))" and le: "sint (hdataLen ?h) \<le> 2 ^ 23"
    using p sendable_len [OF p] by (simp_all add: sendable_def)
  have "\<exists>d c q. dps_processData cls True junk db ctx = dps_processData cls True junk d c \<and>
    receiving cls ok d c \<and> sc_packet c = Some (Regular q) \<and> cl_header cls q = ?h \<and> contents d @ x = ser p \<and>
    pending cls db ctx = wire_header ?h @ contents d"
  proof (cases "sc_packet ctx")
    case None
    then have eq: "contents db @ x = wire_header ?h @ ser p" and long: "16 \<le> length (contents db)"
      using pend False by (simp_all add: pending_def wire_def)
    define part where "part = drop 16 (contents db)"
    have "take 16 (contents db) = wire_header ?h" "part @ x = ser p"
      using arg_cong [OF eq, of "take 16"] arg_cong [OF eq, of "drop 16"] long by (simp_all add: part_def)
    then have part: "contents db = wire_header ?h @ part" "part @ x = ser p"
      unfolding part_def by (metis append_take_drop_id)+
    then have "length part \<le> 2 ^ 24"
      using p by (auto simp: sendable_def dest!: arg_cong [of _ _ length])
    from header_step [OF ctx None part(1) _ le this] len part None show ?thesis
      by (fastforce simp: pending_def)
  next
    case (Some y)
    then obtain q where q: "y = Regular q"
      using ctx by (cases y) (auto simp: receiving_def)
    then have "cl_header cls q = ?h" "contents db @ x = ser p"
      using pend Some by (auto simp: pending_def wire_def wire_header_inj)
    then show ?thesis
      using ctx Some q by (intro exI [of _ db] exI [of _ ctx] exI [of _ q]) (simp add: pending_def)
  qed
  then obtain d c q where eq: "dps_processData cls True junk db ctx = dps_processData cls True junk d c"
    and c: "receiving cls ok d c" "sc_packet c = Some (Regular q)" and h: "cl_header cls q = ?h"
    and cont: "contents d @ x = ser p" and pd: "pending cls db ctx = wire_header ?h @ contents d"
    by blast
  have "int (length (contents d)) < sint (hdataLen (cl_header cls q))"
    using arg_cong [OF cont, of length] x len h by (cases x) auto
  from wait_step [OF c this, of junk] h c(2) show ?thesis
    unfolding eq pd by (auto simp: pending_def elim!: succeeds_mono)
qed

lemma encode_frame:
  assumes p: "sendable ok ser p" and db: "db_inv db" "length (contents db) + length (wire cls ser p) \<le> 2 ^ 24"
  shows "succeeds (dps_encode cls True (Regular p) db)
    (\<lambda>(r, p', db'). r \<and> db_inv db' \<and> (\<exists>q. p' = Regular q \<and> ok q \<and> ser q = ser p \<and>
       cl_header cls q = (cl_header cls p)\<lparr>hdataLen := of_nat (length (ser p))\<rparr> \<and>
       contents db' = contents db @ wire cls ser q))"
proof -
  let ?h = "cl_header cls p" and ?c = "contents db"
  have len: "length ?c + 16 + length (ser p) \<le> 2 ^ 24" and okp: "ok p"
    using db(2) p by (simp_all add: length_wire sendable_def)
  have fits: "db_inv d \<Longrightarrow> length (contents d) \<le> length ?c + 12 \<Longrightarrow> db_fits 4 d" for d
    using len by (intro fits_mono) auto
  obtain d1 where d1: "db_writeInt32 ANET_PACKET_FLAG db = Some d1" "db_inv d1" "contents d1 = ?c @ be32 ANET_PACKET_FLAG"
    using writeInt32_ok [OF fits [OF db(1)]] by (auto elim!: succeedsE)
  obtain d2 where d2: "db_writeInt32 (hchid ?h) d1 = Some d2" "db_inv d2" "contents d2 = contents d1 @ be32 (hchid ?h)"
    using writeInt32_ok [OF fits [OF d1(2)]] d1(3) by (auto elim!: succeedsE)
  obtain d3 where d3: "db_writeInt32 (hpcode ?h) d2 = Some d3" "db_inv d3" "contents d3 = contents d2 @ be32 (hpcode ?h)"
    using writeInt32_ok [OF fits [OF d2(2)]] d2(3) d1(3) by (auto elim!: succeedsE)
  obtain d4 where d4: "db_writeInt32 0 d3 = Some d4" "db_inv d4" "contents d4 = contents d3 @ be32 0"
    using writeInt32_ok [OF fits [OF d3(2)]] d3(3) d2(3) d1(3) by (auto elim!: succeedsE)
  obtain q d5 where q: "cl_encode cls p d4 = Some (True, q, d5)" "db_inv d5" "contents d5 = contents d4 @ ser p"
    "ok q" "ser q = ser p" "cl_header cls q = ?h"
    using enc [OF okp d4(2)] len d4(3) d3(3) d2(3) d1(3) by (auto elim!: succeedsE)
  define n where "n = (of_nat (length (ser p)) :: 32 word)"
  define q1 where "q1 = cl_setHeader cls ((cl_header cls q)\<lparr>hdataLen := n\<rparr>) q"
  have q1: "ok q1" "ser q1 = ser p" "cl_header cls q1 = (cl_header cls q)\<lparr>hdataLen := n\<rparr>"
    using q(4,5) by (simp_all add: q1_def ok_set ser_set header_set)
  let ?pre = "?c @ be32 ANET_PACKET_FLAG @ be32 (hchid ?h)"
  have c5: "contents d5 = (?pre @ be32 (hpcode ?h)) @ be32 0 @ ser p"
    using d1(3) d2(3) d3(3) d4(3) q(3) by simp
  obtain d6 where d6: "db_fillInt32 (length (?pre @ be32 (hpcode ?h))) n d5 = Some d6" "db_inv d6"
    "contents d6 = ?pre @ be32 (hpcode ?h) @ be32 n @ ser p"
    using fillInt32_ok [OF q(2) c5, of n] by (auto elim!: succeedsE)
  obtain d7 where d7: "db_fillInt32 (length ?pre) (hpcode (cl_header cls q)) d6 = Some d7" "db_inv d7"
    "contents d7 = ?pre @ be32 (hpcode (cl_header cls q)) @ be32 n @ ser p"
    using fillInt32_ok [OF d6(2,3), of "hpcode (cl_header cls q)"] by (auto elim!: succeedsE)
  have lens: "db_getDataLen db = int (length ?c)" "db_getDataLen d2 = int (length ?pre)"
    "db_getDataLen d3 = int (length (?pre @ be32 (hpcode ?h)))" "db_getDataLen d5 = int (length ?c) + 16 + int (length (ser p))"
    using db(1) d1(2,3) d2(2,3) d3(2,3) q(2) c5 by (simp_all add: getDataLen_contents)
  have "dps_encode cls True (Regular p) db = Some (True, Regular q1, d7)"
    using d1(1) d2(1) d3(1) d4(1) q(1) d6(1) d7(1)
    by (simp add: dps_encode_def Let_def lens n_def [symmetric] q1_def [symmetric] q1(3) nat_add_distrib)
  moreover have "contents d7 = ?c @ wire cls ser q1"
    using d7(3) q1 q(6) by (simp add: wire_def wire_header_def n_def)
  ultimately show ?thesis
    using d7(2) q1 q(6) by (auto simp: n_def)
qed

end

subsection \<open>The contract of a packet streamer\<close>

text \<open>What a connection relies on: \<open>owed\<close> is the part of the stream the streamer still
  has to deliver, \<open>good\<close> the states between two calls, \<open>frame\<close> the bytes of a
  message on the wire, \<open>same\<close> the relation of a message and the packet delivered
  for it.\<close>

locale packet_streamer =
  fixes process :: "databuffer \<Rightarrow> ('p, 'c) streaming_context_scheme \<Rightarrow> (bool \<times> databuffer \<times> ('p, 'c) streaming_context_scheme) option"
    and good :: "databuffer \<Rightarrow> ('p, 'c) streaming_context_scheme \<Rightarrow> bool"
    and owed :: "databuffer \<Rightarrow> ('p, 'c) streaming_context_scheme \<Rightarrow> byte list"
    and msg_ok :: "'m \<Rightarrow> bool" and frame :: "'m \<Rightarrow> byte list" and same :: "'m \<Rightarrow> 'p any_packet \<Rightarrow> bool"
  assumes complete: "\<lbrakk>good db ctx; msg_ok p; owed db ctx = frame p @ rest; length (frame p @ rest) \<le> 2 ^ 24\<rbrakk> \<Longrightarrow>
      succeeds (process db ctx) (\<lambda>(r, db', ctx'). r \<and> completed ctx' \<and>
        (\<exists>q. sc_packet ctx' = Some q \<and> same p q) \<and>
        (let c = sc_reset (snd (sc_stealPacket ctx')) in good db' c \<and> owed db' c = rest))"
    and incomplete: "\<lbrakk>good db ctx; msg_ok p; owed db ctx @ x = frame p; x \<noteq> []\<rbrakk> \<Longrightarrow>
      succeeds (process db ctx) (\<lambda>(r, db', ctx'). r \<and> \<not> completed ctx' \<and> \<not> broken ctx' \<and>
        good db' ctx' \<and> owed db' ctx' = owed db ctx)"
    and feed: "\<lbrakk>good db ctx; db_inv db'; contents db' = contents db @ bs\<rbrakk> \<Longrightarrow>
      good db' ctx \<and> owed db' ctx = owed db ctx @ bs"
    and good_inv: "good db ctx \<Longrightarrow> db_inv db"
    and bound: "good db ctx \<Longrightarrow> length (contents db) \<le> length (owed db ctx)"
    and frame_bound: "msg_ok p \<Longrightarrow> frame p \<noteq> [] \<and> length (frame p) \<le> 2 ^ 23 + 2 ^ 22"
    and some_msg: "\<exists>p. msg_ok p"

text \<open>\<open>rest_of frame ps part\<close>: the bytes \<open>part\<close> are the proper beginning of the next
  of the messages \<open>ps\<close>.\<close>

definition rest_of :: "('m \<Rightarrow> byte list) \<Rightarrow> 'm list \<Rightarrow> byte list \<Rightarrow> bool" where
  "rest_of frame ps part \<longleftrightarrow> (case ps of [] \<Rightarrow> part = [] | p # _ \<Rightarrow> \<exists>x. part @ x = frame p \<and> x \<noteq> [])"

text \<open>\<open>progress same s ps s' ps'\<close>: between the two states the first of the messages
  \<open>ps\<close> were delivered, and \<open>ps'\<close> are left.\<close>

definition progress :: "('m \<Rightarrow> 'p any_packet \<Rightarrow> bool) \<Rightarrow> ('p, 'c) tcp_input \<Rightarrow> 'm list \<Rightarrow> ('p, 'c) tcp_input \<Rightarrow> 'm list \<Rightarrow> bool" where
  "progress same s ps s' ps' \<longleftrightarrow>
     (\<exists>ps3 ds. ps = ps3 @ ps' \<and> delivered s' = delivered s @ ds \<and> list_all2 same ps3 ds)"

lemma progress_trans: "progress same s ps s1 ps1 \<Longrightarrow> progress same s1 ps1 s2 ps2 \<Longrightarrow> progress same s ps s2 ps2"
  unfolding progress_def by (auto intro!: list_all2_appendI)

lemma progress_same: "delivered s' = delivered s \<Longrightarrow> progress same s ps s' ps"
  by (simp add: progress_def)

lemma progress_ok: "progress same s ps s' ps' \<Longrightarrow> list_all ok ps \<Longrightarrow> list_all ok ps'"
  by (auto simp: progress_def)

lemma prefix_frames:
  assumes "b @ u = concat (map frame ps)"
  shows "\<exists>ps3 ps4 part. ps = ps3 @ ps4 \<and> b = concat (map frame ps3) @ part \<and> rest_of frame ps4 part"
  using assms
proof (induction ps arbitrary: b)
  case Nil
  then show ?case by (simp add: rest_of_def)
next
  case (Cons p ps)
  then consider x where "b @ x = frame p" "x \<noteq> []" | b' where "b = frame p @ b'" "b' @ u = concat (map frame ps)"
    by (auto simp: append_eq_append_conv2) (metis append.right_neutral)
  then show ?case
  proof cases
    case 1
    then show ?thesis
      by (intro exI [of _ "[]"] exI [of _ "p # ps"] exI [of _ b]) (auto simp: rest_of_def)
  next
    case 2
    from Cons.IH [OF 2(2)] obtain ps3 ps4 part where "ps = ps3 @ ps4" "b' = concat (map frame ps3) @ part"
      "rest_of frame ps4 part"
      by blast
    with 2(1) show ?thesis
      by (intro exI [of _ "p # ps3"] exI [of _ ps4] exI [of _ part]) simp
  qed
qed

context packet_streamer
begin

lemma rest_of_partial: "list_all msg_ok ps \<Longrightarrow> rest_of frame ps part \<Longrightarrow> \<exists>p x. msg_ok p \<and> part @ x = frame p \<and> x \<noteq> []"
  using some_msg frame_bound by (cases ps) (auto simp: rest_of_def)

lemma rest_of_length: "list_all msg_ok ps \<Longrightarrow> rest_of frame ps part \<Longrightarrow> length part \<le> 2 ^ 23 + 2 ^ 22"
  using frame_bound by (cases ps) (auto simp: rest_of_def dest!: arg_cong [of _ _ length], fastforce)

lemma drain_delivers:
  assumes "good (ti_input s) (ti_context s)" and "owed (ti_input s) (ti_context s) = concat (map frame ps) @ part"
    and "list_all msg_ok ps" and "list_all msg_ok qs" and "rest_of frame qs part" and "length (concat (map frame ps) @ part) \<le> 2 ^ 24"
  shows "succeeds (tc_drain process hdr s) (\<lambda>s'. good (ti_input s') (ti_context s') \<and>
     owed (ti_input s') (ti_context s') = part \<and> \<not> broken (ti_context s') \<and>
     (\<exists>ds. delivered s' = delivered s @ ds \<and> list_all2 same ps ds))"
  using assms
proof (induction ps arbitrary: s)
  case Nil
  obtain p x where p: "msg_ok p" "part @ x = frame p" "x \<noteq> []"
    using rest_of_partial [OF Nil(4,5)] by blast
  with incomplete [of "ti_input s" "ti_context s" p x] Nil show ?case
    by (subst tc_drain.simps) (auto simp: Let_def succeeds_def)
next
  case (Cons p ps)
  let ?rest = "concat (map frame ps) @ part"
  obtain db ctx q where 1: "process (ti_input s) (ti_context s) = Some (True, db, ctx)" "completed ctx"
    "sc_packet ctx = Some q" "same p q"
    "good db (sc_reset (snd (sc_stealPacket ctx)))" "owed db (sc_reset (snd (sc_stealPacket ctx))) = ?rest"
    using complete [of "ti_input s" "ti_context s" p ?rest] Cons.prems by (auto simp: Let_def elim!: succeedsE)
  define s1 where "s1 = (let s1 = s\<lparr>ti_input := db, ti_context := ctx\<rparr>; sz = PACKET_INFO_LEN + sint (hdataLen (hdr q));
       s1 = (if sz > ti_maxRecv s1 then s1\<lparr>ti_maxRecv := sz\<rparr> else s1);
       s1 = s1\<lparr>delivered := delivered s1 @ [q]\<rparr>
     in s1\<lparr>ti_context := sc_reset (snd (sc_stealPacket ctx))\<rparr>)"
  have "tc_drain process hdr s = tc_drain process hdr s1"
    using 1 by (subst tc_drain.simps) (simp add: s1_def Let_def sc_stealPacket_def)
  moreover have s1: "ti_input s1 = db" "ti_context s1 = sc_reset (snd (sc_stealPacket ctx))" "delivered s1 = delivered s @ [q]"
    by (simp_all add: s1_def Let_def)
  moreover have "succeeds (tc_drain process hdr s1) (\<lambda>s'. good (ti_input s') (ti_context s') \<and>
     owed (ti_input s') (ti_context s') = part \<and> \<not> broken (ti_context s') \<and>
     (\<exists>ds. delivered s' = delivered s1 @ ds \<and> list_all2 same ps ds))"
    by (rule Cons.IH) (use Cons.prems 1 s1 in auto)
  ultimately show ?case
    using 1(4) by (auto elim!: succeeds_mono)
qed

lemma round_delivers:
  assumes g: "good (ti_input s) (ti_context s)" and part: "rest_of frame ps (owed (ti_input s) (ti_context s))"
    and ps: "list_all msg_ok ps" and c: "c \<noteq> []" "length c \<le> bs" "bs \<le> 2 ^ 22"
    and stream: "owed (ti_input s) (ti_context s) @ c @ u = concat (map frame ps)"
  shows "succeeds (tc_round process hdr bs s (Inr c # sock))
    (\<lambda>(ret, err, brk, s', sock'). ret = int (length c) \<and> \<not> brk \<and> sock' = sock \<and>
       good (ti_input s') (ti_context s') \<and>
       (\<exists>ps'. rest_of frame ps' (owed (ti_input s') (ti_context s')) \<and>
          owed (ti_input s') (ti_context s') @ u = concat (map frame ps') \<and> progress same s ps s' ps'))"
proof -
  let ?pd = "owed (ti_input s) (ti_context s)"
  have len: "length ?pd \<le> 2 ^ 23 + 2 ^ 22"
    using ps part by (rule rest_of_length)
  have "db_fits bs (ti_input s)"
    using good_inv [OF g] bound [OF g] len c(3) by (simp add: db_fits_def)
  from ensureFree_ok [OF this] obtain d1 where d1: "db_ensureFree bs (ti_input s) = Some d1"
    "db_inv d1" "contents d1 = contents (ti_input s)" "pfree d1 + bs \<le> pend d1" "pstart d1 \<noteq> None"
    by (auto elim: succeedsE)
  obtain d2 d3 where d: "db_fillFree c d1 = Some d2" "db_pourData (length c) d2 = Some d3" "db_inv d3"
    "contents d3 = contents (ti_input s) @ c"
    using fill_pour_ok [OF d1(2) _ d1(5), of c] d1(3,4) c(2) by (auto simp: succeeds_def bind_eq_Some_conv)
  have f: "good d3 (ti_context s)" "owed d3 (ti_context s) = ?pd @ c"
    using feed [OF g d(3,4)] by simp_all
  obtain ps3 ps4 part' where sp: "ps = ps3 @ ps4" "?pd @ c = concat (map frame ps3) @ part'" "rest_of frame ps4 part'"
    using prefix_frames [of "?pd @ c" u frame ps] stream by auto
  have size: "length (concat (map frame ps3) @ part') \<le> 2 ^ 24"
    unfolding sp(2) [symmetric] using len c(2,3) by simp
  define s1 where "s1 = s\<lparr>ti_input := d1, ti_input := d3, ti_rxBytes := ti_rxBytes s + int (length c)\<rparr>"
  have "succeeds (tc_drain process hdr s1) (\<lambda>s'. good (ti_input s') (ti_context s') \<and>
     owed (ti_input s') (ti_context s') = part' \<and> \<not> broken (ti_context s') \<and>
     (\<exists>ds. delivered s' = delivered s1 @ ds \<and> list_all2 same ps3 ds))"
    by (rule drain_delivers) (use f sp ps size in \<open>simp_all add: s1_def\<close>)
  then obtain s2 ds where s2: "tc_drain process hdr s1 = Some s2" "good (ti_input s2) (ti_context s2)"
    "owed (ti_input s2) (ti_context s2) = part'" "\<not> broken (ti_context s2)" "delivered s2 = delivered s @ ds"
    "list_all2 same ps3 ds"
    by (auto simp: s1_def elim!: succeedsE)
  have "(?pd @ c) @ u = concat (map frame (ps3 @ ps4))"
    using stream sp(1) by simp
  then have "part' @ u = concat (map frame ps4)"
    unfolding sp(2) by simp
  moreover define s3 where "s3 = tc_addInputSpace (db_getSpaceUsed (ti_input s2) - db_getSpaceUsed (ti_input s)) s2"
  moreover have "progress same s ps s3 ps4"
    using s2(5,6) sp(1) unfolding progress_def by (auto simp: s3_def tc_addInputSpace_def)
  moreover have "tc_round process hdr bs s (Inr c # sock) = Some (int (length c), 0, False, s3, sock)"
    using s2(1,4) d(1,2) d1(1) c(1) by (simp add: tc_round_def Let_def s1_def s3_def)
  moreover have "ti_input s3 = ti_input s2" "ti_context s3 = ti_context s2"
    by (simp_all add: s3_def tc_addInputSpace_def)
  ultimately show ?thesis
    using s2(2,3) sp(3) by auto
qed

lemma round_empty:
  assumes g: "good (ti_input s) (ti_context s)" and len: "length (owed (ti_input s) (ti_context s)) \<le> 2 ^ 24" and "bs \<le> 2 ^ 22"
  shows "succeeds (tc_round process hdr bs s [])
    (\<lambda>(ret, err, brk, s', sock'). ret = -1 \<and> err = EAGAIN \<and> \<not> brk \<and> sock' = [] \<and> good (ti_input s') (ti_context s') \<and>
       owed (ti_input s') (ti_context s') = owed (ti_input s) (ti_context s) \<and> delivered s' = delivered s)"
proof -
  have "db_fits bs (ti_input s)"
    using good_inv [OF g] bound [OF g] assms(2,3) by (simp add: db_fits_def)
  from ensureFree_ok [OF this] obtain d1 where d1: "db_ensureFree bs (ti_input s) = Some d1"
    "db_inv d1" "contents d1 = contents (ti_input s)"
    by (auto elim: succeedsE)
  with feed [OF g, of d1 "[]"] show ?thesis
    by (auto simp: tc_round_def Let_def tc_addInputSpace_def)
qed

lemma loop_delivers:
  assumes "good (ti_input s) (ti_context s)" and "rest_of frame ps (owed (ti_input s) (ti_context s))"
    and "list_all msg_ok ps" and "\<forall>c\<in>set cs. c \<noteq> [] \<and> length c \<le> bs" and "0 < bs" "bs \<le> 2 ^ 22"
    and "owed (ti_input s) (ti_context s) @ concat cs = concat (map frame ps)" and "cs \<noteq> []" and "0 < n"
  shows "succeeds (tc_loop n process hdr bs s (map Inr cs))
    (\<lambda>(ret, err, brk, cnt, s', sock'). (0 < ret \<or> ret < 0 \<and> err = EAGAIN) \<and> \<not> brk \<and> good (ti_input s') (ti_context s') \<and>
       (\<exists>cs' ps'. sock' = map Inr cs' \<and> length cs' < length cs \<and> set cs' \<subseteq> set cs \<and>
          rest_of frame ps' (owed (ti_input s') (ti_context s')) \<and>
          owed (ti_input s') (ti_context s') @ concat cs' = concat (map frame ps') \<and> progress same s ps s' ps'))"
  using assms
proof (induction n arbitrary: s ps cs)
  case (Suc n)
  obtain c cs0 where cs: "cs = c # cs0" "c \<noteq> []"
    using Suc.prems(4,8) by (cases cs) auto
  obtain s1 ps1 err where r: "tc_round process hdr bs s (map Inr cs) = Some (int (length c), err, False, s1, map Inr cs0)"
    "good (ti_input s1) (ti_context s1)" "rest_of frame ps1 (owed (ti_input s1) (ti_context s1))"
    "owed (ti_input s1) (ti_context s1) @ concat cs0 = concat (map frame ps1)" "progress same s ps s1 ps1"
    using round_delivers [OF Suc.prems(1-3), of c bs "concat cs0" hdr "map Inr cs0"] Suc.prems cs by (auto elim!: succeedsE)
  have ps1: "list_all msg_ok ps1"
    using r(5) Suc.prems(3) by (rule progress_ok)
  consider "\<not> (length c = bs \<and> n > 0)" | "length c = bs" "n > 0" "cs0 \<noteq> []" | "length c = bs" "n > 0" "cs0 = []"
    by blast
  then show ?case
  proof cases
    case 1
    then have "tc_loop (Suc n) process hdr bs s (map Inr cs) = Some (int (length c), err, False, 1, s1, map Inr cs0)"
      using r(1) by auto
    with r(2-5) cs show ?thesis
      by (auto simp del: tc_loop.simps)
  next
    case 2
    have "succeeds (tc_loop n process hdr bs s1 (map Inr cs0))
      (\<lambda>(ret, err, brk, cnt, s', sock'). (0 < ret \<or> ret < 0 \<and> err = EAGAIN) \<and> \<not> brk \<and> good (ti_input s') (ti_context s') \<and>
       (\<exists>cs' ps'. sock' = map Inr cs' \<and> length cs' < length cs0 \<and> set cs' \<subseteq> set cs0 \<and>
          rest_of frame ps' (owed (ti_input s') (ti_context s')) \<and>
          owed (ti_input s') (ti_context s') @ concat cs' = concat (map frame ps') \<and> progress same s1 ps1 s' ps'))"
      by (rule Suc.IH) (use Suc.prems r(2-4) ps1 cs 2 in auto)
    then obtain ret err' cnt s' cs' ps' where l: "tc_loop n process hdr bs s1 (map Inr cs0) = Some (ret, err', False, cnt, s', map Inr cs')"
      "0 < ret \<or> ret < 0 \<and> err' = EAGAIN" "good (ti_input s') (ti_context s')" "length cs' < length cs0" "set cs' \<subseteq> set cs0"
      "rest_of frame ps' (owed (ti_input s') (ti_context s'))"
      "owed (ti_input s') (ti_context s') @ concat cs' = concat (map frame ps')" "progress same s1 ps1 s' ps'"
      by (auto elim!: succeedsE)
    have "progress same s ps s' ps'"
      using r(5) l(8) by (rule progress_trans)
    moreover have "tc_loop (Suc n) process hdr bs s (map Inr cs) = Some (ret, err', False, cnt + 1, s', map Inr cs')"
      using r(1) l(1) 2 by simp
    ultimately show ?thesis
      using l(2-7) cs by (auto simp del: tc_loop.simps)
  next
    case 3
    obtain m where m: "n = Suc m"
      using 3(2) by (cases n) auto
    have len: "length (owed (ti_input s1) (ti_context s1)) \<le> 2 ^ 24"
      using rest_of_length [OF ps1 r(3)] by simp
    obtain s2 where s2: "tc_round process hdr bs s1 [] = Some (-1, EAGAIN, False, s2, [])" "good (ti_input s2) (ti_context s2)"
      "owed (ti_input s2) (ti_context s2) = owed (ti_input s1) (ti_context s1)" "delivered s2 = delivered s1"
      using round_empty [OF r(2) len Suc.prems(6), of hdr] by (auto elim!: succeedsE)
    have "tc_loop (Suc n) process hdr bs s (map Inr cs) = Some (-1, EAGAIN, False, 2, s2, [])"
      using r(1) s2(1) 3 m by simp
    moreover have "progress same s ps s2 ps1"
      using r(5) progress_same [OF s2(4)] by (rule progress_trans)
    ultimately show ?thesis
      using r(3,4) s2(2,3) cs 3 by (auto simp del: tc_loop.simps)
  qed
qed simp

lemma readData_delivers:
  assumes "good (ti_input s) (ti_context s)" and "rest_of frame ps (owed (ti_input s) (ti_context s))"
    and "list_all msg_ok ps" and "\<forall>c\<in>set cs. c \<noteq> [] \<and> length c \<le> bs" and "0 < bs" "bs \<le> 2 ^ 22"
    and "owed (ti_input s) (ti_context s) @ concat cs = concat (map frame ps)" and "cs \<noteq> []"
  shows "succeeds (tc_readData process hdr bs s (map Inr cs))
    (\<lambda>(r, s', sock'). r \<and> good (ti_input s') (ti_context s') \<and>
       (\<exists>cs' ps'. sock' = map Inr cs' \<and> length cs' < length cs \<and> set cs' \<subseteq> set cs \<and>
          rest_of frame ps' (owed (ti_input s') (ti_context s')) \<and>
          owed (ti_input s') (ti_context s') @ concat cs' = concat (map frame ps') \<and> progress same s ps s' ps'))"
proof -
  obtain ret err cnt s' cs' ps' where l: "tc_loop 10 process hdr bs s (map Inr cs) = Some (ret, err, False, cnt, s', map Inr cs')"
      "0 < ret \<or> ret < 0 \<and> err = EAGAIN" "good (ti_input s') (ti_context s')" "length cs' < length cs" "set cs' \<subseteq> set cs"
      "rest_of frame ps' (owed (ti_input s') (ti_context s'))"
      "owed (ti_input s') (ti_context s') @ concat cs' = concat (map frame ps')" "progress same s ps s' ps'"
    using loop_delivers [OF assms, of 10 hdr] by (auto elim!: succeedsE)
  let ?s = "s'\<lparr>ti_readCount := ti_readCount s' + cnt\<rparr>"
  have "tc_readData process hdr bs s (map Inr cs) = Some (True, ?s, map Inr cs')"
    using l(1,2) by (auto simp: tc_readData_def Let_def)
  moreover have "progress same s ps ?s ps'"
    using l(8) by (simp add: progress_def)
  ultimately show ?thesis
    using l(3-7) by auto
qed

lemma pump_delivers:
  assumes "good (ti_input s) (ti_context s)" and "rest_of frame ps (owed (ti_input s) (ti_context s))"
    and "list_all msg_ok ps" and "\<forall>c\<in>set cs. c \<noteq> [] \<and> length c \<le> bs" and "0 < bs" "bs \<le> 2 ^ 22"
    and "owed (ti_input s) (ti_context s) @ concat cs = concat (map frame ps)" and "length cs \<le> n"
  shows "succeeds (tc_pump n process hdr bs s (map Inr cs))
    (\<lambda>(r, s', sock'). r \<and> sock' = [] \<and> good (ti_input s') (ti_context s') \<and> owed (ti_input s') (ti_context s') = [] \<and>
       progress same s ps s' [])"
  using assms
proof (induction n arbitrary: s ps cs)
  case 0
  then show ?case
    by (cases ps) (auto simp: rest_of_def progress_def)
next
  case (Suc n)
  show ?case
  proof (cases "cs = []")
    case True
    then show ?thesis
      using Suc.prems by (cases ps) (auto simp: rest_of_def progress_def)
  next
    case False
    obtain s1 cs1 ps1 where r: "tc_readData process hdr bs s (map Inr cs) = Some (True, s1, map Inr cs1)"
      "good (ti_input s1) (ti_context s1)" "length cs1 < length cs" "set cs1 \<subseteq> set cs"
      "rest_of frame ps1 (owed (ti_input s1) (ti_context s1))"
      "owed (ti_input s1) (ti_context s1) @ concat cs1 = concat (map frame ps1)" "progress same s ps s1 ps1"
      using readData_delivers [OF Suc.prems(1-7) False, of hdr] by (auto elim!: succeedsE)
    have "list_all msg_ok ps1"
      using r(7) Suc.prems(3) by (rule progress_ok)
    then have "succeeds (tc_pump n process hdr bs s1 (map Inr cs1))
      (\<lambda>(r, s', sock'). r \<and> sock' = [] \<and> good (ti_input s') (ti_context s') \<and> owed (ti_input s') (ti_context s') = [] \<and>
         progress same s1 ps1 s' [])"
      using r(2-6) Suc.prems(4-6,8) by (intro Suc.IH) auto
    with False r(1,7) show ?thesis
      by (auto elim!: succeeds_mono intro: progress_trans)
  qed
qed

end

subsection \<open>A default streamer is a packet streamer\<close>

sublocale packet_codec \<subseteq> stream: packet_streamer "dps_processData cls True junk" "receiving cls ok" "pending cls"
  "sendable ok ser" "wire cls ser" "same_packet cls ser"
  for junk
proof unfold_locales
  fix db ctx p rest
  assume *: "receiving cls ok db ctx" "sendable ok ser p" "pending cls db ctx = wire cls ser p @ rest"
    "length (wire cls ser p @ rest) \<le> 2 ^ 24"
  have "length (ser p @ rest) \<le> 2 ^ 24"
    using *(4) by (simp add: length_wire)
  from process_complete [OF *(1-3) this, of junk]
  show "succeeds (dps_processData cls True junk db ctx) (\<lambda>(r, db', ctx'). r \<and> completed ctx' \<and>
    (\<exists>q. sc_packet ctx' = Some q \<and> same_packet cls ser p q) \<and>
    (let c = sc_reset (snd (sc_stealPacket ctx')) in receiving cls ok db' c \<and> pending cls db' c = rest))"
    by (auto elim!: succeeds_mono simp: receiving_def pending_def sc_reset_def sc_setPacket_def)
next
  fix db ctx p x
  assume "receiving cls ok db ctx" "sendable ok ser p" "pending cls db ctx @ x = wire cls ser p" "x \<noteq> []"
  from process_partial [OF this, of junk]
  show "succeeds (dps_processData cls True junk db ctx) (\<lambda>(r, db', ctx'). r \<and> \<not> completed ctx' \<and> \<not> broken ctx' \<and>
    receiving cls ok db' ctx' \<and> pending cls db' ctx' = pending cls db ctx)"
    by (auto elim!: succeeds_mono simp: receiving_def)
next
  show "\<exists>p. sendable ok ser p"
    using create [of 0] by (auto simp: sendable_def intro: exI)
qed (auto simp: receiving_def pending_def length_wire sendable_def split: option.splits any_packet.splits)

text \<open>\<open>DefaultPacket\<close> with \<open>DefaultPacketFactory\<close>.\<close>

definition default_packet_class :: "defaultpacket packet_class" where
  "default_packet_class = \<lparr>cl_header = pheader, cl_setHeader = (\<lambda>h p. p\<lparr>pheader := h\<rparr>),
     cl_encode = dp_encode, cl_decode = dp_decode, cl_create = (\<lambda>pcode. Some dp_new)\<rparr>"

interpretation default_codec: packet_codec default_packet_class dp_inv dp_body
proof unfold_locales
  fix p :: defaultpacket and db
  assume "dp_inv p" "db_inv db" "length (contents db) + length (dp_body p) \<le> 2 ^ 24"
  from dp_encode_ok [OF this]
  show "succeeds (cl_encode default_packet_class p db) (\<lambda>(r, p', db'). r \<and> db_inv db' \<and> contents db' = contents db @ dp_body p \<and>
     dp_inv p' \<and> dp_body p' = dp_body p \<and> cl_header default_packet_class p' = cl_header default_packet_class p)"
    using \<open>dp_inv p\<close> by (auto simp: default_packet_class_def elim!: succeeds_mono)
next
  fix q p :: defaultpacket and db rest and h :: packet_header
  assume "dp_inv q" "db_inv db" "contents db = dp_body p @ rest" "sint (hdataLen h) = int (length (dp_body p))"
  from dp_decode_ok [OF this]
  show "succeeds (cl_decode default_packet_class db h q) (\<lambda>(r, db', q'). r \<and> db_inv db' \<and> contents db' = rest \<and>
     dp_inv q' \<and> dp_body q' = dp_body p \<and> cl_header default_packet_class q' = cl_header default_packet_class q)"
    by (auto simp: default_packet_class_def packet.defs elim!: succeeds_mono)
qed (auto simp: default_packet_class_def dp_inv_def dp_body_def dp_new_def packet.defs split: block.splits)

text \<open>A connection that has just been made, and the packets of a sender encoded one after
  the other.\<close>

definition tc_fresh :: "('p, unit) tcp_input" where
  "tc_fresh = \<lparr>ti_input = db_new, ti_context = sc_new, ti_maxRecv = 0, ti_spaceAllocated = 0, ti_rxBytes = 0,
     ti_readCount = 0, delivered = []\<rparr>"

fun dps_encode_all :: "'p packet_class \<Rightarrow> 'p list \<Rightarrow> databuffer \<Rightarrow> ('p any_packet list \<times> databuffer) option" where
  "dps_encode_all cls [] db = Some ([], db)"
| "dps_encode_all cls (p # ps) db = do {
     (r, q, db) \<leftarrow> dps_encode cls True (Regular p) db;
     check r;
     (qs, db) \<leftarrow> dps_encode_all cls ps db;
     Some (q # qs, db) }"

context packet_codec
begin

lemma encode_all_frames:
  assumes "list_all (sendable ok ser) ps" and "db_inv db"
    and "length (contents db) + (\<Sum>p\<leftarrow>ps. length (wire cls ser p)) \<le> 2 ^ 24"
  shows "succeeds (dps_encode_all cls ps db) (\<lambda>(qs, db'). db_inv db' \<and>
    (\<exists>xs. qs = map Regular xs \<and> list_all (sendable ok ser) xs \<and> map ser xs = map ser ps \<and>
       map (cl_header cls) xs = map (\<lambda>p. (cl_header cls p)\<lparr>hdataLen := of_nat (length (ser p))\<rparr>) ps \<and>
       contents db' = contents db @ concat (map (wire cls ser) xs)))"
  using assms
proof (induction ps arbitrary: db)
  case (Cons p ps)
  have p: "sendable ok ser p" "length (contents db) + length (wire cls ser p) \<le> 2 ^ 24"
    using Cons.prems by simp_all
  obtain q d where q: "dps_encode cls True (Regular p) db = Some (True, Regular q, d)" "db_inv d" "ok q" "ser q = ser p"
    "cl_header cls q = (cl_header cls p)\<lparr>hdataLen := of_nat (length (ser p))\<rparr>" "contents d = contents db @ wire cls ser q"
    using encode_frame [OF p(1) Cons.prems(2) p(2)] by (auto elim!: succeedsE)
  have len: "length (contents d) + (\<Sum>p\<leftarrow>ps. length (wire cls ser p)) \<le> 2 ^ 24"
    using Cons.prems(3) q(4,6) by (simp add: length_wire)
  obtain xs d' where xs: "dps_encode_all cls ps d = Some (map Regular xs, d')" "db_inv d'" "list_all (sendable ok ser) xs"
    "map ser xs = map ser ps" "map (cl_header cls) xs = map (\<lambda>p. (cl_header cls p)\<lparr>hdataLen := of_nat (length (ser p))\<rparr>) ps"
    "contents d' = contents d @ concat (map (wire cls ser) xs)"
    using Cons.IH [OF _ q(2) len] Cons.prems(1) by (auto elim!: succeedsE)
  have "sendable ok ser q"
    using p(1) q(3,4) by (simp add: sendable_def)
  then show ?case
    using q xs by (auto intro!: exI [of _ "q # xs"])
qed (auto intro: exI [of _ "[]"])

lemma fresh_delivered: "delivered tc_fresh = []"
  by (simp add: tc_fresh_def)

lemma fresh_receiving: "receiving cls ok (ti_input tc_fresh) (ti_context tc_fresh)"
  by (simp add: receiving_def tc_fresh_def sc_new_def db_inv_new)

lemma fresh_pending: "pending cls (ti_input tc_fresh) (ti_context tc_fresh) = []"
  by (simp add: pending_def tc_fresh_def sc_new_def contents_new)

lemma fresh_pump:
  assumes "list_all (sendable ok ser) ps" and "concat cs = concat (map (wire cls ser) ps)"
    and "\<forall>c\<in>set cs. c \<noteq> [] \<and> length c \<le> bs" "0 < bs" "bs \<le> 2 ^ 22"
  shows "succeeds (tc_pump (length cs) (dps_processData cls True junk) hdr bs tc_fresh (map Inr cs))
    (\<lambda>(r, s, sock). r \<and> sock = [] \<and> list_all2 (same_packet cls ser) ps (delivered s))"
proof -
  have "rest_of (wire cls ser) ps []"
    by (cases ps) (auto simp: rest_of_def)
  with stream.pump_delivers [OF fresh_receiving, of ps cs bs "length cs" junk hdr] assms show ?thesis
    by (auto simp: fresh_pending progress_def fresh_delivered elim!: succeeds_mono)
qed

end

lemma same_default:
  "same_packet default_packet_class dp_body p d \<Longrightarrow>
     \<exists>q. d = Regular q \<and> dp_body q = dp_body p \<and> pheader q = (pheader p)\<lparr>hdataLen := of_nat (length (dp_body p))\<rparr>"
  by (cases d) (auto simp: default_packet_class_def)

text \<open>A malformed header ends the round.\<close>

lemma process_bad_header:
  assumes "sc_packet ctx = None" and "db_inv db"
    and "contents db = be32 flag @ be32 chid @ be32 pcode @ be32 dataLen @ rest"
    and "flag \<noteq> ANET_PACKET_FLAG \<or> sint dataLen < 0 \<or> max_package_size < sint dataLen"
  shows "succeeds (dps_processData cls True junk db ctx)
    (\<lambda>(r, db', ctx'). \<not> r \<and> ctx' = ctx\<lparr>broken := True\<rparr> \<and> db_inv db' \<and> contents db' = rest)"
proof -
  define h where "h = \<lparr>hchid = chid, hpcode = pcode, hdataLen = dataLen\<rparr>"
  have "contents db = be32 flag @ be32 (hchid h) @ be32 (hpcode h) @ be32 (hdataLen h) @ rest"
    using assms(3) by (simp add: h_def)
  from getPacketInfo_header [OF assms(2) this, of junk] assms(4)
  obtain h' d where "dps_getPacketInfo True db junk False = Some (False, h', True, d)" "db_inv d" "contents d = rest"
    by (auto simp: h_def not_le elim!: succeedsE)
  with assms(1) show ?thesis
    by (simp add: dps_processData_def)
qed

text \<open>What one read puts into the input.\<close>

lemma read_into:
  assumes "db_inv db" and "length (contents db) + bs \<le> 2 ^ 24" and "length c \<le> bs"
  shows "\<exists>d1 d2 d3. db_ensureFree bs db = Some d1 \<and> db_fillFree c d1 = Some d2 \<and> db_pourData (length c) d2 = Some d3 \<and>
    db_inv d3 \<and> contents d3 = contents db @ c"
proof -
  obtain d1 where d1: "db_ensureFree bs db = Some d1" "db_inv d1" "contents d1 = contents db" "pfree d1 + bs \<le> pend d1"
    "pstart d1 \<noteq> None"
    using ensureFree_ok [OF fits_mono [OF assms(1,2)]] by (auto elim: succeedsE)
  then show ?thesis
    using fill_pour_ok [of d1 c] assms(3) by (auto simp: succeeds_def bind_eq_Some_conv)
qed

section \<open>Properties\<close>

text \<open>Property C3. Whatever default packets a sender encodes into an empty output, with bodies of
  at most 8 MiB and at most 16 MiB in all, headers included, and however the
  network cuts the bytes into reads of at most \<open>_readWriteBufSize\<close> bytes, that size being at most 4 MiB, the
  receiving connection delivers exactly these packets, in order, with the same bodies, channel
  identifiers and packet codes and with the length of the body in the header, and reports no error.\<close>

theorem stream_round_trip:
  assumes "list_all (sendable dp_inv dp_body) ps"
    and "(\<Sum>p\<leftarrow>ps. 16 + length (dp_body p)) \<le> 2 ^ 24"
    and "0 < bs" "bs \<le> 2 ^ 22"
  shows "succeeds (dps_encode_all default_packet_class ps db_new) (\<lambda>(qs, out).
    \<forall>cs. concat cs = contents out \<and> (\<forall>c\<in>set cs. c \<noteq> [] \<and> length c \<le> bs) \<longrightarrow>
      succeeds (tc_pump (length cs) (dps_processData default_packet_class True junk) (ap_header default_packet_class) bs tc_fresh (map Inr cs))
        (\<lambda>(r, s, sock). r \<and> sock = [] \<and>
           list_all2 (\<lambda>p d. \<exists>q. d = Regular q \<and> dp_body q = dp_body p \<and> pheader q = (pheader p)\<lparr>hdataLen := of_nat (length (dp_body p))\<rparr>) ps (delivered s)))"
proof -
  have "length (contents db_new) + (\<Sum>p\<leftarrow>ps. length (wire default_packet_class dp_body p)) \<le> 2 ^ 24"
    using assms(2) by (simp add: contents_new length_wire)
  from default_codec.encode_all_frames [OF assms(1) db_inv_new this]
  obtain xs out where xs: "dps_encode_all default_packet_class ps db_new = Some (map Regular xs, out)"
    "list_all (sendable dp_inv dp_body) xs" "map dp_body xs = map dp_body ps"
    "map pheader xs = map (\<lambda>p. (pheader p)\<lparr>hdataLen := of_nat (length (dp_body p))\<rparr>) ps" "contents out = concat (map (wire default_packet_class dp_body) xs)"
    by (auto simp: contents_new default_packet_class_def elim!: succeedsE)
  have "list_all2 (\<lambda>p d. \<exists>q. d = Regular q \<and> dp_body q = dp_body p \<and> pheader q = (pheader p)\<lparr>hdataLen := of_nat (length (dp_body p))\<rparr>) ps ds"
    if "list_all2 (same_packet default_packet_class dp_body) xs ds" for ds
  proof (rule list_all2_trans [OF _ _ that])
    show "list_all2 (\<lambda>p x. dp_body x = dp_body p \<and> pheader x = (pheader p)\<lparr>hdataLen := of_nat (length (dp_body p))\<rparr>) ps xs"
      using xs(3,4) by (auto simp: list_all2_conv_all_nth list_eq_iff_nth_eq)
  qed (use same_default in fastforce)
  then have "succeeds (tc_pump (length cs) (dps_processData default_packet_class True junk) (ap_header default_packet_class) bs tc_fresh (map Inr cs))
        (\<lambda>(r, s, sock). r \<and> sock = [] \<and>
           list_all2 (\<lambda>p d. \<exists>q. d = Regular q \<and> dp_body q = dp_body p \<and> pheader q = (pheader p)\<lparr>hdataLen := of_nat (length (dp_body p))\<rparr>) ps (delivered s))"
    if "concat cs = contents out" "\<forall>c\<in>set cs. c \<noteq> [] \<and> length c \<le> bs" for cs
    using default_codec.fresh_pump [OF xs(2) _ that(2) assms(3,4), of junk "ap_header default_packet_class"] that(1) xs(5)
    by (auto elim!: succeeds_mono)
  then show ?thesis
    using xs(1) by simp
qed

definition sample_packet :: "byte list \<Rightarrow> defaultpacket" where
  "sample_packet bs = dp_new\<lparr>body := Live bs, bodyLength := length bs, capacity := length bs\<rparr>"

theorem stream_round_trip_witness:
  "list_all (sendable dp_inv dp_body) [sample_packet [1, 2, 3], sample_packet [4]] \<and>
   (\<exists>qs out. dps_encode_all default_packet_class [sample_packet [1, 2, 3], sample_packet [4]] db_new = Some (qs, out) \<and>
      succeeds (tc_pump (length (contents out)) (dps_processData default_packet_class True \<lparr>hchid = 0, hpcode = 0, hdataLen = 0\<rparr>)
          (ap_header default_packet_class) 7 tc_fresh (map (\<lambda>b. Inr [b]) (contents out)))
        (\<lambda>(r, s, sock). r \<and> sock = [] \<and>
           list_all2 (\<lambda>p d. \<exists>q. d = Regular q \<and> dp_body q = dp_body p \<and> pheader q = (pheader p)\<lparr>hdataLen := of_nat (length (dp_body p))\<rparr>)
             [sample_packet [1, 2, 3], sample_packet [4]] (delivered s)))"
proof -
  let ?ps = "[sample_packet [1, 2, 3], sample_packet [4]]"
  have ps: "list_all (sendable dp_inv dp_body) ?ps" "(\<Sum>p\<leftarrow>?ps. 16 + length (dp_body p)) \<le> 2 ^ 24"
    by (simp_all add: sendable_def sample_packet_def dp_inv_def dp_body_def PTRDIFF_MAX_def)
  from stream_round_trip [OF this, of 7 "\<lparr>hchid = 0, hpcode = 0, hdataLen = 0\<rparr>"]
  obtain qs out where out: "dps_encode_all default_packet_class ?ps db_new = Some (qs, out)"
    and all: "\<And>cs. concat cs = contents out \<Longrightarrow> (\<forall>c\<in>set cs. c \<noteq> [] \<and> length c \<le> 7) \<Longrightarrow>
      succeeds (tc_pump (length cs) (dps_processData default_packet_class True \<lparr>hchid = 0, hpcode = 0, hdataLen = 0\<rparr>)
          (ap_header default_packet_class) 7 tc_fresh (map Inr cs))
        (\<lambda>(r, s, sock). r \<and> sock = [] \<and>
           list_all2 (\<lambda>p d. \<exists>q. d = Regular q \<and> dp_body q = dp_body p \<and> pheader q = (pheader p)\<lparr>hdataLen := of_nat (length (dp_body p))\<rparr>) ?ps (delivered s))"
    by (auto elim!: succeedsE)
  have "concat (map (\<lambda>b. [b]) (contents out)) = contents out"
    by simp
  from all [OF this] out ps(1) show ?thesis
    by (simp add: comp_def)
qed

text \<open>Property C27. A frame whose first word is not the packet flag, or whose length is
  negative or above the limit, makes \<open>readData\<close> report a broken connection at once: no
  packet is delivered from it.\<close>

theorem malformed_frame_breaks_connection:
  assumes "sc_packet (ti_context s) = None" and "db_inv (ti_input s)" and "contents (ti_input s) = []"
    and "c = be32 flag @ be32 chid @ be32 pcode @ be32 dataLen @ rest" and "length c \<le> bs" "bs \<le> 2 ^ 22"
    and "flag \<noteq> ANET_PACKET_FLAG \<or> sint dataLen < 0 \<or> max_package_size < sint dataLen"
  shows "succeeds (tc_readData (dps_processData cls True junk) hdr bs s (Inr c # sock))
    (\<lambda>(r, s', sock'). \<not> r \<and> broken (ti_context s') \<and> delivered s' = delivered s \<and> sock' = sock)"
proof -
  have "length (contents (ti_input s)) + bs \<le> 2 ^ 24"
    using assms(3,6) by simp
  from read_into [OF assms(2) this assms(5)] obtain d1 d2 d3 where
    d: "db_ensureFree bs (ti_input s) = Some d1" "db_fillFree c d1 = Some d2" "db_pourData (length c) d2 = Some d3"
      "db_inv d3" "contents d3 = c"
    using assms(3) by auto
  define s1 where "s1 = s\<lparr>ti_input := d3, ti_rxBytes := ti_rxBytes s + int (length c)\<rparr>"
  obtain d4 where d4: "dps_processData cls True junk d3 (ti_context s) = Some (False, d4, (ti_context s)\<lparr>broken := True\<rparr>)"
    using process_bad_header [OF assms(1) d(4), of flag chid pcode dataLen rest cls junk] d(5) assms(4,7)
    by (auto elim!: succeedsE)
  have "tc_drain (dps_processData cls True junk) hdr s1 = Some (s1\<lparr>ti_input := d4, ti_context := (ti_context s)\<lparr>broken := True\<rparr>\<rparr>)"
    using d4 by (subst tc_drain.simps) (simp add: s1_def Let_def)
  moreover have "c \<noteq> []"
    using assms(4) by (auto simp: be32_def)
  ultimately show ?thesis
    using d by (simp add: tc_readData_def tc_loop.simps eval_nat_numeral tc_round_def Let_def tc_addInputSpace_def s1_def)
qed

theorem malformed_frame_breaks_connection_witness:
  "succeeds (tc_readData (dps_processData default_packet_class True \<lparr>hchid = 0, hpcode = 0, hdataLen = 0\<rparr>)
      (ap_header default_packet_class) 64 tc_fresh [Inr (be32 ANET_PACKET_FLAG @ be32 1 @ be32 2 @ be32 0xFFFFFFFF)])
    (\<lambda>(r, s', sock'). \<not> r \<and> broken (ti_context s') \<and> delivered s' = delivered tc_fresh \<and> sock' = [])"
  using malformed_frame_breaks_connection
    [of tc_fresh "be32 ANET_PACKET_FLAG @ be32 1 @ be32 2 @ be32 0xFFFFFFFF" ANET_PACKET_FLAG 1 2 "0xFFFFFFFF" "[]" 64
      default_packet_class "\<lparr>hchid = 0, hpcode = 0, hdataLen = 0\<rparr>" "ap_header default_packet_class" "[]"]
  by (simp add: tc_fresh_def sc_new_def db_inv_new contents_new)

text \<open>When the encoder of a packet gives up after writing any number of bytes
  (a control packet gives up at once), \<open>DefaultPacketStreamer::encode\<close> reports failure and
  leaves in the output exactly the bytes that were there before.\<close>

theorem failed_encode_leaves_output:
  assumes "db_inv db" and "length (contents db) + 16 \<le> 2 ^ 24"
    and "\<And>d. db_inv d \<Longrightarrow> contents d = contents db \<or> length (contents d) = length (contents db) + 16 \<Longrightarrow>
      succeeds (ap_encode cls p d) (\<lambda>(r, p', d'). \<not> r \<and> db_inv d' \<and> contents d' = contents d @ part)"
  shows "succeeds (dps_encode cls existPacketHeader p db) (\<lambda>(r, p', db'). \<not> r \<and> db_inv db' \<and> contents db' = contents db)"
proof -
  let ?h = "ap_header cls p" and ?c = "contents db"
  have fits: "db_inv d \<Longrightarrow> length (contents d) \<le> length ?c + 12 \<Longrightarrow> db_fits 4 d" for d
    using assms(2) by (intro fits_mono) auto
  have strip: "succeeds (db_stripData (nat (db_getDataLen d' - db_getDataLen db)) d')
      (\<lambda>db'. db_inv db' \<and> contents db' = ?c)" if "db_inv d'" "contents d' = ?c @ x" for d' x
    using strip_ok [OF that(1), of "length x"] that assms(1) by (auto simp: getDataLen_contents)
  show ?thesis
  proof (cases existPacketHeader)
    case True
    obtain d1 where d1: "db_writeInt32 ANET_PACKET_FLAG db = Some d1" "db_inv d1" "contents d1 = ?c @ be32 ANET_PACKET_FLAG"
      using writeInt32_ok [OF fits [OF assms(1)]] by (auto elim!: succeedsE)
    obtain d2 where d2: "db_writeInt32 (hchid ?h) d1 = Some d2" "db_inv d2" "contents d2 = contents d1 @ be32 (hchid ?h)"
      using writeInt32_ok [OF fits [OF d1(2)]] d1(3) by (auto elim!: succeedsE)
    obtain d3 where d3: "db_writeInt32 (hpcode ?h) d2 = Some d3" "db_inv d3" "contents d3 = contents d2 @ be32 (hpcode ?h)"
      using writeInt32_ok [OF fits [OF d2(2)]] d2(3) d1(3) by (auto elim!: succeedsE)
    obtain d4 where d4: "db_writeInt32 0 d3 = Some d4" "db_inv d4" "contents d4 = contents d3 @ be32 0"
      using writeInt32_ok [OF fits [OF d3(2)]] d3(3) d2(3) d1(3) by (auto elim!: succeedsE)
    obtain p' d5 where d5: "ap_encode cls p d4 = Some (False, p', d5)" "db_inv d5" "contents d5 = contents d4 @ part"
      using assms(3) [OF d4(2)] d1(3) d2(3) d3(3) d4(3) by (auto elim!: succeedsE)
    from strip [OF d5(2), of "be32 ANET_PACKET_FLAG @ be32 (hchid ?h) @ be32 (hpcode ?h) @ be32 0 @ part"]
    show ?thesis
      using True d1 d2(1,3) d3(1,3) d4(1,3) d5(1,3) by (auto simp: dps_encode_def elim!: succeedsE)
  next
    case False
    obtain p' d5 where d5: "ap_encode cls p db = Some (False, p', d5)" "db_inv d5" "contents d5 = ?c @ part"
      using assms(3) [OF assms(1)] by (auto elim!: succeedsE)
    from strip [OF d5(2,3)] show ?thesis
      using False d5(1) by (auto simp: dps_encode_def elim!: succeedsE)
  qed
qed

theorem failed_encode_leaves_output_witness:
  "succeeds (dps_encode default_packet_class True (Control CMD_TIMEOUT_PACKET \<lparr>hchid = 1, hpcode = 2, hdataLen = 3\<rparr>) db_new)
     (\<lambda>(r, p', db'). \<not> r \<and> db_inv db' \<and> contents db' = contents db_new)"
  by (rule failed_encode_leaves_output [where part = "[]"]) (simp_all add: db_inv_new contents_new)

end
