(* ===== verification/Connections.thy ===== *)
theory Connections
  imports Streamers
begin

text \<open>
  \<open>anet::Connection\<close> and the sending side of \<open>anet::TCPConnection\<close>
  (\<open>network/anet/connection.cpp\<close>, \<open>tcpconnection.cpp\<close>): requests are posted to an
  output queue, written to the socket, and answered by a reply of the peer, by a timeout or
  by the closing of the connection. The model composes the heap models of the ordered packet
  queue, of the channel pool and of the data buffer. Every piece of code that runs under
  the locks of the connection is one definition; the callbacks into the application are recorded in a
  log, in the order in which they are made. The class of the packets is a parameter:
  \<open>encode\<close> is what \<open>_streamer->encode\<close> does to the output buffer and \<open>space\<close> is
  \<open>getSpaceUsed\<close>. The results of \<open>_socket->write\<close> are a list, \<open>now\<close> is the clock.
\<close>

subsection \<open>State\<close>

text \<open>What a callback gets: a packet the peer sent, or a control packet.\<close>

datatype 'a event = Packet_Event "'a packet_scheme" | Control_Event control_cmd

text \<open>A callback: to the handler of a request with its argument, to the server adapter, or
  to the dequeue callback of a packet.\<close>

datatype 'a callback = To_Handler nat ptr "'a event" | To_Server "'a event" | To_Dequeue nat "'a packet_scheme"

datatype post_result = Post_True | Post_False | Post_Waits

record 'a connection =
  isServer :: bool
  existPacketHeader :: bool
  serverAdapter :: bool
  defaultPacketHandler :: ptr
  packets :: "'a packet_scheme heap"
  outputQueue :: pqueue
  myQueue :: pqueue
  channelPool :: "unit chpool"
  queueTimeout :: int
  queueLimit :: "64 word"
  waitingThreads :: int
  closed :: bool
  outputQueueSize :: int
  outputQueueSpaceUsed :: int
  packetPosted :: nat
  packetHandled :: nat
  packetTimeout :: nat
  lasttime :: int
  writeEnabled :: bool
  componentClosed :: bool
  broadcasts :: nat
  callbacks :: "'a callback list"
  outputBuf :: databuffer
  outputBufferSpaceAllocated :: int
  maxSendPacketSize :: int
  totalTxBytes :: int
  queueSize :: int
  callWriteCount :: int
  writeFinishClose :: bool
  writeFinishShutdown :: bool
  socketShutdown :: bool
  readWriteBufSize :: int

text \<open>The constructors. \<open>now\<close> and \<open>bufSize\<close> come from the clock and the environment.\<close>

definition cn_new :: "bool \<Rightarrow> bool \<Rightarrow> 64 word \<Rightarrow> int \<Rightarrow> int \<Rightarrow> 'a packet_scheme heap \<Rightarrow> 'a connection" where
  "cn_new header adapter globalId now bufSize h =
     \<lparr>isServer = False, existPacketHeader = header, serverAdapter = adapter, defaultPacketHandler = None,
      packets = h, outputQueue = pq_new, myQueue = pq_new, channelPool = cp_new globalId,
      queueTimeout = 5000, queueLimit = (if header then 50 else 1), waitingThreads = 0, closed = False,
      outputQueueSize = 0, outputQueueSpaceUsed = 0, packetPosted = 0, packetHandled = 0, packetTimeout = 0,
      lasttime = now, writeEnabled = False, componentClosed = False, broadcasts = 0, callbacks = [],
      outputBuf = db_new, outputBufferSpaceAllocated = 0, maxSendPacketSize = 0, totalTxBytes = 0, queueSize = 0,
      callWriteCount = 0, writeFinishClose = False, writeFinishShutdown = False, socketShutdown = False,
      readWriteBufSize = bufSize\<rparr>"

definition setQueueLimit :: "64 word \<Rightarrow> 'a connection \<Rightarrow> bool \<times> 'a connection" where
  "setQueueLimit limit c =
     (if existPacketHeader c then (True, c\<lparr>queueLimit := limit\<rparr>) else (limit = 1, c))"

definition setQueueTimeout :: "int \<Rightarrow> 'a connection \<Rightarrow> 'a connection" where
  "setQueueTimeout t c = c\<lparr>queueTimeout := t\<rparr>"

definition getUseListCount :: "'a connection \<Rightarrow> 64 word" where
  "getUseListCount c = scast (useCount (channelPool c))"

definition updateQueueStatus :: "('a packet_scheme \<Rightarrow> int) \<Rightarrow> 'a packet_scheme \<Rightarrow> bool \<Rightarrow> 'a connection \<Rightarrow> 'a connection" where
  "updateQueueStatus space packet pushOrPopFlag c =
     (if pushOrPopFlag
      then c\<lparr>outputQueueSize := outputQueueSize c + 1, outputQueueSpaceUsed := outputQueueSpaceUsed c + space packet\<rparr>
      else c\<lparr>outputQueueSize := outputQueueSize c - 1, outputQueueSpaceUsed := outputQueueSpaceUsed c + (0 - space packet)\<rparr>)"

text \<open>A callback between \<open>beforeCallback\<close> and \<open>afterCallback\<close>.\<close>

definition call_back :: "'a callback \<Rightarrow> 'a connection \<Rightarrow> 'a connection" where
  "call_back cb c = c\<lparr>callbacks := callbacks c @ [cb], packetHandled := packetHandled c + 1\<rparr>"

definition wakeUpSender :: "'a connection \<Rightarrow> 'a connection" where
  "wakeUpSender c =
     (if queueLimit c > 0 \<and> (getUseListCount c < queueLimit c \<or> closed c) \<and> waitingThreads c \<noteq> 0
      then c\<lparr>broadcasts := broadcasts c + 1\<rparr> else c)"

definition openHook :: "'a connection \<Rightarrow> 'a connection" where
  "openHook c = c\<lparr>closed := False\<rparr>"

subsection \<open>Posting\<close>

definition channel0 :: channel where
  "channel0 = \<lparr>cprev = None, cnext = None, cid = 0, cexpire = 0, ctimeout = 0, chandler = None, cargs = None\<rparr>"

text \<open>The part of \<open>postPacket\<close> behind the waiting loop: the channel of a request, the queue.\<close>

definition post_channel :: "nat \<Rightarrow> ptr \<Rightarrow> ptr \<Rightarrow> 'a connection \<Rightarrow> 'a connection option" where
  "post_channel a packetHandler args c = do {
     p \<leftarrow> packets c a;
     if isServer c then do {
       check (existPacketHeader c \<longrightarrow> pk_getChannelId p \<noteq> 0);
       Some c }
     else do {
       let chid = (if existPacketHeader c then 0 else HTTP_CHANNEL_ID);
       (ch, pool) \<leftarrow> allocChannel channel0 chid (channelPool c);
       chan \<leftarrow> ch_heap pool ch;
       let h = (ch_heap pool)(ch \<mapsto> chan\<lparr>chandler := packetHandler, cargs := args\<rparr>);
       (h, p) \<leftarrow> pk_setChannel (Some ch) h p;
       Some (c\<lparr>channelPool := pool\<lparr>ch_heap := h\<rparr>, packets := (packets c)(a \<mapsto> p)\<rparr>) } }"

definition post_queue :: "('a packet_scheme \<Rightarrow> int) \<Rightarrow> nat \<Rightarrow> 'a connection \<Rightarrow> 'a connection option" where
  "post_queue space a c = do {
     let qsize = (ucast (pq_size (outputQueue c)) :: 32 word);
     (h, q) \<leftarrow> opq_push a (packets c) (outputQueue c);
     let c = c\<lparr>packets := h, outputQueue := q\<rparr>;
     p \<leftarrow> packets c a;
     let c = updateQueueStatus space p True c;
     let c = (if qsize = 0 then c\<lparr>writeEnabled := True\<rparr> else c);
     Some (c\<lparr>packetPosted := packetPosted c + 1\<rparr>) }"

definition post_accept :: "('a packet_scheme \<Rightarrow> int) \<Rightarrow> nat \<Rightarrow> ptr \<Rightarrow> ptr \<Rightarrow> 'a connection \<Rightarrow> (post_result \<times> 'a connection) option" where
  "post_accept space a packetHandler args c = do {
     c \<leftarrow> post_channel a packetHandler args c;
     c \<leftarrow> post_queue space a c;
     Some (Post_True, c) }"

text \<open>The waiting loop, from the test of its condition on: a thread that has to wait releases
  the lock here, and goes on with \<open>post_woken\<close> when it has been woken up. The limit is read
  again each time, and is not compared with 0 again.\<close>

definition post_wait :: "('a packet_scheme \<Rightarrow> int) \<Rightarrow> nat \<Rightarrow> ptr \<Rightarrow> ptr \<Rightarrow> 'a connection \<Rightarrow> (post_result \<times> 'a connection) option" where
  "post_wait space a packetHandler args c =
     (if getUseListCount c \<ge> queueLimit c \<and> \<not> closed c then Some (Post_Waits, c\<lparr>waitingThreads := waitingThreads c + 1\<rparr>)
      else if closed c then Some (Post_False, c)
      else post_accept space a packetHandler args c)"

definition post_enter :: "('a packet_scheme \<Rightarrow> int) \<Rightarrow> nat \<Rightarrow> ptr \<Rightarrow> ptr \<Rightarrow> 'a connection \<Rightarrow> (post_result \<times> 'a connection) option" where
  "post_enter space a packetHandler args c =
     (if \<not> isServer c \<and> queueLimit c > 0 then post_wait space a packetHandler args c
      else post_accept space a packetHandler args c)"

definition post_woken :: "('a packet_scheme \<Rightarrow> int) \<Rightarrow> nat \<Rightarrow> ptr \<Rightarrow> ptr \<Rightarrow> 'a connection \<Rightarrow> (post_result \<times> 'a connection) option" where
  "post_woken space a packetHandler args c =
     post_wait space a packetHandler args (c\<lparr>waitingThreads := waitingThreads c - 1\<rparr>)"

definition postPacket :: "('a packet_scheme \<Rightarrow> int) \<Rightarrow> int \<Rightarrow> ptr \<Rightarrow> ptr \<Rightarrow> ptr \<Rightarrow> bool \<Rightarrow> 'a connection \<Rightarrow>
    (post_result \<times> 'a connection) option" where
  "postPacket space now packet packetHandler args block c =
     (case packet of None \<Rightarrow> Some (Post_False, c)
      | Some a \<Rightarrow> do {
          p \<leftarrow> packets c a;
          p \<leftarrow> (if pexpire p = 0 then pk_setExpireTime now (queueTimeout c) p else Some p);
          let c = c\<lparr>packets := (packets c)(a \<mapsto> p)\<rparr>;
          if closed c then Some (Post_False, c)
          else do {
            let c = (if \<not> isServer c \<and> pq_size (outputQueue c) = 0 then c\<lparr>lasttime := now\<rparr> else c);
            if \<not> isServer c \<and> pq_size (outputQueue c) \<noteq> 0 \<and> now > lasttime c + 4000000 then Some (Post_False, c)
            else if \<not> isServer c \<and> queueLimit c > 0 \<and> \<not> block \<and> getUseListCount c \<ge> queueLimit c
            then Some (Post_False, c)
            else post_enter space a packetHandler args c } })"

subsection \<open>Replies\<close>

definition handlePacket :: "'a packet_scheme \<Rightarrow> 'a connection \<Rightarrow> (bool \<times> 'a connection) option" where
  "handlePacket packet c =
     (if isServer c then do {
        check (serverAdapter c);
        Some (True, call_back (To_Server (Packet_Event packet)) c) }
      else do {
        let packet = (if \<not> existPacketHeader c then pk_setChannelId HTTP_CHANNEL_ID packet else packet);
        case findChannel (pk_getChannelId packet) (channelPool c) of
          None \<Rightarrow> Some (False, c)
        | Some ch \<Rightarrow> do {
            chan \<leftarrow> ch_heap (channelPool c) ch;
            (r, pool) \<leftarrow> freeChannel (Some ch) (channelPool c);
            let c = c\<lparr>channelPool := pool\<rparr>;
            handler \<leftarrow> (if chandler chan = None then defaultPacketHandler c else chandler chan);
            let c = call_back (To_Handler handler (cargs chan) (Packet_Event packet)) c;
            Some (True, wakeUpSender c) } })"

subsection \<open>Timeouts\<close>

text \<open>The loop over the channels that have timed out.\<close>

partial_function (option) timeout_channels :: "control_cmd \<Rightarrow> ptr \<Rightarrow> 'a connection \<Rightarrow> 'a connection option" where
  "timeout_channels cmd p c =
     (case p of None \<Rightarrow> Some c
      | Some ch \<Rightarrow> do {
          chan \<leftarrow> ch_heap (channelPool c) ch;
          let c = (case (if chandler chan = None then defaultPacketHandler c else chandler chan) of
                     None \<Rightarrow> c | Some handler \<Rightarrow> call_back (To_Handler handler (cargs chan) (Control_Event cmd)) c);
          timeout_channels cmd (cnext chan) (c\<lparr>packetTimeout := packetTimeout c + 1\<rparr>) })"

text \<open>One packet that has timed out in the output queue.\<close>

definition timeout_packet :: "('a packet_scheme \<Rightarrow> int) \<Rightarrow> control_cmd \<Rightarrow> nat \<Rightarrow> 'a packet_scheme \<Rightarrow> 'a connection \<Rightarrow> 'a connection option" where
  "timeout_packet space cmd a packet c = do {
     let c = updateQueueStatus space packet False c;
     c \<leftarrow> (if isServer c
           then Some (if serverAdapter c then call_back (To_Server (Control_Event cmd)) c else c)
           else case pchannel packet of None \<Rightarrow> Some c
             | Some ch \<Rightarrow> do {
                 chan \<leftarrow> ch_heap (channelPool c) ch;
                 (r, pool) \<leftarrow> freeChannel (Some ch) (channelPool c);
                 let c = c\<lparr>channelPool := pool\<rparr>;
                 Some (case (if chandler chan = None then defaultPacketHandler c else chandler chan) of
                     None \<Rightarrow> c | Some handler \<Rightarrow> call_back (To_Handler handler (cargs chan) (Control_Event cmd)) c) });
     Some (c\<lparr>packetTimeout := packetTimeout c + 1, packets := (packets c)(a := None)\<rparr>) }"

partial_function (option) timeout_packets :: "('a packet_scheme \<Rightarrow> int) \<Rightarrow> control_cmd \<Rightarrow> ptr \<Rightarrow> 'a connection \<Rightarrow> 'a connection option" where
  "timeout_packets space cmd p c =
     (case p of None \<Rightarrow> Some c
      | Some a \<Rightarrow> do {
          packet \<leftarrow> packets c a;
          c \<leftarrow> timeout_packet space cmd a packet c;
          timeout_packets space cmd (pnext packet) c })"

definition timeout_pool :: "control_cmd \<Rightarrow> int \<Rightarrow> 'a connection \<Rightarrow> 'a connection option" where
  "timeout_pool cmd now c =
     (if isServer c then Some c
      else do {
        (lst, pool) \<leftarrow> cp_getTimeoutList now (channelPool c);
        let c = c\<lparr>channelPool := pool\<rparr>;
        if lst = None then Some c
        else do {
          let c = (if \<not> existPacketHeader c \<and> cmd = CMD_TIMEOUT_PACKET then c\<lparr>componentClosed := True\<rparr> else c);
          c \<leftarrow> timeout_channels cmd lst c;
          (r, pool) \<leftarrow> appendFreeList lst (channelPool c);
          Some (c\<lparr>channelPool := pool\<rparr>) } })"

definition cn_checkTimeout :: "('a packet_scheme \<Rightarrow> int) \<Rightarrow> int \<Rightarrow> 'a connection \<Rightarrow> 'a connection option" where
  "cn_checkTimeout space now c = do {
     let cmd = (if now = TIME_MAX then CMD_CONNECTION_CLOSED else CMD_TIMEOUT_PACKET);
     c \<leftarrow> timeout_pool cmd now c;
     (h, q, packetList) \<leftarrow> pq_getTimeoutList now (packets c) (outputQueue c);
     c \<leftarrow> timeout_packets space cmd packetList (c\<lparr>packets := h, outputQueue := q\<rparr>);
     Some (wakeUpSender c) }"

definition closeHook :: "('a packet_scheme \<Rightarrow> int) \<Rightarrow> 'a connection \<Rightarrow> 'a connection option" where
  "closeHook space c = do {
     let first = \<not> closed c;
     let c = c\<lparr>closed := True\<rparr>;
     let c = (if first \<and> isServer c \<and> serverAdapter c then call_back (To_Server (Control_Event CMD_CLOSE_CONNECTION)) c else c);
     cn_checkTimeout space TIME_MAX c }"

subsection \<open>Writing\<close>

definition clearOutputBuffer :: "'a connection \<Rightarrow> 'a connection" where
  "clearOutputBuffer c = c\<lparr>outputBuf := db_clear (outputBuf c)\<rparr>"

definition addOutputBufferSpaceAllocated :: "int \<Rightarrow> 'a connection \<Rightarrow> 'a connection" where
  "addOutputBufferSpaceAllocated n c =
     (if n = 0 then c else c\<lparr>outputBufferSpaceAllocated := outputBufferSpaceAllocated c + n\<rparr>)"

definition shrinkOutputBuffer :: "'a connection \<Rightarrow> 'a connection option" where
  "shrinkOutputBuffer c = do {
     let oldSpaceUsed = db_getSpaceUsed (outputBuf c);
     db \<leftarrow> db_shrink (outputBuf c);
     let c = c\<lparr>outputBuf := db\<rparr>;
     Some (addOutputBufferSpaceAllocated (db_getSpaceUsed (outputBuf c) - oldSpaceUsed) c) }"

text \<open>The channel of a packet that has been encoded: given back when nobody expects a reply,
  put on the waiting list otherwise.\<close>

definition write_channel :: "'a packet_scheme \<Rightarrow> 'a connection \<Rightarrow> 'a connection option" where
  "write_channel packet c =
     (case pchannel packet of None \<Rightarrow> Some c
      | Some ch \<Rightarrow> do {
          chan \<leftarrow> ch_heap (channelPool c) ch;
          if defaultPacketHandler c = None \<and> chandler chan = None then do {
            (r, pool) \<leftarrow> freeChannel (Some ch) (channelPool c);
            Some (c\<lparr>channelPool := pool\<rparr>) }
          else do {
            let pool = (channelPool c)\<lparr>ch_heap := (ch_heap (channelPool c))(ch \<mapsto>
                  chan\<lparr>cexpire := pexpire packet, ctimeout := ptimeoutMs packet\<rparr>)\<rparr>;
            pool \<leftarrow> addToWaitingList ch pool;
            Some (c\<lparr>channelPool := pool\<rparr>) } })"

text \<open>One packet popped from \<open>_myQueue\<close>: it is encoded, its channel looked after, and it is
  taken out of the books and freed.\<close>

definition write_encode :: "('a packet_scheme \<Rightarrow> databuffer \<Rightarrow> databuffer option) \<Rightarrow> 'a packet_scheme \<Rightarrow>
    'a connection \<Rightarrow> 'a connection option" where
  "write_encode encode packet c = do {
     let oldDataLen = db_getDataLen (outputBuf c);
     let oldSpaceAllocated = db_getSpaceUsed (outputBuf c);
     db \<leftarrow> encode packet (outputBuf c);
     let c = c\<lparr>outputBuf := db\<rparr>;
     let packetSizeInBuffer = db_getDataLen db - oldDataLen;
     let c = (if packetSizeInBuffer > maxSendPacketSize c then c\<lparr>maxSendPacketSize := packetSizeInBuffer\<rparr> else c);
     Some (addOutputBufferSpaceAllocated (db_getSpaceUsed db - oldSpaceAllocated) c) }"

definition write_dequeue :: "('a packet_scheme \<Rightarrow> int) \<Rightarrow> 'a packet_scheme \<Rightarrow> 'a connection \<Rightarrow> 'a connection" where
  "write_dequeue space packet c =
     (let c = updateQueueStatus space packet False c
      in case pdequeueCB packet of None \<Rightarrow> c | Some cb \<Rightarrow> c\<lparr>callbacks := callbacks c @ [To_Dequeue cb packet]\<rparr>)"

definition write_packet :: "('a packet_scheme \<Rightarrow> int) \<Rightarrow> ('a packet_scheme \<Rightarrow> databuffer \<Rightarrow> databuffer option) \<Rightarrow>
    'a connection \<Rightarrow> 'a connection option" where
  "write_packet space encode c = do {
     (p, q) \<leftarrow> pq_pop (packets c) (myQueue c);
     a \<leftarrow> p;
     packet \<leftarrow> packets c a;
     c \<leftarrow> write_encode encode packet (c\<lparr>myQueue := q\<rparr>);
     c \<leftarrow> write_channel packet c;
     let c = write_dequeue space packet c;
     Some (c\<lparr>packets := (packets c)(a := None)\<rparr>) }"

text \<open>The inner loop; \<open>n\<close> is \<open>myQueueSize\<close>.\<close>

primrec write_fill :: "('a packet_scheme \<Rightarrow> int) \<Rightarrow> ('a packet_scheme \<Rightarrow> databuffer \<Rightarrow> databuffer option) \<Rightarrow>
    nat \<Rightarrow> 'a connection \<Rightarrow> (nat \<times> 'a connection) option" where
  "write_fill space encode 0 c = Some (0, c)"
| "write_fill space encode (Suc n) c =
     (if db_getDataLen (outputBuf c) < readWriteBufSize c then do {
        c \<leftarrow> write_packet space encode c;
        write_fill space encode n c }
      else Some (Suc n, c))"

text \<open>One write to the socket, which gives \<open>ret\<close> and \<open>getSoError()\<close>; once the list is
  used up, it would block.\<close>

definition write_send :: "(int \<times> int) list \<Rightarrow> 'a connection \<Rightarrow> int \<times> int \<times> 'a connection" where
  "write_send sock c =
     (let (ret, soError) = (case sock of [] \<Rightarrow> (-1, EAGAIN) | r # rs \<Rightarrow> r)
      in if ret > 0 then (ret, 0, c\<lparr>outputBuf := db_drainData (nat ret) (outputBuf c), totalTxBytes := totalTxBytes c + ret\<rparr>)
         else (ret, soError, c))"

text \<open>The outer loop: it stops after ten rounds, \<open>fuel\<close> counts them.\<close>

fun write_loop :: "nat \<Rightarrow> ('a packet_scheme \<Rightarrow> int) \<Rightarrow> ('a packet_scheme \<Rightarrow> databuffer \<Rightarrow> databuffer option) \<Rightarrow>
    nat \<Rightarrow> (int \<times> int) list \<Rightarrow> 'a connection \<Rightarrow> (int \<times> int \<times> (int \<times> int) list \<times> 'a connection) option" where
  "write_loop 0 space encode n sock c = None"
| "write_loop (Suc fuel) space encode n sock c = do {
     (n, c) \<leftarrow> write_fill space encode n c;
     if db_getDataLen (outputBuf c) = 0 then Some (0, 0, sock, c)
     else do {
       let (ret, error, c) = write_send sock c;
       if ret > 0 \<and> db_getDataLen (outputBuf c) = 0 \<and> n > 0 \<and> fuel > 0 then do {
         (err, cnt, sock, c) \<leftarrow> write_loop fuel space encode n (tl sock) c;
         Some (err, cnt + 1, sock, c) }
       else Some (error, 1, tl sock, c) } }"

text \<open>The first and the last part of \<open>writeData\<close>, each under the lock of the output queue;
  between them other threads may post.\<close>

definition write_begin :: "int \<Rightarrow> 'a connection \<Rightarrow> (nat option \<times> 'a connection) option" where
  "write_begin now c = do {
     (h, q, mq) \<leftarrow> opq_moveTo (packets c) (outputQueue c) (myQueue c);
     let c = c\<lparr>packets := h, outputQueue := q, myQueue := mq\<rparr>;
     if pq_size (myQueue c) = 0 \<and> db_getDataLen (outputBuf c) = 0 then Some (None, c\<lparr>writeEnabled := False\<rparr>)
     else do {
       check (unat (pq_size (myQueue c)) < 2 ^ 31);
       let myQueueSize = unat (pq_size (myQueue c));
       Some (Some myQueueSize, c\<lparr>queueSize := int myQueueSize, lasttime := now\<rparr>) } }"

definition write_finish :: "int \<Rightarrow> 'a connection \<Rightarrow> bool \<times> 'a connection" where
  "write_finish error c =
     (if error \<noteq> 0 \<and> error \<noteq> EAGAIN then (False, clearOutputBuffer c)
      else
        let pending = sint (ucast (pq_size (outputQueue c)) :: 32 word) + (if db_getDataLen (outputBuf c) > 0 then 1 else 0)
        in if pending \<le> 0 \<and> writeFinishShutdown c then (True, c\<lparr>writeEnabled := False, socketShutdown := True\<rparr>)
           else if pending \<le> 0 \<and> writeFinishClose c then (False, clearOutputBuffer c)
           else
             let c = (if pending \<le> 0 then c\<lparr>writeEnabled := False\<rparr> else c)
             in (True, if \<not> isServer c \<and> queueLimit c > 0 \<and> getUseListCount c < queueLimit c \<and> waitingThreads c > 0
                       then c\<lparr>broadcasts := broadcasts c + 1\<rparr> else c))"

definition write_end :: "int \<Rightarrow> int \<Rightarrow> 'a connection \<Rightarrow> (bool \<times> 'a connection) option" where
  "write_end error writeCnt c = do {
     let c = c\<lparr>callWriteCount := callWriteCount c + writeCnt\<rparr>;
     (h, q, mq) \<leftarrow> opq_moveBack (packets c) (outputQueue c) (myQueue c);
     Some (write_finish error (c\<lparr>packets := h, outputQueue := q, myQueue := mq\<rparr>)) }"

definition writeData :: "('a packet_scheme \<Rightarrow> int) \<Rightarrow> ('a packet_scheme \<Rightarrow> databuffer \<Rightarrow> databuffer option) \<Rightarrow>
    int \<Rightarrow> (int \<times> int) list \<Rightarrow> 'a connection \<Rightarrow> (bool \<times> (int \<times> int) list \<times> 'a connection) option" where
  "writeData space encode now sock c = do {
     (size, c) \<leftarrow> write_begin now c;
     case size of None \<Rightarrow> Some (True, sock, c)
     | Some myQueueSize \<Rightarrow> do {
         (error, writeCnt, sock, c) \<leftarrow> write_loop 10 space encode myQueueSize sock c;
         (r, c) \<leftarrow> write_end error writeCnt c;
         Some (r, sock, c) } }"

end
