(* ===== verification/Exchanges.thy ===== *)
theory Exchanges
  imports Connections
begin

text \<open>
  Requests and answers of a client connection. The invariant ties the packets in the queues
  to the channels in use: every queued packet carries one channel that is not waiting, every
  other channel in use waits for a reply. The theorems count: what has been posted is what
  has been answered plus what is outstanding, whatever sequence of posts, replies, timeouts,
  writes, openings and closings the connection goes through, and closing it answers all that
  is outstanding.
\<close>

subsection \<open>What the channel pool leaves alone\<close>

abbreviation links_only :: "'a channel_scheme heap \<Rightarrow> 'a channel_scheme heap \<Rightarrow> bool" where
  "links_only \<equiv> c_relinked UNIV"

lemma links_only_trans: "links_only h h' \<Longrightarrow> links_only h' h'' \<Longrightarrow> links_only h h''"
  by (erule c_relinked_trans) auto

lemma c_set_links:
  "c_set_next p x h = Some h' \<Longrightarrow> links_only h h'"
  "c_set_prev p x h = Some h' \<Longrightarrow> links_only h h'"
  by (auto simp: c_set_next_def c_set_prev_def c_relinked_def split: Option.bind_splits)

lemma freeWaitingChannel_links: "freeWaitingChannel a s = Some s' \<Longrightarrow> links_only (ch_heap s) (ch_heap s')"
  by (auto simp: freeWaitingChannel_def Let_def split: Option.bind_splits if_splits dest!: c_set_links intro: links_only_trans)

lemma recycleChannel_links: "recycleChannel a s = Some s' \<Longrightarrow> links_only (ch_heap s) (ch_heap s')"
  by (auto simp: recycleChannel_def split: Option.bind_splits if_splits dest!: c_set_links intro: links_only_trans)

lemma freeChannel_links: "freeChannel p s = Some (r, s') \<Longrightarrow> links_only (ch_heap s) (ch_heap s')"
  by (auto simp: freeChannel_def split: Option.bind_splits option.splits if_splits
      dest!: freeWaitingChannel_links recycleChannel_links intro: links_only_trans)

lemma allocChannel_same:
  assumes "cp_inv s us ws fs" "allocChannel c0 chid s = Some (a, s')" "x \<in> us"
  shows "ch_heap s' x = ch_heap s x"
proof -
  have rep: "free_rep s fs" "dom (ch_heap s) - set fs = us" "\<forall>x\<in>dom (ch_heap s). x < ch_brk s"
    using assms(1) by (auto simp: cp_inv_def)
  obtain a1 s1 fs1 where 1: "cp_takeFree c0 s = Some (a1, s1)" "takes_free s fs a1 s1 fs1"
    using cp_takeFree_rep [OF rep(1,3), of c0] by (auto elim!: succeedsE)
  have "ch_heap s1 x = ch_heap s x" "x \<noteq> a1"
    using 1(2) assms(3) unfolding takes_free_def rep(2) by auto
  then show ?thesis
    using assms(2) 1(1) by (auto simp: allocChannel_def split: Option.bind_splits)
qed

subsection \<open>Who is answered\<close>

text \<open>The handler a channel would call, with its argument.\<close>

definition owner :: "ptr \<Rightarrow> channel heap \<Rightarrow> nat \<Rightarrow> (nat \<times> ptr) option" where
  "owner d h a = (let chan = the (h a) in
     map_option (\<lambda>k. (k, cargs chan)) (if chandler chan = None then d else chandler chan))"

definition mset_of :: "'b option \<Rightarrow> 'b multiset" where
  "mset_of x = (case x of None \<Rightarrow> {#} | Some y \<Rightarrow> {#y#})"

definition outstanding :: "ptr \<Rightarrow> channel heap \<Rightarrow> nat set \<Rightarrow> (nat \<times> ptr) multiset" where
  "outstanding d h us = (\<Sum>a\<in>us. mset_of (owner d h a))"

fun answer :: "'a callback \<Rightarrow> (nat \<times> ptr) option" where
  "answer (To_Handler k args e) = Some (k, args)"
| "answer cb = None"

definition answered :: "'a connection \<Rightarrow> (nat \<times> ptr) multiset" where
  "answered c = (\<Sum>cb\<leftarrow>callbacks c. mset_of (answer cb))"

lemma mset_of_simps [simp]: "mset_of None = {#}" "mset_of (Some x) = {#x#}"
  by (simp_all add: mset_of_def)

lemma owner_links:
  assumes "links_only h h'"
  shows "owner d h' a = owner d h a"
proof -
  have "map_option (\<lambda>c. c\<lparr>cprev := None, cnext := None\<rparr>) (h' a) = map_option (\<lambda>c. c\<lparr>cprev := None, cnext := None\<rparr>) (h a)"
    using assms by (simp add: c_relinked_def)
  from arg_cong [OF this, of "map_option (\<lambda>c. (chandler c, cargs c))"]
  show ?thesis
    by (cases "h' a"; cases "h a") (simp_all add: owner_def)
qed

lemma outstanding_links: "links_only h h' \<Longrightarrow> outstanding d h' us = outstanding d h us"
  by (simp add: outstanding_def owner_links)

lemma outstanding_same: "(\<And>a. a \<in> us \<Longrightarrow> owner d h' a = owner d h a) \<Longrightarrow> outstanding d h' us = outstanding d h us"
  by (simp add: outstanding_def)

lemma outstanding_empty [simp]: "outstanding d h {} = {#}"
  by (simp add: outstanding_def)

lemma outstanding_insert: "finite us \<Longrightarrow> a \<notin> us \<Longrightarrow> outstanding d h (insert a us) = mset_of (owner d h a) + outstanding d h us"
  by (simp add: outstanding_def)

lemma outstanding_remove: "finite us \<Longrightarrow> a \<in> us \<Longrightarrow> mset_of (owner d h a) + outstanding d h (us - {a}) = outstanding d h us"
  by (simp add: outstanding_def sum.remove)

lemma outstanding_diff:
  "finite us \<Longrightarrow> distinct ts \<Longrightarrow> set ts \<subseteq> us \<Longrightarrow>
    (\<Sum>a\<leftarrow>ts. mset_of (owner d h a)) + outstanding d h (us - set ts) = outstanding d h us"
  by (simp add: outstanding_def sum_list_distinct_conv_sum_set sum.subset_diff add.commute)

lemma answered_call [simp]: "answered (call_back cb c) = answered c + mset_of (answer cb)"
  by (simp add: answered_def call_back_def)

subsection \<open>The invariant\<close>

text \<open>The channel of a packet.\<close>

definition cof :: "'a packet_scheme heap \<Rightarrow> nat \<Rightarrow> nat" where
  "cof h p = the (pchannel (the (h p)))"

text \<open>A packet on its way: it has a channel, whose id is in its header, and expires.\<close>

definition carries :: "channel heap \<Rightarrow> 'a packet_scheme heap \<Rightarrow> nat \<Rightarrow> bool" where
  "carries hc h p \<longleftrightarrow> (\<exists>n. h p = Some n \<and> pchannel n \<noteq> None \<and> 0 < pexpire n \<and> pexpire n < TIME_MAX \<and>
     pk_getChannelId n = cid_of hc (cof h p))"

text \<open>The ids tell the channels apart, and fit into the header of a packet.\<close>

definition ids_ok :: "(nat \<Rightarrow> 64 word) \<Rightarrow> nat set \<Rightarrow> bool" where
  "ids_ok f us \<longleftrightarrow> inj_on f us \<and> (\<forall>a\<in>us. f a = ucast (ucast (f a) :: 32 word))"

lemma ucast_up_down: "(ucast (ucast v :: 64 word) :: 32 word) = v"
  by (rule bit_word_eqI) (simp add: bit_simps)

lemma ids_ok_diff: "ids_ok f us \<Longrightarrow> ids_ok f (us - ts)"
  by (auto simp: ids_ok_def inj_on_diff)

text \<open>\<open>P\<close> are the packets on their way, \<open>us\<close> the channels in use, \<open>ws\<close> those that wait
  for a reply.\<close>

definition xinv :: "ptr \<Rightarrow> unit chpool \<Rightarrow> 'a packet_scheme heap \<Rightarrow> nat set \<Rightarrow> nat set \<Rightarrow> nat list \<Rightarrow> bool" where
  "xinv d pool h P us ws \<longleftrightarrow>
     (\<exists>fs. cp_inv pool us ws fs) \<and> bij_betw (cof h) P (us - set ws) \<and> (\<forall>p\<in>P. carries (ch_heap pool) h p) \<and>
     (\<forall>a\<in>set ws. owner d (ch_heap pool) a \<noteq> None \<and> cexpire_of (ch_heap pool) a < TIME_MAX) \<and>
     ids_ok (cid_of (ch_heap pool)) us"

lemma xinvD:
  assumes "xinv d pool h P us ws"
  obtains fs where "cp_inv pool us ws fs" "bij_betw (cof h) P (us - set ws)" "\<forall>p\<in>P. carries (ch_heap pool) h p"
    "\<forall>a\<in>set ws. owner d (ch_heap pool) a \<noteq> None \<and> cexpire_of (ch_heap pool) a < TIME_MAX" "ids_ok (cid_of (ch_heap pool)) us"
  using assms unfolding xinv_def by blast

lemma carries_links: "links_only hc hc' \<Longrightarrow> carries hc' h p = carries hc h p"
  by (simp add: carries_def c_relinked_fields)

lemma bij_betw_remove: "bij_betw f A B \<Longrightarrow> p \<in> A \<Longrightarrow> bij_betw f (A - {p}) (B - {f p})"
  by (auto simp: bij_betw_def inj_on_def)

lemma cof_drop: "q \<noteq> p \<Longrightarrow> cof (h(p := x)) q = cof h q"
  by (simp add: cof_def)

lemma carried_drop:
  "bij_betw (cof (h(p := x))) (P - {p}) B \<longleftrightarrow> bij_betw (cof h) (P - {p}) B"
  "\<forall>p\<in>P. carries hc h p \<Longrightarrow> \<forall>q\<in>P - {p}. carries hc (h(p := x)) q"
  by (rule bij_betw_cong) (auto simp: carries_def cof_drop)

text \<open>A channel is given back.\<close>

lemma free_carried:
  assumes inv: "xinv d pool h P us ws" and p: "p \<in> P"
  shows "succeeds (freeChannel (Some (cof h p)) pool) (\<lambda>(r, pool').
    xinv d pool' (h(p := None)) (P - {p}) (us - {cof h p}) ws \<and> links_only (ch_heap pool) (ch_heap pool'))" and "cof h p \<in> us - set ws"
proof -
  from inv obtain fs where iv: "cp_inv pool us ws fs" "bij_betw (cof h) P (us - set ws)" "\<forall>p\<in>P. carries (ch_heap pool) h p"
    "\<forall>a\<in>set ws. owner d (ch_heap pool) a \<noteq> None \<and> cexpire_of (ch_heap pool) a < TIME_MAX" "ids_ok (cid_of (ch_heap pool)) us"
    by (rule xinvD)
  show ch: "cof h p \<in> us - set ws"
    using iv(2) p by (auto simp: bij_betw_def)
  then obtain r pool' where 1: "freeChannel (Some (cof h p)) pool = Some (r, pool')"
    "cp_inv pool' (us - {cof h p}) (remove1 (cof h p) ws) (fs @ [cof h p])"
    using freeChannel_inv [OF iv(1), of "cof h p"] by (auto elim!: succeedsE)
  note l = freeChannel_links [OF 1(1)]
  note eqs = c_relinked_fields [OF l] owner_links [OF l] carries_links [OF l]
  have "us - {cof h p} - set ws = us - set ws - {cof h p}"
    by blast
  then have "bij_betw (cof (h(p := None))) (P - {p}) (us - {cof h p} - set ws)"
    unfolding carried_drop(1) using bij_betw_remove [OF iv(2) p] by simp
  moreover have "\<forall>q\<in>P - {p}. carries (ch_heap pool') (h(p := None)) q"
    using carried_drop(2) [OF iv(3)] by (simp add: eqs)
  moreover have "ids_ok (cid_of (ch_heap pool')) (us - {cof h p})"
    using ids_ok_diff [OF iv(5)] by (simp add: eqs)
  ultimately have "xinv d pool' (h(p := None)) (P - {p}) (us - {cof h p}) ws"
    using 1(2) ch iv(4) by (auto simp: xinv_def eqs remove1_idem)
  then show "succeeds (freeChannel (Some (cof h p)) pool) (\<lambda>(r, pool').
    xinv d pool' (h(p := None)) (P - {p}) (us - {cof h p}) ws \<and> links_only (ch_heap pool) (ch_heap pool'))"
    using 1(1) l by simp
qed

lemma free_waiting:
  assumes inv: "xinv d pool h P us ws" and a: "a \<in> set ws"
  shows "succeeds (freeChannel (Some a) pool) (\<lambda>(r, pool').
    xinv d pool' h P (us - {a}) (remove1 a ws) \<and> links_only (ch_heap pool) (ch_heap pool'))" and "a \<in> us"
proof -
  from inv obtain fs where iv: "cp_inv pool us ws fs" "bij_betw (cof h) P (us - set ws)" "\<forall>p\<in>P. carries (ch_heap pool) h p"
    "\<forall>a\<in>set ws. owner d (ch_heap pool) a \<noteq> None \<and> cexpire_of (ch_heap pool) a < TIME_MAX" "ids_ok (cid_of (ch_heap pool)) us"
    by (rule xinvD)
  show us: "a \<in> us"
    using cp_invD(4) [OF iv(1)] a by blast
  then obtain r pool' where 1: "freeChannel (Some a) pool = Some (r, pool')"
    "cp_inv pool' (us - {a}) (remove1 a ws) (fs @ [a])"
    using freeChannel_inv [OF iv(1), of a] by (auto elim!: succeedsE)
  note l = freeChannel_links [OF 1(1)]
  note eqs = c_relinked_fields [OF l] owner_links [OF l] carries_links [OF l]
  have "us - {a} - set (remove1 a ws) = us - set ws"
    using a cp_invD(1) [OF iv(1)] by (auto simp: wait_rep_def)
  moreover have "\<forall>x\<in>set (remove1 a ws). owner d (ch_heap pool) x \<noteq> None \<and> cexpire_of (ch_heap pool) x < TIME_MAX"
    using iv(4) set_remove1_subset [of a ws] by blast
  moreover have "ids_ok (cid_of (ch_heap pool)) (us - {a})"
    using iv(5) by (rule ids_ok_diff)
  ultimately have "xinv d pool' h P (us - {a}) (remove1 a ws)"
    unfolding xinv_def eqs using 1(2) iv(2,3) by auto
  then show "succeeds (freeChannel (Some a) pool) (\<lambda>(r, pool').
    xinv d pool' h P (us - {a}) (remove1 a ws) \<and> links_only (ch_heap pool) (ch_heap pool'))"
    using 1(1) l by simp
qed

text \<open>A channel that does not wait may change in everything but its expire time.\<close>

lemma cp_inv_update:
  assumes inv: "cp_inv s us ws fs" and a: "a \<in> us" "a \<notin> set ws" and c: "cexpire c = 0"
  shows "cp_inv (s\<lparr>ch_heap := (ch_heap s)(a \<mapsto> c)\<rparr>) us ws fs"
proof -
  note iv = cp_invD [OF inv]
  let ?s = "s\<lparr>ch_heap := (ch_heap s)(a \<mapsto> c)\<rparr>"
  have "a \<notin> set fs"
    using iv(3) a(1) by blast
  then have "wait_rep ?s ws" "free_rep ?s fs"
    using wait_rep_agree [OF iv(1), of ?s] free_rep_agree [OF iv(2), of ?s] a(2) by (auto simp: same_wait_def)
  moreover have "dom (ch_heap ?s) = dom (ch_heap s)"
    using iv(6) a(1) by auto
  moreover have "cexpire_of (ch_heap ?s) x = 0" if "x \<in> us" "x \<notin> set ws" for x
    using iv(9) that c by (simp add: cexpire_of_def)
  ultimately show ?thesis
    using iv(3-8) unfolding cp_inv_def by simp
qed

lemma links_only_upd: "h a = Some n \<Longrightarrow> links_only h (h(a \<mapsto> n\<lparr>cprev := x, cnext := y\<rparr>))"
  by (rule c_relinked_mono [OF c_relinked_upd(3)]) auto

lemma addToWaitingList_links: "addToWaitingList a s = Some s' \<Longrightarrow> links_only (ch_heap s) (ch_heap s')"
proof (cases "waitReplyHead s")
  case None
  then show "addToWaitingList a s = Some s' \<Longrightarrow> ?thesis"
    by (auto simp: addToWaitingList_def bind_eq_Some_conv intro: links_only_upd split: if_splits)
next
  case (Some w)
  then show "addToWaitingList a s = Some s' \<Longrightarrow> ?thesis"
    unfolding addToWaitingList_def Let_def
    by (auto simp: bind_eq_Some_conv split: if_splits option.splits) (meson c_set_links links_only_trans)+
qed

text \<open>The channel of a packet that has been written is put on the waiting list.\<close>

lemma wait_carried:
  fixes t :: int
  assumes inv: "xinv d pool h P us ws" and p: "p \<in> P" "h p = Some n" and chan: "ch_heap pool (cof h p) = Some chan"
    and own: "owner d (ch_heap pool) (cof h p) \<noteq> None"
  defines "heap' \<equiv> (ch_heap pool)(cof h p \<mapsto> chan\<lparr>cexpire := pexpire n, ctimeout := t\<rparr>)"
  shows "succeeds (addToWaitingList (cof h p) (pool\<lparr>ch_heap := heap'\<rparr>)) (\<lambda>pool'.
    (\<exists>ws'. xinv d pool' (h(p := None)) (P - {p}) us ws') \<and> (\<forall>a. owner d (ch_heap pool') a = owner d (ch_heap pool) a))"
proof -
  let ?a = "cof h p"
  from inv obtain fs where iv: "cp_inv pool us ws fs" "bij_betw (cof h) P (us - set ws)" "\<forall>p\<in>P. carries (ch_heap pool) h p"
    "\<forall>a\<in>set ws. owner d (ch_heap pool) a \<noteq> None \<and> cexpire_of (ch_heap pool) a < TIME_MAX" "ids_ok (cid_of (ch_heap pool)) us"
    by (rule xinvD)
  have a: "?a \<in> us" "?a \<notin> set ws"
    using iv(2) p by (auto simp: bij_betw_def)
  have e: "0 < pexpire n" "pexpire n < TIME_MAX"
    using iv(3) p by (auto simp: carries_def)
  let ?pool = "pool\<lparr>ch_heap := (ch_heap pool)(?a \<mapsto> chan\<lparr>ctimeout := t\<rparr>)\<rparr>"
  have z: "cexpire (chan\<lparr>ctimeout := t\<rparr>) = 0"
    using cp_invD(9) [OF iv(1), rule_format, OF a] chan by (simp add: cexpire_of_def)
  have i1: "cp_inv ?pool us ws fs"
    by (rule cp_inv_update [OF iv(1) a z])
  have "findChannel (cid chan) ?pool = None"
  proof (rule ccontr)
    assume "\<not> ?thesis"
    then obtain b where "waitReplyMap pool (cid chan) = Some b"
      by (auto simp: findChannel_def)
    then have "b \<in> set ws" "cid_of (ch_heap pool) b = cid_of (ch_heap pool) ?a"
      using cp_invD(1) [OF iv(1)] chan by (auto simp: wait_rep_def cid_of_def)
    then show False
      using iv(5) a cp_invD(4) [OF iv(1)] by (auto simp: ids_ok_def inj_on_def)
  qed
  from cp_wait_inv [OF i1 a e(1) this]
  obtain pool' ws' where 1: "cp_wait ?a (cid chan) (pexpire n) ?pool = Some pool'" "cp_inv pool' us ws' fs" "set ws' = insert ?a (set ws)"
    by (auto elim!: succeedsE)
  have swap: "chan\<lparr>cexpire := pexpire n, ctimeout := t\<rparr> = chan\<lparr>ctimeout := t, cexpire := pexpire n\<rparr>"
    by simp
  have add: "addToWaitingList ?a (pool\<lparr>ch_heap := heap'\<rparr>) = Some pool'"
    using 1(1) unfolding heap'_def swap by (simp add: cp_wait_def)
  note l = addToWaitingList_links [OF add]
  have eqs: "owner d (ch_heap pool') x = owner d (ch_heap pool) x" "cid_of (ch_heap pool') = cid_of (ch_heap pool)"
    "x \<noteq> ?a \<Longrightarrow> cexpire_of (ch_heap pool') x = cexpire_of (ch_heap pool) x" "cexpire_of (ch_heap pool') ?a = pexpire n" for x
    using chan owner_links [OF l] c_relinked_fields [OF l] by (auto simp: heap'_def owner_def cid_of_def cexpire_of_def)
  have "us - set ws' = us - set ws - {?a}"
    using 1(3) by blast
  then have "bij_betw (cof (h(p := None))) (P - {p}) (us - set ws')"
    unfolding carried_drop(1) using bij_betw_remove [OF iv(2) p(1)] by simp
  moreover have "\<forall>q\<in>P - {p}. carries (ch_heap pool') (h(p := None)) q"
    using carried_drop(2) [OF iv(3)] by (simp add: carries_def eqs(2))
  moreover have "cexpire_of (ch_heap pool') x < TIME_MAX" if "x \<in> set ws'" for x
    using that iv(4) e(2) eqs(3) [of x] eqs(4) by (cases "x = ?a") (auto simp: 1(3))
  ultimately have "xinv d pool' (h(p := None)) (P - {p}) us ws'"
    using 1(2,3) iv(4,5) own by (auto simp: xinv_def eqs(1,2))
  then show ?thesis
    using add eqs(1) by auto
qed

text \<open>The channels that time out.\<close>

lemma timeout_waiting:
  fixes now :: int
  assumes inv: "xinv d pool h P us ws"
  defines "ts \<equiv> filter (\<lambda>a. cexpire_of (ch_heap pool) a < now) ws"
  obtains lst pool1 la pool2 where "cp_getTimeoutList now pool = Some (lst, pool1)"
    "dseg (ch_heap pool1) None lst ts None la" "links_only (ch_heap pool) (ch_heap pool1)"
    "appendFreeList lst pool1 = Some (True, pool2)" "links_only (ch_heap pool) (ch_heap pool2)"
    "xinv d pool2 h P (us - set ts) (filter (\<lambda>a. now \<le> cexpire_of (ch_heap pool) a) ws)" "distinct ts" "set ts \<subseteq> us"
proof -
  let ?ks = "filter (\<lambda>a. now \<le> cexpire_of (ch_heap pool) a) ws"
  from inv obtain fs where iv: "cp_inv pool us ws fs" "bij_betw (cof h) P (us - set ws)" "\<forall>p\<in>P. carries (ch_heap pool) h p"
    "\<forall>a\<in>set ws. owner d (ch_heap pool) a \<noteq> None \<and> cexpire_of (ch_heap pool) a < TIME_MAX" "ids_ok (cid_of (ch_heap pool)) us"
    by (rule xinvD)
  note w = cp_invD(1) [OF iv(1)]
  obtain lst pool1 la where 1: "cp_getTimeoutList now pool = Some (lst, pool1)"
    "dseg (ch_heap pool1) None lst ts None la" "c_relinked (set ws) (ch_heap pool) (ch_heap pool1)"
    using cp_getTimeoutList_rep [OF w, of now] unfolding ts_def by (auto elim!: succeedsE)
  obtain pool2 where 2: "appendFreeList lst pool1 = Some (True, pool2)" "cp_inv pool2 (us - set ts) ?ks (fs @ ts)"
    using timeout_inv [OF iv(1), of now] 1(1) unfolding ts_def by (auto elim!: succeedsE)
  have l1: "links_only (ch_heap pool) (ch_heap pool1)"
    using 1(3) by (rule c_relinked_mono) simp
  have l2: "links_only (ch_heap pool1) (ch_heap pool2)"
    using 2(1) by (auto simp: appendFreeList_def bind_eq_Some_conv split: option.splits if_splits dest!: c_set_links intro: links_only_trans)
  note l = links_only_trans [OF l1 l2]
  note eqs = c_relinked_fields [OF l] owner_links [OF l] carries_links [OF l]
  have "us - set ts - set ?ks = us - set ws"
    by (auto simp: ts_def)
  then have "xinv d pool2 h P (us - set ts) ?ks"
    unfolding xinv_def eqs using 2(2) iv(2-4) ids_ok_diff [OF iv(5)] by auto
  moreover have "distinct ts" "set ts \<subseteq> us"
    using w cp_invD(4) [OF iv(1)] by (auto simp: ts_def wait_rep_def)
  ultimately show thesis
    using 1(1,2) 2(1) l1 l that by blast
qed

text \<open>A packet gets a channel.\<close>

definition fresh_id :: "'a connection \<Rightarrow> nat list \<Rightarrow> bool" where
  "fresh_id c xs \<longleftrightarrow>
     (case createChannelId (if existPacketHeader c then 0 else HTTP_CHANNEL_ID) (globalChannelId (channelPool c)) of
        None \<Rightarrow> False
      | Some (i, g) \<Rightarrow> let j = ucast (ucast i :: 32 word) in
          findChannel j (channelPool c) = None \<and> (\<forall>p\<in>set xs. pk_getChannelId (the (packets c p)) \<noteq> j))"

lemma post_carried:
  assumes inv: "xinv d (channelPool c) (packets c) P us ws" and c: "\<not> isServer c" "fresh_id c xs" "set xs = P"
    and p: "p \<notin> P" "packets c p = Some n" "0 < pexpire n" "pexpire n < TIME_MAX"
  shows "succeeds (post_channel p hnd args c) (\<lambda>c'. \<exists>a n'. a \<notin> us \<and> c' = c\<lparr>channelPool := channelPool c', packets := (packets c)(p \<mapsto> n')\<rparr> \<and>
    xinv d (channelPool c') (packets c') (insert p P) (insert a us) ws \<and> pexpire n' = pexpire n \<and>
    (\<forall>x\<in>us. owner d (ch_heap (channelPool c')) x = owner d (ch_heap (channelPool c)) x) \<and>
    owner d (ch_heap (channelPool c')) a = map_option (\<lambda>k. (k, args)) (if hnd = None then d else hnd))"
proof -
  let ?pool = "channelPool c" and ?h = "packets c" and ?chid = "if existPacketHeader c then 0 else HTTP_CHANNEL_ID"
  from inv obtain fs where iv: "cp_inv ?pool us ws fs" "bij_betw (cof ?h) P (us - set ws)" "\<forall>p\<in>P. carries (ch_heap ?pool) ?h p"
    "\<forall>a\<in>set ws. owner d (ch_heap ?pool) a \<noteq> None \<and> cexpire_of (ch_heap ?pool) a < TIME_MAX" "ids_ok (cid_of (ch_heap ?pool)) us"
    by (rule xinvD)
  obtain a pool fs' i g where al: "allocChannel channel0 ?chid ?pool = Some (a, pool)" "a \<notin> us" "cp_inv pool (insert a us) ws fs'"
    "createChannelId ?chid (globalChannelId ?pool) = Some (i, g)" "cid_of (ch_heap pool) a = i" "cexpire_of (ch_heap pool) a = 0"
    using allocChannel_inv [OF iv(1), of channel0 ?chid] by (auto elim!: succeedsE)
  obtain chan where chan: "ch_heap pool a = Some chan"
    using cp_invD(6) [OF al(3)] by blast
  have same: "ch_heap pool x = ch_heap ?pool x" if "x \<in> us" for x
    using allocChannel_same [OF iv(1) al(1) that] .
  define j where "j = (ucast (ucast i :: 32 word) :: 64 word)"
  define n' where "n' = pk_setChannelId i (n\<lparr>pchannel := Some a\<rparr>)"
  have n': "pchannel n' = Some a" "pexpire n' = pexpire n" "pk_getChannelId n' = j"
    by (simp_all add: n'_def pk_setChannelId_def pk_getChannelId_def j_def)
  define chan' where "chan' = chan\<lparr>chandler := hnd, cargs := args, cid := j\<rparr>"
  have "a \<notin> set ws"
    using al(2) cp_invD(4) [OF iv(1)] by blast
  moreover have "cexpire chan' = 0"
    using al(6) chan by (simp add: chan'_def cexpire_of_def)
  ultimately have inv': "cp_inv (pool\<lparr>ch_heap := (ch_heap pool)(a \<mapsto> chan')\<rparr>) (insert a us) ws fs'"
    using cp_inv_update [OF al(3), of a chan'] by simp
  have fresh: "findChannel j ?pool = None" "\<forall>p\<in>P. pk_getChannelId (the (?h p)) \<noteq> j"
    using c(2) al(4) by (auto simp: fresh_id_def Let_def j_def c(3))
  let ?hc = "(ch_heap pool)(a \<mapsto> chan')" and ?h' = "?h(p \<mapsto> n')"
  have post: "post_channel p hnd args c = Some (c\<lparr>channelPool := pool\<lparr>ch_heap := ?hc\<rparr>, packets := ?h'\<rparr>)"
    using p(2) c(1) al(1,5) chan n'(3)
    by (simp add: post_channel_def pk_setChannel_def n'_def chan'_def Let_def cid_of_def)
  have eqs: "owner d ?hc x = owner d (ch_heap ?pool) x" "cid_of ?hc x = cid_of (ch_heap ?pool) x"
    "cexpire_of ?hc x = cexpire_of (ch_heap ?pool) x" if "x \<in> us" for x
    using same [OF that] that al(2) by (auto simp: owner_def cid_of_def cexpire_of_def)
  have ow: "owner d ?hc a = map_option (\<lambda>k. (k, args)) (if hnd = None then d else hnd)" "cid_of ?hc a = j"
    by (simp_all add: owner_def chan'_def cid_of_def)
  have cofs: "cof ?h' p = a" "\<And>q. q \<in> P \<Longrightarrow> cof ?h' q = cof ?h q"
    using p(1) by (auto simp: cof_def n'(1))
  have "bij_betw (cof ?h') P (us - set ws)"
    using iv(2) cofs(2) bij_betw_cong by blast
  then have "bij_betw (cof ?h') (insert p P) (insert a (us - set ws))"
    using p(1) al(2) cofs(1) notIn_Un_bij_betw [of p P "cof ?h'" "us - set ws"] by simp
  moreover have "insert a us - set ws = insert a (us - set ws)"
    using \<open>a \<notin> set ws\<close> by blast
  moreover have "carries ?hc ?h' q" if "q \<in> insert p P" for q
  proof (cases "q = p")
    case True
    then show ?thesis
      using n' p(3,4) ow(2) by (simp add: carries_def cofs(1))
  next
    case False
    with that have q: "q \<in> P" "cof ?h q \<in> us"
      using iv(2) by (auto simp: bij_betw_def)
    then show ?thesis
      using iv(3) False eqs(2) [OF q(2)] cofs(2) [OF q(1)] by (auto simp: carries_def)
  qed
  moreover have "owner d ?hc x \<noteq> None \<and> cexpire_of ?hc x < TIME_MAX" if "x \<in> set ws" for x
    using iv(4) that eqs(1,3) [of x] cp_invD(4) [OF iv(1)] by auto
  moreover have ids: "cid_of (ch_heap ?pool) x \<noteq> j" if x: "x \<in> us" for x
  proof (cases "x \<in> set ws")
    case True
    then have "waitReplyMap ?pool (cid_of (ch_heap ?pool) x) = Some x"
      using cp_invD(1) [OF iv(1)] by (simp add: wait_rep_def)
    then show ?thesis
      using fresh(1) by (auto simp: findChannel_def)
  next
    case False
    then obtain q where "q \<in> P" "x = cof ?h q"
      using iv(2) x by (auto simp: bij_betw_def)
    then show ?thesis
      using bspec [OF iv(3), of q] bspec [OF fresh(2), of q] by (auto simp: carries_def)
  qed
  then have "cid_of ?hc a \<notin> cid_of ?hc ` us"
    unfolding ow(2) using eqs(2) by (metis imageE)
  then have "ids_ok (cid_of ?hc) (insert a us)"
    using inj_on_cong [of us "cid_of ?hc" "cid_of (ch_heap ?pool)"] iv(5) eqs(2) by (auto simp: ids_ok_def inj_on_insert ow(2) j_def ucast_up_down)
  ultimately have "xinv d (pool\<lparr>ch_heap := ?hc\<rparr>) ?h' (insert p P) (insert a us) ws"
    using inv' unfolding xinv_def by auto
  then show ?thesis
    unfolding post succeeds_simps
    by (intro exI [of _ a] exI [of _ n'] conjI) (use al(2) n'(2) ow(1) eqs(1) in simp_all)
qed

subsection \<open>Timeouts\<close>

definition same_conf :: "'a connection \<Rightarrow> 'a connection \<Rightarrow> bool" where
  "same_conf c c' \<longleftrightarrow> isServer c' = isServer c \<and> existPacketHeader c' = existPacketHeader c \<and> defaultPacketHandler c' = defaultPacketHandler c \<and>
     queueTimeout c' = queueTimeout c \<and> queueLimit c' = queueLimit c"

definition same_queues :: "'a connection \<Rightarrow> 'a connection \<Rightarrow> bool" where
  "same_queues c c' \<longleftrightarrow> same_conf c c' \<and> closed c' = closed c \<and> outputQueue c' = outputQueue c \<and> myQueue c' = myQueue c"

definition account :: "ptr \<Rightarrow> 'a connection \<Rightarrow> nat set \<Rightarrow> (nat \<times> ptr) multiset" where
  "account d c us = answered c + outstanding d (ch_heap (channelPool c)) us"

lemmas same_defs' = same_queues_def same_conf_def

lemma same_queues_trans: "same_queues c c' \<Longrightarrow> same_queues c' c'' \<Longrightarrow> same_queues c c''"
  by (simp add: same_defs')

lemma answered_frame [simp]:
  "answered (c\<lparr>packetTimeout := t\<rparr>) = answered c" "answered (c\<lparr>packets := h\<rparr>) = answered c"
  "answered (c\<lparr>channelPool := pool\<rparr>) = answered c" "answered (updateQueueStatus space n b c) = answered c"
  "answered (wakeUpSender c) = answered c"
  by (simp_all add: answered_def updateQueueStatus_def wakeUpSender_def)

text \<open>The callback of a channel, as both loops make it.\<close>

lemma answered_owner:
  fixes h :: "channel heap"
  shows "h a = Some chan \<Longrightarrow> answered (case (if chandler chan = None then d else chandler chan) of
      None \<Rightarrow> c | Some k \<Rightarrow> call_back (To_Handler k (cargs chan) e) c) = answered c + mset_of (owner d h a)"
  by (auto simp: owner_def split: option.splits)

lemma timeout_channels_seg:
  "dseg (ch_heap (channelPool c)) pr p ts None la \<Longrightarrow>
   succeeds (timeout_channels cmd p c) (\<lambda>c'. same_queues c c' \<and> channelPool c' = channelPool c \<and> packets c' = packets c \<and>
     answered c' = answered c + (\<Sum>a\<leftarrow>ts. mset_of (owner (defaultPacketHandler c) (ch_heap (channelPool c)) a)))"
proof (induction ts arbitrary: pr p c)
  case Nil
  then show ?case
    by (simp add: timeout_channels.simps same_defs')
next
  case (Cons a ts)
  then obtain chan where chan: "p = Some a" "ch_heap (channelPool c) a = Some chan" "dseg (ch_heap (channelPool c)) (Some a) (cnext chan) ts None la"
    by auto
  define c1 where "c1 = (case (if chandler chan = None then defaultPacketHandler c else chandler chan) of
      None \<Rightarrow> c | Some k \<Rightarrow> call_back (To_Handler k (cargs chan) (Control_Event cmd)) c)"
  define c2 where "c2 = c1\<lparr>packetTimeout := packetTimeout c1 + 1\<rparr>"
  have 1: "same_queues c c1" "channelPool c1 = channelPool c" "packets c1 = packets c"
    by (simp_all add: c1_def call_back_def same_defs' split: option.splits)
  have "answered c1 = answered c + mset_of (owner (defaultPacketHandler c) (ch_heap (channelPool c)) a)"
    unfolding c1_def by (rule answered_owner) (rule chan(2))
  with 1 have 2: "same_queues c c2" "channelPool c2 = channelPool c" "packets c2 = packets c"
    "answered c2 = answered c + mset_of (owner (defaultPacketHandler c) (ch_heap (channelPool c)) a)"
    by (simp_all add: c2_def same_defs')
  have d: "defaultPacketHandler c2 = defaultPacketHandler c"
    using 2(1) by (simp add: same_defs')
  have eq: "timeout_channels cmd p c = timeout_channels cmd (cnext chan) c2"
    by (subst timeout_channels.simps) (simp add: chan(1,2) c2_def c1_def Let_def)
  have "dseg (ch_heap (channelPool c2)) (Some a) (cnext chan) ts None la"
    unfolding 2(2) by (rule chan(3))
  from Cons.IH [OF this] show ?case
    unfolding eq by (rule succeeds_mono) (auto simp: 2 d add.assoc intro: same_queues_trans [OF 2(1)])
qed

text \<open>One packet that has timed out.\<close>

lemma timeout_packet_ok:
  fixes c :: "'a connection"
  assumes inv: "xinv (defaultPacketHandler c) (channelPool c) (packets c) P us ws" and c: "\<not> isServer c" and p: "p \<in> P" "packets c p = Some n"
  defines "a \<equiv> cof (packets c) p"
  shows "succeeds (timeout_packet space cmd p n c) (\<lambda>c'. same_queues c c' \<and> packets c' = (packets c)(p := None) \<and>
    xinv (defaultPacketHandler c) (channelPool c') (packets c') (P - {p}) (us - {a}) ws \<and>
    account (defaultPacketHandler c) c' (us - {a}) = account (defaultPacketHandler c) c us)"
proof -
  let ?d = "defaultPacketHandler c" and ?pool = "channelPool c"
  from inv obtain fs where iv: "cp_inv ?pool us ws fs" "\<forall>p\<in>P. carries (ch_heap ?pool) (packets c) p"
    by (rule xinvD)
  have ch: "pchannel n = Some a" and "a \<in> us"
    using iv(2) p free_carried(2) [OF inv p(1)] by (auto simp: carries_def a_def cof_def)
  then obtain chan where chan: "ch_heap ?pool a = Some chan"
    using cp_invD(6) [OF iv(1)] by blast
  obtain r pool where 1: "freeChannel (Some a) ?pool = Some (r, pool)" "links_only (ch_heap ?pool) (ch_heap pool)"
    "xinv ?d pool ((packets c)(p := None)) (P - {p}) (us - {a}) ws"
    using free_carried(1) [OF inv p(1)] unfolding a_def by (auto elim!: succeedsE)
  let ?u = "updateQueueStatus space n False c"
  define c1 where "c1 = (case (if chandler chan = None then ?d else chandler chan) of
      None \<Rightarrow> ?u\<lparr>channelPool := pool\<rparr> | Some k \<Rightarrow> call_back (To_Handler k (cargs chan) (Control_Event cmd)) (?u\<lparr>channelPool := pool\<rparr>))"
  have c1: "same_queues c c1" "channelPool c1 = pool" "packets c1 = packets c"
    by (simp_all add: c1_def call_back_def same_defs' updateQueueStatus_def split: option.splits)
  have ans: "answered c1 = answered c + mset_of (owner ?d (ch_heap ?pool) a)"
    unfolding c1_def answered_owner [of "ch_heap ?pool", OF chan] by simp
  have eq: "timeout_packet space cmd p n c = Some (c1\<lparr>packetTimeout := packetTimeout c1 + 1, packets := (packets c1)(p := None)\<rparr>)"
    using c ch chan 1(1) by (simp add: timeout_packet_def Let_def c1_def updateQueueStatus_def split: option.split)
  have "account ?d (c1\<lparr>packetTimeout := packetTimeout c1 + 1, packets := (packets c1)(p := None)\<rparr>) (us - {a}) = account ?d c us"
    using ans c1(2) outstanding_remove [OF cp_invD(5) [OF iv(1)] \<open>a \<in> us\<close>, of ?d "ch_heap ?pool"]
    by (simp add: account_def outstanding_links [OF 1(2)] add.assoc)
  then show ?thesis
    unfolding eq using c1 1(3) by (simp add: same_defs')
qed

lemma relinked_node:
  fixes n :: "'a pnode_scheme"
  assumes "relinked S h h'" "h a = Some n"
  obtains x where "h' a = Some (n\<lparr>pnext := x\<rparr>)"
proof -
  have "map_option (pnext_update (\<lambda>_. None)) (h' a) = Some (n\<lparr>pnext := None\<rparr>)"
    using assms by (simp add: relinked_def)
  then obtain n' where n': "h' a = Some n'" "n'\<lparr>pnext := None\<rparr> = n\<lparr>pnext := None\<rparr>"
    by auto
  have "n' = n\<lparr>pnext := pnext n'\<rparr>"
    using n'(2) by (cases n; cases n') simp
  then show thesis
    using that [of "pnext n'"] n'(1) by simp
qed

lemma xinv_relinked:
  fixes h :: "'a packet_scheme heap"
  assumes rel: "relinked S h h'" and inv: "xinv d pool h P us ws"
  shows "xinv d pool h' P us ws"
proof -
  from inv obtain fs where iv: "cp_inv pool us ws fs" "bij_betw (cof h) P (us - set ws)" "\<forall>p\<in>P. carries (ch_heap pool) h p"
    "\<forall>a\<in>set ws. owner d (ch_heap pool) a \<noteq> None \<and> cexpire_of (ch_heap pool) a < TIME_MAX" "ids_ok (cid_of (ch_heap pool)) us"
    by (rule xinvD)
  have eq: "cof h' p = cof h p" "carries (ch_heap pool) h' p" if p: "p \<in> P" for p
  proof -
    obtain n where n: "h p = Some n"
      using iv(3) p by (auto simp: carries_def)
    obtain x where x: "h' p = Some (n\<lparr>pnext := x\<rparr>)"
      using relinked_node [OF rel n] by blast
    show "cof h' p = cof h p" "carries (ch_heap pool) h' p"
      using bspec [OF iv(3) p] n x by (auto simp: cof_def carries_def pk_getChannelId_def)
  qed
  then show ?thesis
    using iv bij_betw_cong [of P "cof h'" "cof h"] by (auto simp: xinv_def)
qed

lemma xinv_agree:
  assumes "\<forall>p\<in>P. h' p = h p" and inv: "xinv d pool h P us ws"
  shows "xinv d pool h' P us ws"
proof -
  have "cof h' p = cof h p" "carries hc h' p = carries hc h p" if "p \<in> P" for p hc
    using assms(1) that by (simp_all add: cof_def carries_def)
  then show ?thesis
    using inv bij_betw_cong [of P "cof h'" "cof h"] by (auto simp: xinv_def)
qed

lemma pseg_agree: "(\<forall>a\<in>set xs. h' a = h a) \<Longrightarrow> pseg h p xs e \<Longrightarrow> pseg h' p xs e"
  by (induction xs arbitrary: p) auto

lemma timeout_packets_ok:
  fixes c :: "'a connection"
  assumes "pseg (packets c) p as None" "distinct as" "set as \<subseteq> P" "\<not> isServer c"
    "xinv (defaultPacketHandler c) (channelPool c) (packets c) P us ws"
  shows "succeeds (timeout_packets space cmd p c) (\<lambda>c'. same_queues c c' \<and> (\<forall>q. q \<notin> set as \<longrightarrow> packets c' q = packets c q) \<and>
    (\<exists>us'\<subseteq>us. xinv (defaultPacketHandler c) (channelPool c') (packets c') (P - set as) us' ws \<and>
    account (defaultPacketHandler c) c' us' = account (defaultPacketHandler c) c us))"
  using assms
proof (induction as arbitrary: p c P us)
  case Nil
  then show ?case
    by (auto simp: timeout_packets.simps same_defs')
next
  case (Cons a as)
  then obtain n where n: "p = Some a" "packets c a = Some n" "pseg (packets c) (pnext n) as None" "a \<in> P" "a \<notin> set as"
    by auto
  obtain c1 where 1: "timeout_packet space cmd a n c = Some c1" "same_queues c c1" "packets c1 = (packets c)(a := None)"
    "xinv (defaultPacketHandler c) (channelPool c1) (packets c1) (P - {a}) (us - {cof (packets c) a}) ws"
    "account (defaultPacketHandler c) c1 (us - {cof (packets c) a}) = account (defaultPacketHandler c) c us"
    using timeout_packet_ok [OF Cons.prems(5,4) n(4,2), of space cmd] by (auto elim!: succeedsE)
  have d: "defaultPacketHandler c1 = defaultPacketHandler c" "\<not> isServer c1"
    using 1(2) Cons.prems(4) by (simp_all add: same_defs')
  have "pseg (packets c1) (pnext n) as None"
    unfolding 1(3) using n(3,5) by (intro pseg_agree [OF _ n(3)]) auto
  moreover have "distinct as" "set as \<subseteq> P - {a}"
    using Cons.prems(2,3) n(5) by auto
  ultimately have ih: "succeeds (timeout_packets space cmd (pnext n) c1) (\<lambda>c'. same_queues c1 c' \<and>
    (\<forall>q. q \<notin> set as \<longrightarrow> packets c' q = packets c1 q) \<and>
    (\<exists>us'\<subseteq>us - {cof (packets c) a}. xinv (defaultPacketHandler c) (channelPool c') (packets c') (P - {a} - set as) us' ws \<and>
    account (defaultPacketHandler c) c' us' = account (defaultPacketHandler c) c us))"
    using Cons.IH [of c1 "pnext n" "P - {a}" "us - {cof (packets c) a}"] d 1(4,5) by simp
  have eq: "timeout_packets space cmd p c = timeout_packets space cmd (pnext n) c1"
    by (subst timeout_packets.simps) (simp add: n(1,2) 1(1))
  have P: "P - set (a # as) = P - {a} - set as"
    by auto
  show ?case
    unfolding eq P using ih
    by (rule succeeds_mono) (use 1(3) same_queues_trans [OF 1(2)] in auto)
qed

end
