(* ===== verification/Requests.thy ===== *)
theory Requests
  imports Exchanges
begin

text \<open>
  The life of the requests of a client connection: every step of \<open>Connections\<close> keeps the
  invariant and the account of requests, from the construction of the connection on.
\<close>

subsection \<open>The invariant of a client connection\<close>

text \<open>\<open>xs\<close> is in the output queue, \<open>ys\<close> in the queue of the writing thread.\<close>

text \<open>A bound kept on the queue limit, if there is one: the limit is then not 0, and small
  enough for the \<open>int\<close> that counts the channels in use.\<close>

definition limit_within :: "nat option \<Rightarrow> 64 word \<Rightarrow> bool" where
  "limit_within B limit \<longleftrightarrow> (\<forall>m. B = Some m \<longrightarrow> m < 2 ^ 31 \<and> limit \<noteq> 0 \<and> unat limit \<le> m)"

definition cn_inv :: "nat option \<Rightarrow> ptr \<Rightarrow> 'a connection \<Rightarrow> nat list \<Rightarrow> nat list \<Rightarrow> nat set \<Rightarrow> nat list \<Rightarrow> bool" where
  "cn_inv B d c xs ys us ws \<longleftrightarrow>
     \<not> isServer c \<and> defaultPacketHandler c = d \<and> (limit_within B (queueLimit c) \<and> (\<forall>m. B = Some m \<longrightarrow> card us \<le> m)) \<and>
     pq_rep (packets c) (outputQueue c) xs \<and> opq_sorted (expire_of (packets c)) xs \<and>
     pq_rep (packets c) (myQueue c) ys \<and> opq_sorted (expire_of (packets c)) ys \<and> set xs \<inter> set ys = {} \<and>
     xinv d (channelPool c) (packets c) (set xs \<union> set ys) us ws"

lemma cn_invD:
  assumes "cn_inv B d c xs ys us ws"
  shows "\<not> isServer c" "defaultPacketHandler c = d" "limit_within B (queueLimit c) \<and> (\<forall>m. B = Some m \<longrightarrow> card us \<le> m)"
    "pq_rep (packets c) (outputQueue c) xs" "opq_sorted (expire_of (packets c)) xs"
    "pq_rep (packets c) (myQueue c) ys" "opq_sorted (expire_of (packets c)) ys" "set xs \<inter> set ys = {}"
    "xinv d (channelPool c) (packets c) (set xs \<union> set ys) us ws"
  using assms unfolding cn_inv_def by blast+

lemma xinv_finite: "xinv d pool h P us ws \<Longrightarrow> finite us"
  by (auto simp: xinv_def cp_inv_def)

lemma cn_limit_mono:
  "limit_within B l \<and> (\<forall>m. B = Some m \<longrightarrow> card us \<le> m) \<Longrightarrow> finite us \<Longrightarrow> us' \<subseteq> us \<Longrightarrow>
    limit_within B l \<and> (\<forall>m. B = Some m \<longrightarrow> card us' \<le> m)"
  using card_mono [of us us'] by (auto intro: order_trans)

text \<open>A connection as a client sets it up: the constructor and its setters. The default
  handler is not changed later.\<close>

definition cn_start :: "bool \<Rightarrow> bool \<Rightarrow> 64 word \<Rightarrow> int \<Rightarrow> int \<Rightarrow> 'a packet_scheme heap \<Rightarrow> 64 word \<Rightarrow> ptr \<Rightarrow> int \<Rightarrow> 'a connection" where
  "cn_start header adapter g now bufSize h limit d t =
     setQueueTimeout t (snd (setQueueLimit limit (cn_new header adapter g now bufSize h)))\<lparr>defaultPacketHandler := d\<rparr>"

lemma cn_start_inv:
  fixes g :: "64 word" and h :: "'a packet_scheme heap"
  assumes "limit_within B (queueLimit c)" and c: "c = cn_start header adapter g now bufSize h limit d t"
  shows "cn_inv B d c [] [] {} []" and "account d c {} = {#}"
proof -
  have "channelPool c = cp_new g" "packets c = h" "outputQueue c = pq_new" "myQueue c = pq_new" "\<not> isServer c"
    "defaultPacketHandler c = d" "callbacks c = []"
    by (simp_all add: c cn_start_def setQueueLimit_def setQueueTimeout_def cn_new_def)
  then show "cn_inv B d c [] [] {} []" and "account d c {} = {#}"
    using assms(1) cp_inv_new [of g] by (auto simp: cn_inv_def xinv_def account_def answered_def bij_betw_def ids_ok_def)
qed

subsection \<open>Timeouts and closing\<close>

lemma timeout_pool_ok:
  fixes c :: "'a connection" and now :: int
  assumes inv: "xinv (defaultPacketHandler c) (channelPool c) (packets c) P us ws" and c: "\<not> isServer c"
  defines "ts \<equiv> filter (\<lambda>a. cexpire_of (ch_heap (channelPool c)) a < now) ws"
    and "ks \<equiv> filter (\<lambda>a. now \<le> cexpire_of (ch_heap (channelPool c)) a) ws"
  shows "succeeds (timeout_pool cmd now c) (\<lambda>c'. same_queues c c' \<and> packets c' = packets c \<and>
    xinv (defaultPacketHandler c) (channelPool c') (packets c) P (us - set ts) ks \<and>
    account (defaultPacketHandler c) c' (us - set ts) = account (defaultPacketHandler c) c us)"
proof -
  let ?d = "defaultPacketHandler c" and ?pool = "channelPool c"
  obtain lst pool1 la pool2 where t: "cp_getTimeoutList now ?pool = Some (lst, pool1)"
    "dseg (ch_heap pool1) None lst ts None la" "links_only (ch_heap ?pool) (ch_heap pool1)"
    "appendFreeList lst pool1 = Some (True, pool2)" "links_only (ch_heap ?pool) (ch_heap pool2)"
    "xinv ?d pool2 (packets c) P (us - set ts) ks" "distinct ts" "set ts \<subseteq> us"
    using timeout_waiting [OF inv, of now] unfolding ts_def ks_def by blast
  have acc: "(\<Sum>a\<leftarrow>ts. mset_of (owner ?d (ch_heap ?pool) a)) + outstanding ?d (ch_heap ?pool) (us - set ts) = outstanding ?d (ch_heap ?pool) us"
    by (rule outstanding_diff [OF xinv_finite [OF inv] t(7,8)])
  show ?thesis
  proof (cases lst)
    case None
    then have "ts = []" "pool2 = pool1"
      using t(2,4) by (cases ts; simp add: appendFreeList_def)+
    then show ?thesis
      using None c t(1,6) outstanding_links [OF t(3)]
      by (auto simp: timeout_pool_def Let_def same_defs' account_def answered_def)
  next
    case (Some a)
    define c1 where "c1 = (if \<not> existPacketHeader c \<and> cmd = CMD_TIMEOUT_PACKET then c\<lparr>channelPool := pool1, componentClosed := True\<rparr> else c\<lparr>channelPool := pool1\<rparr>)"
    have c1: "same_queues c c1" "channelPool c1 = pool1" "packets c1 = packets c" "answered c1 = answered c" "defaultPacketHandler c1 = ?d"
      by (auto simp: c1_def same_defs' answered_def)
    obtain c2 where c2: "timeout_channels cmd lst c1 = Some c2" "same_queues c1 c2" "channelPool c2 = pool1" "packets c2 = packets c"
      "answered c2 = answered c + (\<Sum>a\<leftarrow>ts. mset_of (owner ?d (ch_heap pool1) a))"
      using timeout_channels_seg [of c1 None lst ts la cmd] t(2) unfolding c1 by (auto elim!: succeedsE)
    have "timeout_pool cmd now c = Some (c2\<lparr>channelPool := pool2\<rparr>)"
      using Some c t(1,4) c2(1,3) by (simp add: timeout_pool_def Let_def c1_def)
    moreover have "account ?d (c2\<lparr>channelPool := pool2\<rparr>) (us - set ts) = account ?d c us"
      using acc c2(5) by (simp add: account_def outstanding_links [OF t(5)] owner_links [OF t(3)] add.assoc)
    ultimately show ?thesis
      using t(6) c2(4) same_queues_trans [OF c1(1) c2(2)] by (simp add: same_defs')
  qed
qed

text \<open>A step that takes channels and packets away.\<close>

lemma cn_inv_shrink:
  assumes inv: "cn_inv B d c xs ys us ws" and same: "same_conf c c'" and us: "us' \<subseteq> us"
    and q: "pq_rep (packets c') (outputQueue c') xs'" "opq_sorted (expire_of (packets c')) xs'"
    "pq_rep (packets c') (myQueue c') ys'" "opq_sorted (expire_of (packets c')) ys'" "set xs' \<inter> set ys' = {}"
    and x: "xinv d (channelPool c') (packets c') (set xs' \<union> set ys') us' ws'"
  shows "cn_inv B d c' xs' ys' us' ws'"
  using cn_invD(1,2) [OF inv] cn_limit_mono [OF cn_invD(3) [OF inv] xinv_finite [OF cn_invD(9) [OF inv]] us] same q x
  unfolding cn_inv_def same_conf_def by simp

lemma pq_rep_agree: "(\<forall>a\<in>set xs. h' a = h a) \<Longrightarrow> pq_rep h q xs \<Longrightarrow> pq_rep h' q xs"
  by (auto simp: pq_rep_def intro: pseg_agree)

lemma sorted_agree: "(\<forall>a\<in>set xs. h' a = h a) \<Longrightarrow> opq_sorted (expire_of h') xs = opq_sorted (expire_of h) xs"
  by (simp add: expire_of_def cong: map_cong)

lemma wakeUpSender_frame:
  "same_queues c (wakeUpSender c)" "packets (wakeUpSender c) = packets c" "channelPool (wakeUpSender c) = channelPool c"
  by (simp_all add: wakeUpSender_def same_defs')

lemma relinked_frame: "relinked S h h' \<Longrightarrow> a \<notin> S \<Longrightarrow> h' a = h a"
  by (simp add: relinked_def)

lemma checkTimeout_ok:
  fixes c :: "'a connection" and now :: int
  assumes inv: "cn_inv B d c xs ys us ws"
  shows "succeeds (cn_checkTimeout space now c) (\<lambda>c'. closed c' = closed c \<and> (\<exists>us'. account d c' us' = account d c us \<and>
    cn_inv B d c' (filter (\<lambda>a. now \<le> expire_of (packets c) a) xs) ys us' (filter (\<lambda>a. now \<le> cexpire_of (ch_heap (channelPool c)) a) ws)))"
proof -
  note iv = cn_invD [OF inv]
  define cmd where "cmd = (if now = TIME_MAX then CMD_CONNECTION_CLOSED else CMD_TIMEOUT_PACKET)"
  define as where "as = takeWhile (\<lambda>a. expire_of (packets c) a < now) xs"
  define bs where "bs = dropWhile (\<lambda>a. expire_of (packets c) a < now) xs"
  define ks where "ks = filter (\<lambda>a. now \<le> cexpire_of (ch_heap (channelPool c)) a) ws"
  have x0: "xinv (defaultPacketHandler c) (channelPool c) (packets c) (set xs \<union> set ys) us ws"
    using iv(2,9) by simp
  obtain c1 us1 where 1: "timeout_pool cmd now c = Some c1" "same_queues c c1" "packets c1 = packets c" "us1 \<subseteq> us"
    "xinv d (channelPool c1) (packets c) (set xs \<union> set ys) us1 ks" "account d c1 us1 = account d c us"
    using timeout_pool_ok [OF x0 iv(1), of cmd now] unfolding iv(2) ks_def
    by (elim succeedsE conjE) (meson Diff_subset)
  have q1: "outputQueue c1 = outputQueue c" "myQueue c1 = myQueue c" "defaultPacketHandler c1 = d" "\<not> isServer c1"
    using 1(2) iv(1,2) by (simp_all add: same_defs')
  obtain h q lst where 2: "pq_getTimeoutList now (packets c) (outputQueue c) = Some (h, q, lst)" "pq_rep h q bs" "pseg h lst as None"
    "relinked (set as) (packets c) h"
    using pq_getTimeoutList_rep [OF iv(4), of now] by (auto simp: as_def bs_def elim!: succeedsE)
  have split: "xs = as @ bs"
    by (simp add: as_def bs_def)
  moreover have "distinct (as @ bs)"
    using iv(4) unfolding split [symmetric] by (simp add: pq_rep_def)
  ultimately have ab: "xs = as @ bs" "distinct as" "set as \<subseteq> set xs \<union> set ys" "set xs \<union> set ys - set as = set bs \<union> set ys" "set as \<inter> (set bs \<union> set ys) = {}"
    using iv(8) by auto
  let ?c1 = "c1\<lparr>packets := h, outputQueue := q\<rparr>"
  have x1: "xinv (defaultPacketHandler ?c1) (channelPool ?c1) (packets ?c1) (set xs \<union> set ys) us1 ks"
    using xinv_relinked [OF 2(4) 1(5)] q1(3) by simp
  obtain c2 us2 where 3: "timeout_packets space cmd lst ?c1 = Some c2" "same_queues ?c1 c2" "\<forall>q. q \<notin> set as \<longrightarrow> packets c2 q = h q"
    "us2 \<subseteq> us1" "xinv d (channelPool c2) (packets c2) (set bs \<union> set ys) us2 ks" "account d c2 us2 = account d ?c1 us1"
    using timeout_packets_ok [OF _ ab(2,3) _ x1, of lst space cmd] 2(3) q1(3,4) by (auto simp: ab(4) elim!: succeedsE)
  have agree: "\<forall>a\<in>set bs. packets c2 a = h a" "\<forall>a\<in>set ys. packets c2 a = packets c a"
    using 3(3) ab(5) relinked_frame [OF 2(4)] by (blast, auto)
  have "opq_sorted (expire_of h) bs"
    unfolding relinked_expire [OF 2(4)] using iv(5) by (simp add: ab(1) sorted_append)
  then have reps: "pq_rep (packets c2) (outputQueue c2) bs" "opq_sorted (expire_of (packets c2)) bs" "pq_rep (packets c2) (myQueue c2) ys" "opq_sorted (expire_of (packets c2)) ys"
    using pq_rep_agree [OF agree(1) 2(2)] sorted_agree [OF agree(1)] pq_rep_agree [OF agree(2) iv(6)] sorted_agree [OF agree(2)] iv(7) 3(2) q1(2)
    by (simp_all add: same_defs')
  have conf: "same_conf c c2" "closed c2 = closed c"
    using 1(2) 3(2) by (simp_all add: same_defs')
  have acc: "account d (wakeUpSender c2) us2 = account d c us"
    using 3(6) 1(6) wakeUpSender_frame(3) [of c2] by (simp add: account_def answered_def wakeUpSender_def)
  have "cn_inv B d (wakeUpSender c2) bs ys us2 ks"
    by (rule cn_inv_shrink [OF inv]) (use 1(4) 3(4,5) reps conf ab(1) iv(8) in \<open>auto simp: wakeUpSender_def same_defs'\<close>)
  moreover have "bs = filter (\<lambda>a. now \<le> expire_of (packets c) a) xs"
    unfolding bs_def by (rule sorted_filter_split(2) [OF iv(5)])
  moreover have "cn_checkTimeout space now c = Some (wakeUpSender c2)"
    using 1(1,3) 2(1) 3(1) q1(1) by (simp add: cn_checkTimeout_def cmd_def Let_def)
  moreover have "closed (wakeUpSender c2) = closed c"
    using conf(2) by (simp add: wakeUpSender_def)
  ultimately show ?thesis
    using acc unfolding ks_def by auto
qed

lemma distinct_singleton: "distinct xs \<Longrightarrow> set xs = {x} \<Longrightarrow> xs = [x]"
  by (cases xs; cases "tl xs") auto

lemma xinv_none: "xinv d pool h {} us [] \<Longrightarrow> us = {}"
  by (auto simp: xinv_def bij_betw_def)

lemma xinv_expire:
  assumes "xinv d pool h P us ws" "p \<in> P"
  shows "expire_of h p < TIME_MAX"
proof -
  have "carries (ch_heap pool) h p"
    using assms by (simp add: xinv_def)
  then show ?thesis
    by (auto simp: carries_def expire_of_def)
qed

lemma closeHook_ok:
  assumes inv: "cn_inv B d c xs ys us ws"
  shows "succeeds (closeHook space c) (\<lambda>c'. closed c' \<and> (\<exists>us'. (ys = [] \<longrightarrow> us' = {}) \<and>
    cn_inv B d c' [] ys us' [] \<and> account d c' us' = account d c us))"
proof -
  note iv = cn_invD [OF inv]
  let ?c = "c\<lparr>closed := True\<rparr>"
  have inv': "cn_inv B d ?c xs ys us ws"
    by (rule cn_inv_shrink [OF inv]) (use iv in \<open>simp_all add: same_conf_def\<close>)
  have "expire_of (packets c) a < TIME_MAX" if "a \<in> set xs" for a
    using xinv_expire [OF iv(9)] that by simp
  then have xs: "filter (\<lambda>a. TIME_MAX \<le> expire_of (packets c) a) xs = []"
    by (auto simp: filter_empty_conv not_le)
  have ws: "filter (\<lambda>a. TIME_MAX \<le> cexpire_of (ch_heap (channelPool c)) a) ws = []"
    using iv(9) by (auto simp: xinv_def filter_empty_conv not_le)
  have eq: "closeHook space c = cn_checkTimeout space TIME_MAX ?c"
    using iv(1) by (simp add: closeHook_def Let_def)
  have acc: "account d ?c us = account d c us"
    by (simp add: account_def answered_def)
  obtain c' us' where 1: "cn_checkTimeout space TIME_MAX ?c = Some c'" "closed c'" "account d c' us' = account d c us" "cn_inv B d c' [] ys us' []"
    using checkTimeout_ok [OF inv', of space TIME_MAX] acc by (auto simp: xs ws elim!: succeedsE)
  have "ys = [] \<longrightarrow> us' = {}"
    using cn_invD(9) [OF 1(4)] by (auto dest: xinv_none)
  then show ?thesis
    unfolding eq using 1 by auto
qed

subsection \<open>Replies\<close>

lemma findChannel_inv:
  assumes "xinv d pool h P us ws"
  shows "findChannel i pool = Some a \<longleftrightarrow> a \<in> set ws \<and> cid_of (ch_heap pool) a = i"
proof -
  from assms obtain fs where "cp_inv pool us ws fs"
    by (rule xinvD)
  from cp_invD(1) [OF this] show ?thesis
    by (simp add: wait_rep_def findChannel_def)
qed

text \<open>A reply to a waiting request calls its handler, once: the channel is given back before
  the handler runs.\<close>

lemma handlePacket_found:
  assumes inv: "cn_inv B d c xs ys us ws"
    and i: "i = pk_getChannelId (if existPacketHeader c then packet else pk_setChannelId HTTP_CHANNEL_ID packet)"
    and ch: "findChannel i (channelPool c) = Some a"
  shows "succeeds (handlePacket packet c) (\<lambda>(r, c'). r \<and> cn_inv B d c' xs ys (us - {a}) (remove1 a ws) \<and> account d c' (us - {a}) = account d c us \<and>
    existPacketHeader c' = existPacketHeader c \<and> findChannel i (channelPool c') = None \<and>
    (\<exists>k args. owner d (ch_heap (channelPool c)) a = Some (k, args) \<and>
      callbacks c' = callbacks c @ [To_Handler k args (Packet_Event (if existPacketHeader c then packet else pk_setChannelId HTTP_CHANNEL_ID packet))]))"
proof -
  note iv = cn_invD [OF inv]
  have a: "a \<in> set ws"
    using ch findChannel_inv [OF iv(9)] by simp
  obtain r pool where 1: "freeChannel (Some a) (channelPool c) = Some (r, pool)" "links_only (ch_heap (channelPool c)) (ch_heap pool)"
    "xinv d pool (packets c) (set xs \<union> set ys) (us - {a}) (remove1 a ws)"
    using free_waiting(1) [OF iv(9) a] by (auto elim!: succeedsE)
  from iv(9) obtain fs where ci: "cp_inv (channelPool c) us ws fs" "\<forall>a\<in>set ws. owner d (ch_heap (channelPool c)) a \<noteq> None \<and> cexpire_of (ch_heap (channelPool c)) a < TIME_MAX"
    by (rule xinvD)
  obtain chan where chan: "ch_heap (channelPool c) a = Some chan"
    using cp_invD(4,6) [OF ci(1)] a by blast
  obtain k where k: "(if chandler chan = None then d else chandler chan) = Some k"
    using ci(2) a chan by (auto simp: owner_def)
  have own: "owner d (ch_heap (channelPool c)) a = Some (k, cargs chan)"
    using chan k by (auto simp: owner_def)
  define e where "e = (if existPacketHeader c then packet else pk_setChannelId HTTP_CHANNEL_ID packet)"
  let ?c = "call_back (To_Handler k (cargs chan) (Packet_Event e)) (c\<lparr>channelPool := pool\<rparr>)"
  have eq: "handlePacket packet c = Some (True, wakeUpSender ?c)"
    using iv(1,2) ch chan k 1(1) unfolding i by (auto simp: handlePacket_def Let_def e_def split: if_splits)
  have "cn_inv B d (wakeUpSender ?c) xs ys (us - {a}) (remove1 a ws)"
    by (rule cn_inv_shrink [OF inv]) (use iv 1(3) in \<open>auto simp: wakeUpSender_def call_back_def same_conf_def\<close>)
  moreover have "account d (wakeUpSender ?c) (us - {a}) = account d c us"
    using outstanding_remove [OF cp_invD(5) [OF ci(1)] free_waiting(2) [OF iv(9) a], of d "ch_heap (channelPool c)"] own
    by (simp add: account_def outstanding_links [OF 1(2)] wakeUpSender_frame(3)) (simp add: call_back_def outstanding_links [OF 1(2)])
  moreover have "callbacks (wakeUpSender ?c) = callbacks c @ [To_Handler k (cargs chan) (Packet_Event e)]"
    "existPacketHeader (wakeUpSender ?c) = existPacketHeader c"
    by (simp_all add: wakeUpSender_def call_back_def)
  moreover have "findChannel i pool = None"
  proof (rule ccontr)
    assume "\<not> ?thesis"
    then obtain b where "b \<in> set (remove1 a ws)" "cid_of (ch_heap pool) b = i"
      using findChannel_inv [OF 1(3), of i] by auto
    moreover have "cid_of (ch_heap pool) a = i"
      using ch findChannel_inv [OF iv(9)] c_relinked_fields [OF 1(2)] by simp
    ultimately show False
      using a cp_invD(1) [OF ci(1)] c_relinked_fields [OF 1(2)] by (auto simp: wait_rep_def inj_on_def)
  qed
  then have "findChannel i (channelPool (wakeUpSender ?c)) = None"
    by (simp add: wakeUpSender_frame(3) call_back_def)
  ultimately show ?thesis
    unfolding eq using own by (simp add: e_def)
qed

lemma handlePacket_unknown:
  assumes "\<not> isServer c" "findChannel (pk_getChannelId (if existPacketHeader c then packet else pk_setChannelId HTTP_CHANNEL_ID packet)) (channelPool c) = None"
  shows "handlePacket packet c = Some (False, c)"
  using assms by (auto simp: handlePacket_def Let_def)

lemma handlePacket_ok:
  assumes inv: "cn_inv B d c xs ys us ws"
  shows "succeeds (handlePacket packet c) (\<lambda>(r, c'). \<exists>us' ws'. cn_inv B d c' xs ys us' ws' \<and> account d c' us' = account d c us)"
proof (cases "findChannel (pk_getChannelId (if existPacketHeader c then packet else pk_setChannelId HTTP_CHANNEL_ID packet)) (channelPool c)")
  case None
  then show ?thesis
    using inv handlePacket_unknown [OF cn_invD(1) [OF inv] None] by auto
next
  case (Some a)
  from handlePacket_found [OF inv refl Some] show ?thesis
    by (rule succeeds_mono) auto
qed

subsection \<open>Posts\<close>

lemma getUseListCount_card:
  assumes inv: "xinv d (channelPool c) h P us ws" and "card us < 2 ^ 31"
  shows "unat (getUseListCount c) = card us"
proof -
  from inv obtain fs where "cp_inv (channelPool c) us ws fs"
    by (rule xinvD)
  from cp_invD(8) [OF this] have "useCount (channelPool c) = of_nat (card us)" .
  moreover have "sint (of_nat (card us) :: 32 word) = int (card us)"
    using assms(2) by (simp add: signed_of_nat signed_take_bit_int_eq_self)
  ultimately have "getUseListCount c = (of_int (int (card us)) :: 64 word)"
    by (simp add: getUseListCount_def scast_eq)
  then show ?thesis
    using assms(2) by (simp add: unsigned_of_nat take_bit_nat_eq_self)
qed

definition ticket :: "ptr \<Rightarrow> ptr \<Rightarrow> ptr \<Rightarrow> (nat \<times> ptr) option" where
  "ticket d hnd args = map_option (\<lambda>k. (k, args)) (if hnd = None then d else hnd)"

lemma pq_rep_unique: "pq_rep h q xs \<Longrightarrow> pq_rep h q' ys \<Longrightarrow> q' = q \<Longrightarrow> ys = xs"
  by (auto simp: pq_rep_def dest: pseg_unique)

lemma post_queue_ok:
  fixes c :: "'a connection"
  assumes rep: "pq_rep (packets c) (outputQueue c) xs" "opq_sorted (expire_of (packets c)) xs" and p: "p \<notin> set xs" "packets c p = Some n"
  defines "xs' \<equiv> opq_insert (expire_of (packets c)) p xs"
  shows "succeeds (post_queue space p c) (\<lambda>c'. same_conf c c' \<and> myQueue c' = myQueue c \<and> channelPool c' = channelPool c \<and>
    answered c' = answered c \<and> pq_rep (packets c') (outputQueue c') xs' \<and> relinked (insert p (set xs)) (packets c) (packets c'))"
proof -
  obtain h q where 1: "opq_push p (packets c) (outputQueue c) = Some (h, q)" "pq_rep h q xs'" "relinked (insert p (set xs)) (packets c) h"
    using opq_push_rep [OF rep p(1)] p(2) unfolding xs'_def by (auto elim!: succeedsE)
  obtain x where "h p = Some (n\<lparr>pnext := x\<rparr>)"
    using relinked_node [OF 1(3) p(2)] by blast
  then show ?thesis
    using 1 by (auto simp: post_queue_def Let_def updateQueueStatus_def same_conf_def answered_def)
qed

lemma post_accepted:
  fixes c :: "'a connection"
  assumes inv: "cn_inv B d c xs ys us ws" and fresh: "fresh_id c (xs @ ys)"
    and p: "p \<notin> set (xs @ ys)" "packets c p = Some n" "0 < pexpire n" "pexpire n < TIME_MAX"
    and room: "\<forall>m. B = Some m \<longrightarrow> card us < m"
  shows "succeeds (do { c \<leftarrow> post_channel p hnd args c; post_queue space p c }) (\<lambda>c'. \<exists>xs' us'. cn_inv B d c' xs' ys us' ws \<and>
    set xs' = insert p (set xs) \<and> account d c' us' = account d c us + mset_of (ticket d hnd args))"
proof -
  note iv = cn_invD [OF inv]
  have x: "xinv d (channelPool c) (packets c) (set (xs @ ys)) us ws"
    using iv(9) by simp
  obtain c1 a n' where 1: "post_channel p hnd args c = Some c1" "a \<notin> us" "c1 = c\<lparr>channelPool := channelPool c1, packets := (packets c)(p \<mapsto> n')\<rparr>"
    "xinv d (channelPool c1) (packets c1) (insert p (set (xs @ ys))) (insert a us) ws" "pexpire n' = pexpire n"
    "\<forall>x\<in>us. owner d (ch_heap (channelPool c1)) x = owner d (ch_heap (channelPool c)) x"
    "owner d (ch_heap (channelPool c1)) a = ticket d hnd args"
    using post_carried [OF x iv(1) fresh refl p, of hnd args] unfolding ticket_def by (elim succeedsE exE conjE) blast
  have c1: "packets c1 = (packets c)(p \<mapsto> n')" "outputQueue c1 = outputQueue c" "myQueue c1 = myQueue c" "same_conf c c1" "answered c1 = answered c"
    by (subst 1(3); simp add: same_conf_def)+
  have agree: "\<forall>a\<in>set xs. packets c1 a = packets c a" "\<forall>a\<in>set ys. packets c1 a = packets c a" and px: "p \<notin> set xs" "p \<notin> set ys"
    using p(1) by (auto simp: c1(1))
  have rep: "pq_rep (packets c1) (outputQueue c1) xs" "opq_sorted (expire_of (packets c1)) xs"
    "pq_rep (packets c1) (myQueue c1) ys" "opq_sorted (expire_of (packets c1)) ys"
    using pq_rep_agree [OF agree(1) iv(4)] sorted_agree [OF agree(1)] iv(5) pq_rep_agree [OF agree(2) iv(6)] sorted_agree [OF agree(2)] iv(7) c1(2,3)
    by simp_all
  have n': "packets c1 p = Some n'"
    by (simp add: c1(1))
  define xs' where "xs' = opq_insert (expire_of (packets c1)) p xs"
  obtain c2 where 2: "post_queue space p c1 = Some c2" "same_conf c1 c2" "myQueue c2 = myQueue c1" "channelPool c2 = channelPool c1"
    "answered c2 = answered c1" "pq_rep (packets c2) (outputQueue c2) xs'" "relinked (insert p (set xs)) (packets c1) (packets c2)"
    using post_queue_ok [OF rep(1,2) px(1) n', of space] unfolding xs'_def by (elim succeedsE conjE) blast
  have fin: "finite us"
    by (rule xinv_finite [OF x])
  have "opq_sorted (expire_of (packets c2)) xs'"
    unfolding relinked_expire [OF 2(7)] xs'_def by (rule sorted_opq_insert [OF rep(2)])
  moreover have "xinv d (channelPool c2) (packets c2) (set xs' \<union> set ys) (insert a us) ws"
    using xinv_relinked [OF 2(7) 1(4)] 2(4) by (simp add: xs'_def)
  moreover have "\<forall>m. B = Some m \<longrightarrow> card (insert a us) \<le> m"
    using room fin 1(2) by (simp add: Suc_le_eq)
  moreover have "pq_rep (packets c2) (myQueue c2) ys" "opq_sorted (expire_of (packets c2)) ys" "set xs' \<inter> set ys = {}"
    using pq_rep_relinked [OF 2(7) _ rep(3)] rep(4) px(2) iv(8) by (auto simp: relinked_expire [OF 2(7)] 2(3) xs'_def)
  ultimately have "cn_inv B d c2 xs' ys (insert a us) ws"
    using iv(1-3) 2(2,6) c1(4) unfolding cn_inv_def same_conf_def by simp
  moreover have "account d c2 (insert a us) = account d c us + mset_of (ticket d hnd args)"
    using 1(6,7) outstanding_same [of us d "ch_heap (channelPool c1)" "ch_heap (channelPool c)"]
    by (simp add: account_def outstanding_insert [OF fin 1(2)] 2(4,5) c1(5))
  moreover have "set xs' = insert p (set xs)"
    by (simp add: xs'_def)
  ultimately show ?thesis
    using 1(1) 2(1) by auto
qed

text \<open>A post is accepted, and the request is outstanding, or it changes nothing.\<close>

definition post_outcome :: "nat option \<Rightarrow> ptr \<Rightarrow> nat \<Rightarrow> (nat \<times> ptr) option \<Rightarrow> 'a connection \<Rightarrow> nat list \<Rightarrow> nat list \<Rightarrow> nat set \<Rightarrow> nat list \<Rightarrow> post_result \<Rightarrow> 'a connection \<Rightarrow> bool" where
  "post_outcome B d p t c xs ys us ws r c' \<longleftrightarrow>
     (if r = Post_True then \<exists>xs' us'. set xs' = insert p (set xs) \<and> cn_inv B d c' xs' ys us' ws \<and> account d c' us' = account d c us + mset_of t
      else cn_inv B d c' xs ys us ws \<and> account d c' us = account d c us)"

lemma post_outcome_from:
  "account d c1 us = account d c us \<Longrightarrow> post_outcome B d p t c1 xs ys us ws r c' = post_outcome B d p t c xs ys us ws r c'"
  by (simp add: post_outcome_def)

lemma post_accept_ok:
  fixes c :: "'a connection"
  assumes "cn_inv B d c xs ys us ws" "fresh_id c (xs @ ys)" "p \<notin> set (xs @ ys)" "packets c p = Some n" "0 < pexpire n" "pexpire n < TIME_MAX"
    and "\<forall>m. B = Some m \<longrightarrow> card us < m"
  shows "succeeds (post_accept space p hnd args c) (\<lambda>(r, c'). post_outcome B d p (ticket d hnd args) c xs ys us ws r c')"
  using post_accepted [OF assms, of hnd args space]
  by (auto simp: post_accept_def post_outcome_def bind_eq_Some_conv succeeds_def)

lemma below_limit:
  assumes inv: "cn_inv B d c xs ys us ws" and "getUseListCount c < queueLimit c"
  shows "\<forall>m. B = Some m \<longrightarrow> card us < m"
proof -
  have "card us < m" if m: "m < 2 ^ 31" "unat (queueLimit c) \<le> m" "card us \<le> m" for m
    using assms(2) getUseListCount_card [OF cn_invD(9) [OF inv]] m by (simp add: word_less_nat_alt)
  then show ?thesis
    using cn_invD(3) [OF inv] by (auto simp: limit_within_def)
qed

lemma post_wait_ok:
  fixes c :: "'a connection"
  assumes inv: "cn_inv B d c xs ys us ws" and fresh: "fresh_id c (xs @ ys)"
    and p: "p \<notin> set (xs @ ys)" "packets c p = Some n" "0 < pexpire n" "pexpire n < TIME_MAX"
  shows "succeeds (post_wait space p hnd args c) (\<lambda>(r, c'). post_outcome B d p (ticket d hnd args) c xs ys us ws r c')"
proof -
  note iv = cn_invD [OF inv]
  consider (waits) "getUseListCount c \<ge> queueLimit c" "\<not> closed c" | (refused) "closed c"
    | (room) "getUseListCount c < queueLimit c" "\<not> closed c"
    by fastforce
  then show ?thesis
  proof cases
    case waits
    have "cn_inv B d (c\<lparr>waitingThreads := waitingThreads c + 1\<rparr>) xs ys us ws"
      by (rule cn_inv_shrink [OF inv]) (use iv in \<open>simp_all add: same_conf_def\<close>)
    then show ?thesis
      using waits by (simp add: post_wait_def post_outcome_def account_def answered_def)
  next
    case refused
    then show ?thesis
      using inv by (simp add: post_wait_def post_outcome_def)
  next
    case room
    then have "post_wait space p hnd args c = post_accept space p hnd args c"
      by (auto simp: post_wait_def dest: leD)
    then show ?thesis
      using post_accept_ok [OF inv fresh p below_limit [OF inv room(1)], of space hnd args] by simp
  qed
qed

lemma post_enter_ok:
  fixes c :: "'a connection"
  assumes inv: "cn_inv B d c xs ys us ws" and "fresh_id c (xs @ ys)"
    and "p \<notin> set (xs @ ys)" "packets c p = Some n" "0 < pexpire n" "pexpire n < TIME_MAX"
  shows "succeeds (post_enter space p hnd args c) (\<lambda>(r, c'). post_outcome B d p (ticket d hnd args) c xs ys us ws r c')"
proof (cases "queueLimit c = 0")
  case True
  then have "\<forall>m. B = Some m \<longrightarrow> card us < m"
    using cn_invD(3) [OF inv] by (auto simp: limit_within_def)
  from post_accept_ok [OF assms this, of space hnd args] True show ?thesis
    by (simp add: post_enter_def)
next
  case False
  with post_wait_ok [OF assms, of space hnd args] cn_invD(1) [OF inv] show ?thesis
    by (simp add: post_enter_def word_gt_0)
qed

lemma post_wait_room: "post_wait space p hnd args c = Some (Post_True, c') \<Longrightarrow> getUseListCount c < queueLimit c"
  by (auto simp: post_wait_def not_le split: if_splits)

lemma post_enter_room:
  "post_enter space p hnd args c = Some (Post_True, c') \<Longrightarrow> \<not> isServer c \<Longrightarrow> queueLimit c \<noteq> 0 \<Longrightarrow> getUseListCount c < queueLimit c"
  using post_wait_room [of space p hnd args c c'] by (auto simp: post_enter_def word_gt_0 split: if_splits)

lemma postPacket_room:
  assumes "postPacket space now p hnd args block c = Some (Post_True, c')" "\<not> isServer c" "queueLimit c \<noteq> 0"
  shows "getUseListCount c < queueLimit c"
proof -
  obtain a n n' where a: "p = Some a" "packets c a = Some n" "(if pexpire n = 0 then pk_setExpireTime now (queueTimeout c) n else Some n) = Some n'"
    using assms(1) by (auto simp: postPacket_def bind_eq_Some_conv split: option.splits)
  define c2 where "c2 = (if pq_size (outputQueue c) = 0 then c\<lparr>packets := (packets c)(a \<mapsto> n'), lasttime := now\<rparr> else c\<lparr>packets := (packets c)(a \<mapsto> n')\<rparr>)"
  have "post_enter space a hnd args c2 = Some (Post_True, c')"
    using assms(1,2) a by (auto simp: postPacket_def c2_def Let_def split: if_splits)
  then have "getUseListCount c2 < queueLimit c2"
    by (rule post_enter_room) (use assms(2,3) in \<open>simp_all add: c2_def\<close>)
  then show ?thesis
    by (simp add: c2_def getUseListCount_def split: if_splits)
qed

lemma fresh_id_frame:
  assumes "channelPool c' = channelPool c" "existPacketHeader c' = existPacketHeader c" "\<forall>p\<in>set xs. packets c' p = packets c p" "fresh_id c xs"
  shows "fresh_id c' xs"
  using assms by (auto simp: fresh_id_def Let_def split: option.splits)

lemma cn_inv_packets:
  assumes inv: "cn_inv B d c xs ys us ws" and agree: "\<forall>a\<in>set (xs @ ys). h' a = packets c a"
  shows "cn_inv B d (c\<lparr>packets := h'\<rparr>) xs ys us ws"
  by (rule cn_inv_shrink [OF inv])
    (use cn_invD [OF inv] agree pq_rep_agree [of xs h' "packets c"] pq_rep_agree [of ys h' "packets c"] sorted_agree [of xs h' "packets c"]
      sorted_agree [of ys h' "packets c"] xinv_agree [of "set (xs @ ys)" h' "packets c"] in \<open>simp_all add: same_conf_def\<close>)

lemma post_woken_ok:
  fixes c :: "'a connection"
  assumes inv: "cn_inv B d c xs ys us ws" and fresh: "fresh_id c (xs @ ys)"
    and p: "p \<notin> set (xs @ ys)" "packets c p = Some n" "0 < pexpire n" "pexpire n < TIME_MAX"
  shows "succeeds (post_woken space p hnd args c) (\<lambda>(r, c'). post_outcome B d p (ticket d hnd args) c xs ys us ws r c')"
proof -
  let ?c = "c\<lparr>waitingThreads := waitingThreads c - 1\<rparr>"
  have "cn_inv B d ?c xs ys us ws"
    by (rule cn_inv_shrink [OF inv]) (use cn_invD [OF inv] in \<open>simp_all add: same_conf_def\<close>)
  moreover have "fresh_id ?c (xs @ ys)" "account d ?c us = account d c us"
    by (rule fresh_id_frame [OF _ _ _ fresh]) (simp_all add: account_def answered_def)
  ultimately show ?thesis
    using post_wait_ok [of B d ?c xs ys us ws p n space hnd args] p post_outcome_from [of d ?c us c] by (simp add: post_woken_def)
qed

text \<open>What a caller of \<open>postPacket\<close> has to grant: the packet is its own, the id it will get
  is not in use, and the packet has an expire time or gets one from a timeout that is not 0, with the
  clock far from the end of time.\<close>

definition post_ok :: "int \<Rightarrow> nat \<Rightarrow> 'a connection \<Rightarrow> bool" where
  "post_ok now p c \<longleftrightarrow> (\<exists>n xs ys. packets c p = Some n \<and> 0 \<le> pexpire n \<and> pexpire n < TIME_MAX \<and>
     (pexpire n = 0 \<longrightarrow> queueTimeout c \<noteq> 0 \<and> 0 \<le> now \<and> now + queueTimeout c * 1000 < TIME_MAX) \<and>
     pq_rep (packets c) (outputQueue c) xs \<and> pq_rep (packets c) (myQueue c) ys \<and> p \<notin> set (xs @ ys) \<and> fresh_id c (xs @ ys))"

lemma post_okD:
  assumes "cn_inv B d c xs ys us ws" "post_ok now p c"
  obtains n where "packets c p = Some n" "0 \<le> pexpire n" "pexpire n < TIME_MAX"
    "pexpire n = 0 \<longrightarrow> queueTimeout c \<noteq> 0 \<and> 0 \<le> now \<and> now + queueTimeout c * 1000 < TIME_MAX"
    "p \<notin> set (xs @ ys)" "fresh_id c (xs @ ys)"
  using assms(2) pq_rep_unique [OF cn_invD(4) [OF assms(1)]] pq_rep_unique [OF cn_invD(6) [OF assms(1)]] unfolding post_ok_def by blast

lemma pk_setExpireTime_ok:
  fixes n :: "'a packet_scheme"
  assumes "t \<noteq> 0" "0 \<le> now" "now + t * 1000 < TIME_MAX"
  shows "succeeds (pk_setExpireTime now t n) (\<lambda>n'. 0 < pexpire n' \<and> pexpire n' < TIME_MAX)"
  using assms by (auto simp: pk_setExpireTime_def PRE_MAX_def TIME_MAX_def Let_def)

lemma postPacket_ok:
  fixes c :: "'a connection"
  assumes inv: "cn_inv B d c xs ys us ws" and ok: "post_ok now p c"
  shows "succeeds (postPacket space now (Some p) hnd args block c) (\<lambda>(r, c'). post_outcome B d p (ticket d hnd args) c xs ys us ws r c')"
proof -
  note iv = cn_invD [OF inv]
  obtain n where n: "packets c p = Some n" "0 \<le> pexpire n" "pexpire n < TIME_MAX"
    "pexpire n = 0 \<longrightarrow> queueTimeout c \<noteq> 0 \<and> 0 \<le> now \<and> now + queueTimeout c * 1000 < TIME_MAX"
    "p \<notin> set (xs @ ys)" "fresh_id c (xs @ ys)"
    by (rule post_okD [OF inv ok])
  define e where "e = (if pexpire n = 0 then pk_setExpireTime now (queueTimeout c) n else Some n)"
  obtain n' where n': "e = Some n'" "0 < pexpire n'" "pexpire n' < TIME_MAX"
    using pk_setExpireTime_ok [of "queueTimeout c" now n] n(2-4) by (cases "pexpire n = 0") (auto simp: e_def elim!: succeedsE)
  let ?c = "c\<lparr>packets := (packets c)(p \<mapsto> n')\<rparr>"
  have inv1: "cn_inv B d ?c xs ys us ws"
    by (rule cn_inv_packets [OF inv]) (use n(5) in auto)
  define c2 where "c2 = (if \<not> isServer ?c \<and> pq_size (outputQueue ?c) = 0 then ?c\<lparr>lasttime := now\<rparr> else ?c)"
  have c2: "packets c2 = packets ?c" "channelPool c2 = channelPool c" "existPacketHeader c2 = existPacketHeader c" "answered c2 = answered c"
    "outputQueue c2 = outputQueue c" "myQueue c2 = myQueue c" "same_conf c c2"
    by (simp_all add: c2_def same_conf_def answered_def)
  have inv2: "cn_inv B d c2 xs ys us ws"
    by (rule cn_inv_shrink [OF inv1]) (use cn_invD [OF inv1] c2 in \<open>simp_all add: same_conf_def\<close>)
  have fresh2: "fresh_id c2 (xs @ ys)"
    by (rule fresh_id_frame [OF _ _ _ n(6)]) (use n(5) in \<open>auto simp: c2\<close>)
  have acc: "account d ?c us = account d c us" "account d c2 us = account d c us"
    by (simp_all add: account_def c2)
  have out: "succeeds (post_enter space p hnd args c2) (\<lambda>(r, c'). post_outcome B d p (ticket d hnd args) c xs ys us ws r c')"
    using post_enter_ok [OF inv2 fresh2 n(5) _ n'(2,3), of space hnd args] by (simp add: c2(1) post_outcome_from [OF acc(2)])
  have no: "post_outcome B d p (ticket d hnd args) c xs ys us ws Post_False ?c" "post_outcome B d p (ticket d hnd args) c xs ys us ws Post_False c2"
    using inv1 inv2 acc by (simp_all add: post_outcome_def)
  have eq: "postPacket space now (Some p) hnd args block c = (if closed ?c then Some (Post_False, ?c)
      else if \<not> isServer c2 \<and> pq_size (outputQueue c2) \<noteq> 0 \<and> now > lasttime c2 + 4000000 then Some (Post_False, c2)
      else if \<not> isServer c2 \<and> queueLimit c2 > 0 \<and> \<not> block \<and> getUseListCount c2 \<ge> queueLimit c2 then Some (Post_False, c2)
      else post_enter space p hnd args c2)"
    using n(1) n'(1) unfolding postPacket_def e_def c2_def Let_def by simp
  show ?thesis
    unfolding eq using no out by simp
qed

subsection \<open>Writing\<close>

lemma write_channel_ok:
  fixes c :: "'a connection"
  assumes inv: "xinv d (channelPool c) (packets c) P us ws" and d: "defaultPacketHandler c = d" and p: "p \<in> P" "packets c p = Some n"
  shows "succeeds (write_channel n c) (\<lambda>c'. c' = c\<lparr>channelPool := channelPool c'\<rparr> \<and> (\<exists>us'\<subseteq>us. \<exists>ws'.
    xinv d (channelPool c') ((packets c)(p := None)) (P - {p}) us' ws' \<and> account d c' us' = account d c us))"
proof -
  let ?a = "cof (packets c) p" and ?pool = "channelPool c"
  from inv obtain fs where iv: "cp_inv ?pool us ws fs" "\<forall>p\<in>P. carries (ch_heap ?pool) (packets c) p"
    by (rule xinvD)
  have ch: "pchannel n = Some ?a" and a: "?a \<in> us"
    using iv(2) p free_carried(2) [OF inv p(1)] by (auto simp: carries_def cof_def)
  obtain chan where chan: "ch_heap ?pool ?a = Some chan"
    using cp_invD(6) [OF iv(1)] a by blast
  show ?thesis
  proof (cases "owner d (ch_heap ?pool) ?a")
    case None
    then have none: "d = None" "chandler chan = None"
      using chan by (auto simp: owner_def split: if_splits)
    obtain r pool where 1: "freeChannel (Some ?a) ?pool = Some (r, pool)" "links_only (ch_heap ?pool) (ch_heap pool)"
      "xinv d pool ((packets c)(p := None)) (P - {p}) (us - {?a}) ws"
      using free_carried(1) [OF inv p(1)] by (auto elim!: succeedsE)
    have "account d (c\<lparr>channelPool := pool\<rparr>) (us - {?a}) = account d c us"
      using outstanding_remove [OF cp_invD(5) [OF iv(1)] a, of d "ch_heap ?pool"] None
      by (simp add: account_def outstanding_links [OF 1(2)])
    then show ?thesis
      using ch chan none d 1(1,3) by (auto simp: write_channel_def)
  next
    case (Some t)
    then have some: "\<not> (d = None \<and> chandler chan = None)"
      using chan by (auto simp: owner_def)
    let ?p = "?pool\<lparr>ch_heap := (ch_heap ?pool)(?a \<mapsto> chan\<lparr>cexpire := pexpire n, ctimeout := ptimeoutMs n\<rparr>)\<rparr>"
    obtain pool ws' where 1: "addToWaitingList ?a ?p = Some pool" "xinv d pool ((packets c)(p := None)) (P - {p}) us ws'"
      "\<forall>a. owner d (ch_heap pool) a = owner d (ch_heap ?pool) a"
      using wait_carried [OF inv p chan, of "ptimeoutMs n"] Some by (auto elim!: succeedsE)
    have "account d (c\<lparr>channelPool := pool\<rparr>) us = account d c us"
      using 1(3) by (simp add: account_def outstanding_def)
    moreover have "write_channel n c = Some (c\<lparr>channelPool := pool\<rparr>)"
      using ch chan some d 1(1) by (auto simp: write_channel_def Let_def)
    ultimately show ?thesis
      using 1(2) by auto
  qed
qed

lemma write_encode_frame:
  assumes "write_encode encode n c = Some c'"
  shows "packets c' = packets c" "channelPool c' = channelPool c" "outputQueue c' = outputQueue c" "myQueue c' = myQueue c"
    "callbacks c' = callbacks c" "same_conf c c'"
proof -
  obtain db where db: "encode n (outputBuf c) = Some db"
    using assms by (cases "encode n (outputBuf c)") (simp_all add: write_encode_def Let_def)
  define k where "k = db_getDataLen db - db_getDataLen (outputBuf c)"
  define c1 where "c1 = (if k > maxSendPacketSize (c\<lparr>outputBuf := db\<rparr>) then c\<lparr>outputBuf := db, maxSendPacketSize := k\<rparr> else c\<lparr>outputBuf := db\<rparr>)"
  have c1: "packets c1 = packets c" "channelPool c1 = channelPool c" "outputQueue c1 = outputQueue c" "myQueue c1 = myQueue c"
    "callbacks c1 = callbacks c" "same_conf c c1"
    by (simp_all add: c1_def same_conf_def)
  have "c' = addOutputBufferSpaceAllocated (db_getSpaceUsed db - db_getSpaceUsed (outputBuf c)) c1"
    using assms unfolding write_encode_def db bind.bind_lunit Let_def c1_def k_def by (rule option.inject [THEN iffD1, symmetric])
  with c1 show "packets c' = packets c" "channelPool c' = channelPool c" "outputQueue c' = outputQueue c" "myQueue c' = myQueue c"
    "callbacks c' = callbacks c" "same_conf c c'"
    by (simp_all add: addOutputBufferSpaceAllocated_def same_conf_def)
qed

lemma write_dequeue_frame:
  "packets (write_dequeue space n c) = packets c" "channelPool (write_dequeue space n c) = channelPool c"
  "outputQueue (write_dequeue space n c) = outputQueue c" "myQueue (write_dequeue space n c) = myQueue c"
  "answered (write_dequeue space n c) = answered c" "same_conf c (write_dequeue space n c)"
  by (auto simp: write_dequeue_def Let_def updateQueueStatus_def same_conf_def answered_def split: option.splits)

lemma write_packet_ok:
  fixes c :: "'a connection"
  assumes inv: "cn_inv B d c xs (a # ys) us ws" and run: "write_packet space encode c = Some c'"
  obtains us' ws' where "cn_inv B d c' xs ys us' ws'" "account d c' us' = account d c us"
proof -
  note iv = cn_invD [OF inv]
  have a: "a \<notin> set xs \<union> set ys" "set xs \<union> set (a # ys) - {a} = set xs \<union> set ys" "a \<in> set xs \<union> set (a # ys)"
    using iv(6,8) by (auto simp: pq_rep_def)
  obtain q where q: "pq_pop (packets c) (myQueue c) = Some (Some a, q)" "pq_rep (packets c) q ys"
    using pq_pop_rep [OF iv(6)] by (auto elim!: succeedsE)
  obtain n where n: "packets c a = Some n"
    using pq_rep_dom [OF iv(6)] by auto
  let ?q = "c\<lparr>myQueue := q\<rparr>"
  obtain c1 where e: "write_encode encode n ?q = Some c1"
    using run q(1) n by (auto simp: write_packet_def bind_eq_Some_conv)
  note c1 = write_encode_frame [OF e]
  have d1: "defaultPacketHandler c1 = d" "account d c1 us = account d c us"
    using c1 iv(2) by (simp_all add: same_conf_def account_def answered_def)
  obtain c2 us' ws' where 2: "write_channel n c1 = Some c2" "c2 = c1\<lparr>channelPool := channelPool c2\<rparr>" "us' \<subseteq> us"
    "xinv d (channelPool c2) ((packets c)(a := None)) (set xs \<union> set ys) us' ws'" "account d c2 us' = account d c us"
    using write_channel_ok [of d c1 "set xs \<union> set (a # ys)" us ws a n] iv(9) n a(2,3) c1 d1 by (auto elim!: succeedsE)
  have c2: "packets c2 = packets c" "outputQueue c2 = outputQueue c" "myQueue c2 = q" "same_conf c c2"
    by (subst 2(2); use c1 in \<open>simp add: same_conf_def\<close>)+
  have c': "c' = (write_dequeue space n c2)\<lparr>packets := (packets c2)(a := None)\<rparr>"
    using run q(1) n e 2(1) by (simp add: write_packet_def write_dequeue_frame)
  define h where "h = (packets c)(a := None)"
  have agree: "\<forall>x\<in>set xs. h x = packets c x" "\<forall>x\<in>set ys. h x = packets c x"
    using a(1) by (auto simp: h_def)
  have c'': "packets c' = h" "outputQueue c' = outputQueue c" "myQueue c' = q" "channelPool c' = channelPool c2" "same_conf c c'" "answered c' = answered c2"
    using c2 write_dequeue_frame [where space = space and n = n and c = c2] by (simp_all add: c' h_def same_conf_def)
  have "cn_inv B d c' xs ys us' ws'"
    by (rule cn_inv_shrink [OF inv c''(5) 2(3)]) (use 2(4) pq_rep_agree [OF agree(1) iv(4)] pq_rep_agree [OF agree(2) q(2)]
      sorted_agree [OF agree(1)] sorted_agree [OF agree(2)] iv(5,7,8) in \<open>simp_all add: c'' h_def [symmetric]\<close>)
  moreover have "account d c' us' = account d c us"
    using 2(5) by (simp add: c'' account_def)
  ultimately show thesis
    by (rule that)
qed

text \<open>The queues change hands, everything else stays.\<close>

lemma cn_inv_queues:
  fixes c :: "'a connection"
  assumes inv: "cn_inv B d c xs ys us ws" and rel: "relinked (set xs \<union> set ys) (packets c) h"
    and q: "pq_rep h q xs'" "pq_rep h mq ys'" "opq_sorted (expire_of h) xs'" "opq_sorted (expire_of h) ys'"
    "set xs' \<inter> set ys' = {}" "set xs' \<union> set ys' = set xs \<union> set ys"
    and c': "same_conf c c'" "packets c' = h" "outputQueue c' = q" "myQueue c' = mq" "channelPool c' = channelPool c" "answered c' = answered c"
  shows "cn_inv B d c' xs' ys' us ws" and "account d c' us = account d c us"
proof -
  show "cn_inv B d c' xs' ys' us ws"
    by (rule cn_inv_shrink [OF inv c'(1) order_refl]) (use q c' xinv_relinked [OF rel cn_invD(9) [OF inv]] in simp_all)
  show "account d c' us = account d c us"
    using c' by (simp add: account_def)
qed

lemma write_begin_ok:
  fixes c :: "'a connection"
  assumes inv: "cn_inv B d c xs [] us ws" and len: "length xs < 2 ^ 64" and run: "write_begin now c = Some (sz, c')"
  obtains ys where "cn_inv B d c' [] ys us ws" "account d c' us = account d c us" "sz = None \<longrightarrow> ys = []" "\<forall>k. sz = Some k \<longrightarrow> k = length ys"
    "set ys = set xs" "relinked (set xs) (packets c) (packets c')"
proof -
  note iv = cn_invD [OF inv]
  define ys where "ys = opq_merge (expire_of (packets c)) [] xs"
  have ys: "set ys = set xs" "length ys = length xs" "opq_sorted (expire_of (packets c)) ys"
    using sorted_opq_merge [of "expire_of (packets c)" "[]" xs] iv(5) by (simp_all add: ys_def)
  obtain h mq where 1: "opq_moveTo (packets c) (outputQueue c) (myQueue c) = Some (h, pq_new, mq)" "pq_rep h mq ys" "relinked (set xs) (packets c) h"
    using opq_moveBack_rep [OF iv(6,7,4,5)] by (auto simp: opq_moveTo_def ys_def elim!: succeedsE)
  have size: "pq_size mq = of_nat (length ys)" "unat (pq_size mq) = length ys"
    using 1(2) len ys(2) by (simp_all add: pq_rep_def pq_size_def unsigned_of_nat take_bit_nat_eq_self)
  have c': "same_conf c c'" "packets c' = h" "outputQueue c' = pq_new" "myQueue c' = mq" "channelPool c' = channelPool c" "answered c' = answered c"
    using run 1(1) by (auto simp: write_begin_def Let_def same_conf_def answered_def bind_eq_Some_conv split: if_splits)
  have res: "sz = None \<longrightarrow> ys = []" "\<forall>k. sz = Some k \<longrightarrow> k = length ys"
    using run 1(1) size by (auto simp: write_begin_def Let_def bind_eq_Some_conv split: if_splits)
  show thesis
    by (rule that [OF cn_inv_queues [where xs' = "[]", OF inv _ _ 1(2) _ _ _ _ c'] res ys(1)]) (use 1(3) ys relinked_expire [OF 1(3)] c'(2) in simp_all)
qed

lemma write_send_frame:
  assumes "write_send sock c = (ret, error, c')"
  shows "packets c' = packets c" "channelPool c' = channelPool c" "outputQueue c' = outputQueue c" "myQueue c' = myQueue c"
    "callbacks c' = callbacks c" "same_conf c c'"
  using assms by (auto simp: write_send_def Let_def same_conf_def split: prod.splits if_splits)

lemma write_finish_frame:
  assumes "write_finish error c = (r, c')"
  shows "packets c' = packets c" "channelPool c' = channelPool c" "outputQueue c' = outputQueue c" "myQueue c' = myQueue c"
    "callbacks c' = callbacks c" "same_conf c c'"
  using assms by (auto simp: write_finish_def Let_def same_conf_def clearOutputBuffer_def split: if_splits)

lemma write_end_ok:
  fixes c :: "'a connection"
  assumes inv: "cn_inv B d c xs ys us ws"
  shows "succeeds (write_end error cnt c) (\<lambda>(r, c'). \<exists>xs'. set xs' = set xs \<union> set ys \<and> cn_inv B d c' xs' [] us ws \<and> account d c' us = account d c us \<and>
    relinked (set xs \<union> set ys) (packets c) (packets c'))"
proof -
  note iv = cn_invD [OF inv]
  define xs' where "xs' = opq_merge (expire_of (packets c)) xs ys"
  have xs': "set xs' = set xs \<union> set ys" "opq_sorted (expire_of (packets c)) xs'"
    using sorted_opq_merge [OF iv(5,7)] by (simp_all add: xs'_def)
  obtain h q where 1: "opq_moveBack (packets c) (outputQueue c) (myQueue c) = Some (h, q, pq_new)" "pq_rep h q xs'" "relinked (set xs \<union> set ys) (packets c) h"
    using opq_moveBack_rep [OF iv(4,5,6,7,8)] by (auto simp: xs'_def elim!: succeedsE)
  let ?c = "c\<lparr>callWriteCount := callWriteCount c + cnt, packets := h, outputQueue := q, myQueue := pq_new\<rparr>"
  obtain r c' where fin: "write_finish error ?c = (r, c')"
    by (cases "write_finish error ?c")
  have c': "same_conf c c'" "packets c' = h" "outputQueue c' = q" "myQueue c' = pq_new" "channelPool c' = channelPool c" "answered c' = answered c"
    using write_finish_frame [OF fin] by (simp_all add: same_conf_def answered_def)
  have "cn_inv B d c' xs' [] us ws" "account d c' us = account d c us"
    by (rule cn_inv_queues [where ys' = "[]", OF inv 1(3,2) _ _ _ _ _ c']; use xs' relinked_expire [OF 1(3)] in simp)+
  then show ?thesis
    using 1(1,3) fin xs'(1) c'(2) by (auto simp: write_end_def Let_def)
qed

subsection \<open>Reachable connections\<close>

text \<open>The states of a client connection and the requests that have been accepted in them, where
  every limit the client sets keeps to the bound \<open>B\<close> if there is one. A
  step is one call of the connection; a write is several steps, so that posts, timeouts and
  the rest may happen between them. In \<open>env\<close> the application makes, changes and frees
  packets that are not in the queues.\<close>

inductive cn_reach :: "nat option \<Rightarrow> ('a packet_scheme \<Rightarrow> int) \<Rightarrow> ('a packet_scheme \<Rightarrow> databuffer \<Rightarrow> databuffer option) \<Rightarrow> ptr \<Rightarrow>
    'a connection \<Rightarrow> (nat \<times> ptr) multiset \<Rightarrow> bool" for B space encode d where
  start: "c = cn_start header adapter g now bufSize h limit d t \<Longrightarrow> limit_within B (queueLimit c) \<Longrightarrow> cn_reach B space encode d c {#}"
| setlimit: "cn_reach B space encode d c posts \<Longrightarrow> setQueueLimit limit c = (r, c') \<Longrightarrow> limit_within B (queueLimit c') \<Longrightarrow>
    cn_reach B space encode d c' posts"
| settimeout: "cn_reach B space encode d c posts \<Longrightarrow> cn_reach B space encode d (setQueueTimeout t c) posts"
| env: "cn_reach B space encode d c posts \<Longrightarrow> pq_rep (packets c) (outputQueue c) xs \<Longrightarrow> pq_rep (packets c) (myQueue c) ys \<Longrightarrow>
    \<forall>a\<in>set (xs @ ys). h a = packets c a \<Longrightarrow> cn_reach B space encode d (c\<lparr>packets := h\<rparr>) posts"
| post: "cn_reach B space encode d c posts \<Longrightarrow> post_ok now p c \<Longrightarrow> postPacket space now (Some p) hnd args block c = Some (r, c') \<Longrightarrow>
    cn_reach B space encode d c' (posts + (if r = Post_True then mset_of (ticket d hnd args) else {#}))"
| woken: "cn_reach B space encode d c posts \<Longrightarrow> post_ok now p c \<Longrightarrow> expire_of (packets c) p \<noteq> 0 \<Longrightarrow> post_woken space p hnd args c = Some (r, c') \<Longrightarrow>
    cn_reach B space encode d c' (posts + (if r = Post_True then mset_of (ticket d hnd args) else {#}))"
| reply: "cn_reach B space encode d c posts \<Longrightarrow> handlePacket packet c = Some (r, c') \<Longrightarrow> cn_reach B space encode d c' posts"
| tick: "cn_reach B space encode d c posts \<Longrightarrow> cn_checkTimeout space now c = Some c' \<Longrightarrow> cn_reach B space encode d c' posts"
| close: "cn_reach B space encode d c posts \<Longrightarrow> closeHook space c = Some c' \<Longrightarrow> cn_reach B space encode d c' posts"
| reopen: "cn_reach B space encode d c posts \<Longrightarrow> cn_reach B space encode d (openHook c) posts"
| wbegin: "cn_reach B space encode d c posts \<Longrightarrow> myQueue c = pq_new \<Longrightarrow> pq_rep (packets c) (outputQueue c) xs \<Longrightarrow> length xs < 2 ^ 64 \<Longrightarrow>
    write_begin now c = Some (sz, c') \<Longrightarrow> cn_reach B space encode d c' posts"
| wpacket: "cn_reach B space encode d c posts \<Longrightarrow> write_packet space encode c = Some c' \<Longrightarrow> cn_reach B space encode d c' posts"
| wsend: "cn_reach B space encode d c posts \<Longrightarrow> write_send sock c = (ret, error, c') \<Longrightarrow> cn_reach B space encode d c' posts"
| wend: "cn_reach B space encode d c posts \<Longrightarrow> write_end error cnt c = Some (r, c') \<Longrightarrow> cn_reach B space encode d c' posts"

definition cn_ok :: "nat option \<Rightarrow> ptr \<Rightarrow> 'a connection \<Rightarrow> (nat \<times> ptr) multiset \<Rightarrow> bool" where
  "cn_ok B d c posts \<longleftrightarrow> (\<exists>xs ys us ws. cn_inv B d c xs ys us ws \<and> account d c us = posts)"

lemma cn_okI: "cn_inv B d c xs ys us ws \<Longrightarrow> account d c us = posts \<Longrightarrow> cn_ok B d c posts"
  by (auto simp: cn_ok_def)

lemma post_outcome_cn_ok:
  "post_outcome B d p t c xs ys us ws r c' \<Longrightarrow> account d c us = posts \<Longrightarrow> cn_ok B d c' (posts + (if r = Post_True then mset_of t else {#}))"
  by (auto simp: post_outcome_def cn_ok_def split: if_splits)

lemma cn_inv_same:
  assumes inv: "cn_inv B d c xs ys us ws"
    and c': "same_conf c c'" "packets c' = packets c" "outputQueue c' = outputQueue c" "myQueue c' = myQueue c"
    "channelPool c' = channelPool c" "callbacks c' = callbacks c"
  shows "cn_inv B d c' xs ys us ws" "account d c' us = account d c us"
  using cn_invD(1-3) [OF inv] inv c' by (auto simp: cn_inv_def same_conf_def account_def answered_def)

lemma cn_reach_ok: "cn_reach B space encode d c posts \<Longrightarrow> cn_ok B d c posts"
proof (induction rule: cn_reach.induct)
  case (start c header adapter g now bufSize h limit t)
  from cn_start_inv [OF start(2,1)] show ?case
    by (rule cn_okI)
next
  case (setlimit c posts limit r c')
  then obtain xs ys us ws where 1: "cn_inv B d c xs ys us ws" "account d c us = posts"
    by (auto simp: cn_ok_def)
  then have "cn_inv B d c' xs ys us ws" "account d c' us = posts"
    using setlimit.hyps(2,3) cn_invD(3) [OF 1(1)] by (auto simp: setQueueLimit_def cn_inv_def account_def answered_def split: if_splits)
  then show ?case
    by (rule cn_okI)
next
  case (settimeout c posts t)
  then obtain xs ys us ws where "cn_inv B d c xs ys us ws" "account d c us = posts"
    by (auto simp: cn_ok_def)
  then show ?case
    by (intro cn_okI) (auto simp: setQueueTimeout_def cn_inv_def account_def answered_def)
next
  case (env c posts xs ys h)
  then obtain us ws where "cn_inv B d c xs ys us ws" "account d c us = posts"
    using pq_rep_unique cn_invD(4,6) unfolding cn_ok_def by metis
  then show ?case
    using cn_inv_packets [of B d c xs ys us ws h] env.hyps(4) by (intro cn_okI) (auto simp: account_def)
next
  case (post c posts now p hnd args block r c')
  then obtain xs ys us ws where 1: "cn_inv B d c xs ys us ws" "account d c us = posts"
    by (auto simp: cn_ok_def)
  have "post_outcome B d p (ticket d hnd args) c xs ys us ws r c'"
    using postPacket_ok [OF 1(1) post.hyps(2), of space hnd args block] post.hyps(3) by simp
  then show ?case
    using 1(2) by (rule post_outcome_cn_ok)
next
  case (woken c posts now p hnd args r c')
  then obtain xs ys us ws where 1: "cn_inv B d c xs ys us ws" "account d c us = posts"
    by (auto simp: cn_ok_def)
  obtain n where n: "packets c p = Some n" "0 \<le> pexpire n" "pexpire n < TIME_MAX" "p \<notin> set (xs @ ys)" "fresh_id c (xs @ ys)"
    by (rule post_okD [OF 1(1) woken.hyps(2)])
  then have "0 < pexpire n"
    using woken.hyps(3) by (simp add: expire_of_def)
  have "post_outcome B d p (ticket d hnd args) c xs ys us ws r c'"
    using post_woken_ok [OF 1(1) n(5,4,1) \<open>0 < pexpire n\<close> n(3), of space hnd args] woken.hyps(4) by simp
  then show ?case
    using 1(2) by (rule post_outcome_cn_ok)
next
  case (reply c posts packet r c')
  then obtain xs ys us ws where 1: "cn_inv B d c xs ys us ws" "account d c us = posts"
    by (auto simp: cn_ok_def)
  from handlePacket_ok [OF 1(1), of packet] show ?case
    using reply.hyps(2) 1(2) by (auto intro: cn_okI)
next
  case (tick c posts now c')
  then obtain xs ys us ws where 1: "cn_inv B d c xs ys us ws" "account d c us = posts"
    by (auto simp: cn_ok_def)
  from checkTimeout_ok [OF 1(1), of space now] show ?case
    using tick.hyps(2) 1(2) by (auto intro: cn_okI)
next
  case (close c posts c')
  then obtain xs ys us ws where 1: "cn_inv B d c xs ys us ws" "account d c us = posts"
    by (auto simp: cn_ok_def)
  from closeHook_ok [OF 1(1), of space] show ?case
    using close.hyps(2) 1(2) by (auto intro: cn_okI)
next
  case (reopen c posts)
  then obtain xs ys us ws where 1: "cn_inv B d c xs ys us ws" "account d c us = posts"
    by (auto simp: cn_ok_def)
  have "cn_inv B d (openHook c) xs ys us ws" "account d (openHook c) us = account d c us"
    by (rule cn_inv_same [OF 1(1)]; simp add: openHook_def same_conf_def)+
  then show ?case
    using 1(2) by (intro cn_okI) simp_all
next
  case (wbegin c posts xs now sz c')
  then obtain us ws where 1: "cn_inv B d c xs [] us ws" "account d c us = posts"
    unfolding cn_ok_def by (metis cn_invD(4,6) pq_rep_new pq_rep_unique)
  from write_begin_ok [OF 1(1) wbegin.hyps(4,5)] show ?case
    using 1(2) by (metis cn_okI)
next
  case (wpacket c posts c')
  then obtain xs ys us ws where 1: "cn_inv B d c xs ys us ws" "account d c us = posts"
    by (auto simp: cn_ok_def)
  have "ys \<noteq> []"
    using cn_invD(6) [OF 1(1)] wpacket.hyps(2) by (auto simp: write_packet_def pq_pop_new)
  then obtain a zs where ys: "ys = a # zs"
    by (cases ys) auto
  from write_packet_ok [OF 1(1) [unfolded ys] wpacket.hyps(2)] show ?case
    using 1(2) by (metis cn_okI)
next
  case (wsend c posts sock ret error c')
  then show ?case
    using write_send_frame [OF wsend.hyps(2)] unfolding cn_ok_def by (metis cn_inv_same)
next
  case (wend c posts error cnt r c')
  then obtain xs ys us ws where 1: "cn_inv B d c xs ys us ws" "account d c us = posts"
    by (auto simp: cn_ok_def)
  from write_end_ok [OF 1(1), of error cnt] show ?case
    using wend.hyps(2) 1(2) by (auto intro: cn_okI)
qed

lemma cn_reach_inv:
  assumes "cn_reach B space encode d c posts" "pq_rep (packets c) (myQueue c) ys"
  obtains xs us ws where "cn_inv B d c xs ys us ws" "account d c us = posts"
proof -
  obtain xs ys' us ws where 1: "cn_inv B d c xs ys' us ws" "account d c us = posts"
    using cn_reach_ok [OF assms(1)] by (auto simp: cn_ok_def)
  with pq_rep_unique [OF assms(2) cn_invD(6) [OF 1(1)]] that show thesis
    by simp
qed

subsection \<open>A whole write\<close>

text \<open>What the writing thread relies on: \<open>encode\<close> appends a packet that is \<open>ok\<close> to an output
  buffer of at most 4 MiB without touching a byte outside of it, and whether a packet is \<open>ok\<close>
  does not depend on its link. The connection has an intact buffer, a buffer size of at most 4 MiB, and only
  such packets in its queue.\<close>

definition encodes :: "('a packet_scheme \<Rightarrow> databuffer \<Rightarrow> databuffer option) \<Rightarrow> ('a packet_scheme \<Rightarrow> bool) \<Rightarrow> bool" where
  "encodes encode ok \<longleftrightarrow> (\<forall>n x. ok (n\<lparr>pnext := x\<rparr>) = ok n) \<and>
     (\<forall>n db. ok n \<and> db_inv db \<and> length (contents db) \<le> 2 ^ 22 \<longrightarrow> succeeds (encode n db) db_inv)"

definition write_ready :: "('a packet_scheme \<Rightarrow> bool) \<Rightarrow> 'a connection \<Rightarrow> nat list \<Rightarrow> bool" where
  "write_ready ok c ys \<longleftrightarrow> db_inv (outputBuf c) \<and> readWriteBufSize c \<le> 2 ^ 22 \<and> (\<forall>p\<in>set ys. \<exists>n. packets c p = Some n \<and> ok n)"

lemma ready_relinked:
  assumes "write_ready ok c xs" "encodes encode ok" "relinked S (packets c) (packets c')" "set ys \<subseteq> set xs"
    "db_inv (outputBuf c')" "readWriteBufSize c' = readWriteBufSize c"
  shows "write_ready ok c' ys"
proof -
  have "\<exists>n. packets c' p = Some n \<and> ok n" if "p \<in> set ys" for p
  proof -
    have "p \<in> set xs"
      using assms(4) that by blast
    then obtain n where n: "packets c p = Some n" "ok n"
      using assms(1) unfolding write_ready_def by blast
    obtain x where "packets c' p = Some (n\<lparr>pnext := x\<rparr>)"
      by (rule relinked_node [OF assms(3) n(1)])
    with n(2) assms(2) show ?thesis
      unfolding encodes_def by blast
  qed
  with assms show ?thesis
    by (simp add: write_ready_def)
qed

lemma ready_same:
  assumes "write_ready ok c xs" "packets c' = packets c" "db_inv (outputBuf c')" "readWriteBufSize c' = readWriteBufSize c"
  shows "write_ready ok c' xs"
  using assms by (simp add: write_ready_def)

lemma write_channel_frame: "write_channel n c = Some c' \<Longrightarrow> same_conf c c' \<and> callbacks c' = callbacks c \<and> outputBuf c' = outputBuf c \<and>
    readWriteBufSize c' = readWriteBufSize c \<and> outputQueue c' = outputQueue c"
  by (auto simp: write_channel_def Let_def bind_eq_Some_conv same_conf_def split: option.splits if_splits)

lemma write_dequeue_buf:
  "outputBuf (write_dequeue space n c) = outputBuf c" "readWriteBufSize (write_dequeue space n c) = readWriteBufSize c"
  by (auto simp: write_dequeue_def Let_def updateQueueStatus_def split: option.splits)

lemma write_encode_buf:
  assumes "write_encode encode n c = Some c'"
  shows "encode n (outputBuf c) = Some (outputBuf c')" "readWriteBufSize c' = readWriteBufSize c"
proof -
  obtain db where db: "encode n (outputBuf c) = Some db"
    using assms by (cases "encode n (outputBuf c)") (simp_all add: write_encode_def Let_def)
  define c1 where "c1 = (if db_getDataLen db - db_getDataLen (outputBuf c) > maxSendPacketSize (c\<lparr>outputBuf := db\<rparr>)
    then c\<lparr>outputBuf := db, maxSendPacketSize := db_getDataLen db - db_getDataLen (outputBuf c)\<rparr> else c\<lparr>outputBuf := db\<rparr>)"
  have c1: "outputBuf c1 = db" "readWriteBufSize c1 = readWriteBufSize c"
    by (simp_all add: c1_def)
  have "c' = addOutputBufferSpaceAllocated (db_getSpaceUsed db - db_getSpaceUsed (outputBuf c)) c1"
    using assms unfolding write_encode_def db bind.bind_lunit Let_def c1_def by (rule option.inject [THEN iffD1, symmetric])
  with c1 db show "encode n (outputBuf c) = Some (outputBuf c')" "readWriteBufSize c' = readWriteBufSize c"
    by (simp_all add: addOutputBufferSpaceAllocated_def)
qed

lemma write_packet_runs:
  assumes inv: "cn_inv B d c xs (a # ys) us ws" and enc: "encodes encode ok" and rdy: "write_ready ok c (a # ys)"
    and len: "db_getDataLen (outputBuf c) < readWriteBufSize c"
  shows "\<exists>c'. write_packet space encode c = Some c' \<and> write_ready ok c' ys"
proof -
  note iv = cn_invD [OF inv]
  obtain q n where q: "pq_pop (packets c) (myQueue c) = Some (Some a, q)" and n: "packets c a = Some n" and ok: "ok n"
    using pq_pop_rep [OF iv(6)] rdy by (auto simp: write_ready_def elim!: succeedsE)
  have db: "db_inv (outputBuf c)" "length (contents (outputBuf c)) \<le> 2 ^ 22"
    using rdy len by (auto simp: write_ready_def getDataLen_contents)
  then obtain db' where db': "encode n (outputBuf c) = Some db'" "db_inv db'"
    using enc ok unfolding encodes_def by (blast elim: succeedsE)
  then obtain c1 where e: "write_encode encode n (c\<lparr>myQueue := q\<rparr>) = Some c1"
    by (auto simp: write_encode_def Let_def)
  note c1 = write_encode_frame [OF e] write_encode_buf [OF e]
  have "xinv d (channelPool c1) (packets c1) (set xs \<union> set (a # ys)) us ws" "defaultPacketHandler c1 = d" "packets c1 a = Some n"
    using c1 iv(2,9) n by (simp_all add: same_conf_def)
  then obtain c2 where c2: "write_channel n c1 = Some c2" "c2 = c1\<lparr>channelPool := channelPool c2\<rparr>"
    using write_channel_ok [of d c1 "set xs \<union> set (a # ys)" us ws a n] by (auto elim!: succeedsE)
  let ?c = "(write_dequeue space n c2)\<lparr>packets := (packets c2)(a := None)\<rparr>"
  have "write_packet space encode c = Some ?c"
    using q n e c2(1) by (simp add: write_packet_def Let_def write_dequeue_frame)
  moreover have "packets c2 = packets c" "outputBuf c2 = db'" "readWriteBufSize c2 = readWriteBufSize c"
    by (subst c2(2); use c1 db' in simp)+
  moreover have "a \<notin> set ys"
    using iv(6) by (auto simp: pq_rep_def)
  ultimately show ?thesis
    using rdy db'(2) by (auto simp: write_ready_def write_dequeue_buf)
qed

lemma write_fill_reach:
  assumes "cn_reach B space encode d c posts" "pq_rep (packets c) (myQueue c) ys" "n \<le> length ys" "write_ready ok c ys"
    and enc: "encodes encode ok"
  shows "succeeds (write_fill space encode n c) (\<lambda>(m, c'). cn_reach B space encode d c' posts \<and>
    (\<exists>ys'. pq_rep (packets c') (myQueue c') ys' \<and> m \<le> length ys' \<and> write_ready ok c' ys' \<and> set ys' \<subseteq> set ys))"
  using assms(1-4)
proof (induction n arbitrary: c ys)
  case 0
  then show ?case
    by auto
next
  case (Suc n)
  then obtain a zs where ys: "ys = a # zs" "n \<le> length zs"
    by (cases ys) auto
  obtain xs us ws where inv: "cn_inv B d c xs (a # zs) us ws"
    by (rule cn_reach_inv [OF Suc.prems(1) Suc.prems(2) [unfolded ys(1)]])
  show ?case
  proof (cases "db_getDataLen (outputBuf c) < readWriteBufSize c")
    case True
    obtain c' where c': "write_packet space encode c = Some c'" "write_ready ok c' zs"
      using write_packet_runs [OF inv enc Suc.prems(4) [unfolded ys(1)] True] by blast
    obtain us' ws' where "cn_inv B d c' xs zs us' ws'"
      by (rule write_packet_ok [OF inv c'(1)])
    note ih = Suc.IH [OF cn_reach.wpacket [OF Suc.prems(1) c'(1)] cn_invD(6) [OF this] ys(2) c'(2)]
    show ?thesis
      using True c'(1) ys(1) by (auto intro: succeeds_mono [OF ih])
  next
    case False
    then show ?thesis
      using Suc.prems by auto
  qed
qed

lemma write_send_ready:
  "write_send sock c = (ret, error, c') \<Longrightarrow> write_ready ok c ys \<Longrightarrow> write_ready ok c' ys"
  by (auto simp: write_send_def Let_def write_ready_def db_inv_drain split: prod.splits if_splits)

lemma write_loop_reach:
  assumes "cn_reach B space encode d c posts" "pq_rep (packets c) (myQueue c) ys" "n \<le> length ys" "write_ready ok c ys"
    and enc: "encodes encode ok"
  shows "succeeds (write_loop (Suc fuel) space encode n sock c) (\<lambda>(err, cnt, sock', c'). cn_reach B space encode d c' posts \<and>
    (\<exists>ys'. pq_rep (packets c') (myQueue c') ys' \<and> write_ready ok c' ys' \<and> set ys' \<subseteq> set ys))"
  using assms(1-4)
proof (induction fuel arbitrary: c ys n sock)
  case 0
  obtain m c1 ys1 where 1: "write_fill space encode n c = Some (m, c1)" "cn_reach B space encode d c1 posts"
    "pq_rep (packets c1) (myQueue c1) ys1" "write_ready ok c1 ys1" "set ys1 \<subseteq> set ys"
    using write_fill_reach [OF 0 enc] by (auto elim!: succeedsE)
  obtain ret error c2 where 2: "write_send sock c1 = (ret, error, c2)"
    by (cases "write_send sock c1")
  have "pq_rep (packets c2) (myQueue c2) ys1" "write_ready ok c2 ys1"
    using 1(3) write_send_frame [OF 2] write_send_ready [OF 2 1(4)] by simp_all
  then show ?case
    using 1 cn_reach.wsend [OF 1(2) 2] by (auto simp: 2)
next
  case (Suc fuel)
  obtain m c1 ys1 where 1: "write_fill space encode n c = Some (m, c1)" "cn_reach B space encode d c1 posts"
    "pq_rep (packets c1) (myQueue c1) ys1" "m \<le> length ys1" "write_ready ok c1 ys1" "set ys1 \<subseteq> set ys"
    using write_fill_reach [OF Suc.prems enc] by (auto elim!: succeedsE)
  obtain ret error c2 where 2: "write_send sock c1 = (ret, error, c2)"
    by (cases "write_send sock c1")
  note r2 = cn_reach.wsend [OF 1(2) 2]
  have 3: "pq_rep (packets c2) (myQueue c2) ys1" "write_ready ok c2 ys1"
    using 1(3) write_send_frame [OF 2] write_send_ready [OF 2 1(5)] by simp_all
  from Suc.IH [OF r2 3(1) 1(4) 3(2), of "tl sock"] obtain err cnt sock' c3 ys3
    where 4: "write_loop (Suc fuel) space encode m (tl sock) c2 = Some (err, cnt, sock', c3)" "cn_reach B space encode d c3 posts"
    "pq_rep (packets c3) (myQueue c3) ys3" "write_ready ok c3 ys3" "set ys3 \<subseteq> set ys1"
    by (auto elim!: succeedsE)
  have eq: "write_loop (Suc (Suc fuel)) space encode n sock c =
      (if db_getDataLen (outputBuf c1) = 0 then Some (0, 0, sock, c1)
       else if ret > 0 \<and> db_getDataLen (outputBuf c2) = 0 \<and> m > 0 then Some (err, cnt + 1, sock', c3)
       else Some (error, 1, tl sock, c2))"
    by (simp add: write_loop.simps(2) [of "Suc fuel"] 1(1) 2 4(1) del: write_loop.simps)
  have "set ys3 \<subseteq> set ys"
    using 1(6) 4(5) by blast
  then show ?case
    unfolding eq using 1 r2 3 4 by auto
qed

lemma write_packet_queue:
  assumes "write_packet space encode c = Some c'"
  shows "outputQueue c' = outputQueue c"
proof -
  obtain p q a n c1 c2 where "write_encode encode n (c\<lparr>myQueue := q\<rparr>) = Some c1"
    "write_channel n c1 = Some c2" "c' = (write_dequeue space n c2)\<lparr>packets := (packets (write_dequeue space n c2))(a := None)\<rparr>"
    using assms by (auto simp: write_packet_def Let_def bind_eq_Some_conv)
  then show ?thesis
    using write_encode_frame(3) [of encode n "c\<lparr>myQueue := q\<rparr>" c1] write_channel_frame [of n c1 c2] by (simp add: write_dequeue_frame)
qed

lemma write_fill_queue: "write_fill space encode n c = Some (m, c') \<Longrightarrow> outputQueue c' = outputQueue c"
  by (induction n arbitrary: c) (auto simp: bind_eq_Some_conv write_packet_queue split: if_splits)

lemma write_loop_queue:
  "write_loop fuel space encode n sock c = Some (err, cnt, sock', c') \<Longrightarrow> outputQueue c' = outputQueue c"
proof (induction fuel arbitrary: n sock c err cnt)
  case (Suc fuel)
  obtain m c1 where 1: "write_fill space encode n c = Some (m, c1)"
    using Suc.prems by (auto simp: bind_eq_Some_conv)
  obtain ret error c2 where 2: "write_send sock c1 = (ret, error, c2)"
    by (cases "write_send sock c1")
  show ?case
    using Suc.prems Suc.IH [of m "tl sock" c2] write_fill_queue [OF 1] write_send_frame(3) [OF 2]
    by (auto simp: 1 2 bind_eq_Some_conv split: if_splits)
qed simp

lemma write_end_buf:
  assumes "write_end error cnt c = Some (r, c')" "db_inv (outputBuf c)"
  shows "db_inv (outputBuf c') \<and> readWriteBufSize c' = readWriteBufSize c"
proof -
  have "db_inv (outputBuf c2) \<and> readWriteBufSize c2 = readWriteBufSize c1" if "write_finish error c1 = (r, c2)" "db_inv (outputBuf c1)" for c1 c2 :: "'a connection"
    using that by (auto simp: write_finish_def Let_def clearOutputBuffer_def db_inv_clear split: if_splits)
  then show ?thesis
    using assms by (fastforce simp: write_end_def Let_def bind_eq_Some_conv)
qed

lemma write_begin_buf: "write_begin now c = Some (sz, c') \<Longrightarrow> outputBuf c' = outputBuf c \<and> readWriteBufSize c' = readWriteBufSize c"
  by (auto simp: write_begin_def Let_def bind_eq_Some_conv split: if_splits)

lemma write_begin_runs:
  assumes inv: "cn_inv B d c xs [] us ws" and len: "length xs < 2 ^ 31"
  shows "\<exists>sz c'. write_begin now c = Some (sz, c')"
proof -
  note iv = cn_invD [OF inv]
  obtain h mq where 1: "opq_moveTo (packets c) (outputQueue c) (myQueue c) = Some (h, pq_new, mq)" "pq_rep h mq (opq_merge (expire_of (packets c)) [] xs)"
    using opq_moveBack_rep [OF iv(6,7,4,5)] by (auto simp: opq_moveTo_def elim!: succeedsE)
  have "unat (pq_size mq) < 2 ^ 31"
    using 1(2) len by (simp add: pq_rep_def pq_size_def unsigned_of_nat take_bit_nat_eq_self)
  then show ?thesis
    using 1(1) by (auto simp: write_begin_def Let_def)
qed

subsection \<open>The theorems\<close>

text \<open>The channels in use, read off the state: those that wait for a reply and those of the
  packets in the queues.\<close>

definition in_use :: "'a connection \<Rightarrow> nat list \<Rightarrow> nat set" where
  "in_use c zs = {a. \<exists>i. findChannel i (channelPool c) = Some a} \<union> cof (packets c) ` set zs"

lemma in_use_eq:
  assumes inv: "cn_inv B d c xs ys us ws"
  shows "in_use c (xs @ ys) = us"
proof -
  note iv = cn_invD(9) [OF inv]
  from iv obtain fs where ci: "cp_inv (channelPool c) us ws fs" "bij_betw (cof (packets c)) (set xs \<union> set ys) (us - set ws)"
    by (rule xinvD)
  have "{a. \<exists>i. findChannel i (channelPool c) = Some a} = set ws"
    using findChannel_inv [OF iv] by auto
  moreover have "cof (packets c) ` set (xs @ ys) = us - set ws"
    using ci(2) by (simp add: bij_betw_def)
  ultimately show ?thesis
    using cp_invD(4) [OF ci(1)] by (auto simp: in_use_def)
qed

lemma reach_account:
  assumes "cn_reach B space encode d c posts" "cn_inv B d c xs ys us ws"
  shows "account d c us = posts"
proof -
  obtain xs' ys' us' ws' where 1: "cn_inv B d c xs' ys' us' ws'" "account d c us' = posts"
    using cn_reach_ok [OF assms(1)] by (auto simp: cn_ok_def)
  have "xs' = xs" "ys' = ys"
    using pq_rep_unique [OF cn_invD(4) [OF assms(2)] cn_invD(4) [OF 1(1)]] pq_rep_unique [OF cn_invD(6) [OF assms(2)] cn_invD(6) [OF 1(1)]] by simp_all
  then show ?thesis
    using in_use_eq [OF assms(2)] in_use_eq [OF 1(1)] 1(2) by simp
qed

lemma cn_reachE:
  assumes "cn_reach B space encode d c posts" "pq_rep (packets c) (outputQueue c) xs" "pq_rep (packets c) (myQueue c) ys"
  obtains ws where "cn_inv B d c xs ys (in_use c (xs @ ys)) ws" "account d c (in_use c (xs @ ys)) = posts"
proof -
  obtain xs' ys' us ws where 1: "cn_inv B d c xs' ys' us ws" "account d c us = posts"
    using cn_reach_ok [OF assms(1)] by (auto simp: cn_ok_def)
  have "xs' = xs" "ys' = ys"
    using pq_rep_unique [OF assms(2) cn_invD(4) [OF 1(1)]] pq_rep_unique [OF assms(3) cn_invD(6) [OF 1(1)]] by simp_all
  with 1 show thesis
    using in_use_eq [OF 1(1)] that by simp
qed

text \<open>The encoder of a connection with \<open>DefaultPacketStreamer\<close> and \<open>DefaultPacket\<close>.\<close>

definition default_encode :: "defaultpacket \<Rightarrow> databuffer \<Rightarrow> databuffer option" where
  "default_encode packet output = map_option (\<lambda>(r, q, db). db) (dps_encode default_packet_class True (Regular packet) output)"

lemma default_encodes: "encodes default_encode (sendable dp_inv dp_body)"
proof -
  have "succeeds (default_encode n db) db_inv" if n: "sendable dp_inv dp_body n" and db: "db_inv db" "length (contents db) \<le> 2 ^ 22" for n db
  proof -
    have "length (contents db) + length (wire default_packet_class dp_body n) \<le> 2 ^ 24"
      using n db(2) by (simp add: length_wire sendable_def)
    from default_codec.encode_frame [OF n db(1) this] show ?thesis
      by (auto simp: default_encode_def elim!: succeedsE)
  qed
  moreover have "sendable dp_inv dp_body (n\<lparr>pnext := x\<rparr>) = sendable dp_inv dp_body n" for n x
    by (simp add: sendable_def dp_inv_def dp_body_def split: block.split)
  ultimately show ?thesis
    by (simp add: encodes_def)
qed

text \<open>A connection with one accepted request, and the same one after the request has been
  written.\<close>

definition w_start where
  "w_start = cn_start True False 7 0 65536 [0 \<mapsto> sample_packet [1, 2, 3]] 10 (Some 4) 5000"

abbreviation w_reach where
  "w_reach \<equiv> cn_reach (Some 10) (\<lambda>p. 0) default_encode (Some 4)"

declare cp_id_loop.simps [code]

lemma w_post:
  obtains c us ws where "w_reach c {#(3, None)#}" "existPacketHeader c" "myQueue c = pq_new" "answered c = {#}"
    "cn_inv (Some 10) (Some 4) c [0] [] us ws" "write_ready (sendable dp_inv dp_body) c [0]" "db_getDataLen (outputBuf c) < readWriteBufSize c"
proof -
  have c0: "packets w_start 0 = Some (sample_packet [1, 2, 3])" "queueTimeout w_start = 5000" "outputQueue w_start = pq_new" "myQueue w_start = pq_new"
    "queueLimit w_start = 10"
    by (simp_all add: w_start_def cn_start_def setQueueLimit_def setQueueTimeout_def cn_new_def)
  have lim: "limit_within (Some 10) (queueLimit w_start)"
    by (simp add: c0 limit_within_def)
  have r0: "w_reach w_start {#}"
    using w_start_def lim by (rule cn_reach.start)
  have inv: "cn_inv (Some 10) (Some 4) w_start [] [] {} []"
    using lim w_start_def by (rule cn_start_inv)
  have fresh: "fresh_id w_start []"
    by code_simp
  have ok: "post_ok 1000 0 w_start"
    unfolding post_ok_def using fresh c0 by (auto simp: sample_packet_def dp_new_def pk_new_def packet.defs TIME_MAX_def)
  have "map_option (\<lambda>(r, c). (r, existPacketHeader c, myQueue c, callbacks c, outputBuf c, readWriteBufSize c,
        map_option (\<lambda>n. (body n, bodyLength n, capacity n)) (packets c 0)))
      (postPacket (\<lambda>p. 0) 1000 (Some 0) (Some 3) None True w_start) =
      Some (Post_True, True, pq_new, [], db_new, 65536, Some (Live [1, 2, 3], 3, 3))"
    by code_simp
  then obtain c n where c: "postPacket (\<lambda>p. 0) 1000 (Some 0) (Some 3) None True w_start = Some (Post_True, c)" "existPacketHeader c"
    "myQueue c = pq_new" "answered c = {#}" "outputBuf c = db_new" "readWriteBufSize c = 65536" "packets c 0 = Some n"
    "body n = Live [1, 2, 3]" "bodyLength n = 3" "capacity n = 3"
    by (auto simp: answered_def)
  have r1: "w_reach c {#(3, None)#}"
    using cn_reach.post [OF r0 ok c(1)] by (simp add: ticket_def)
  obtain xs us where xs: "set xs = {0}" "cn_inv (Some 10) (Some 4) c xs [] us []"
    using postPacket_ok [OF inv ok, of "\<lambda>p. 0" "Some 3" None True] c(1) by (auto simp: post_outcome_def)
  have "xs = [0]"
    using xs(1) cn_invD(4) [OF xs(2)] by (auto simp: pq_rep_def dest: distinct_singleton)
  moreover have "write_ready (sendable dp_inv dp_body) c [0]"
    using c by (simp add: write_ready_def sendable_def dp_inv_def dp_body_def PTRDIFF_MAX_def db_inv_new)
  moreover have "db_getDataLen (outputBuf c) < readWriteBufSize c"
    using c(5,6) by (simp add: getDataLen_contents db_inv_new contents_new)
  ultimately show thesis
    using r1 c xs(2) that by blast
qed

lemma write_packet_frame:
  assumes "write_packet space encode c = Some c'"
  shows "answered c' = answered c \<and> existPacketHeader c' = existPacketHeader c"
proof -
  obtain p q a n c1 c2 where "pq_pop (packets c) (myQueue c) = Some (p, q)" "write_encode encode n (c\<lparr>myQueue := q\<rparr>) = Some c1"
    "write_channel n c1 = Some c2" "c' = (write_dequeue space n c2)\<lparr>packets := (packets (write_dequeue space n c2))(a := None)\<rparr>"
    using assms by (auto simp: write_packet_def Let_def bind_eq_Some_conv)
  then show ?thesis
    using write_encode_frame(5,6) [of encode n "c\<lparr>myQueue := q\<rparr>" c1] write_channel_frame [of n c1 c2] write_dequeue_frame(5,6) [where space = space and n = n and c = c2]
    by (simp add: answered_def same_conf_def)
qed

lemma w_written:
  obtains c a and packet :: defaultpacket where "w_reach c {#(3, None)#}" "existPacketHeader c" "findChannel (pk_getChannelId packet) (channelPool c) = Some a"
proof -
  obtain c us ws where c: "w_reach c {#(3, None)#}" "existPacketHeader c" "myQueue c = pq_new" "answered c = {#}" "cn_inv (Some 10) (Some 4) c [0] [] us ws"
    "write_ready (sendable dp_inv dp_body) c [0]" "db_getDataLen (outputBuf c) < readWriteBufSize c"
    by (rule w_post)
  have len: "length [0 :: nat] < 2 ^ 31" "length [0 :: nat] < 2 ^ 64"
    by simp_all
  obtain sz c1 where 1: "write_begin 1000 c = Some (sz, c1)"
    using write_begin_runs [OF c(5) len(1)] by blast
  obtain ys where ys: "cn_inv (Some 10) (Some 4) c1 [] ys us ws" "set ys = set [0]" "relinked (set [0]) (packets c) (packets c1)"
    by (rule write_begin_ok [OF c(5) len(2) 1])
  then have inv1: "cn_inv (Some 10) (Some 4) c1 [] [0] us ws"
    using cn_invD(6) [OF ys(1)] by (auto simp: pq_rep_def dest: distinct_singleton)
  have r1: "w_reach c1 {#(3, None)#}"
    by (rule cn_reach.wbegin [OF c(1,3) cn_invD(4) [OF c(5)] len(2) 1])
  have f1: "existPacketHeader c1" "answered c1 = {#}"
    using 1 c(2,4) by (auto simp: write_begin_def Let_def bind_eq_Some_conv answered_def split: if_splits)
  have rdy: "write_ready (sendable dp_inv dp_body) c1 [0]"
    by (rule ready_relinked [OF c(6) default_encodes ys(3)]) (use write_begin_buf [OF 1] c(6) in \<open>simp_all add: write_ready_def\<close>)
  obtain c2 where 2: "write_packet (\<lambda>p. 0) default_encode c1 = Some c2"
    using write_packet_runs [OF inv1 default_encodes rdy, of "\<lambda>p. 0"] c(7) write_begin_buf [OF 1] by auto
  note r2 = cn_reach.wpacket [OF r1 2]
  obtain us' ws' where inv2: "cn_inv (Some 10) (Some 4) c2 [] [] us' ws'"
    by (rule write_packet_ok [OF inv1 2])
  have acc: "account (Some 4) c2 us' = {#(3, None)#}"
    using reach_account [OF r2 inv2] .
  have f2: "existPacketHeader c2" "answered c2 = {#}"
    using write_packet_frame [OF 2] f1 by simp_all
  with acc have "us' \<noteq> {}"
    by (auto simp: account_def)
  moreover from cn_invD(9) [OF inv2] obtain fs where "bij_betw (cof (packets c2)) (set [] \<union> set []) (us' - set ws')" "cp_inv (channelPool c2) us' ws' fs"
    "ids_ok (cid_of (ch_heap (channelPool c2))) us'"
    by (rule xinvD)
  ultimately obtain a where a: "a \<in> set ws'" "a \<in> us'" "cid_of (ch_heap (channelPool c2)) a = ucast (ucast (cid_of (ch_heap (channelPool c2)) a) :: 32 word)"
    by (auto simp: ids_ok_def bij_betw_def)
  let ?i = "cid_of (ch_heap (channelPool c2)) a"
  have "pk_getChannelId (pk_setChannelId ?i dp_new) = ?i"
    using a(3) by (simp add: pk_getChannelId_def pk_setChannelId_def)
  then have "findChannel (pk_getChannelId (pk_setChannelId ?i dp_new)) (channelPool c2) = Some a"
    using findChannel_inv [OF cn_invD(9) [OF inv2]] a(1) by simp
  then show thesis
    by (rule that [OF r2 f2(1)])
qed

text \<open>Property C1. Every accepted request is answered at most once and never lost: in every
  reachable state of a client connection, whatever sequence of posts, wake-ups, replies,
  timeouts, changes of the limit and of the queue timeout, closings and writes led there, the accepted requests are exactly those whose
  handler has been called plus those that are outstanding, counted with multiplicity; the
  outstanding ones own the channels that wait for a reply or belong to a queued packet. A post
  is of a packet that is not queued, under a channel id that is not in use, and with an expire time, its own or
  from a queue timeout that is not 0 (\<open>post_ok\<close>); the default handler is set before the first post and
  kept.\<close>

theorem requests_accounted:
  assumes "cn_reach B space encode d c posts" "pq_rep (packets c) (outputQueue c) xs" "pq_rep (packets c) (myQueue c) ys"
  shows "posts = answered c + outstanding d (ch_heap (channelPool c)) (in_use c (xs @ ys))"
  using cn_reachE [OF assms] by (metis account_def)

theorem requests_accounted_witness:
  "\<exists>c. w_reach c {#(3, None)#} \<and> {#(3, None)#} = answered c + outstanding (Some 4) (ch_heap (channelPool c)) (in_use c [0])"
proof -
  obtain c us ws where c: "w_reach c {#(3, None)#}" "myQueue c = pq_new" "cn_inv (Some 10) (Some 4) c [0] [] us ws"
    by (rule w_post)
  from requests_accounted [OF c(1) cn_invD(4,6) [OF c(3)]] c(1) show ?thesis
    by auto
qed



text \<open>Property C15. A whole write of a reachable connection returns, whatever the socket answers,
  when no other write is under way, the queue is shorter than an \<open>int\<close> can count,
  \<open>_readWriteBufSize\<close> is at most 4 MiB, the output buffer is intact and the encoder appends
  each of the queued packets to such a buffer of at most 4 MiB: the connection it leaves is reachable by the single
  steps of the write with the same accepted requests, the queue of the writing thread is empty
  again, the output queue holds only packets it held before, and the next write may start in
  that state. \<open>DefaultPacketStreamer\<close> is such an encoder for default packets with
  bodies of at most 8 MiB.\<close>

theorem write_returns:
  assumes "cn_reach B space encode d c posts" "myQueue c = pq_new" "pq_rep (packets c) (outputQueue c) xs" "length xs < 2 ^ 31"
    "encodes encode ok" "write_ready ok c xs"
  shows "encodes default_encode (sendable dp_inv dp_body) \<and>
    succeeds (writeData space encode now sock c) (\<lambda>(r, sock', c'). cn_reach B space encode d c' posts \<and> myQueue c' = pq_new \<and>
      (\<exists>xs'. pq_rep (packets c') (outputQueue c') xs' \<and> set xs' \<subseteq> set xs \<and> write_ready ok c' xs'))"
proof -
  obtain us ws where inv: "cn_inv B d c xs [] us ws"
    using cn_reachE [OF assms(1,3), of "[]"] assms(2) by (metis pq_rep_Nil)
  obtain sz c1 where 1: "write_begin now c = Some (sz, c1)"
    using write_begin_runs [OF inv assms(4)] by blast
  have len: "length xs < 2 ^ 64"
    using assms(4) by simp
  obtain ys where ys: "cn_inv B d c1 [] ys us ws" "sz = None \<longrightarrow> ys = []" "\<forall>k. sz = Some k \<longrightarrow> k = length ys" "set ys = set xs"
    "relinked (set xs) (packets c) (packets c1)"
    by (rule write_begin_ok [OF inv len 1])
  note r1 = cn_reach.wbegin [OF assms(1-3) len 1]
  have rdy: "write_ready ok c1 zs" if "set zs \<subseteq> set xs" for zs
    by (rule ready_relinked [OF assms(6,5) ys(5) that]) (use write_begin_buf [OF 1] assms(6) in \<open>simp_all add: write_ready_def\<close>)
  have "succeeds (writeData space encode now sock c) (\<lambda>(r, sock', c'). cn_reach B space encode d c' posts \<and> myQueue c' = pq_new \<and>
      (\<exists>xs'. pq_rep (packets c') (outputQueue c') xs' \<and> set xs' \<subseteq> set xs \<and> write_ready ok c' xs'))"
  proof (cases sz)
    case None
    then show ?thesis
      using 1 r1 ys(1,2) rdy [of "[]"] cn_invD(4,6) [OF ys(1)] by (auto simp: writeData_def intro!: exI [of _ "[]"])
  next
    case (Some k)
    obtain err cnt sock' c2 ys2 where 2: "write_loop 10 space encode k sock c1 = Some (err, cnt, sock', c2)" "cn_reach B space encode d c2 posts"
      "pq_rep (packets c2) (myQueue c2) ys2" "write_ready ok c2 ys2" "set ys2 \<subseteq> set ys"
      using write_loop_reach [OF r1 cn_invD(6) [OF ys(1)] _ rdy assms(5), of k 9 sock] ys(3,4) Some
      by (auto simp: numeral_eq_Suc simp del: write_loop.simps elim!: succeedsE)
    have "outputQueue c2 = outputQueue c1"
      by (rule write_loop_queue [OF 2(1)])
    then have "pq_rep (packets c2) (outputQueue c2) []"
      using cn_invD(4) [OF ys(1)] by simp
    then obtain us' ws' where inv2: "cn_inv B d c2 [] ys2 us' ws'"
      using cn_reachE [OF 2(2) _ 2(3)] by blast
    obtain r c3 zs where 3: "write_end err cnt c2 = Some (r, c3)" "cn_inv B d c3 zs [] us' ws'" "set zs = set ys2"
      "relinked (set ys2) (packets c2) (packets c3)"
      using write_end_ok [OF inv2, of err cnt] by (auto elim!: succeedsE)
    have "write_ready ok c3 zs"
      by (rule ready_relinked [OF 2(4) assms(5) 3(4)]) (use write_end_buf [OF 3(1)] 2(4) 3(3) in \<open>simp_all add: write_ready_def\<close>)
    then show ?thesis
      using 1 Some 2(1,5) 3 ys(4) cn_reach.wend [OF 2(2) 3(1)] cn_invD(4,6) [OF 3(2)] by (auto simp: writeData_def)
  qed
  with default_encodes show ?thesis
    by blast
qed

theorem write_returns_witness:
  "\<exists>c. w_reach c {#(3, None)#} \<and>
     succeeds (writeData (\<lambda>p. 0) default_encode 1000 [(7, 0), (12, 0)] c) (\<lambda>(r, sock', c'). w_reach c' {#(3, None)#} \<and> myQueue c' = pq_new)"
proof -
  obtain c us ws where c: "w_reach c {#(3, None)#}" "myQueue c = pq_new" "cn_inv (Some 10) (Some 4) c [0] [] us ws"
    "write_ready (sendable dp_inv dp_body) c [0]"
    by (rule w_post)
  have "length [0 :: nat] < 2 ^ 31"
    by simp
  from write_returns [OF c(1,2) cn_invD(4) [OF c(3)] this default_encodes c(4), of 1000 "[(7, 0), (12, 0)]"] c(1) show ?thesis
    by (auto elim!: succeeds_mono)
qed

text \<open>Property C23. The queue limit holds. Let every limit set with \<open>setQueueLimit\<close> be at least 1 and at
  most \<open>m\<close>, where \<open>m\<close> is below 2 to the 31st. Then in every reachable state the number of
  outstanding requests is what \<open>getUseListCount\<close> reports and is at most \<open>m\<close>, so it never
  exceeds a limit that is not changed. A post, whether it has waited or not, is accepted only while
  that number is below the limit in force at that moment.\<close>

theorem queue_limit_holds:
  assumes "cn_reach (Some m) space encode d c posts" "pq_rep (packets c) (outputQueue c) xs" "pq_rep (packets c) (myQueue c) ys"
  shows "card (in_use c (xs @ ys)) \<le> m \<and> unat (getUseListCount c) = card (in_use c (xs @ ys)) \<and> unat (queueLimit c) \<le> m \<and>
    (postPacket space now p hnd args block c = Some (Post_True, c') \<or> post_woken space a hnd args c = Some (Post_True, c') \<longrightarrow>
       card (in_use c (xs @ ys)) < unat (queueLimit c))"
proof -
  obtain ws where inv: "cn_inv (Some m) d c xs ys (in_use c (xs @ ys)) ws"
    using cn_reachE [OF assms] by blast
  note iv = cn_invD [OF inv]
  have m: "m < 2 ^ 31" "queueLimit c \<noteq> 0" "unat (queueLimit c) \<le> m" "card (in_use c (xs @ ys)) \<le> m"
    using iv(3) by (auto simp: limit_within_def)
  have count: "unat (getUseListCount c) = card (in_use c (xs @ ys))"
    using getUseListCount_card [OF iv(9)] m by simp
  have "getUseListCount c < queueLimit c" if "postPacket space now p hnd args block c = Some (Post_True, c')"
    using postPacket_room [OF that iv(1) m(2)] .
  moreover have "getUseListCount c < queueLimit c" if "post_woken space a hnd args c = Some (Post_True, c')"
    using post_wait_room [OF that [unfolded post_woken_def]] by (simp add: getUseListCount_def)
  ultimately show ?thesis
    using m count by (auto simp: word_less_nat_alt)
qed

theorem queue_limit_holds_witness:
  "\<exists>c. w_reach c {#(3, None)#} \<and> card (in_use c [0]) \<le> 10 \<and> unat (getUseListCount c) = card (in_use c [0])"
proof -
  obtain c us ws where c: "w_reach c {#(3, None)#}" "cn_inv (Some 10) (Some 4) c [0] [] us ws"
    by (rule w_post)
  from queue_limit_holds [OF c(1) cn_invD(4,6) [OF c(2)]] c(1) show ?thesis
    by auto
qed

text \<open>Property C24. On a connection whose packets have headers, a reply with the id of a waiting request calls the handler of exactly that
  request with its argument, once, and a second reply with the same id is dropped and
  changes nothing.\<close>

theorem reply_once:
  assumes "cn_reach B space encode d c posts" "existPacketHeader c" "findChannel (pk_getChannelId packet) (channelPool c) = Some a"
  shows "succeeds (handlePacket packet c) (\<lambda>(r, c'). r \<and>
    (\<exists>k args. owner d (ch_heap (channelPool c)) a = Some (k, args) \<and> callbacks c' = callbacks c @ [To_Handler k args (Packet_Event packet)]) \<and>
    handlePacket packet c' = Some (False, c'))"
proof -
  obtain xs ys us ws where 1: "cn_inv B d c xs ys us ws"
    using cn_reach_ok [OF assms(1)] by (auto simp: cn_ok_def)
  obtain c' k args where 2: "handlePacket packet c = Some (True, c')" "cn_inv B d c' xs ys (us - {a}) (remove1 a ws)" "existPacketHeader c'"
    "findChannel (pk_getChannelId packet) (channelPool c') = None" "owner d (ch_heap (channelPool c)) a = Some (k, args)"
    "callbacks c' = callbacks c @ [To_Handler k args (Packet_Event packet)]"
    using handlePacket_found [OF 1 refl, of packet a] assms(2,3) by (auto elim!: succeedsE)
  have "handlePacket packet c' = Some (False, c')"
    by (rule handlePacket_unknown) (use cn_invD(1) [OF 2(2)] 2(3,4) in simp_all)
  then show ?thesis
    using 2 by simp
qed

theorem reply_once_witness:
  "\<exists>c packet a. w_reach c {#(3, None)#} \<and> findChannel (pk_getChannelId packet) (channelPool c) = Some a \<and>
     succeeds (handlePacket packet c) (\<lambda>(r, c'). r \<and>
       (\<exists>k args. owner (Some 4) (ch_heap (channelPool c)) a = Some (k, args) \<and> callbacks c' = callbacks c @ [To_Handler k args (Packet_Event packet)]) \<and>
       handlePacket packet c' = Some (False, c'))"
proof -
  obtain c a and packet :: defaultpacket where c: "w_reach c {#(3, None)#}" "existPacketHeader c" "findChannel (pk_getChannelId packet) (channelPool c) = Some a"
    by (rule w_written)
  from reply_once [OF c] c(1,3) show ?thesis
    by blast
qed

end
