(* ===== verification/CStrings.thy ===== *)
theory CStrings
  imports AE_Prelude
begin

text \<open>
  Character data. A text is a list of 8-bit characters; a C string is the part of it before
  the first NUL. The functions of the C library the sources call on characters and strings
  are written out here in the C locale, the conversions of numbers as glibc has them:
  \<open>atoi\<close> truncates the saturated result of \<open>strtol\<close> to an \<open>int\<close>, and
  \<open>scanf\<close> truncates that of \<open>strtoul\<close>. The lemmas relate printing and parsing of
  decimal numbers and give the order of \<open>strcasecmp\<close>.
\<close>

subsection \<open>Characters\<close>

abbreviation NUL :: char where "NUL \<equiv> CHR 0x00"
abbreviation TAB :: char where "TAB \<equiv> CHR 0x09"
abbreviation LF :: char where "LF \<equiv> CHR 0x0A"
abbreviation CR :: char where "CR \<equiv> CHR 0x0D"

abbreviation code :: "char \<Rightarrow> nat" where "code c \<equiv> of_char c"

definition isdigit :: "char \<Rightarrow> bool" where
  "isdigit c \<longleftrightarrow> 48 \<le> code c \<and> code c \<le> 57"

definition isxdigit :: "char \<Rightarrow> bool" where
  "isxdigit c \<longleftrightarrow> isdigit c \<or> 65 \<le> code c \<and> code c \<le> 70 \<or> 97 \<le> code c \<and> code c \<le> 102"

definition isspace :: "char \<Rightarrow> bool" where
  "isspace c \<longleftrightarrow> code c = 32 \<or> 9 \<le> code c \<and> code c \<le> 13"

definition isupper :: "char \<Rightarrow> bool" where
  "isupper c \<longleftrightarrow> 65 \<le> code c \<and> code c \<le> 90"

definition islower :: "char \<Rightarrow> bool" where
  "islower c \<longleftrightarrow> 97 \<le> code c \<and> code c \<le> 122"

definition tolower :: "char \<Rightarrow> char" where
  "tolower c = (if isupper c then char_of (code c + 32) else c)"

definition toupper :: "char \<Rightarrow> char" where
  "toupper c = (if islower c then char_of (code c - 32) else c)"

definition xdigit_val :: "char \<Rightarrow> nat" where
  "xdigit_val c = (if isdigit c then code c - 48 else if code c \<le> 70 then code c - 55 else code c - 87)"

lemma code_less [simp]: "code c < 256"
  by (rule of_char_mod_256 [THEN subst]) simp

lemma code_char_of [simp]: "n < 256 \<Longrightarrow> code (char_of n) = n"
  by simp

lemma tolower_tolower [simp]: "tolower (tolower c) = tolower c"
  by (auto simp: tolower_def isupper_def)

lemma tolower_NUL: "tolower c = NUL \<longleftrightarrow> c = NUL"
proof (cases "isupper c")
  case True
  then have "code (tolower c) \<noteq> 0" "code c \<noteq> 0"
    by (auto simp: tolower_def isupper_def)
  then show ?thesis
    by fastforce
qed (simp add: tolower_def)

text \<open>Evaluation of the character functions on literals.\<close>

lemma char_eq_char_of: "c = char_of (n :: nat) \<longleftrightarrow> take_bit 8 n = of_char c"
  using char_of_eq_iff [of n c] by metis

lemmas c_chars = tolower_def toupper_def isupper_def islower_def isdigit_def isxdigit_def isspace_def char_of_eq_iff

subsection \<open>Tables\<close>

text \<open>A table that is indexed by characters and tabulates a function.\<close>

fun tabulates :: "(int \<Rightarrow> 'a) \<Rightarrow> int \<Rightarrow> 'a list \<Rightarrow> bool" where
  "tabulates f n [] \<longleftrightarrow> True"
| "tabulates f n (x # xs) \<longleftrightarrow> x = f n \<and> tabulates f (n + 1) xs"

lemma tabulates_nth: "tabulates f n xs \<Longrightarrow> i < length xs \<Longrightarrow> xs ! i = f (n + int i)"
proof (induction xs arbitrary: n i)
  case (Cons x xs)
  then show ?case
    by (cases i) (auto simp: algebra_simps)
qed simp

subsection \<open>C strings\<close>

text \<open>The string a \<open>char *\<close> denotes, given the memory from there on.\<close>

definition c_str :: "string \<Rightarrow> string" where
  "c_str s = takeWhile (\<lambda>c. c \<noteq> NUL) s"

definition is_cstr :: "string \<Rightarrow> bool" where
  "is_cstr s \<longleftrightarrow> NUL \<notin> set s"

lemma is_cstr_c_str [simp]: "is_cstr (c_str s)"
  by (auto simp: is_cstr_def c_str_def dest: set_takeWhileD)

lemma c_str_id [simp]: "is_cstr s \<Longrightarrow> c_str s = s"
  by (auto simp: is_cstr_def c_str_def takeWhile_eq_all_conv)

lemma c_str_append_NUL [simp]: "is_cstr s \<Longrightarrow> c_str (s @ NUL # t) = s"
  by (auto simp: is_cstr_def c_str_def takeWhile_append)

text \<open>\<open>strcasecmp\<close> compares the lower-case strings by the codes of their characters.\<close>

fun strcasecmp_less :: "string \<Rightarrow> string \<Rightarrow> bool" where
  "strcasecmp_less s [] \<longleftrightarrow> False"
| "strcasecmp_less [] (d # t) \<longleftrightarrow> True"
| "strcasecmp_less (c # s) (d # t) \<longleftrightarrow>
     code (tolower c) < code (tolower d) \<or> tolower c = tolower d \<and> strcasecmp_less s t"

abbreviation lower :: "string \<Rightarrow> string" where
  "lower s \<equiv> map tolower s"

lemma strcasecmp_less_irrefl [simp]: "\<not> strcasecmp_less s s"
  by (induction s) auto

lemma strcasecmp_less_trans: "strcasecmp_less s t \<Longrightarrow> strcasecmp_less t u \<Longrightarrow> strcasecmp_less s u"
proof (induction s t arbitrary: u rule: strcasecmp_less.induct)
  case (2 d t)
  then show ?case by (cases u) auto
next
  case (3 c s d t)
  then show ?case by (cases u) auto
qed simp

lemma strcasecmp_less_asym: "strcasecmp_less s t \<Longrightarrow> \<not> strcasecmp_less t s"
  using strcasecmp_less_trans strcasecmp_less_irrefl by blast

lemma strcasecmp_less_linear: "strcasecmp_less s t \<or> lower s = lower t \<or> strcasecmp_less t s"
proof (induction s t rule: strcasecmp_less.induct)
  case (1 s)
  then show ?case by (cases s) auto
next
  case (3 c s d t)
  then show ?case by (auto simp: of_char_eq_iff dest: linorder_neqE_nat)
qed simp

lemma strcasecmp_less_lower: "strcasecmp_less (lower s) (lower t) = strcasecmp_less s t"
  by (induction s t rule: strcasecmp_less.induct) auto

lemma strcasecmp_less_neq: "strcasecmp_less s t \<Longrightarrow> lower s \<noteq> lower t"
  by (metis strcasecmp_less_irrefl strcasecmp_less_lower)

lemma strcasecmp_equal: "lower s = lower t \<longleftrightarrow> \<not> strcasecmp_less s t \<and> \<not> strcasecmp_less t s"
  using strcasecmp_less_linear strcasecmp_less_neq by metis

subsection \<open>Numbers\<close>

text \<open>\<open>printf\<close> with \<open>%d\<close> or \<open>%lu\<close> of a number that is not negative.\<close>

definition dec_digit :: "nat \<Rightarrow> char" where
  "dec_digit n = char_of (48 + n)"

fun dec :: "nat \<Rightarrow> string" where
  "dec n = (if n < 10 then [dec_digit n] else dec (n div 10) @ [dec_digit (n mod 10)])"

declare dec.simps [simp del]

definition dec_val :: "string \<Rightarrow> nat" where
  "dec_val s = foldl (\<lambda>n c. 10 * n + (code c - 48)) 0 s"

definition hex_val :: "string \<Rightarrow> nat" where
  "hex_val s = foldl (\<lambda>n c. 16 * n + xdigit_val c) 0 s"

text \<open>An optional sign.\<close>

definition c_sign :: "string \<Rightarrow> bool \<times> string" where
  "c_sign s = (case s of [] \<Rightarrow> (False, s)
     | c # t \<Rightarrow> if c = CHR ''-'' then (True, t) else if c = CHR ''+'' then (False, t) else (False, s))"

definition c_strtol :: "string \<Rightarrow> int" where
  "c_strtol s =
     (let (neg, s) = c_sign (dropWhile isspace s);
          v = int (dec_val (takeWhile isdigit s));
          v = (if neg then - v else v)
      in max (- (2 ^ 63)) (min (2 ^ 63 - 1) v))"

definition c_atoi :: "string \<Rightarrow> int" where
  "c_atoi s = sint (of_int (c_strtol s) :: 32 word)"

text \<open>\<open>sscanf\<close> with \<open>%x\<close>: the value stored in an \<open>int\<close> and the rest of the
  input, or nothing when there is no number.\<close>

definition c_scan_x :: "string \<Rightarrow> (int \<times> string) option" where
  "c_scan_x s =
     (let (neg, s) = c_sign (dropWhile isspace s);
          s = (case s of z # x # t \<Rightarrow> if z = CHR ''0'' \<and> (x = CHR ''x'' \<or> x = CHR ''X'') then t else s | _ \<Rightarrow> s);
          ds = takeWhile isxdigit s;
          v = hex_val ds;
          w = (if v \<ge> 2 ^ 64 then -1 else if neg then - of_nat v else of_nat v) :: 64 word
      in if ds = [] then None else Some (sint (ucast w :: 32 word), dropWhile isxdigit s))"

lemma code_dec_digit: "n < 10 \<Longrightarrow> code (dec_digit n) = 48 + n"
  by (simp add: dec_digit_def)

lemma isdigit_dec_digit [simp]: "n < 10 \<Longrightarrow> isdigit (dec_digit n)"
  by (simp add: isdigit_def code_dec_digit)

lemma dec_digits: "list_all isdigit (dec n)"
  by (induction n rule: dec.induct) (subst dec.simps, simp)

lemma dec_not_Nil [simp]: "dec n \<noteq> []"
  by (subst dec.simps) simp

lemma dec_val_snoc: "dec_val (s @ [c]) = 10 * dec_val s + (code c - 48)"
  by (simp add: dec_val_def)

lemma dec_val_dec [simp]: "dec_val (dec n) = n"
proof (induction n rule: dec.induct)
  case (1 n)
  show ?case
  proof (cases "n < 10")
    case True
    then show ?thesis
      by (subst dec.simps) (simp add: dec_val_def code_dec_digit)
  next
    case False
    with 1 show ?thesis
      by (subst dec.simps) (simp add: dec_val_snoc code_dec_digit)
  qed
qed

lemma isdigit_not_space: "isdigit c \<Longrightarrow> \<not> isspace c"
  by (auto simp: isdigit_def isspace_def)

lemma isdigit_not_sign: "isdigit c \<Longrightarrow> c \<noteq> CHR ''-'' \<and> c \<noteq> CHR ''+''"
  by (auto simp: isdigit_def)

lemma c_strtol_digits:
  assumes "list_all isdigit s" and "s \<noteq> []"
  shows "c_strtol s = min (2 ^ 63 - 1) (int (dec_val s))"
proof -
  obtain c t where s: "s = c # t" "isdigit c" "list_all isdigit t"
    using assms by (cases s) auto
  have tw: "takeWhile isdigit t = t"
    using s(3) by (simp add: takeWhile_eq_all_conv list_all_iff)
  show ?thesis
    using s(2) isdigit_not_space [of c] isdigit_not_sign [of c] by (simp add: c_strtol_def c_sign_def s(1) tw)
qed

lemma sint_of_int_small: "- (2 ^ 31) \<le> k \<Longrightarrow> k < 2 ^ 31 \<Longrightarrow> sint (of_int k :: 32 word) = k"
  by transfer (simp add: signed_take_bit_int_eq_self)

lemma c_atoi_dec: "n < 2 ^ 31 \<Longrightarrow> c_atoi (dec n) = int n"
  using sint_of_int_small [of "int n"] by (simp add: c_atoi_def c_strtol_digits dec_digits)

end
