(* ===== verification/HttpPacket.thy ===== *)
theory HttpPacket
  imports Packets CStrings
begin

text \<open>
  \<open>anet::HTTPPacket\<close> (\<open>network/anet/httppacket.cpp\<close>): the request and status
  line, the headers and the body of an HTTP message, and their encoding. The headers are a
  \<open>std::map\<close> ordered by \<open>strcasecmp\<close>, here the sorted list of its entries; the
  strings an object owns are texts without NUL, NULL is \<open>None\<close>. The body is the byte
  string of the \<open>DefaultPacket\<close> the class derives from, as its operations act on it
  (theory \<open>Packets\<close>), and the output is the data of a \<open>DataBuffer\<close> (theory
  \<open>DataBuffer\<close>). The lemmas show that the headers stay sorted and that their
  accounted length is right, what a lookup finds after each update, and the effect of the
  keep-alive switch.
\<close>

subsection \<open>Headers\<close>

type_synonym headers = "(string \<times> string) list"

text \<open>\<open>find\<close>, \<open>erase\<close> and \<open>insert\<close> of the map.\<close>

fun hd_find :: "string \<Rightarrow> headers \<Rightarrow> (string \<times> string) option" where
  "hd_find k [] = None"
| "hd_find k ((k', v) # hs) =
     (if strcasecmp_less k k' then None else if strcasecmp_less k' k then hd_find k hs else Some (k', v))"

fun hd_erase :: "string \<Rightarrow> headers \<Rightarrow> headers" where
  "hd_erase k [] = []"
| "hd_erase k ((k', v) # hs) =
     (if strcasecmp_less k k' then (k', v) # hs else if strcasecmp_less k' k then (k', v) # hd_erase k hs else hs)"

fun hd_insert :: "string \<Rightarrow> string \<Rightarrow> headers \<Rightarrow> headers" where
  "hd_insert k v [] = [(k, v)]"
| "hd_insert k v ((k', v') # hs) =
     (if strcasecmp_less k k' then (k, v) # (k', v') # hs
      else if strcasecmp_less k' k then (k', v') # hd_insert k v hs else (k', v') # hs)"

subsection \<open>The packet\<close>

datatype http_type = PT_REQUEST | PT_RESPONSE | PT_INVALID

datatype http_version = HTTP_1_0 | HTTP_1_1 | HTTP_UNSUPPORTED

datatype http_method = HM_OPTIONS | HM_HEAD | HM_GET | HM_POST | HM_PUT | HM_DELETE | HM_TRACE | HM_CONNECT
  | HM_UNSUPPORTED

record http_packet =
  hp_type :: http_type
  hp_version :: http_version
  hp_method :: http_method
  hp_URI :: "string option"
  hp_statusCode :: int
  hp_reasonPhrase :: "string option"
  hp_extendMethod :: "string option"
  hp_headers :: headers
  hp_headerLen :: int
  hp_addContentLengthHeader :: bool
  hp_body :: string

definition hp_new :: http_packet where
  "hp_new = \<lparr>hp_type = PT_INVALID, hp_version = HTTP_1_1, hp_method = HM_UNSUPPORTED, hp_URI = None, hp_statusCode = 0,
     hp_reasonPhrase = None, hp_extendMethod = None, hp_headers = [], hp_headerLen = 0, hp_addContentLengthHeader = True,
     hp_body = []\<rparr>"

definition hp_setPacketType :: "http_type \<Rightarrow> http_packet \<Rightarrow> http_packet" where
  "hp_setPacketType type p = (if type = PT_INVALID then p\<lparr>hp_type := PT_INVALID\<rparr> else p\<lparr>hp_type := type\<rparr>)"

definition hp_setVersion :: "http_version \<Rightarrow> http_packet \<Rightarrow> http_packet" where
  "hp_setVersion version p =
     (if version = HTTP_UNSUPPORTED then p\<lparr>hp_version := HTTP_UNSUPPORTED\<rparr> else p\<lparr>hp_version := version\<rparr>)"

definition hp_setMethod :: "http_method \<Rightarrow> http_packet \<Rightarrow> http_packet" where
  "hp_setMethod method p =
     hp_setPacketType PT_REQUEST
       (if method = HM_UNSUPPORTED then p\<lparr>hp_method := HM_UNSUPPORTED\<rparr> else p\<lparr>hp_method := method\<rparr>)"

definition hp_setMethodStr :: "string \<Rightarrow> http_packet \<Rightarrow> http_packet" where
  "hp_setMethodStr method p =
     (if method = ''GET'' then hp_setMethod HM_GET p
      else if method = ''POST'' then hp_setMethod HM_POST p
      else if method = ''HEAD'' then hp_setMethod HM_HEAD p
      else if method = ''OPTIONS'' then hp_setMethod HM_OPTIONS p
      else if method = ''PUT'' then hp_setMethod HM_PUT p
      else if method = ''DELETE'' then hp_setMethod HM_DELETE p
      else if method = ''TRACE'' then hp_setMethod HM_TRACE p
      else if method = ''CONNECT'' then hp_setMethod HM_CONNECT p
      else (hp_setMethod HM_UNSUPPORTED p)\<lparr>hp_extendMethod := Some method\<rparr>)"

definition hp_getMethodString :: "http_packet \<Rightarrow> string option" where
  "hp_getMethodString p =
     (case hp_method p of
        HM_GET \<Rightarrow> Some ''GET'' | HM_POST \<Rightarrow> Some ''POST'' | HM_HEAD \<Rightarrow> Some ''HEAD'' | HM_OPTIONS \<Rightarrow> Some ''OPTIONS''
      | HM_PUT \<Rightarrow> Some ''PUT'' | HM_DELETE \<Rightarrow> Some ''DELETE'' | HM_TRACE \<Rightarrow> Some ''TRACE'' | HM_CONNECT \<Rightarrow> Some ''CONNECT''
      | HM_UNSUPPORTED \<Rightarrow> hp_extendMethod p)"

text \<open>\<open>strdupTrimed\<close>: the loops stop one character before the other end.\<close>

fun trim_front :: "string \<Rightarrow> string" where
  "trim_front (c # d # s) = (if c = CHR '' '' then trim_front (d # s) else c # d # s)"
| "trim_front s = s"

definition strdupTrimed :: "string \<Rightarrow> bool \<Rightarrow> bool \<Rightarrow> string option" where
  "strdupTrimed str front end =
     (if str = [] then None
      else let s = (if front then trim_front str else str);
               s = (if end then rev (trim_front (rev s)) else s)
           in if s = '' '' then None else Some s)"

definition hp_setURI :: "string option \<Rightarrow> http_packet \<Rightarrow> http_packet" where
  "hp_setURI URI p =
     (let p = (if hp_URI p \<noteq> None then p\<lparr>hp_URI := None\<rparr> else p)
      in case URI of None \<Rightarrow> p | Some u \<Rightarrow> p\<lparr>hp_URI := strdupTrimed u True True\<rparr>)"

definition hp_removeHeader :: "string option \<Rightarrow> http_packet \<Rightarrow> bool \<times> http_packet" where
  "hp_removeHeader key p =
     (case key of None \<Rightarrow> (False, p)
      | Some key \<Rightarrow>
          let old = hd_find key (hp_headers p);
              p = p\<lparr>hp_headers := hd_erase key (hp_headers p)\<rparr>
          in case old of None \<Rightarrow> (True, p)
             | Some (oldKey, oldValue) \<Rightarrow>
                 (True, p\<lparr>hp_headerLen := hp_headerLen p - int (length oldKey + length oldValue)\<rparr>))"

definition hp_addHeader :: "string option \<Rightarrow> string option \<Rightarrow> http_packet \<Rightarrow> bool \<times> http_packet" where
  "hp_addHeader key value p =
     (case key of None \<Rightarrow> (False, p)
      | Some k \<Rightarrow>
          case value of None \<Rightarrow> (False, p)
          | Some v \<Rightarrow>
              let p = snd (hp_removeHeader key p);
                  p = p\<lparr>hp_headers := hd_insert k v (hp_headers p)\<rparr>
              in (True, p\<lparr>hp_headerLen := hp_headerLen p + int (length k + length v)\<rparr>))"

definition hp_getHeader :: "string \<Rightarrow> http_packet \<Rightarrow> string option" where
  "hp_getHeader key p = map_option snd (hd_find key (hp_headers p))"

definition hp_setReasonPhrase :: "string option \<Rightarrow> http_packet \<Rightarrow> http_packet" where
  "hp_setReasonPhrase reasonPhrase p =
     (let p = (if hp_reasonPhrase p \<noteq> None then p\<lparr>hp_reasonPhrase := None\<rparr> else p)
      in case reasonPhrase of None \<Rightarrow> p | Some r \<Rightarrow> p\<lparr>hp_reasonPhrase := strdupTrimed r True False\<rparr>)"

definition hp_getReasonPhrase :: "http_packet \<Rightarrow> string" where
  "hp_getReasonPhrase p =
     (case hp_reasonPhrase p of Some r \<Rightarrow> r
      | None \<Rightarrow> if hp_statusCode p = 200 then ''OK'' else if hp_statusCode p = 404 then ''NOT FOUND'' else ''UNKNOWN'')"

definition hp_setStatusCode :: "int \<Rightarrow> http_packet \<Rightarrow> http_packet" where
  "hp_setStatusCode statusCode p =
     (let statusCode = (if statusCode < 100 \<or> statusCode \<ge> 600 then 0 else statusCode)
      in hp_setPacketType PT_RESPONSE (p\<lparr>hp_statusCode := statusCode\<rparr>))"

definition CONNECTION_CLOSE :: string where
  "CONNECTION_CLOSE = ''close''"

definition CONNECTION_KEEP_ALIVE :: string where
  "CONNECTION_KEEP_ALIVE = ''Keep-Alive''"

definition hp_isKeepAlive :: "http_packet \<Rightarrow> bool" where
  "hp_isKeepAlive p =
     (let value = hp_getHeader ''Connection'' p
      in if hp_version p = HTTP_1_0 then value \<noteq> None \<and> value = Some CONNECTION_KEEP_ALIVE
         else \<not> (value \<noteq> None \<and> value = Some CONNECTION_CLOSE))"

definition hp_setKeepAlive :: "bool \<Rightarrow> http_packet \<Rightarrow> http_packet" where
  "hp_setKeepAlive keepAlive p =
     (if hp_isKeepAlive p = keepAlive then p
      else if hp_version p = HTTP_1_0 then
        if keepAlive then snd (hp_addHeader (Some ''Connection'') (Some CONNECTION_KEEP_ALIVE) p)
        else snd (hp_removeHeader (Some ''Connection'') p)
      else
        if keepAlive then snd (hp_removeHeader (Some ''Connection'') p)
        else snd (hp_addHeader (Some ''Connection'') (Some CONNECTION_CLOSE) p))"

subsection \<open>Encoding\<close>

definition version_text :: "http_version \<Rightarrow> string" where
  "version_text v = (if v = HTTP_1_0 then ''HTTP/1.0'' else ''HTTP/1.1'')"

definition hp_encodeStartLine :: "http_packet \<Rightarrow> string \<Rightarrow> bool \<times> string" where
  "hp_encodeStartLine p output =
     (if hp_type p = PT_REQUEST then
        case (hp_getMethodString p, hp_URI p) of
          (Some methodStr, Some uri) \<Rightarrow>
            (True, output @ methodStr @ '' '' @ uri @ '' '' @ version_text (hp_version p) @ [CR, LF])
        | _ \<Rightarrow> (False, output)
      else if hp_statusCode p = 0 then (False, output)
      else (True, output @ version_text (hp_version p) @ '' '' @ take 3 (dec (nat (hp_statusCode p))) @ '' ''
              @ hp_getReasonPhrase p @ [CR, LF]))"

fun hp_encodeEach :: "headers \<Rightarrow> string \<Rightarrow> string" where
  "hp_encodeEach [] output = output"
| "hp_encodeEach ((key, value) # hs) output = hp_encodeEach hs (output @ key @ '': '' @ value @ [CR, LF])"

definition hp_encodeHeaders :: "http_packet \<Rightarrow> string \<Rightarrow> bool \<times> string" where
  "hp_encodeHeaders p output =
     (let output = hp_encodeEach (hp_headers p) output;
          output = (if hp_addContentLengthHeader p \<and> hp_getHeader ''Content-Length'' p = None
                    then output @ ''Content-Length: '' @ dec (length (hp_body p)) @ [CR, LF] else output)
      in (True, output @ [CR, LF]))"

definition hp_encodeBody :: "http_packet \<Rightarrow> string \<Rightarrow> bool \<times> string" where
  "hp_encodeBody p output = (True, if 0 < length (hp_body p) then output @ hp_body p else output)"

definition hp_encode :: "http_packet \<Rightarrow> string \<Rightarrow> bool \<times> string" where
  "hp_encode p output =
     (let (r, output) = hp_encodeStartLine p output
      in if \<not> r then (False, output)
         else let (r, output) = hp_encodeHeaders p output
              in if \<not> r then (False, output) else hp_encodeBody p output)"

definition hp_getSpaceUsed :: "int \<Rightarrow> http_packet \<Rightarrow> int" where
  "hp_getSpaceUsed sizeofHTTPPacket p = hp_headerLen p + sizeofHTTPPacket + int (length (hp_body p))"

subsection \<open>The headers as a map\<close>

definition hd_keys_less :: "string \<Rightarrow> headers \<Rightarrow> bool" where
  "hd_keys_less k hs \<longleftrightarrow> (\<forall>x\<in>set hs. strcasecmp_less k (fst x))"

fun hd_sorted :: "headers \<Rightarrow> bool" where
  "hd_sorted [] \<longleftrightarrow> True"
| "hd_sorted ((k, v) # hs) \<longleftrightarrow> hd_keys_less k hs \<and> hd_sorted hs"

definition hd_len :: "headers \<Rightarrow> int" where
  "hd_len hs = (\<Sum>(k, v)\<leftarrow>hs. int (length k + length v))"

definition hp_inv :: "http_packet \<Rightarrow> bool" where
  "hp_inv p \<longleftrightarrow> hd_sorted (hp_headers p) \<and> hp_headerLen p = hd_len (hp_headers p) \<and>
     (\<forall>(k, v)\<in>set (hp_headers p). is_cstr k \<and> is_cstr v)"

lemma hd_keys_less_mono: "hd_keys_less k hs \<Longrightarrow> strcasecmp_less k' k \<Longrightarrow> hd_keys_less k' hs"
  by (auto simp: hd_keys_less_def intro: strcasecmp_less_trans)

lemma hd_keys_lessD: "hd_keys_less k hs \<Longrightarrow> hd_keys_less k (hd_erase k' hs)"
  by (induction k' hs rule: hd_erase.induct) (auto simp: hd_keys_less_def)

lemma hd_sorted_erase [simp]: "hd_sorted hs \<Longrightarrow> hd_sorted (hd_erase k hs)"
  by (induction k hs rule: hd_erase.induct) (auto simp: hd_keys_lessD)

lemma set_hd_erase: "set (hd_erase k hs) \<subseteq> set hs"
  by (induction k hs rule: hd_erase.induct) auto

lemma set_hd_insert: "set (hd_insert k v hs) \<subseteq> insert (k, v) (set hs)"
  by (induction k v hs rule: hd_insert.induct) auto

lemma hd_sorted_insert [simp]: "hd_sorted hs \<Longrightarrow> hd_sorted (hd_insert k v hs)"
proof (induction k v hs rule: hd_insert.induct)
  case (2 k v k' v' hs)
  then show ?case
    using set_hd_insert [of k v hs]
    by (auto simp: hd_keys_less_def intro: strcasecmp_less_trans)
qed (simp add: hd_keys_less_def)

lemma hd_keys_less_neq: "hd_keys_less k hs \<Longrightarrow> x \<in> set hs \<Longrightarrow> lower (fst x) \<noteq> lower k"
  unfolding hd_keys_less_def using strcasecmp_less_neq by metis

lemma hd_find_eq: "hd_sorted hs \<Longrightarrow> hd_find k hs = List.find (\<lambda>x. lower (fst x) = lower k) hs"
proof (induction k hs rule: hd_find.induct)
  case (2 k k' v hs)
  have "strcasecmp_less k k' \<Longrightarrow> List.find (\<lambda>x. lower (fst x) = lower k) hs = None"
    using hd_keys_less_neq [OF hd_keys_less_mono [of k' hs k]] 2(2) by (auto simp: find_None_iff)
  with 2 show ?case
    by (auto simp: strcasecmp_equal)
qed simp

lemma hd_erase_eq: "hd_sorted hs \<Longrightarrow> hd_erase k hs = filter (\<lambda>x. lower (fst x) \<noteq> lower k) hs"
proof (induction k hs rule: hd_erase.induct)
  case (2 k k' v hs)
  have "filter (\<lambda>x. lower (fst x) \<noteq> lower k) hs = hs" if "hd_keys_less k hs"
    using hd_keys_less_neq [OF that] by (simp add: filter_id_conv)
  moreover have "filter (\<lambda>x. lower (fst x) \<noteq> lower k) hs = hs" if "lower k = lower k'"
    using hd_keys_less_neq [of k' hs] 2(2) that by (simp add: filter_id_conv)
  moreover have "strcasecmp_less k k' \<Longrightarrow> hd_keys_less k hs"
    using 2(2) hd_keys_less_mono by auto
  ultimately show ?case
    using 2 strcasecmp_equal [of k k'] by auto
qed simp

lemma find_filter_neq:
  "List.find (\<lambda>x. lower (fst x) = lower k) (filter (\<lambda>x. lower (fst x) \<noteq> lower k') hs) =
     (if lower k = lower k' then None else List.find (\<lambda>x. lower (fst x) = lower k) hs)"
  by (induction hs) auto

lemma hd_find_erase:
  "hd_sorted hs \<Longrightarrow> hd_find k (hd_erase k' hs) = (if lower k = lower k' then None else hd_find k hs)"
  by (simp add: hd_find_eq find_filter_neq hd_erase_eq [symmetric]) (simp add: hd_erase_eq find_filter_neq)

text \<open>An entry is inserted where no entry has its key.\<close>

definition hd_absent :: "string \<Rightarrow> headers \<Rightarrow> bool" where
  "hd_absent k hs \<longleftrightarrow> (\<forall>x\<in>set hs. lower (fst x) \<noteq> lower k)"

lemma hd_absent_erase: "hd_sorted hs \<Longrightarrow> hd_absent k (hd_erase k hs)"
  by (simp add: hd_absent_def hd_erase_eq)

lemma hd_insert_split:
  "hd_absent k hs \<Longrightarrow> \<exists>xs ys. hs = xs @ ys \<and> hd_insert k v hs = xs @ (k, v) # ys"
proof (induction k v hs rule: hd_insert.induct)
  case (2 k v k' v' hs)
  have "strcasecmp_less k' k" if "\<not> strcasecmp_less k k'"
    using 2(2) that strcasecmp_less_linear [of k k'] by (auto simp: hd_absent_def)
  moreover have "hd_absent k hs"
    using 2(2) by (simp add: hd_absent_def)
  ultimately show ?case
    using 2(1) by (cases "strcasecmp_less k k'") (force intro: exI [of _ "(k', v') # _"])+
qed simp

lemma find_insert_split:
  "hd_absent k (xs @ ys) \<Longrightarrow> List.find (\<lambda>x. lower (fst x) = lower k') (xs @ (k, v) # ys) =
     (if lower k' = lower k then Some (k, v) else List.find (\<lambda>x. lower (fst x) = lower k') (xs @ ys))"
  by (induction xs) (auto simp: hd_absent_def)

lemma hd_find_insert:
  assumes "hd_sorted hs" and "hd_absent k hs"
  shows "hd_find k' (hd_insert k v hs) = (if lower k' = lower k then Some (k, v) else hd_find k' hs)"
proof -
  obtain xs ys where "hs = xs @ ys" "hd_insert k v hs = xs @ (k, v) # ys"
    using hd_insert_split [OF assms(2)] by blast
  then show ?thesis
    using hd_find_eq [OF hd_sorted_insert [OF assms(1), of k v]] hd_find_eq [OF assms(1)] find_insert_split assms(2)
    by simp
qed

lemma hd_len_insert: "hd_absent k hs \<Longrightarrow> hd_len (hd_insert k v hs) = hd_len hs + int (length k + length v)"
  using hd_insert_split [of k hs v] by (auto simp: hd_len_def)

lemma hd_len_erase:
  "hd_sorted hs \<Longrightarrow> hd_len (hd_erase k hs) =
     hd_len hs - (case hd_find k hs of None \<Rightarrow> 0 | Some (k', v) \<Rightarrow> int (length k' + length v))"
  by (induction k hs rule: hd_erase.induct) (auto simp: hd_len_def split: option.splits)

subsection \<open>The contract of the header operations\<close>

text \<open>\<open>get\<close> reads, \<open>add\<close> and \<open>del\<close> update one entry, and \<open>good\<close> is the
  invariant; keys are compared without regard to case. \<open>ver\<close> is the protocol version,
  which the updates keep.\<close>

locale header_map =
  fixes good :: "'p \<Rightarrow> bool" and get :: "string \<Rightarrow> 'p \<Rightarrow> string option"
    and add :: "string \<Rightarrow> string \<Rightarrow> 'p \<Rightarrow> 'p" and del :: "string \<Rightarrow> 'p \<Rightarrow> 'p" and ver :: "'p \<Rightarrow> http_version"
  assumes good_add: "good p \<Longrightarrow> is_cstr k \<Longrightarrow> is_cstr v \<Longrightarrow> good (add k v p)"
    and good_del: "good p \<Longrightarrow> good (del k p)"
    and get_add: "good p \<Longrightarrow> get k' (add k v p) = (if lower k' = lower k then Some v else get k' p)"
    and get_del: "good p \<Longrightarrow> get k' (del k p) = (if lower k' = lower k then None else get k' p)"
    and ver_add: "ver (add k v p) = ver p"
    and ver_del: "ver (del k p) = ver p"
begin

lemma good_fold: "good p \<Longrightarrow> list_all (\<lambda>(k, v). is_cstr k \<and> is_cstr v) kvs \<Longrightarrow> good (fold (\<lambda>(k, v). add k v) kvs p)"
  by (induction kvs arbitrary: p) (auto simp: good_add)

text \<open>After a series of additions the last value added under a key is found.\<close>

lemma get_fold:
  assumes "good p" and "list_all (\<lambda>(k, v). is_cstr k \<and> is_cstr v) kvs"
  shows "get k (fold (\<lambda>(k, v). add k v) kvs p) =
    (case List.find (\<lambda>x. lower (fst x) = lower k) (rev kvs) of Some x \<Rightarrow> Some (snd x) | None \<Rightarrow> get k p)"
  using assms(2)
proof (induction kvs rule: rev_induct)
  case (snoc x kvs)
  obtain k' v' where x: "x = (k', v')"
    by (cases x)
  have "good (fold (\<lambda>(k, v). add k v) kvs p)"
    using snoc.prems assms(1) by (simp add: good_fold)
  with snoc show ?case
    by (auto simp: x get_add)
qed simp

end

definition hp_add :: "string \<Rightarrow> string \<Rightarrow> http_packet \<Rightarrow> http_packet" where
  "hp_add k v p = snd (hp_addHeader (Some k) (Some v) p)"

definition hp_del :: "string \<Rightarrow> http_packet \<Rightarrow> http_packet" where
  "hp_del k p = snd (hp_removeHeader (Some k) p)"

lemma hp_headers_del: "hp_headers (hp_del k p) = hd_erase k (hp_headers p)"
  by (simp add: hp_del_def hp_removeHeader_def Let_def split: option.split)

lemma hp_headers_add: "hp_headers (hp_add k v p) = hd_insert k v (hd_erase k (hp_headers p))"
  using hp_headers_del [of k p] by (simp add: hp_add_def hp_addHeader_def Let_def hp_del_def)

lemma hp_inv_del: "hp_inv p \<Longrightarrow> hp_inv (hp_del k p)"
  using set_hd_erase [of k "hp_headers p"]
  by (auto simp: hp_inv_def hp_del_def hp_removeHeader_def Let_def hd_len_erase split: option.splits)

lemma hp_inv_add:
  assumes "hp_inv p" and "is_cstr k" and "is_cstr v"
  shows "hp_inv (hp_add k v p)"
proof -
  let ?p = "hp_del k p"
  have p: "hp_inv ?p" "hd_absent k (hp_headers ?p)"
    using hp_inv_del [OF assms(1), of k] assms(1) by (simp_all add: hp_headers_del hd_absent_erase hp_inv_def)
  have "hp_add k v p = ?p\<lparr>hp_headers := hd_insert k v (hp_headers ?p), hp_headerLen := hp_headerLen ?p + int (length k + length v)\<rparr>"
    by (simp add: hp_add_def hp_addHeader_def Let_def hp_del_def)
  then show ?thesis
    using p assms(2,3) set_hd_insert [of k v "hp_headers ?p"] by (auto simp: hp_inv_def hd_len_insert)
qed

interpretation hm: header_map hp_inv hp_getHeader hp_add hp_del hp_version
proof unfold_locales
  fix p k k' v
  assume p: "hp_inv p"
  then have s: "hd_sorted (hp_headers p)"
    by (simp add: hp_inv_def)
  show "hp_getHeader k' (hp_add k v p) = (if lower k' = lower k then Some v else hp_getHeader k' p)"
    using s by (simp add: hp_getHeader_def hp_headers_add hd_find_insert hd_absent_erase hd_find_erase)
  show "hp_getHeader k' (hp_del k p) = (if lower k' = lower k then None else hp_getHeader k' p)"
    using s by (simp add: hp_getHeader_def hp_headers_del hd_find_erase)
qed (auto simp: hp_inv_add hp_inv_del, auto simp: hp_add_def hp_del_def hp_addHeader_def hp_removeHeader_def Let_def split: option.splits)

lemma hp_inv_new [inv_intros]: "hp_inv hp_new"
  by (simp add: hp_inv_def hp_new_def hd_len_def)

lemma hp_setKeepAlive_eq:
  "hp_setKeepAlive b p = (if hp_isKeepAlive p = b then p
     else if (hp_version p = HTTP_1_0) = b then hp_add ''Connection'' (if b then CONNECTION_KEEP_ALIVE else CONNECTION_CLOSE) p
     else hp_del ''Connection'' p)"
  by (auto simp: hp_setKeepAlive_def hp_add_def hp_del_def)

text \<open>Adding the entries of a sorted map in their order gives the map again.\<close>

lemma hd_insert_last: "\<forall>x\<in>set hs. strcasecmp_less (fst x) k \<Longrightarrow> hd_insert k v hs = hs @ [(k, v)]"
  by (induction hs) (auto simp: strcasecmp_less_asym)

lemma hd_erase_last: "\<forall>x\<in>set hs. strcasecmp_less (fst x) k \<Longrightarrow> hd_erase k hs = hs"
  by (induction hs) (auto simp: strcasecmp_less_asym)

lemma hd_sorted_append:
  "hd_sorted (xs @ ys) \<longleftrightarrow> hd_sorted xs \<and> hd_sorted ys \<and> (\<forall>x\<in>set xs. hd_keys_less (fst x) ys)"
  by (induction xs) (fastforce simp: hd_keys_less_def)+

lemma hp_add_last:
  assumes "hd_sorted (hp_headers p @ [(k, v)])"
  shows "hp_add k v p = p\<lparr>hp_headers := hp_headers p @ [(k, v)], hp_headerLen := hp_headerLen p + int (length k + length v)\<rparr>"
proof -
  have l: "\<forall>x\<in>set (hp_headers p). strcasecmp_less (fst x) k"
    using assms by (auto simp: hd_sorted_append hd_keys_less_def)
  have "hd_find k (hp_headers p) = None"
    using assms l strcasecmp_less_neq by (fastforce simp: hd_sorted_append hd_find_eq find_None_iff)
  then show ?thesis
    using l by (simp add: hp_add_def hp_addHeader_def hp_removeHeader_def Let_def hd_insert_last hd_erase_last)
qed

lemma hp_add_all:
  "hd_sorted (hp_headers p @ kvs) \<Longrightarrow>
     fold (\<lambda>(k, v). hp_add k v) kvs p = p\<lparr>hp_headers := hp_headers p @ kvs, hp_headerLen := hp_headerLen p + hd_len kvs\<rparr>"
proof (induction kvs arbitrary: p)
  case (Cons x kvs)
  obtain k v where x: "x = (k, v)"
    by (cases x)
  have "hd_sorted (hp_headers p @ [(k, v)])"
    using Cons.prems by (auto simp: x hd_sorted_append hd_keys_less_def)
  from hp_add_last [OF this] Cons show ?case
    by (simp add: x hd_len_def algebra_simps)
qed (simp add: hd_len_def)

section \<open>Properties\<close>

text \<open>Updates of the headers as their callers make them, with C strings as keys and values.\<close>

datatype header_op = AddHeader string string | RemoveHeader string

fun hp_step :: "header_op \<Rightarrow> http_packet \<Rightarrow> http_packet" where
  "hp_step (AddHeader k v) p = snd (hp_addHeader (Some k) (Some v) p)"
| "hp_step (RemoveHeader k) p = snd (hp_removeHeader (Some k) p)"

fun op_ok :: "header_op \<Rightarrow> bool" where
  "op_ok (AddHeader k v) \<longleftrightarrow> is_cstr k \<and> is_cstr v"
| "op_ok (RemoveHeader k) \<longleftrightarrow> is_cstr k"

fun last_update :: "string \<Rightarrow> header_op list \<Rightarrow> string option \<Rightarrow> string option" where
  "last_update k [] r = r"
| "last_update k (AddHeader k' v # ops) r = last_update k ops (if lower k = lower k' then Some v else r)"
| "last_update k (RemoveHeader k' # ops) r = last_update k ops (if lower k = lower k' then None else r)"

lemma hp_steps_ok:
  "hp_inv p \<Longrightarrow> list_all op_ok ops \<Longrightarrow> hp_inv (fold hp_step ops p) \<and>
     hp_getHeader k (fold hp_step ops p) = last_update k ops (hp_getHeader k p)"
proof (induction ops arbitrary: p)
  case (Cons x ops)
  then show ?case
    by (cases x) (auto simp: hp_inv_add hp_inv_del hm.get_add hm.get_del hp_add_def [symmetric] hp_del_def [symmetric])
qed simp

text \<open>Property C35. Any sequence of \<open>addHeader\<close> and \<open>removeHeader\<close> calls with C strings
  as arguments keeps the headers of a new packet strictly sorted by \<open>strcasecmp\<close>, hence free
  of duplicates up to case, with keys and values that contain no NUL, and keeps
  \<open>_headerLen\<close> equal to the total length of the keys and values; a lookup returns the value of the last
  update of that key, whatever its case.\<close>

theorem header_updates:
  assumes "list_all op_ok ops"
  shows "hp_inv (fold hp_step ops hp_new) \<and> hp_getHeader k (fold hp_step ops hp_new) = last_update k ops None"
  using hp_steps_ok [OF hp_inv_new assms, of k] by (simp add: hp_getHeader_def hp_new_def)

theorem header_updates_witness:
  "hp_getHeader ''HOST'' (fold hp_step [AddHeader ''Host'' ''a'', AddHeader ''Age'' ''1'', AddHeader ''host'' ''b'', RemoveHeader ''age''] hp_new) =
     Some ''b''"
  using header_updates [of "[AddHeader ''Host'' ''a'', AddHeader ''Age'' ''1'', AddHeader ''host'' ''b'', RemoveHeader ''age'']" "''HOST''"]
  by (simp add: is_cstr_def c_chars)

text \<open>\<open>setKeepAlive(b)\<close> makes \<open>isKeepAlive\<close> return \<open>b\<close> for both
  protocol versions and whatever headers the packet has, keeps the invariant, and changes no
  header but \<open>Connection\<close>.\<close>

theorem setKeepAlive_effect:
  assumes "hp_inv p"
  shows "hp_isKeepAlive (hp_setKeepAlive b p) = b \<and> hp_inv (hp_setKeepAlive b p) \<and>
    (\<forall>k. lower k \<noteq> lower ''Connection'' \<longrightarrow> hp_getHeader k (hp_setKeepAlive b p) = hp_getHeader k p)"
proof -
  have cs: "is_cstr ''Connection''" "is_cstr CONNECTION_KEEP_ALIVE" "is_cstr CONNECTION_CLOSE"
    "CONNECTION_KEEP_ALIVE \<noteq> CONNECTION_CLOSE"
    by (simp_all add: is_cstr_def CONNECTION_KEEP_ALIVE_def CONNECTION_CLOSE_def)
  show ?thesis
    using cs by (auto simp: hp_setKeepAlive_eq hp_isKeepAlive_def Let_def hm.get_add [OF assms] hm.get_del [OF assms]
        hm.ver_add hm.ver_del hp_inv_add [OF assms] hp_inv_del [OF assms] assms)
qed

theorem setKeepAlive_effect_witness:
  "hp_isKeepAlive (hp_setKeepAlive False hp_new) = False \<and>
   hp_getHeader ''Host'' (hp_setKeepAlive False hp_new) = hp_getHeader ''Host'' hp_new"
  using setKeepAlive_effect [OF hp_inv_new, of False]
  by (auto simp: c_chars)

end
