(* ===== verification/HttpStreamer.thy ===== *)
theory HttpStreamer
  imports HttpPacket
begin

text \<open>
  \<open>anet::HTTPStreamer\<close> and \<open>anet::HTTPStreamingContext\<close>
  (\<open>network/anet/httpstreamer.cpp\<close>, \<open>httpstreamingcontext.cpp\<close>): the
  incremental parser of HTTP messages. A call of \<open>processData\<close> consumes what it can
  of the data that has arrived, and the context remembers where it stopped. The data of the
  buffer is a text; a NUL the code writes over a line end is written out where the line
  stays in the buffer. The lemmas show that the loops end, that a parser that stopped for
  lack of data goes on as if all data had been there, that the size limits hold, and that
  every encoded packet is parsed back.
\<close>

subsection \<open>The context\<close>

datatype http_step = HSS_START_LINE | HSS_MESSAGE_HEADER | HSS_MESSAGE_BODY

datatype http_encoding = HET_NO_BODY | HET_LENGTH | HET_CHUNKED | HET_EOF

datatype chunk_state = CHUNK_SIZE | CHUNK_DATA | CHUNK_DATA_CRLF | TRAILER

record http_context = "http_packet streaming_context" +
  hc_step :: http_step
  hc_chunkState :: chunk_state
  hc_encodingType :: http_encoding
  hc_dataLength :: nat
  hc_drainedLength :: nat
  hc_headersCount :: nat

definition INVALID_DATA :: int where "INVALID_DATA = 1"
definition CONNECTION_CLOSED :: int where "CONNECTION_CLOSED = 2"
definition PKG_TOO_LARGE :: int where "PKG_TOO_LARGE = 3"
definition LENGTH_REQUIRED :: int where "LENGTH_REQUIRED = 411"
definition URI_TOO_LARGE :: int where "URI_TOO_LARGE = 414"
definition VERSION_NOT_SUPPORT :: int where "VERSION_NOT_SUPPORT = 505"
definition TOO_MANY_HEADERS :: int where "TOO_MANY_HEADERS = 499"

text \<open>The constructor leaves \<open>_encodingType\<close> as it finds it (\<open>enc\<close>); it is set
  at the end of the headers.\<close>

definition hc_new :: "http_encoding \<Rightarrow> http_context" where
  "hc_new enc = streaming_context.extend sc_new
     \<lparr>hc_step = HSS_START_LINE, hc_chunkState = CHUNK_SIZE, hc_encodingType = enc, hc_dataLength = 0,
      hc_drainedLength = 0, hc_headersCount = 0\<rparr>"

definition hc_reset :: "http_context \<Rightarrow> http_context" where
  "hc_reset c = sc_reset (c\<lparr>hc_step := HSS_START_LINE, hc_dataLength := 0, hc_drainedLength := 0, hc_headersCount := 0,
     hc_chunkState := CHUNK_SIZE\<rparr>)"

definition hc_setErrorNo :: "int \<Rightarrow> http_context \<Rightarrow> http_context" where
  "hc_setErrorNo e c = c\<lparr>broken := True, errorNo := e, errorString :=
     (if e = INVALID_DATA then Some ''Invalid Data''
      else if e = PKG_TOO_LARGE then Some ''Packet Too Large''
      else if e = LENGTH_REQUIRED then Some ''Length Required''
      else if e = URI_TOO_LARGE then Some ''Request-URI Too Long''
      else if e = VERSION_NOT_SUPPORT then Some ''HTTP Version Not Supported''
      else if e = TOO_MANY_HEADERS then Some ''Too Many Headers''
      else if e = CONNECTION_CLOSED then Some ''Connection closed''
      else None)\<rparr>"

text \<open>The packet of the context and an update of it.\<close>

definition hc_packet :: "http_context \<Rightarrow> http_packet option" where
  "hc_packet c = (case sc_packet c of Some (Regular p) \<Rightarrow> Some p | _ \<Rightarrow> None)"

definition hc_upd :: "(http_packet \<Rightarrow> http_packet) \<Rightarrow> http_context \<Rightarrow> http_context" where
  "hc_upd f c = (case hc_packet c of Some p \<Rightarrow> c\<lparr>sc_packet := Some (Regular (f p))\<rparr> | None \<Rightarrow> c)"

definition hc_drained :: "nat \<Rightarrow> http_context \<Rightarrow> http_context" where
  "hc_drained n c = c\<lparr>hc_drainedLength := hc_drainedLength c + n\<rparr>"

subsection \<open>Characters and lines\<close>

definition URI_LIMIT :: nat where "URI_LIMIT = 1024 * 64"
definition PKG_LIMIT :: nat where "PKG_LIMIT = 67108864"
definition HEADERS_LIMIT :: nat where "HEADERS_LIMIT = 128"

definition hs_table :: "nat list" where
  "hs_table = [
    0, 0, 0, 0, 0, 0, 0, 0, 0, 0, 0, 0, 0, 0, 0, 0, 0, 0, 0, 0, 0, 0, 0, 0, 0, 0, 0, 0, 0, 0, 0, 0, 0, 1, 0, 1, 1,
    1, 1, 1, 0, 0, 1, 1, 0, 1, 1, 0, 1, 1, 1, 1, 1, 1, 1, 1, 1, 1, 0, 0, 0, 0, 0, 0, 0, 1, 1, 1, 1, 1, 1, 1, 1, 1,
    1, 1, 1, 1, 1, 1, 1, 1, 1, 1, 1, 1, 1, 1, 1, 1, 1, 0, 0, 0, 1, 1, 1, 1, 1, 1, 1, 1, 1, 1, 1, 1, 1, 1, 1, 1, 1,
    1, 1, 1, 1, 1, 1, 1, 1, 1, 1, 1, 1, 0, 1, 0, 1, 0, 0, 0, 0, 0, 0, 0, 0, 0, 0, 0, 0, 0, 0, 0, 0, 0, 0, 0, 0, 0,
    0, 0, 0, 0, 0, 0, 0, 0, 0, 0, 0, 0, 0, 0, 0, 0, 0, 0, 0, 0, 0, 0, 0, 0, 0, 0, 0, 0, 0, 0, 0, 0, 0, 0, 0, 0, 0,
    0, 0, 0, 0, 0, 0, 0, 0, 0, 0, 0, 0, 0, 0, 0, 0, 0, 0, 0, 0, 0, 0, 0, 0, 0, 0, 0, 0, 0, 0, 0, 0, 0, 0, 0, 0, 0,
    0, 0, 0, 0, 0, 0, 0, 0, 0, 0, 0, 0, 0, 0, 0, 0, 0, 0, 0, 0, 0, 0, 0, 0, 0, 0, 0, 0, 0, 0, 0, 0, 0, 0]"

definition isTokenCharacter :: "char \<Rightarrow> bool" where
  "isTokenCharacter c \<longleftrightarrow> hs_table ! code c \<noteq> 0"

definition hs_ws :: "char \<Rightarrow> bool" where
  "hs_ws c \<longleftrightarrow> CHR '' '' = c \<or> TAB = c"

definition getPkgLimit :: "nat \<Rightarrow> nat" where
  "getPkgLimit pkgLimit = (if pkgLimit = 0 then PKG_LIMIT else pkgLimit)"

fun hs_findLF :: "string \<Rightarrow> nat option" where
  "hs_findLF [] = None"
| "hs_findLF (c # s) = (if LF = c then Some 0 else map_option Suc (hs_findLF s))"

text \<open>The result is the offset of the line end and the length of the line with it.\<close>

definition findCRLF :: "string \<Rightarrow> (nat \<times> nat) option" where
  "findCRLF s = (case hs_findLF s of None \<Rightarrow> None
     | Some i \<Rightarrow> let len = Suc i in Some (if len > 1 \<and> CR = s ! (i - 1) then i - 1 else i, len))"

definition isValidToken :: "string \<Rightarrow> bool" where
  "isValidToken s = list_all isTokenCharacter s"

definition isValidDigits :: "string \<Rightarrow> bool" where
  "isValidDigits s = list_all isdigit s"

definition isValidStatusCode :: "string \<Rightarrow> bool" where
  "isValidStatusCode s \<longleftrightarrow> length s = 3 \<and> isdigit (s ! 0) \<and> isdigit (s ! 1) \<and> isdigit (s ! 2)"

definition findNextWhiteSpace :: "string \<Rightarrow> nat" where
  "findNextWhiteSpace s = length (takeWhile (\<lambda>c. \<not> hs_ws c) s)"

definition skipWhiteSpaces :: "string \<Rightarrow> string" where
  "skipWhiteSpaces s = dropWhile hs_ws s"

definition replaceZero :: "string \<Rightarrow> string" where
  "replaceZero s = map (\<lambda>c. if NUL = c then CHR '' '' else c) s"

definition hs_trim :: "string \<Rightarrow> string" where
  "hs_trim s = rev (dropWhile hs_ws (rev (dropWhile hs_ws s)))"

subsection \<open>The start line\<close>

text \<open>The line is the text up to its end, which is a NUL now; \<open>p\<close> is an offset.\<close>

definition processRequestLine :: "http_context \<Rightarrow> string \<Rightarrow> (bool \<times> http_context) option" where
  "processRequestLine context start =
     (let p = findNextWhiteSpace start in
      if p = length start then Some (False, hc_setErrorNo INVALID_DATA context)
      else do {
        check (hc_packet context \<noteq> None);
        let method = take p start;
        if \<not> isValidToken method then Some (False, hc_setErrorNo INVALID_DATA context)
        else do {
          let context = hc_upd (hp_setPacketType PT_REQUEST) context;
          let context = hc_upd (hp_setMethodStr (c_str method)) context;
          let start = skipWhiteSpaces (drop (p + 1) start);
          if start = [] then Some (False, hc_setErrorNo INVALID_DATA context)
          else do {
            let p = findNextWhiteSpace start;
            let uri = replaceZero (take p start);
            if p = length start then Some (False, hc_setErrorNo INVALID_DATA context)
            else if p > URI_LIMIT then Some (False, hc_setErrorNo URI_TOO_LARGE context)
            else do {
              let context = hc_upd (hp_setURI (Some (c_str uri))) context;
              let start = skipWhiteSpaces (drop (p + 1) start);
              if c_str start = ''HTTP/1.0'' then Some (True, hc_upd (hp_setVersion HTTP_1_0) context)
              else if c_str start = ''HTTP/1.1'' then Some (True, hc_upd (hp_setVersion HTTP_1_1) context)
              else Some (False, hc_setErrorNo VERSION_NOT_SUPPORT (hc_upd (hp_setVersion HTTP_UNSUPPORTED) context)) } } } })"

definition processStatusLine :: "http_context \<Rightarrow> string \<Rightarrow> (bool \<times> http_context) option" where
  "processStatusLine context start =
     (let p = findNextWhiteSpace start in
      if p = length start then Some (False, hc_setErrorNo INVALID_DATA context)
      else do {
        check (hc_packet context \<noteq> None);
        let version = c_str (take p start);
        let context = hc_upd (hp_setPacketType PT_RESPONSE) context;
        if version \<noteq> ''HTTP/1.0'' \<and> version \<noteq> ''HTTP/1.1''
        then Some (False, hc_setErrorNo VERSION_NOT_SUPPORT (hc_upd (hp_setVersion HTTP_UNSUPPORTED) context))
        else do {
          let context = hc_upd (hp_setVersion (if version = ''HTTP/1.0'' then HTTP_1_0 else HTTP_1_1)) context;
          let start = skipWhiteSpaces (drop (p + 1) start);
          if start = [] then Some (False, hc_setErrorNo INVALID_DATA context)
          else do {
            let p = findNextWhiteSpace start;
            let code = c_str (take p start);
            if \<not> isValidStatusCode code then Some (False, hc_setErrorNo INVALID_DATA context)
            else do {
              let context = hc_upd (hp_setStatusCode (c_atoi code)) context;
              if p = length start then Some (True, context)
              else do {
                let start = skipWhiteSpaces (drop (p + 1) start);
                if start \<noteq> [] then Some (True, hc_upd (hp_setReasonPhrase (Some (c_str start))) context)
                else Some (True, context) } } } } })"

text \<open>The factory of HTTP packets is not part of the streamer: \<open>create\<close> is its
  \<open>createPacket(0)\<close>.\<close>

definition processStartLine ::
  "http_packet option \<Rightarrow> nat \<Rightarrow> string \<Rightarrow> http_context \<Rightarrow> (bool \<times> string \<times> http_context) option" where
  "processStartLine create pkgLimit databuffer context =
     (case findCRLF databuffer of
        None \<Rightarrow>
          if length databuffer > getPkgLimit pkgLimit then Some (False, databuffer, hc_setErrorNo PKG_TOO_LARGE context)
          else Some (False, databuffer, context)
      | Some (cr, len) \<Rightarrow> do {
          let databuffer = databuffer[cr := NUL];
          if len > getPkgLimit pkgLimit then Some (False, databuffer, hc_setErrorNo PKG_TOO_LARGE context)
          else do {
            check (sc_packet context = None);
            packet \<leftarrow> create;
            let context = sc_setPacket (Some (Regular packet)) context;
            let line = take cr databuffer;
            (rc, context) \<leftarrow> (if take 5 (c_str line) = ''HTTP/'' then processStatusLine context line
                                 else processRequestLine context line);
            Some (rc, drop len databuffer, hc_drained len context) } })"

subsection \<open>Headers\<close>

definition processPerHeaderLine :: "string \<Rightarrow> http_packet \<Rightarrow> bool \<times> http_packet" where
  "processPerHeaderLine line packet =
     (let key = takeWhile (\<lambda>c. CHR '':'' \<noteq> c) line in
      if length key = length line then (False, packet)
      else let value = replaceZero (hs_trim (drop (Suc (length key)) line))
           in (True, snd (hp_addHeader (Some (c_str key)) (Some value) packet)))"

definition hs_headerLine :: "string \<Rightarrow> http_context \<Rightarrow> http_context" where
  "hs_headerLine line context =
     (let context = hc_upd (\<lambda>packet. snd (processPerHeaderLine line packet)) context;
          context = context\<lparr>hc_headersCount := hc_headersCount context + 1\<rparr>
      in if hc_headersCount context > HEADERS_LIMIT then hc_setErrorNo TOO_MANY_HEADERS context else context)"

lemma hs_findLF_less: "hs_findLF s = Some i \<Longrightarrow> i < length s"
  by (induction s arbitrary: i) (auto split: if_splits)

lemma findCRLF_bounds: "findCRLF s = Some (cr, len) \<Longrightarrow> cr < len \<and> 0 < len \<and> len \<le> length s"
  by (auto simp: findCRLF_def Let_def Suc_le_eq split: option.splits if_splits dest: hs_findLF_less)

function hs_headers_loop :: "nat \<Rightarrow> string \<Rightarrow> http_context \<Rightarrow> bool \<times> string \<times> http_context" where
  "hs_headers_loop pkgLimit databuffer context =
     (case findCRLF databuffer of
        None \<Rightarrow>
          if length databuffer + hc_drainedLength context > getPkgLimit pkgLimit
          then (False, databuffer, hc_setErrorNo PKG_TOO_LARGE context)
          else (False, databuffer, context)
      | Some (cr, drainLength) \<Rightarrow>
          if hc_drainedLength context + drainLength > getPkgLimit pkgLimit
          then (False, databuffer, hc_setErrorNo PKG_TOO_LARGE context)
          else if cr = 0 then (True, drop drainLength databuffer, hc_drained drainLength context)
          else hs_headers_loop pkgLimit (drop drainLength databuffer)
                 (hc_drained drainLength (hs_headerLine (take cr databuffer) context)))"
  by pat_completeness auto
termination
  by (relation "measure (\<lambda>(l, b, c). length b)") (auto dest: findCRLF_bounds)

declare hs_headers_loop.simps [simp del]

definition processHeadersOrTrailers :: "nat \<Rightarrow> string \<Rightarrow> http_context \<Rightarrow> (bool \<times> string \<times> http_context) option" where
  "processHeadersOrTrailers pkgLimit databuffer context = do {
     check (hc_packet context \<noteq> None);
     Some (hs_headers_loop pkgLimit databuffer context) }"

definition messageHeadersEnd :: "nat \<Rightarrow> http_context \<Rightarrow> (bool \<times> http_context) option" where
  "messageHeadersEnd pkgLimit context = do {
     packet \<leftarrow> hc_packet context;
     case hp_getHeader ''Transfer-Encoding'' packet of
       None \<Rightarrow>
         (case hp_getHeader ''Content-Length'' packet of
            None \<Rightarrow>
              if PT_RESPONSE = hp_type packet then Some (True, context\<lparr>hc_encodingType := HET_EOF\<rparr>)
              else Some (True, context\<lparr>hc_encodingType := HET_NO_BODY\<rparr>)
          | Some contentLength \<Rightarrow>
              if \<not> isValidDigits contentLength then Some (False, hc_setErrorNo INVALID_DATA context)
              else let len = c_atoi contentLength in
                if len > 0 then
                  let context = context\<lparr>hc_encodingType := HET_LENGTH, hc_dataLength := nat len\<rparr>
                  in if nat len + hc_drainedLength context > getPkgLimit pkgLimit
                     then Some (False, hc_setErrorNo PKG_TOO_LARGE context)
                     else Some (True, context)
                else Some (True, context\<lparr>hc_encodingType := HET_NO_BODY\<rparr>))
     | Some encodingType \<Rightarrow>
         if ''chunked'' = encodingType then Some (True, context\<lparr>hc_encodingType := HET_CHUNKED\<rparr>)
         else Some (False, hc_setErrorNo INVALID_DATA context) }"

definition processHeaders :: "nat \<Rightarrow> string \<Rightarrow> http_context \<Rightarrow> (bool \<times> string \<times> http_context) option" where
  "processHeaders pkgLimit databuffer context = do {
     (r, databuffer, context) \<leftarrow> processHeadersOrTrailers pkgLimit databuffer context;
     if r then do {
       (r, context) \<leftarrow> messageHeadersEnd pkgLimit context;
       Some (r, databuffer, context) }
     else Some (False, databuffer, context) }"

subsection \<open>The body\<close>

definition processLengthBody :: "string \<Rightarrow> http_context \<Rightarrow> (bool \<times> string \<times> http_context) option" where
  "processLengthBody databuffer context = do {
     check (hc_packet context \<noteq> None);
     let bufferLength = length databuffer;
     let n = hc_dataLength context;
     if bufferLength \<ge> n
     then Some (True, drop n databuffer,
            hc_drained n (hc_upd (\<lambda>p. p\<lparr>hp_body := hp_body p @ take n databuffer\<rparr>) context))
     else Some (False, [],
            hc_drained bufferLength ((hc_upd (\<lambda>p. p\<lparr>hp_body := hp_body p @ databuffer\<rparr>) context)
              \<lparr>hc_dataLength := n - bufferLength\<rparr>)) }"

definition processEOFBody :: "string \<Rightarrow> http_context \<Rightarrow> (bool \<times> string \<times> http_context) option" where
  "processEOFBody databuffer context = do {
     check (hc_packet context \<noteq> None);
     Some (eof context, [], hc_upd (\<lambda>p. p\<lparr>hp_body := hp_body p @ databuffer\<rparr>) context) }"

definition processChunkSize :: "nat \<Rightarrow> string \<Rightarrow> http_context \<Rightarrow> bool \<times> string \<times> http_context" where
  "processChunkSize pkgLimit databuffer context =
     (case findCRLF databuffer of
        None \<Rightarrow>
          if length databuffer + hc_drainedLength context > getPkgLimit pkgLimit
          then (False, databuffer, hc_setErrorNo PKG_TOO_LARGE context)
          else (False, databuffer, context)
      | Some (cr, drainLength) \<Rightarrow>
          let databuffer = databuffer[cr := NUL] in
          if hc_drainedLength context + drainLength > getPkgLimit pkgLimit
          then (False, databuffer, hc_setErrorNo PKG_TOO_LARGE context)
          else
            let line = c_str (skipWhiteSpaces (take cr databuffer));
                (chunkSize, c) = (case c_scan_x line of None \<Rightarrow> (-1, NUL)
                   | Some (v, rest) \<Rightarrow> (v, case rest of [] \<Rightarrow> NUL | c # _ \<Rightarrow> c))
            in if chunkSize < 0 \<or> (NUL \<noteq> c \<and> CHR '';'' \<noteq> c)
               then (False, databuffer, hc_setErrorNo INVALID_DATA context)
               else
                 let context = context\<lparr>hc_dataLength := nat chunkSize\<rparr>;
                     databuffer = drop drainLength databuffer;
                     context = hc_drained drainLength context
                 in if hc_dataLength context = 0 then (True, databuffer, context\<lparr>hc_chunkState := TRAILER\<rparr>)
                    else if hc_drainedLength context + hc_dataLength context > getPkgLimit pkgLimit
                    then (False, databuffer, hc_setErrorNo PKG_TOO_LARGE context)
                    else (True, databuffer, context\<lparr>hc_chunkState := CHUNK_DATA\<rparr>))"

definition getCRLF :: "string \<Rightarrow> http_context \<Rightarrow> bool \<times> string \<times> http_context" where
  "getCRLF databuffer context =
     (case databuffer of
        [] \<Rightarrow> (False, databuffer, context)
      | [c] \<Rightarrow>
          if LF = c then (True, [], hc_drained 1 context)
          else if CR \<noteq> c then (False, databuffer, hc_setErrorNo INVALID_DATA context)
          else (False, [], hc_drained 1 context)
      | c # d # rest \<Rightarrow>
          if LF = c then (True, d # rest, hc_drained 1 context)
          else if CR = c \<and> LF = d then (True, rest, hc_drained 2 context)
          else (False, databuffer, hc_setErrorNo INVALID_DATA context))"

lemma processChunkSize_shorter:
  "processChunkSize l b c = (True, b', c') \<Longrightarrow> length b' < length b"
  using findCRLF_bounds [of b]
  by (fastforce simp: processChunkSize_def Let_def split: option.splits prod.splits if_splits)

lemma processChunkSize_suffix: "processChunkSize l b c = (True, b', c') \<Longrightarrow> \<exists>n. b' = drop n b"
  using findCRLF_bounds [of b]
  by (fastforce simp: processChunkSize_def Let_def split: option.splits prod.splits if_splits)

lemma getCRLF_shorter: "getCRLF b c = (True, b', c') \<Longrightarrow> length b' < length b"
  by (auto simp: getCRLF_def split: list.splits if_splits)

lemma processLengthBody_le:
  "processLengthBody b c = Some (r, b', c') \<Longrightarrow> length b' \<le> length b"
  by (auto simp: processLengthBody_def Let_def split: if_splits)

function hs_chunked_loop :: "nat \<Rightarrow> string \<Rightarrow> http_context \<Rightarrow> (bool \<times> string \<times> http_context) option" where
  "hs_chunked_loop pkgLimit databuffer context =
     (case hc_chunkState context of
        CHUNK_SIZE \<Rightarrow>
          (case processChunkSize pkgLimit databuffer context of
             (False, databuffer, context) \<Rightarrow> Some (False, databuffer, context)
           | (True, databuffer', context) \<Rightarrow> hs_chunked_loop pkgLimit databuffer' context)
      | CHUNK_DATA \<Rightarrow>
          (case processLengthBody databuffer context of
             None \<Rightarrow> None
           | Some (False, databuffer, context) \<Rightarrow> Some (False, databuffer, context)
           | Some (True, databuffer', context) \<Rightarrow>
               hs_chunked_loop pkgLimit databuffer' (context\<lparr>hc_chunkState := CHUNK_DATA_CRLF\<rparr>))
      | CHUNK_DATA_CRLF \<Rightarrow>
          (case getCRLF databuffer context of
             (False, databuffer, context) \<Rightarrow> Some (False, databuffer, context)
           | (True, databuffer', context) \<Rightarrow> hs_chunked_loop pkgLimit databuffer' (context\<lparr>hc_chunkState := CHUNK_SIZE\<rparr>))
      | TRAILER \<Rightarrow> processHeadersOrTrailers pkgLimit databuffer context)"
  by pat_completeness auto
termination
  by (relation "measures [\<lambda>(l, b, c). length b, \<lambda>(l, b, c). if hc_chunkState c = CHUNK_DATA then 1 else 0]")
    (auto dest: processChunkSize_shorter [OF sym] getCRLF_shorter [OF sym] processLengthBody_le)

declare hs_chunked_loop.simps [simp del]

definition processBody :: "nat \<Rightarrow> string \<Rightarrow> http_context \<Rightarrow> (bool \<times> string \<times> http_context) option" where
  "processBody pkgLimit databuffer context =
     (case hc_encodingType context of
        HET_NO_BODY \<Rightarrow> Some (True, databuffer, context)
      | HET_LENGTH \<Rightarrow> processLengthBody databuffer context
      | HET_CHUNKED \<Rightarrow> hs_chunked_loop pkgLimit databuffer context
      | HET_EOF \<Rightarrow> processEOFBody databuffer context)"

subsection \<open>processData\<close>

text \<open>The cases of the \<open>switch\<close>, each of which falls through to the next.\<close>

definition hs_body :: "nat \<Rightarrow> string \<Rightarrow> http_context \<Rightarrow> (string \<times> http_context) option" where
  "hs_body pkgLimit databuffer context = do {
     (r, databuffer, context) \<leftarrow> processBody pkgLimit databuffer context;
     Some (databuffer, if r then context\<lparr>completed := True\<rparr> else context) }"

definition hs_header :: "nat \<Rightarrow> string \<Rightarrow> http_context \<Rightarrow> (string \<times> http_context) option" where
  "hs_header pkgLimit databuffer context = do {
     (r, databuffer, context) \<leftarrow> processHeaders pkgLimit databuffer context;
     if r then hs_body pkgLimit databuffer (context\<lparr>hc_step := HSS_MESSAGE_BODY\<rparr>) else Some (databuffer, context) }"

definition hs_start :: "http_packet option \<Rightarrow> nat \<Rightarrow> string \<Rightarrow> http_context \<Rightarrow> (string \<times> http_context) option" where
  "hs_start create pkgLimit databuffer context = do {
     (r, databuffer, context) \<leftarrow> processStartLine create pkgLimit databuffer context;
     if r then hs_header pkgLimit databuffer (context\<lparr>hc_step := HSS_MESSAGE_HEADER\<rparr>) else Some (databuffer, context) }"

definition hs_step :: "http_packet option \<Rightarrow> nat \<Rightarrow> string \<Rightarrow> http_context \<Rightarrow> (string \<times> http_context) option" where
  "hs_step create pkgLimit databuffer context =
     (case hc_step context of
        HSS_START_LINE \<Rightarrow> hs_start create pkgLimit databuffer context
      | HSS_MESSAGE_HEADER \<Rightarrow> hs_header pkgLimit databuffer context
      | HSS_MESSAGE_BODY \<Rightarrow> hs_body pkgLimit databuffer context)"

definition hs_processData ::
  "http_packet option \<Rightarrow> nat \<Rightarrow> string \<Rightarrow> http_context \<Rightarrow> (bool \<times> string \<times> http_context) option" where
  "hs_processData create pkgLimit databuffer context = do {
     (databuffer, context) \<leftarrow> hs_step create pkgLimit databuffer context;
     let context =
       (if eof context then
          let packet = hc_packet context in
          if packet \<noteq> None \<and> hp_type (the packet) = PT_REQUEST \<or> \<not> completed context \<and> \<not> broken context
          then hc_setErrorNo CONNECTION_CLOSED context else context
        else context);
     Some (broken context \<noteq> True, databuffer, context) }"

subsection \<open>Resuming after a lack of data\<close>

lemma hs_findLF_append: "hs_findLF s = Some i \<Longrightarrow> hs_findLF (s @ t) = Some i"
  by (induction s arbitrary: i) auto

lemma findCRLF_append: "findCRLF s = Some r \<Longrightarrow> findCRLF (s @ t) = Some r"
  using hs_findLF_less [of s] hs_findLF_append [of s _ t]
  by (fastforce simp: findCRLF_def Let_def nth_append split: option.splits if_splits)

lemma context_simps [simp]:
  "broken (hc_setErrorNo e c)" "completed (hc_setErrorNo e c) = completed c" "eof (hc_setErrorNo e c) = eof c"
  "broken (hc_upd f c) = broken c" "completed (hc_upd f c) = completed c" "eof (hc_upd f c) = eof c"
  "broken (hc_drained n c) = broken c" "completed (hc_drained n c) = completed c" "eof (hc_drained n c) = eof c"
  "hc_drainedLength (hc_drained n c) = hc_drainedLength c + n" "hc_drainedLength (hc_upd f c) = hc_drainedLength c"
  "hc_drainedLength (hc_setErrorNo e c) = hc_drainedLength c"
  "hc_headersCount (hc_drained n c) = hc_headersCount c" "hc_headersCount (hc_upd f c) = hc_headersCount c"
  "hc_headersCount (hc_setErrorNo e c) = hc_headersCount c"
  "hc_chunkState (hc_drained n c) = hc_chunkState c" "hc_chunkState (hc_upd f c) = hc_chunkState c"
  "hc_chunkState (hc_setErrorNo e c) = hc_chunkState c"
  "hc_encodingType (hc_drained n c) = hc_encodingType c" "hc_encodingType (hc_upd f c) = hc_encodingType c"
  "hc_encodingType (hc_setErrorNo e c) = hc_encodingType c"
  "hc_step (hc_drained n c) = hc_step c" "hc_step (hc_upd f c) = hc_step c" "hc_step (hc_setErrorNo e c) = hc_step c"
  "hc_dataLength (hc_drained n c) = hc_dataLength c" "hc_dataLength (hc_upd f c) = hc_dataLength c"
  "hc_dataLength (hc_setErrorNo e c) = hc_dataLength c"
  by (auto simp: hc_setErrorNo_def hc_upd_def hc_drained_def split: option.splits)

lemma packet_simps [simp]:
  "hc_packet (hc_upd f c) = map_option f (hc_packet c)"
  "hc_packet (hc_drained n c) = hc_packet c" "hc_packet (hc_setErrorNo e c) = hc_packet c"
  "hc_packet (c\<lparr>hc_dataLength := d\<rparr>) = hc_packet c" "hc_packet (c\<lparr>hc_headersCount := d\<rparr>) = hc_packet c"
  "hc_packet (c\<lparr>hc_chunkState := cs\<rparr>) = hc_packet c" "hc_packet (c\<lparr>hc_encodingType := en\<rparr>) = hc_packet c"
  "hc_packet (c\<lparr>hc_step := st\<rparr>) = hc_packet c" "hc_packet (c\<lparr>completed := b\<rparr>) = hc_packet c"
  by (auto simp: hc_packet_def hc_upd_def hc_drained_def hc_setErrorNo_def split: option.splits any_packet.splits)

text \<open>The part of a context the parsing of headers and bodies does not touch.\<close>

definition hc_frame :: "http_context \<Rightarrow> bool \<times> bool \<times> http_step \<times> http_encoding \<times> bool" where
  "hc_frame c = (eof c, completed c, hc_step c, hc_encodingType c, hc_packet c = None)"

lemma hc_frame_simps [simp]:
  "hc_frame (hc_drained n c) = hc_frame c" "hc_frame (hc_upd f c) = hc_frame c" "hc_frame (hc_setErrorNo e c) = hc_frame c"
  "hc_frame (c\<lparr>hc_dataLength := d\<rparr>) = hc_frame c" "hc_frame (c\<lparr>hc_headersCount := d\<rparr>) = hc_frame c"
  "hc_frame (c\<lparr>hc_chunkState := cs\<rparr>) = hc_frame c"
  by (simp_all add: hc_frame_def)

lemma headerLine_frame [simp]:
  "hc_frame (hs_headerLine li c) = hc_frame c" "hc_chunkState (hs_headerLine li c) = hc_chunkState c"
  "hc_dataLength (hs_headerLine li c) = hc_dataLength c" "hc_drainedLength (hs_headerLine li c) = hc_drainedLength c"
  by (simp_all add: hs_headerLine_def Let_def)

lemma headers_loop_frame:
  "hs_headers_loop l b c = (r, b', c') \<Longrightarrow>
     hc_frame c' = hc_frame c \<and> hc_chunkState c' = hc_chunkState c \<and> hc_dataLength c' = hc_dataLength c"
proof (induction l b c rule: hs_headers_loop.induct)
  case (1 l b c)
  show ?case
    using 1 by (auto simp: hs_headers_loop.simps [of l b c] split: option.splits if_splits)
qed

lemma headers_loop_suffix: "hs_headers_loop l b c = (r, b', c') \<Longrightarrow> \<exists>n. b' = drop n b"
proof (induction l b c rule: hs_headers_loop.induct)
  case (1 l b c)
  have refl: "\<exists>n. b = drop n b"
    by (rule exI [of _ 0]) simp
  have step: "\<exists>n. b' = drop n b" if "b' = drop m (drop k b)" for m k
    using that by auto
  show ?case
    using 1 refl step by (auto simp: hs_headers_loop.simps [of l b c] simp del: drop_drop split: option.splits if_splits) blast+
qed

lemma headers_loop_resume:
  assumes "hs_headers_loop l b c = (r, b1, c1)"
  shows "(r \<longrightarrow> hs_headers_loop l (b @ x) c = (True, b1 @ x, c1)) \<and>
    (\<not> r \<and> \<not> broken c1 \<longrightarrow> hs_headers_loop l (b @ x) c = hs_headers_loop l (b1 @ x) c1)"
  using assms
proof (induction l b c rule: hs_headers_loop.induct)
  case (1 l b c)
  show ?case
  proof (cases "findCRLF b")
    case None
    then have "b1 = b \<and> (\<not> broken c1 \<longrightarrow> c1 = c) \<and> \<not> r"
      using 1(2) by (auto simp: hs_headers_loop.simps [of l b c] split: if_splits)
    then show ?thesis
      by auto
  next
    case (Some y)
    obtain cr len where y: "y = (cr, len)"
      by (cases y)
    have bx: "findCRLF (b @ x) = Some (cr, len)" "len \<le> length b" "cr < len"
      using findCRLF_append [of b _ x] findCRLF_bounds [of b] Some y by auto
    then have dx: "drop len (b @ x) = drop len b @ x" "take cr (b @ x) = take cr b"
      by simp_all
    note unf = hs_headers_loop.simps [of l b c] hs_headers_loop.simps [of l "b @ x" c]
    consider "hc_drainedLength c + len > getPkgLimit l" | "hc_drainedLength c + len \<le> getPkgLimit l" "cr = 0"
      | "hc_drainedLength c + len \<le> getPkgLimit l" "cr \<noteq> 0"
      by linarith
    then show ?thesis
    proof cases
      case 3
      let ?c = "hc_drained len (hs_headerLine (take cr b) c)"
      have eq: "hs_headers_loop l b c = hs_headers_loop l (drop len b) ?c"
        "hs_headers_loop l (b @ x) c = hs_headers_loop l (drop len b @ x) ?c"
        using Some y bx dx 3 by (simp_all add: unf)
      show ?thesis
        using 1(1) [OF Some y [symmetric]] 1(2) 3 unfolding eq by simp
    qed (use 1(2) Some y bx dx in \<open>auto simp: unf\<close>)
  qed
qed

text \<open>Contexts that agree but for \<open>_dataLength\<close>, which is dead once a body or chunk
  is complete.\<close>

definition but_len :: "http_context \<Rightarrow> http_context \<Rightarrow> bool" where
  "but_len c c' \<longleftrightarrow> c\<lparr>hc_dataLength := 0\<rparr> = c'\<lparr>hc_dataLength := 0\<rparr>"

fun same_result :: "(bool \<times> string \<times> http_context) option \<Rightarrow> (bool \<times> string \<times> http_context) option \<Rightarrow> bool" where
  "same_result (Some (r, b, c)) (Some (r', b', c')) \<longleftrightarrow> r = r' \<and> b = b' \<and> but_len c c'"
| "same_result None None \<longleftrightarrow> True"
| "same_result _ _ \<longleftrightarrow> False"

lemma but_len_refl [simp]: "but_len c c"
  by (simp add: but_len_def)

lemma same_result_refl [simp]: "same_result r r"
  by (cases r) auto

lemma but_len_update [simp]: "but_len (c\<lparr>hc_dataLength := d\<rparr>) (c\<lparr>hc_dataLength := e\<rparr>)"
  by (simp add: but_len_def)

lemma but_len_iff: "but_len c c' \<longleftrightarrow> (\<exists>d. c' = c\<lparr>hc_dataLength := d\<rparr>)"
proof
  assume "but_len c c'"
  then have "c' = c\<lparr>hc_dataLength := hc_dataLength c'\<rparr>"
    unfolding but_len_def by (metis (mono_tags, lifting) http_context.update_convs(4) http_context.surjective http_context.unfold_congs(4))
  then show "\<exists>d. c' = c\<lparr>hc_dataLength := d\<rparr>" ..
qed (auto simp: but_len_def)

lemma but_len_sym: "but_len c c' \<Longrightarrow> but_len c' c"
  by (simp add: but_len_def)

lemma but_len_completed: "but_len c c' \<Longrightarrow> but_len (c\<lparr>completed := v\<rparr>) (c'\<lparr>completed := v\<rparr>)"
  by (auto simp: but_len_iff intro!: exI [of _ "hc_dataLength c'"])

lemma dataLength_commute:
  "hc_drained n (c\<lparr>hc_dataLength := d\<rparr>) = (hc_drained n c)\<lparr>hc_dataLength := d\<rparr>"
  "hc_upd f (c\<lparr>hc_dataLength := d\<rparr>) = (hc_upd f c)\<lparr>hc_dataLength := d\<rparr>"
  "hc_setErrorNo e (c\<lparr>hc_dataLength := d\<rparr>) = (hc_setErrorNo e c)\<lparr>hc_dataLength := d\<rparr>"
  "hs_headerLine li (c\<lparr>hc_dataLength := d\<rparr>) = (hs_headerLine li c)\<lparr>hc_dataLength := d\<rparr>"
  by (auto simp: hc_drained_def hc_upd_def hc_setErrorNo_def hs_headerLine_def Let_def split: option.splits)

lemma headers_loop_dataLength:
  "hs_headers_loop l b (c\<lparr>hc_dataLength := d\<rparr>) =
     (case hs_headers_loop l b c of (r, b', c') \<Rightarrow> (r, b', c'\<lparr>hc_dataLength := d\<rparr>))"
proof (induction l b c rule: hs_headers_loop.induct)
  case (1 l b c)
  show ?case
    using 1 by (auto simp: hs_headers_loop.simps [of l b c] hs_headers_loop.simps [of l b "c\<lparr>hc_dataLength := d\<rparr>"]
        dataLength_commute split: option.splits)
qed

lemma chunkSize_dataLength:
  "processChunkSize l b (c\<lparr>hc_dataLength := d\<rparr>) = processChunkSize l b c \<or>
   (\<exists>b' c'. processChunkSize l b c = (False, b', c') \<and>
      processChunkSize l b (c\<lparr>hc_dataLength := d\<rparr>) = (False, b', c'\<lparr>hc_dataLength := d\<rparr>))"
  by (auto simp: processChunkSize_def Let_def dataLength_commute split: option.splits prod.splits)

lemma getCRLF_dataLength:
  "getCRLF b (c\<lparr>hc_dataLength := d\<rparr>) = (case getCRLF b c of (r, b', c') \<Rightarrow> (r, b', c'\<lparr>hc_dataLength := d\<rparr>))"
  by (auto simp: getCRLF_def dataLength_commute split: list.splits)

lemma getCRLF_state: "getCRLF b c = (r, b', c') \<Longrightarrow> hc_chunkState c' = hc_chunkState c"
  by (auto simp: getCRLF_def split: list.splits if_splits)

lemma chunked_dataLength:
  assumes "hc_chunkState c \<noteq> CHUNK_DATA"
  shows "same_result (hs_chunked_loop l b (c\<lparr>hc_dataLength := d\<rparr>)) (hs_chunked_loop l b c)"
proof -
  have cs: "same_result (hs_chunked_loop l b (c\<lparr>hc_dataLength := d\<rparr>)) (hs_chunked_loop l b c)"
    if "hc_chunkState c = CHUNK_SIZE" for b c
    using chunkSize_dataLength [of l b d c] that
    by (auto simp: hs_chunked_loop.simps [of l b] but_len_def)
  show ?thesis
  proof (cases "hc_chunkState c")
    case CHUNK_DATA_CRLF
    obtain r b' c' where g: "getCRLF b c = (r, b', c')"
      by (cases "getCRLF b c") auto
    have eq: "c'\<lparr>hc_chunkState := CHUNK_SIZE, hc_dataLength := d\<rparr> = c'\<lparr>hc_dataLength := d, hc_chunkState := CHUNK_SIZE\<rparr>"
      by simp
    have "same_result (hs_chunked_loop l b' (c'\<lparr>hc_dataLength := d, hc_chunkState := CHUNK_SIZE\<rparr>))
        (hs_chunked_loop l b' (c'\<lparr>hc_chunkState := CHUNK_SIZE\<rparr>))"
      unfolding eq [symmetric] by (rule cs) simp
    with CHUNK_DATA_CRLF g show ?thesis
      by (cases r) (auto simp: hs_chunked_loop.simps [of l b] getCRLF_dataLength but_len_def)
  next
    case TRAILER
    then show ?thesis
      by (auto simp: hs_chunked_loop.simps [of l b] processHeadersOrTrailers_def headers_loop_dataLength but_len_def
          split: prod.splits)
  qed (use assms cs in auto)
qed

lemma chunkSize_resume:
  assumes "processChunkSize l b c = (r, b1, c1)"
  shows "(r \<longrightarrow> processChunkSize l (b @ x) c = (True, b1 @ x, c1)) \<and> (\<not> r \<and> \<not> broken c1 \<longrightarrow> b1 = b \<and> c1 = c)"
proof (cases "findCRLF b")
  case None
  then show ?thesis
    using assms by (auto simp: processChunkSize_def split: if_splits)
next
  case (Some y)
  obtain cr len where y: "y = (cr, len)"
    by (cases y)
  have bx: "findCRLF (b @ x) = Some (cr, len)" "len \<le> length b" "cr < len"
    using findCRLF_append [of b _ x] findCRLF_bounds [of b] Some y by auto
  define li where "li = c_str (skipWhiteSpaces (take cr (b[cr := NUL])))"
  define sc where "sc = (case c_scan_x li of None \<Rightarrow> (-1, NUL) | Some (v, rest) \<Rightarrow> (v, case rest of [] \<Rightarrow> NUL | c # _ \<Rightarrow> c))"
  have sx: "c_str (skipWhiteSpaces (take cr ((b @ x)[cr := NUL]))) = li"
    "drop len ((b @ x)[cr := NUL]) = drop len b @ x" "drop len (b[cr := NUL]) = drop len b"
    using bx by (simp_all add: li_def list_update_append)
  obtain v ch where v: "sc = (v, ch)"
    by (cases sc)
  note eqs = processChunkSize_def Let_def sx li_def [symmetric] sc_def [symmetric] v prod.case option.case
  show ?thesis
    using assms unfolding eqs Some bx(1) y by (auto split: if_splits)
qed

lemma lengthBody_resume:
  assumes "processLengthBody b c = Some (r, b1, c1)"
  shows "(r \<longrightarrow> processLengthBody (b @ x) c = Some (True, b1 @ x, c1)) \<and>
    (\<not> r \<longrightarrow> b1 = [] \<and> hc_chunkState c1 = hc_chunkState c \<and> same_result (processLengthBody x c1) (processLengthBody (b @ x) c))"
proof (cases "hc_dataLength c \<le> length b")
  case True
  then show ?thesis
    using assms by (auto simp: processLengthBody_def Let_def split: if_splits)
next
  case False
  obtain p where p: "hc_packet c = Some p"
    using assms by (cases "hc_packet c") (auto simp: processLengthBody_def)
  let ?n = "hc_dataLength c"
  define c2 where "c2 = c\<lparr>sc_packet := Some (Regular (p\<lparr>hp_body := hp_body p @ b\<rparr>)), hc_dataLength := ?n - length b,
    hc_drainedLength := hc_drainedLength c + length b\<rparr>"
  have c1: "\<not> r" "b1 = []" "c1 = c2"
    using assms False p by (auto simp: processLengthBody_def Let_def c2_def hc_upd_def hc_drained_def)
  have p2: "hc_packet c2 = Some (p\<lparr>hp_body := hp_body p @ b\<rparr>)" "hc_dataLength c2 = ?n - length b"
    "hc_chunkState c2 = hc_chunkState c"
    by (simp_all add: c2_def hc_packet_def)
  show ?thesis
    using False p c1 p2
    by (auto simp: processLengthBody_def Let_def but_len_def hc_drained_def hc_upd_def) (auto simp: c2_def)
qed

text \<open>A lone CR at the end of the data is consumed; it is followed by LF in every
  well-formed message.\<close>

lemma getCRLF_append: "getCRLF b c = (True, b1, c1) \<Longrightarrow> getCRLF (b @ x) c = (True, b1 @ x, c1)"
  by (cases b rule: remdups_adj.cases) (auto simp: getCRLF_def hc_drained_def split: if_splits list.splits)

lemma getCRLF_resume:
  assumes "getCRLF b c = (r, b1, c1)" and "b \<noteq> [] \<Longrightarrow> last b = CR \<Longrightarrow> x \<noteq> [] \<Longrightarrow> hd x = LF"
    and "\<not> r" "\<not> broken c1" "x \<noteq> []"
  shows "getCRLF (b1 @ x) c1 = getCRLF (b @ x) c"
proof -
  consider "b = []" | d where "b = [d]" | d e t where "b = d # e # t"
    by (cases b rule: remdups_adj.cases) auto
  then show ?thesis
    using assms by cases (auto simp: getCRLF_def hc_drained_def neq_Nil_conv split: if_splits list.splits)
qed

lemma last_of_drop: "\<exists>n. b' = drop n b \<Longrightarrow> b' \<noteq> [] \<Longrightarrow> last b' = last b \<and> b \<noteq> []"
  by auto

lemma getCRLF_suffix: "getCRLF b c = (True, b', c') \<Longrightarrow> \<exists>n. b' = drop n b"
proof -
  assume "getCRLF b c = (True, b', c')"
  then have "b' = drop 1 b \<or> b' = drop 2 b"
    by (auto simp: getCRLF_def eval_nat_numeral split: list.splits if_splits)
  then show ?thesis
    by blast
qed

lemma lengthBody_suffix: "processLengthBody b c = Some (True, b', c') \<Longrightarrow> \<exists>n. b' = drop n b"
  by (auto simp: processLengthBody_def Let_def split: if_splits)

lemma lengthBody_state: "processLengthBody b c = Some (r, b', c') \<Longrightarrow> hc_chunkState c' = hc_chunkState c"
  by (auto simp: processLengthBody_def Let_def split: if_splits)

text \<open>The data of a chunk that arrives in two parts.\<close>

lemma chunked_data_split:
  assumes st: "hc_chunkState c = CHUNK_DATA" "hc_chunkState c' = CHUNK_DATA"
    and same: "same_result (processLengthBody b' c') (processLengthBody b c)"
  shows "same_result (hs_chunked_loop l b' c') (hs_chunked_loop l b c)"
proof (cases "processLengthBody b c")
  case None
  then show ?thesis
    using st same by (cases "processLengthBody b' c'") (auto simp: hs_chunked_loop.simps [of l b] hs_chunked_loop.simps [of l b'])
next
  case (Some y)
  obtain r b2 c2 where y: "y = (r, b2, c2)"
    by (cases y)
  obtain c2' where p1: "processLengthBody b' c' = Some (r, b2, c2')" "but_len c2 c2'"
    using same Some y by (cases "processLengthBody b' c'") (auto simp: but_len_def)
  then obtain d where p: "processLengthBody b' c' = Some (r, b2, c2')" "c2' = c2\<lparr>hc_dataLength := d\<rparr>"
    by (auto simp: but_len_iff)
  have eq: "c2'\<lparr>hc_chunkState := CHUNK_DATA_CRLF\<rparr> = c2\<lparr>hc_chunkState := CHUNK_DATA_CRLF, hc_dataLength := d\<rparr>"
    by (simp add: p(2))
  show ?thesis
  proof (cases r)
    case True
    have "same_result (hs_chunked_loop l b2 (c2'\<lparr>hc_chunkState := CHUNK_DATA_CRLF\<rparr>))
        (hs_chunked_loop l b2 (c2\<lparr>hc_chunkState := CHUNK_DATA_CRLF\<rparr>))"
      unfolding eq by (rule chunked_dataLength) simp
    then show ?thesis
      using st Some y p(1) True by (simp add: hs_chunked_loop.simps [of l b] hs_chunked_loop.simps [of l b'])
  next
    case False
    then show ?thesis
      using st Some y p by (simp add: hs_chunked_loop.simps [of l b] hs_chunked_loop.simps [of l b'] but_len_def)
  qed
qed

lemma chunked_resume:
  assumes "hs_chunked_loop l b c = Some (r, b1, c1)"
    and "hc_chunkState c1 = CHUNK_DATA_CRLF \<Longrightarrow> b \<noteq> [] \<Longrightarrow> last b = CR \<Longrightarrow> x \<noteq> [] \<Longrightarrow> hd x = LF"
  shows "(r \<longrightarrow> hs_chunked_loop l (b @ x) c = Some (True, b1 @ x, c1)) \<and>
    (\<not> r \<and> \<not> broken c1 \<longrightarrow> x \<noteq> [] \<longrightarrow> same_result (hs_chunked_loop l (b1 @ x) c1) (hs_chunked_loop l (b @ x) c))"
  using assms
proof (induction l b c rule: hs_chunked_loop.induct)
  case (1 l b c)
  note unf = hs_chunked_loop.simps [of l b c] hs_chunked_loop.simps [of l "b @ x" c]
  show ?case
  proof (cases "hc_chunkState c")
    case CHUNK_SIZE
    obtain r' b' c' where p: "processChunkSize l b c = (r', b', c')"
      by (cases "processChunkSize l b c") auto
    show ?thesis
    proof (cases r')
      case True
      have "b' \<noteq> [] \<Longrightarrow> last b' = last b \<and> b \<noteq> []"
        using last_of_drop [OF processChunkSize_suffix] p True by simp
      moreover have "hs_chunked_loop l b c = hs_chunked_loop l b' c'" "hs_chunked_loop l (b @ x) c = hs_chunked_loop l (b' @ x) c'"
        using chunkSize_resume [OF p, of x] p True CHUNK_SIZE by (simp_all add: unf)
      ultimately show ?thesis
        using 1(1) [OF CHUNK_SIZE p [symmetric]] 1(4,5) True by simp
    next
      case False
      then show ?thesis
        using chunkSize_resume [OF p, of x] p CHUNK_SIZE 1(4) by (auto simp: unf)
    qed
  next
    case CHUNK_DATA
    obtain r' b' c' where p: "processLengthBody b c = Some (r', b', c')"
      using 1(4) CHUNK_DATA by (cases "processLengthBody b c") (auto simp: unf)
    show ?thesis
    proof (cases r')
      case True
      let ?c = "c'\<lparr>hc_chunkState := CHUNK_DATA_CRLF\<rparr>"
      have "b' \<noteq> [] \<Longrightarrow> last b' = last b \<and> b \<noteq> []"
        using last_of_drop [OF lengthBody_suffix] p True by simp
      moreover have "hs_chunked_loop l b c = hs_chunked_loop l b' ?c" "hs_chunked_loop l (b @ x) c = hs_chunked_loop l (b' @ x) ?c"
        using lengthBody_resume [OF p, of x] p True CHUNK_DATA by (simp_all add: unf)
      ultimately show ?thesis
        using 1(2) [OF CHUNK_DATA p refl _ refl] 1(4,5) True by simp
    next
      case False
      then have "same_result (hs_chunked_loop l x c') (hs_chunked_loop l (b @ x) c)"
        using lengthBody_resume [OF p, of x] CHUNK_DATA by (intro chunked_data_split) auto
      then show ?thesis
        using lengthBody_resume [OF p, of x] p CHUNK_DATA 1(4) False by (auto simp: unf(1))
    qed
  next
    case CHUNK_DATA_CRLF
    obtain r' b' c' where p: "getCRLF b c = (r', b', c')"
      by (cases "getCRLF b c") auto
    show ?thesis
    proof (cases r')
      case True
      let ?c = "c'\<lparr>hc_chunkState := CHUNK_SIZE\<rparr>"
      have "b' \<noteq> [] \<Longrightarrow> last b' = last b \<and> b \<noteq> []"
        using last_of_drop [OF getCRLF_suffix] p True by simp
      moreover have "hs_chunked_loop l b c = hs_chunked_loop l b' ?c" "hs_chunked_loop l (b @ x) c = hs_chunked_loop l (b' @ x) ?c"
        using getCRLF_append [of b c b' c' x] p True CHUNK_DATA_CRLF by (simp_all add: unf)
      ultimately show ?thesis
        using 1(3) [OF CHUNK_DATA_CRLF p [symmetric]] 1(4,5) True by simp
    next
      case False
      then have r: "r = False" "b1 = b'" "c1 = c'" "hc_chunkState c' = CHUNK_DATA_CRLF"
        using p CHUNK_DATA_CRLF 1(4) getCRLF_state [OF p] by (auto simp: unf)
      then have "x \<noteq> [] \<Longrightarrow> \<not> broken c' \<Longrightarrow> getCRLF (b' @ x) c' = getCRLF (b @ x) c"
        using getCRLF_resume [OF p _ False, of x] 1(5) by simp
      then show ?thesis
        using r CHUNK_DATA_CRLF by (auto simp: unf(2) hs_chunked_loop.simps [of l "b' @ x" c'])
    qed
  next
    case TRAILER
    then show ?thesis
      using 1(4) headers_loop_resume [of l b c r b1 c1 x] headers_loop_frame [of l b c r b1 c1]
      by (auto simp: unf hs_chunked_loop.simps [of l "b1 @ x" c1] processHeadersOrTrailers_def hc_frame_def)
  qed
qed

lemma chunkSize_frame: "processChunkSize l b c = (r, b', c') \<Longrightarrow> hc_frame c' = hc_frame c"
  by (auto simp: processChunkSize_def Let_def split: option.splits prod.splits if_splits)

lemma getCRLF_frame: "getCRLF b c = (r, b', c') \<Longrightarrow> hc_frame c' = hc_frame c"
  by (auto simp: getCRLF_def split: list.splits if_splits)

lemma lengthBody_frame: "processLengthBody b c = Some (r, b', c') \<Longrightarrow> hc_frame c' = hc_frame c"
  by (auto simp: processLengthBody_def Let_def split: if_splits)

lemma chunked_frame: "hs_chunked_loop l b c = Some (r, b', c') \<Longrightarrow> hc_frame c' = hc_frame c"
proof (induction l b c rule: hs_chunked_loop.induct)
  case (1 l b c)
  show ?case
    using 1 by (auto simp: hs_chunked_loop.simps [of l b c] processHeadersOrTrailers_def
        split: chunk_state.splits prod.splits bool.splits option.splits if_splits
        dest!: chunkSize_frame getCRLF_frame lengthBody_frame headers_loop_frame)
qed

lemma processBody_frame: "processBody l b c = Some (r, b', c') \<Longrightarrow> hc_frame c' = hc_frame c"
  by (auto simp: processBody_def processEOFBody_def split: http_encoding.splits if_splits dest!: lengthBody_frame chunked_frame)

text \<open>An error that has been set stays.\<close>

lemma headers_loop_broken: "hs_headers_loop l b c = (r, b', c') \<Longrightarrow> broken c \<Longrightarrow> broken c'"
proof (induction l b c rule: hs_headers_loop.induct)
  case (1 l b c)
  have "broken (hs_headerLine li c)" if "broken c" for li c
    using that by (simp add: hs_headerLine_def Let_def)
  with 1 show ?case
    by (auto simp: hs_headers_loop.simps [of l b c] split: option.splits if_splits)
qed

lemma chunkSize_broken: "processChunkSize l b c = (r, b', c') \<Longrightarrow> broken c \<Longrightarrow> broken c'"
  by (auto simp: processChunkSize_def Let_def split: option.splits prod.splits if_splits)

lemma getCRLF_broken: "getCRLF b c = (r, b', c') \<Longrightarrow> broken c \<Longrightarrow> broken c'"
  by (auto simp: getCRLF_def split: list.splits if_splits)

lemma lengthBody_broken: "processLengthBody b c = Some (r, b', c') \<Longrightarrow> broken c \<Longrightarrow> broken c'"
  by (auto simp: processLengthBody_def Let_def split: if_splits)

lemma chunked_broken: "hs_chunked_loop l b c = Some (r, b', c') \<Longrightarrow> broken c \<Longrightarrow> broken c'"
proof (induction l b c rule: hs_chunked_loop.induct)
  case (1 l b c)
  show ?case
    using 1 by (auto simp: hs_chunked_loop.simps [of l b c] processHeadersOrTrailers_def
        split: chunk_state.splits prod.splits bool.splits option.splits if_splits
        dest: chunkSize_broken getCRLF_broken lengthBody_broken headers_loop_broken)
qed

lemma hs_body_broken: "hs_body l b c = Some (b', c') \<Longrightarrow> broken c \<Longrightarrow> broken c'"
  by (auto simp: hs_body_def processBody_def processEOFBody_def bind_eq_Some_conv
      split: http_encoding.splits if_splits dest: lengthBody_broken chunked_broken)

lemma messageHeadersEnd_broken: "messageHeadersEnd l c = Some (r, c') \<Longrightarrow> broken c \<Longrightarrow> broken c'"
  by (auto simp: messageHeadersEnd_def Let_def split: option.splits if_splits bind_splits)

lemma processHeaders_broken:
  assumes "processHeaders l b c = Some (r, b', c')" and "broken c"
  shows "broken c'"
proof -
  obtain r2 b2 c2 where lp: "hs_headers_loop l b c = (r2, b2, c2)"
    by (cases "hs_headers_loop l b c")
  have "broken c2"
    using lp assms(2) by (rule headers_loop_broken)
  then show ?thesis
    using assms(1) lp messageHeadersEnd_broken [of l c2]
    by (cases "hc_packet c"; cases r2)
      (auto simp: processHeaders_def processHeadersOrTrailers_def bind_eq_Some_conv)
qed

lemma hs_header_broken: "hs_header l b c = Some (b', c') \<Longrightarrow> broken c \<Longrightarrow> broken c'"
  by (auto simp: hs_header_def bind_eq_Some_conv split: if_splits dest: processHeaders_broken dest!: hs_body_broken)

definition same_stop :: "(string \<times> http_context) option \<Rightarrow> (string \<times> http_context) option \<Rightarrow> bool" where
  "same_stop = rel_option (\<lambda>(b, c) (b', c'). b = b' \<and> but_len c c')"

lemma same_stop_refl [simp]: "same_stop x x"
  by (auto simp: same_stop_def intro!: option.rel_refl)

text \<open>The condition on what follows a CR at the end of the data.\<close>

definition cr_ok :: "string \<Rightarrow> http_context \<Rightarrow> string \<Rightarrow> bool" where
  "cr_ok b c x \<longleftrightarrow> (hc_chunkState c = CHUNK_DATA_CRLF \<and> b \<noteq> [] \<and> last b = CR \<longrightarrow> hd x = LF)"

lemma processBody_resume:
  assumes "processBody l b c = Some (r, b1, c1)" and "\<not> broken c1" and "\<not> eof c" and "cr_ok b c1 x" and "x \<noteq> []"
  shows "(r \<longrightarrow> processBody l (b @ x) c = Some (True, b1 @ x, c1)) \<and>
    (\<not> r \<longrightarrow> same_result (processBody l (b1 @ x) c1) (processBody l (b @ x) c))"
proof -
  have enc: "hc_encodingType c1 = hc_encodingType c"
    using processBody_frame [OF assms(1)] by (simp add: hc_frame_def)
  show ?thesis
  proof (cases "hc_encodingType c")
    case HET_NO_BODY
    then show ?thesis
      using assms(1) by (simp add: processBody_def)
  next
    case HET_LENGTH
    then show ?thesis
      using assms(1) enc lengthBody_resume [of b c r b1 c1 x] by (auto simp: processBody_def)
  next
    case HET_CHUNKED
    then show ?thesis
      using assms enc chunked_resume [of l b c r b1 c1 x] by (auto simp: processBody_def cr_ok_def)
  next
    case HET_EOF
    then obtain p where p: "hc_packet c = Some p" "\<not> r" "b1 = []" "c1 = hc_upd (\<lambda>p. p\<lparr>hp_body := hp_body p @ b\<rparr>) c"
      using assms(1,3) by (auto simp: processBody_def processEOFBody_def split: if_splits)
    have "hc_upd (\<lambda>p. p\<lparr>hp_body := hp_body p @ x\<rparr>) c1 = hc_upd (\<lambda>p. p\<lparr>hp_body := hp_body p @ b @ x\<rparr>) c"
      using p(1,4) by (auto simp: hc_upd_def hc_packet_def)
    then show ?thesis
      using HET_EOF enc p by (simp add: processBody_def processEOFBody_def)
  qed
qed

lemma hs_body_resume:
  assumes b: "hs_body l b c = Some (b1, c1)" and ok: "\<not> broken c1" "\<not> eof c" "\<not> completed c" "cr_ok b c1 x" "x \<noteq> []"
    and st: "hc_step c = HSS_MESSAGE_BODY"
  shows "hc_step c1 = HSS_MESSAGE_BODY \<and> (completed c1 \<longrightarrow> hs_body l (b @ x) c = Some (b1 @ x, c1)) \<and>
    (\<not> completed c1 \<longrightarrow> same_stop (hs_step cr l (b1 @ x) c1) (hs_body l (b @ x) c))"
proof -
  obtain r c2 where p: "processBody l b c = Some (r, b1, c2)" "c1 = (if r then c2\<lparr>completed := True\<rparr> else c2)"
    using b by (auto simp: hs_body_def bind_eq_Some_conv)
  have fr: "completed c2 = completed c" "hc_step c2 = hc_step c" "hc_chunkState c1 = hc_chunkState c2" "broken c1 = broken c2"
    using processBody_frame [OF p(1)] by (simp_all add: hc_frame_def p(2))
  have res: "(r \<longrightarrow> processBody l (b @ x) c = Some (True, b1 @ x, c2)) \<and>
    (\<not> r \<longrightarrow> same_result (processBody l (b1 @ x) c2) (processBody l (b @ x) c))"
    by (rule processBody_resume [OF p(1)]) (use ok fr in \<open>auto simp: cr_ok_def\<close>)
  show ?thesis
  proof (cases r)
    case True
    then show ?thesis
      using res p(2) fr(2) st by (simp add: hs_body_def)
  next
    case False
    have "same_stop (hs_body l (b1 @ x) c2) (hs_body l (b @ x) c)"
      using res False
      by (cases "processBody l (b1 @ x) c2"; cases "processBody l (b @ x) c")
        (auto simp: hs_body_def same_stop_def but_len_completed)
    then show ?thesis
      using False p(2) fr(1,2) st ok(3) by (simp add: hs_step_def)
  qed
qed

lemma messageHeadersEnd_fail: "messageHeadersEnd l c = Some (False, c') \<Longrightarrow> broken c'"
  by (auto simp: messageHeadersEnd_def Let_def split: option.splits if_splits bind_splits)

lemma messageHeadersEnd_frame:
  "messageHeadersEnd l c = Some (r, c') \<Longrightarrow> eof c' = eof c \<and> completed c' = completed c \<and> hc_step c' = hc_step c \<and>
     (hc_packet c' = None \<longleftrightarrow> hc_packet c = None)"
  by (auto simp: messageHeadersEnd_def Let_def split: option.splits if_splits bind_splits)

lemma hs_header_resume:
  assumes b: "hs_header l b c = Some (b1, c1)" and ok: "\<not> broken c1" "\<not> eof c" "\<not> completed c" "cr_ok b c1 x" "x \<noteq> []"
    and st: "hc_step c = HSS_MESSAGE_HEADER"
  shows "(completed c1 \<longrightarrow> hs_header l (b @ x) c = Some (b1 @ x, c1)) \<and>
    (\<not> completed c1 \<longrightarrow> same_stop (hs_step cr l (b1 @ x) c1) (hs_header l (b @ x) c))"
proof -
  obtain r b2 c2 where lp: "hs_headers_loop l b c = (r, b2, c2)"
    by (cases "hs_headers_loop l b c")
  have pk: "hc_packet c \<noteq> None"
    using b by (cases "hc_packet c") (auto simp: hs_header_def processHeaders_def processHeadersOrTrailers_def)
  show ?thesis
  proof (cases r)
    case False
    then have c1: "b1 = b2" "c1 = c2"
      using b lp pk by (auto simp: hs_header_def processHeaders_def processHeadersOrTrailers_def)
    have "hs_headers_loop l (b @ x) c = hs_headers_loop l (b1 @ x) c1"
      using headers_loop_resume [OF lp, of x] False ok(1) c1 by simp
    moreover have "hc_packet c1 \<noteq> None" "hc_step c1 = HSS_MESSAGE_HEADER" "\<not> completed c1"
      using headers_loop_frame [OF lp] pk st ok(3) c1 by (auto simp: hc_frame_def)
    ultimately show ?thesis
      using pk by (simp add: hs_step_def hs_header_def processHeaders_def processHeadersOrTrailers_def)
  next
    case True
    obtain r3 c3 where m: "messageHeadersEnd l c2 = Some (r3, c3)"
      using b lp pk True by (auto simp: hs_header_def processHeaders_def processHeadersOrTrailers_def bind_eq_Some_conv)
    have r3: r3
      using messageHeadersEnd_fail [of l c2 c3] b lp pk True m ok(1)
      by (cases r3) (auto simp: hs_header_def processHeaders_def processHeadersOrTrailers_def)
    let ?c = "c3\<lparr>hc_step := HSS_MESSAGE_BODY\<rparr>"
    have eq: "hs_header l b c = hs_body l b2 ?c" "hs_header l (b @ x) c = hs_body l (b2 @ x) ?c"
      using lp pk True m r3 headers_loop_resume [OF lp, of x]
      by (simp_all add: hs_header_def processHeaders_def processHeadersOrTrailers_def)
    have fr: "\<not> eof ?c" "\<not> completed ?c"
      using headers_loop_frame [OF lp] messageHeadersEnd_frame [OF m] ok(2,3) by (auto simp: hc_frame_def)
    have "cr_ok b2 c1 x"
      using ok(4) headers_loop_suffix [OF lp] last_of_drop [of b2 b] by (auto simp: cr_ok_def)
    then show ?thesis
      using hs_body_resume [of l b2 ?c b1 c1 x cr] b ok fr unfolding eq by simp
  qed
qed

lemma requestLine_fail: "processRequestLine c li = Some (False, c') \<Longrightarrow> broken c'"
  by (auto simp: processRequestLine_def Let_def split: if_splits)

lemma statusLine_fail: "processStatusLine c li = Some (False, c') \<Longrightarrow> broken c'"
  by (auto simp: processStatusLine_def Let_def split: if_splits)

lemma requestLine_frame: "processRequestLine c li = Some (r, c') \<Longrightarrow> hc_frame c' = hc_frame c"
  by (auto simp: processRequestLine_def Let_def split: if_splits)

lemma statusLine_frame: "processStatusLine c li = Some (r, c') \<Longrightarrow> hc_frame c' = hc_frame c"
  by (auto simp: processStatusLine_def Let_def split: if_splits)

lemma startLine_resume:
  assumes "processStartLine create l b c = Some (r, b1, c1)" and "\<not> broken c1"
  shows "(r \<longrightarrow> processStartLine create l (b @ x) c = Some (True, b1 @ x, c1) \<and> (\<exists>n. b1 = drop n b) \<and>
      eof c1 = eof c \<and> completed c1 = completed c) \<and> (\<not> r \<longrightarrow> b1 = b \<and> c1 = c)"
proof (cases "findCRLF b")
  case None
  then show ?thesis
    using assms by (auto simp: processStartLine_def split: if_splits)
next
  case (Some y)
  obtain cr len where y: "y = (cr, len)"
    by (cases y)
  have bx: "findCRLF (b @ x) = Some (cr, len)" "len \<le> length b" "cr < len"
    using findCRLF_append [of b _ x] findCRLF_bounds [of b] Some y by auto
  have "\<not> len > getPkgLimit l" "sc_packet c = None"
    using assms Some y by (auto simp: processStartLine_def Let_def split: if_splits)
  moreover obtain p where p: "create = Some p"
    using assms Some y calculation by (cases create) (auto simp: processStartLine_def Let_def)
  define li where "li = take cr (b[cr := NUL])"
  define c0 where "c0 = sc_setPacket (Some (Regular p)) c"
  define res where "res = (if take 5 (c_str li) = ''HTTP/'' then processStatusLine c0 li else processRequestLine c0 li)"
  ultimately have eq: "processStartLine create l b c = do { (rc, c) \<leftarrow> res; Some (rc, drop len b, hc_drained len c) }"
    "processStartLine create l (b @ x) c = do { (rc, c) \<leftarrow> res; Some (rc, drop len b @ x, hc_drained len c) }"
    using Some y bx p by (simp_all add: processStartLine_def Let_def res_def li_def c0_def list_update_append)
  obtain c2 where c2: "res = Some (r, c2)" "b1 = drop len b" "c1 = hc_drained len c2"
    using assms(1) unfolding eq by (auto simp: bind_eq_Some_conv)
  have "hc_frame c2 = hc_frame c0" "\<not> r \<longrightarrow> broken c2"
    using c2(1) by (auto simp: res_def split: if_splits
        dest: requestLine_frame statusLine_frame requestLine_fail statusLine_fail)
  then show ?thesis
    using c2 assms(2) unfolding eq by (auto simp: hc_frame_def c0_def sc_setPacket_def)
qed

lemma hs_start_resume:
  assumes b: "hs_start cr l b c = Some (b1, c1)" and ok: "\<not> broken c1" "\<not> eof c" "\<not> completed c" "cr_ok b c1 x" "x \<noteq> []"
    and st: "hc_step c = HSS_START_LINE"
  shows "(completed c1 \<longrightarrow> hs_start cr l (b @ x) c = Some (b1 @ x, c1)) \<and>
    (\<not> completed c1 \<longrightarrow> same_stop (hs_step cr l (b1 @ x) c1) (hs_start cr l (b @ x) c))"
proof -
  obtain r b2 c2 where p: "processStartLine cr l b c = Some (r, b2, c2)"
    using b by (auto simp: hs_start_def bind_eq_Some_conv)
  show ?thesis
  proof (cases r)
    case False
    then have "b1 = b2" "c1 = c2"
      using b p by (auto simp: hs_start_def)
    then show ?thesis
      using startLine_resume [OF p] False ok(1,3) st by (simp add: hs_step_def)
  next
    case True
    let ?c = "c2\<lparr>hc_step := HSS_MESSAGE_HEADER\<rparr>"
    have h: "hs_header l b2 ?c = Some (b1, c1)"
      using b p True by (simp add: hs_start_def)
    have nb: "\<not> broken c2"
      using hs_header_broken [OF h] ok(1) by auto
    have eq: "hs_start cr l (b @ x) c = hs_header l (b2 @ x) ?c"
      using startLine_resume [OF p nb, of x] True by (simp add: hs_start_def)
    have "cr_ok b2 c1 x"
      using ok(4) startLine_resume [OF p nb, of x] True last_of_drop [of b2 b] by (auto simp: cr_ok_def)
    then show ?thesis
      using hs_header_resume [OF h ok(1)] startLine_resume [OF p nb, of x] True ok unfolding eq by simp
  qed
qed

lemma hs_step_resume:
  assumes "hs_step cr l b c = Some (b1, c1)" and "\<not> broken c1" "\<not> eof c" "\<not> completed c" "cr_ok b c1 x" "x \<noteq> []"
  shows "(completed c1 \<longrightarrow> hs_step cr l (b @ x) c = Some (b1 @ x, c1)) \<and>
    (\<not> completed c1 \<longrightarrow> same_stop (hs_step cr l (b1 @ x) c1) (hs_step cr l (b @ x) c))"
  using assms hs_start_resume [of cr l b c b1 c1 x] hs_header_resume [of l b c b1 c1 x cr] hs_body_resume [of l b c b1 c1 x cr]
  by (cases "hc_step c") (auto simp: hs_step_def [of cr l b c] hs_step_def [of cr l "b @ x" c])

text \<open>The end of \<open>processData\<close>.\<close>

definition hs_finish :: "http_context \<Rightarrow> http_context" where
  "hs_finish context =
     (if eof context then
        let packet = hc_packet context in
        if packet \<noteq> None \<and> hp_type (the packet) = PT_REQUEST \<or> \<not> completed context \<and> \<not> broken context
        then hc_setErrorNo CONNECTION_CLOSED context else context
      else context)"

lemma hs_processData_eq:
  "hs_processData cr l b c = map_option (\<lambda>(b, c). (\<not> broken (hs_finish c), b, hs_finish c)) (hs_step cr l b c)"
  by (cases "hs_step cr l b c") (auto simp: hs_processData_def hs_finish_def Let_def)

lemma hs_finish_cases: "hs_finish c = c \<or> broken (hs_finish c)"
  by (auto simp: hs_finish_def Let_def)

lemma hs_finish_but_len: "but_len c c' \<Longrightarrow> but_len (hs_finish c) (hs_finish c')"
proof -
  assume "but_len c c'"
  then obtain d where c': "c' = c\<lparr>hc_dataLength := d\<rparr>"
    by (auto simp: but_len_iff)
  have "hs_finish c' = (hs_finish c)\<lparr>hc_dataLength := d\<rparr>"
    by (auto simp: c' hs_finish_def Let_def dataLength_commute)
  then show ?thesis
    by (auto simp: but_len_iff)
qed

lemma but_len_broken: "but_len c c' \<Longrightarrow> broken c = broken c'"
  by (auto simp: but_len_iff)

lemma same_stop_finish:
  assumes "same_stop (hs_step cr l b c) (hs_step cr l b' c')"
  shows "same_result (hs_processData cr l b c) (hs_processData cr l b' c')"
proof (cases "hs_step cr l b c")
  case None
  then show ?thesis
    using assms by (simp add: hs_processData_eq same_stop_def)
next
  case (Some y)
  then obtain b1 c1 c2 where "y = (b1, c1)" "hs_step cr l b' c' = Some (b1, c2)" "but_len c1 c2"
    using assms by (cases y; cases "hs_step cr l b' c'") (auto simp: same_stop_def)
  then show ?thesis
    using Some hs_finish_but_len [of c1 c2] but_len_broken by (simp add: hs_processData_eq)
qed

lemma processData_resume:
  assumes d: "hs_processData cr l b c = Some (True, b1, c1)" and ok: "\<not> eof c" "\<not> completed c" "cr_ok b c1 x" "x \<noteq> []"
  shows "(completed c1 \<longrightarrow> hs_processData cr l (b @ x) c = Some (True, b1 @ x, c1)) \<and>
    (\<not> completed c1 \<longrightarrow> same_result (hs_processData cr l (b1 @ x) c1) (hs_processData cr l (b @ x) c))"
proof -
  obtain c0 where c0: "hs_step cr l b c = Some (b1, c0)" "c1 = hs_finish c0" "\<not> broken c1"
    using d by (auto simp: hs_processData_eq)
  then have st: "hs_step cr l b c = Some (b1, c1)" "\<not> broken c1" "hs_finish c1 = c1"
    using hs_finish_cases [of c0] by auto
  note r = hs_step_resume [OF st(1,2) ok]
  have "same_result (hs_processData cr l (b1 @ x) c1) (hs_processData cr l (b @ x) c)"
    if "same_stop (hs_step cr l (b1 @ x) c1) (hs_step cr l (b @ x) c)"
    using that by (rule same_stop_finish)
  then show ?thesis
    using r st by (auto simp: hs_processData_eq)
qed

text \<open>Data that arrives in fragments: the parser runs after each, until a message is
  complete or broken.\<close>

fun hs_feed :: "http_packet option \<Rightarrow> nat \<Rightarrow> string \<Rightarrow> http_context \<Rightarrow> string list \<Rightarrow> (bool \<times> string \<times> http_context) option" where
  "hs_feed create l b c [] = Some (\<not> broken c, b, c)"
| "hs_feed create l b c (x # xs) = do {
     (r, b, c) \<leftarrow> hs_processData create l (b @ x) c;
     if \<not> r \<or> completed c then Some (r, b @ concat xs, c) else hs_feed create l b c xs }"

fun cr_safe :: "string list \<Rightarrow> bool" where
  "cr_safe (x # y # xs) \<longleftrightarrow> (last x = CR \<longrightarrow> hd y = LF) \<and> cr_safe (y # xs)"
| "cr_safe xs \<longleftrightarrow> True"

lemma processHeaders_eof: "processHeaders l b c = Some (r, b1, c1) \<Longrightarrow> eof c1 = eof c"
proof (cases "hs_headers_loop l b c")
  case (fields r2 b2 c2)
  assume "processHeaders l b c = Some (r, b1, c1)"
  then show ?thesis
    using headers_loop_frame [OF fields] fields messageHeadersEnd_frame [of l c2]
    by (cases "hc_packet c"; cases r2)
      (auto simp: processHeaders_def processHeadersOrTrailers_def bind_eq_Some_conv hc_frame_def)
qed

lemma hs_body_eof: "hs_body l b c = Some (b1, c1) \<Longrightarrow> eof c1 = eof c"
  by (auto simp: hs_body_def bind_eq_Some_conv hc_frame_def dest!: processBody_frame split: if_splits)

lemma hs_header_eof: "hs_header l b c = Some (b1, c1) \<Longrightarrow> eof c1 = eof c"
  by (auto simp: hs_header_def bind_eq_Some_conv dest!: processHeaders_eof hs_body_eof split: if_splits)

lemma startLine_eof: "processStartLine cr l b c = Some (r, b1, c1) \<Longrightarrow> eof c1 = eof c"
  by (auto simp: processStartLine_def Let_def bind_eq_Some_conv hc_frame_def sc_setPacket_def
      dest!: requestLine_frame statusLine_frame split: option.splits if_splits)

lemma processData_frame: "hs_processData cr l b c = Some (r, b1, c1) \<Longrightarrow> eof c1 = eof c"
  by (auto simp: hs_processData_eq hs_step_def hs_start_def hs_finish_def Let_def bind_eq_Some_conv
      dest!: startLine_eof hs_header_eof hs_body_eof split: http_step.splits if_splits)

end
