(* ===== verification/HttpMessages.thy ===== *)
theory HttpMessages
  imports HttpStreamer
begin

text \<open>
  What the parser of \<open>HttpStreamer\<close> does with whole messages: the data of an encoded
  packet (theory \<open>HttpPacket\<close>) is parsed back into that packet, the limits on the size
  of a message and on the number of its header lines hold for every input, and the way the
  data is cut into fragments does not matter.
\<close>

subsection \<open>Lines\<close>

lemma hs_findLF_line: "LF \<notin> set li \<Longrightarrow> hs_findLF (li @ LF # rest) = Some (length li)"
  by (induction li) auto

lemma findCRLF_line: "LF \<notin> set li \<Longrightarrow> findCRLF (li @ CR # LF # rest) = Some (length li, length li + 2)"
  using hs_findLF_line [of "li @ [CR]" rest] by (simp add: findCRLF_def nth_append)

lemma headers_loop_line:
  assumes "LF \<notin> set li" "li \<noteq> []" "hc_drainedLength c + length li + 2 \<le> getPkgLimit l"
  shows "hs_headers_loop l (li @ CR # LF # rest) c = hs_headers_loop l rest (hc_drained (length li + 2) (hs_headerLine li c))"
  using assms findCRLF_line [OF assms(1), of rest] by (subst hs_headers_loop.simps) simp

lemma headers_loop_end:
  "hc_drainedLength c + 2 \<le> getPkgLimit l \<Longrightarrow> hs_headers_loop l (CR # LF # rest) c = (True, rest, hc_drained 2 c)"
  using findCRLF_line [of "[]" rest] by (subst hs_headers_loop.simps) (simp add: numeral_2_eq_2)

subsection \<open>Header lines\<close>

definition header_ok :: "string \<times> string \<Rightarrow> bool" where
  "header_ok kv \<longleftrightarrow> is_cstr (fst kv) \<and> is_cstr (snd kv) \<and> CHR '':'' \<notin> set (fst kv) \<and> LF \<notin> set (fst kv) \<and> LF \<notin> set (snd kv) \<and>
     hs_trim (snd kv) = snd kv"

definition header_text :: "string \<times> string \<Rightarrow> string" where
  "header_text kv = fst kv @ '': '' @ snd kv"

lemma hs_trim_space: "hs_trim (CHR '' '' # v) = hs_trim v"
  by (simp add: hs_trim_def hs_ws_def)

lemma dropWhile_none: "\<forall>c\<in>set v. \<not> P c \<Longrightarrow> dropWhile P v = v"
  by (cases v) auto

lemma hs_trim_digits: "list_all isdigit v \<Longrightarrow> hs_trim v = v"
  by (subgoal_tac "\<forall>c\<in>set v. \<not> hs_ws c")
    (auto simp: hs_trim_def dropWhile_none list_all_iff isdigit_def hs_ws_def)

lemma replaceZero_id: "is_cstr v \<Longrightarrow> replaceZero v = v"
  by (auto simp: replaceZero_def is_cstr_def intro: map_idI)

lemma perHeaderLine_ok:
  assumes "header_ok (k, v)"
  shows "snd (processPerHeaderLine (header_text (k, v)) p) = hp_add k v p"
proof -
  have "takeWhile (\<lambda>c. CHR '':'' \<noteq> c) (k @ '': '' @ v) = k"
    using assms by (auto simp: header_ok_def takeWhile_append)
  then show ?thesis
    using assms
    by (simp add: processPerHeaderLine_def header_text_def Let_def header_ok_def hs_trim_space replaceZero_id hp_add_def)
qed

lemma headerLine_ok:
  assumes "header_ok kv" and "hc_packet c = Some p" and "hc_headersCount c < HEADERS_LIMIT"
  shows "hs_headerLine (header_text kv) c =
    c\<lparr>sc_packet := Some (Regular (hp_add (fst kv) (snd kv) p)), hc_headersCount := hc_headersCount c + 1\<rparr>"
  using assms perHeaderLine_ok [of "fst kv" "snd kv" p]
  by (simp add: hs_headerLine_def Let_def hc_upd_def)

definition header_lines :: "headers \<Rightarrow> string" where
  "header_lines hs = concat (map (\<lambda>kv. header_text kv @ [CR, LF]) hs)"

lemma header_lines_simps [simp]:
  "header_lines [] = []" "header_lines (kv # hs) = header_text kv @ CR # LF # header_lines hs"
  "header_lines (xs @ ys) = header_lines xs @ header_lines ys"
  by (simp_all add: header_lines_def)

lemma headers_loop_lines:
  assumes "list_all header_ok hs" and "hc_packet c = Some p" and "hc_headersCount c + length hs \<le> HEADERS_LIMIT"
    and "hc_drainedLength c + length (header_lines hs) + 2 \<le> getPkgLimit l"
  shows "hs_headers_loop l (header_lines hs @ CR # LF # rest) c = (True, rest,
    c\<lparr>sc_packet := Some (Regular (fold (\<lambda>(k, v). hp_add k v) hs p)), hc_headersCount := hc_headersCount c + length hs,
      hc_drainedLength := hc_drainedLength c + length (header_lines hs) + 2\<rparr>)"
  using assms
proof (induction hs arbitrary: c p)
  case Nil
  have "c\<lparr>sc_packet := Some (Regular p)\<rparr> = c"
    using Nil(2) by (cases c) (auto simp: hc_packet_def split: option.splits any_packet.splits)
  then show ?case
    using Nil headers_loop_end [of c l rest] by (simp add: hc_drained_def)
next
  case (Cons kv hs)
  define c1 where "c1 = c\<lparr>sc_packet := Some (Regular (hp_add (fst kv) (snd kv) p)), hc_headersCount := hc_headersCount c + 1\<rparr>"
  define c2 where "c2 = hc_drained (length (header_text kv) + 2) c1"
  have c1: "hs_headerLine (header_text kv) c = c1"
    using headerLine_ok [of kv c p] Cons.prems by (simp add: c1_def)
  have "LF \<notin> set (header_text kv)" "header_text kv \<noteq> []"
    using Cons.prems(1) by (auto simp: header_text_def header_ok_def)
  then have "hs_headers_loop l (header_lines (kv # hs) @ CR # LF # rest) c = hs_headers_loop l (header_lines hs @ CR # LF # rest) c2"
    using headers_loop_line [of "header_text kv" c l "header_lines hs @ CR # LF # rest"] Cons.prems(4)
    by (simp add: c1 c2_def)
  also have "\<dots> = (True, rest, c2\<lparr>sc_packet := Some (Regular (fold (\<lambda>(k, v). hp_add k v) hs (hp_add (fst kv) (snd kv) p))),
      hc_headersCount := hc_headersCount c2 + length hs, hc_drainedLength := hc_drainedLength c2 + length (header_lines hs) + 2\<rparr>)"
    by (rule Cons.IH) (use Cons.prems in \<open>simp_all add: c2_def c1_def hc_drained_def hc_packet_def\<close>)
  finally show ?case
    by (cases kv) (simp add: c2_def c1_def hc_drained_def add.assoc)
qed

subsection \<open>Start lines\<close>

definition uri_ok :: "string \<Rightarrow> bool" where
  "uri_ok u \<longleftrightarrow> u \<noteq> [] \<and> length u \<le> URI_LIMIT \<and> (\<forall>c\<in>set u. \<not> hs_ws c \<and> c \<noteq> NUL \<and> c \<noteq> LF)"

definition method_ok :: "http_packet \<Rightarrow> string \<Rightarrow> bool" where
  "method_ok p m \<longleftrightarrow> hp_getMethodString p = Some m \<and> isValidToken m \<and>
     (hp_method p = HM_UNSUPPORTED \<longrightarrow>
        m \<notin> {''GET'', ''POST'', ''HEAD'', ''OPTIONS'', ''PUT'', ''DELETE'', ''TRACE'', ''CONNECT''})"

definition reason_ok :: "string \<Rightarrow> bool" where
  "reason_ok r \<longleftrightarrow> r \<noteq> [] \<and> \<not> hs_ws (hd r) \<and> is_cstr r \<and> LF \<notin> set r"

lemma token_chars:
  "isTokenCharacter c \<Longrightarrow> c \<noteq> CHR '' '' \<and> c \<noteq> TAB \<and> c \<noteq> CHR ''/'' \<and> c \<noteq> NUL \<and> c \<noteq> LF"
  by (auto simp: isTokenCharacter_def hs_table_def)

lemma token_word:
  assumes "isValidToken m"
  shows "\<forall>c\<in>set m. \<not> hs_ws c" "is_cstr m" "LF \<notin> set m" "CHR ''/'' \<notin> set m"
  using assms token_chars by (fastforce simp: isValidToken_def list_all_iff hs_ws_def is_cstr_def)+

lemma not_http_prefix:
  assumes "CHR ''/'' \<notin> set m"
  shows "take 5 (m @ CHR '' '' # t) \<noteq> ''HTTP/''"
proof
  assume eq: "take 5 (m @ CHR '' '' # t) = ''HTTP/''"
  show False
  proof (cases "length m < 5")
    case True
    then obtain k where "5 - length m = Suc k"
      by (cases "5 - length m") auto
    then have "CHR '' '' \<in> set (take 5 (m @ CHR '' '' # t))"
      by simp
    then have "CHR '' '' \<in> set ''HTTP/''"
      unfolding eq .
    then show False
      by simp
  next
    case False
    then have "take 5 m = ''HTTP/''"
      using eq by simp
    then have "CHR ''/'' \<in> set (take 5 m)"
      by simp
    then show False
      using assms in_set_takeD by fastforce
  qed
qed

lemma findNextWhiteSpace_word: "\<forall>c\<in>set w. \<not> hs_ws c \<Longrightarrow> findNextWhiteSpace (w @ CHR '' '' # t) = length w"
  by (induction w) (auto simp: findNextWhiteSpace_def hs_ws_def)

lemma findNextWhiteSpace_all: "\<forall>c\<in>set w. \<not> hs_ws c \<Longrightarrow> findNextWhiteSpace w = length w"
  by (induction w) (auto simp: findNextWhiteSpace_def)

lemma skipWhiteSpaces_word: "w \<noteq> [] \<Longrightarrow> \<not> hs_ws (hd w) \<Longrightarrow> skipWhiteSpaces (w @ t) = w @ t"
  by (cases w) (auto simp: skipWhiteSpaces_def)

lemma setMethodStr_ok:
  assumes "method_ok p m" "hp_extendMethod q = None"
  shows "hp_method (hp_setMethodStr m q) = hp_method p" "hp_getMethodString (hp_setMethodStr m q) = Some m"
    "hp_type (hp_setMethodStr m q) = PT_REQUEST"
  using assms by (auto simp: method_ok_def hp_getMethodString_def hp_setMethodStr_def hp_setMethod_def hp_setPacketType_def
      split: http_method.splits)

lemma version_text_ok:
  "version_text v \<noteq> []" "\<forall>c\<in>set (version_text v). \<not> hs_ws c" "is_cstr (version_text v)" "LF \<notin> set (version_text v)"
  "take 5 (version_text v @ t) = ''HTTP/''"
  by (auto simp: version_text_def hs_ws_def is_cstr_def)

text \<open>The fields a start line sets.\<close>

lemma requestLine_ok:
  assumes pk: "hc_packet c = Some q" and m: "isValidToken m" and u: "uri_ok u" and v: "v \<noteq> HTTP_UNSUPPORTED"
  shows "processRequestLine c (m @ '' '' @ u @ '' '' @ version_text v) =
    Some (True, hc_upd (\<lambda>p. hp_setVersion v (hp_setURI (Some u) (hp_setMethodStr m (hp_setPacketType PT_REQUEST p)))) c)"
proof -
  note mw = token_word [OF m]
  have u1: "u \<noteq> []" "\<not> hs_ws (hd u)" "\<forall>c\<in>set u. \<not> hs_ws c" "is_cstr u" "length u \<le> URI_LIMIT"
    using u by (auto simp: uri_ok_def is_cstr_def neq_Nil_conv)
  have v1: "\<not> hs_ws (hd (version_text v))"
    by (simp add: version_text_def hs_ws_def)
  have ws: "findNextWhiteSpace (m @ CHR '' '' # t) = length m" "findNextWhiteSpace (u @ CHR '' '' # t) = length u"
    "skipWhiteSpaces (u @ t) = u @ t" "skipWhiteSpaces (version_text v) = version_text v" for t
    using findNextWhiteSpace_word [OF mw(1)] findNextWhiteSpace_word [OF u1(3)] skipWhiteSpaces_word [OF u1(1,2)]
      skipWhiteSpaces_word [OF version_text_ok(1) v1, of "[]"] by simp_all
  have upd: "hc_upd f (hc_upd g c) = hc_upd (\<lambda>p. f (g p)) c" for f g c
    by (auto simp: hc_upd_def hc_packet_def split: option.splits any_packet.splits)
  have ver: "version_text v = ''HTTP/1.0'' \<and> v = HTTP_1_0 \<or> version_text v = ''HTTP/1.1'' \<and> v = HTTP_1_1"
    using v by (cases v) (simp_all add: version_text_def)
  show ?thesis
    using pk m mw(2) u1 version_text_ok(3) [of v] ver
    by (auto simp: processRequestLine_def Let_def ws replaceZero_id upd)
qed

lemma dec_status: 
  assumes "100 \<le> n" "n < 1000"
  shows "length (dec n) = 3"
proof -
  have "\<not> n < 10" "\<not> n div 10 < 10" "n div 10 div 10 < 10"
    using assms by linarith+
  then show ?thesis
    by (simp add: dec.simps [of n] dec.simps [of "n div 10"] dec.simps [of "n div 10 div 10"])
qed

lemma digits_word: "list_all isdigit s \<Longrightarrow> (\<forall>c\<in>set s. \<not> hs_ws c) \<and> is_cstr s \<and> LF \<notin> set s"
  by (auto simp: list_all_iff isdigit_def hs_ws_def is_cstr_def)

lemma statusLine_ok:
  assumes pk: "hc_packet c = Some q" and n: "100 \<le> n" "n < 600" and r: "reason_ok r" and v: "v \<noteq> HTTP_UNSUPPORTED"
  shows "processStatusLine c (version_text v @ '' '' @ dec n @ '' '' @ r) =
    Some (True, hc_upd (\<lambda>p. hp_setReasonPhrase (Some r) (hp_setStatusCode (int n) (hp_setVersion v (hp_setPacketType PT_RESPONSE p)))) c)"
proof -
  have d: "dec n \<noteq> []" "\<not> hs_ws (hd (dec n))" "\<forall>c\<in>set (dec n). \<not> hs_ws c" "is_cstr (dec n)"
    using digits_word [OF dec_digits [of n]] by (auto simp: neq_Nil_conv)
  have valid: "isValidStatusCode (dec n)"
    using dec_digits [of n] dec_status [of n] n by (auto simp: isValidStatusCode_def list_all_length)
  have r1: "r \<noteq> []" "\<not> hs_ws (hd r)" "is_cstr r"
    using r by (auto simp: reason_ok_def)
  have ws: "findNextWhiteSpace (version_text v @ CHR '' '' # t) = length (version_text v)"
    "findNextWhiteSpace (dec n @ CHR '' '' # t) = length (dec n)" "skipWhiteSpaces (dec n @ t) = dec n @ t" "skipWhiteSpaces r = r" for t
    using findNextWhiteSpace_word [OF version_text_ok(2)] findNextWhiteSpace_word [OF d(3)] skipWhiteSpaces_word [OF d(1,2)]
      skipWhiteSpaces_word [OF r1(1,2), of "[]"] by simp_all
  have upd: "hc_upd f (hc_upd g c) = hc_upd (\<lambda>p. f (g p)) c" for f g c
    by (auto simp: hc_upd_def hc_packet_def split: option.splits any_packet.splits)
  have atoi: "c_atoi (dec n) = int n"
    by (rule c_atoi_dec) (use n in simp)
  have ver: "(if version_text v = ''HTTP/1.0'' then HTTP_1_0 else HTTP_1_1) = v" "version_text v = ''HTTP/1.0'' \<or> version_text v = ''HTTP/1.1''"
    using v by (cases v; simp add: version_text_def)+
  show ?thesis
    using pk d r1 valid version_text_ok(3) [of v] ver
    by (auto simp: processStatusLine_def Let_def ws upd atoi)
qed

definition start_text :: "http_packet \<Rightarrow> string" where
  "start_text p =
     (if hp_type p = PT_REQUEST
      then the (hp_getMethodString p) @ '' '' @ the (hp_URI p) @ '' '' @ version_text (hp_version p)
      else version_text (hp_version p) @ '' '' @ dec (nat (hp_statusCode p)) @ '' '' @ hp_getReasonPhrase p)"

definition start_ok :: "http_packet \<Rightarrow> bool" where
  "start_ok p \<longleftrightarrow> hp_version p \<noteq> HTTP_UNSUPPORTED \<and>
     (hp_type p = PT_REQUEST \<and> (\<exists>m u. method_ok p m \<and> hp_URI p = Some u \<and> uri_ok u) \<or>
      hp_type p = PT_RESPONSE \<and> 100 \<le> hp_statusCode p \<and> hp_statusCode p < 600 \<and> reason_ok (hp_getReasonPhrase p))"

definition same_start :: "http_packet \<Rightarrow> http_packet \<Rightarrow> bool" where
  "same_start p q \<longleftrightarrow> hp_type q = hp_type p \<and> hp_version q = hp_version p \<and>
     (hp_type p = PT_REQUEST \<longrightarrow> hp_method q = hp_method p \<and> hp_getMethodString q = hp_getMethodString p \<and> hp_URI q = hp_URI p) \<and>
     (hp_type p = PT_RESPONSE \<longrightarrow> hp_statusCode q = hp_statusCode p \<and> hp_getReasonPhrase q = hp_getReasonPhrase p)"

lemma trim_front_id: "s = [] \<or> hd s \<noteq> CHR '' '' \<Longrightarrow> trim_front s = s"
  by (cases s rule: trim_front.cases) auto

lemma strdupTrimed_word:
  assumes "w \<noteq> []" "\<not> hs_ws (hd w)" "e \<Longrightarrow> \<not> hs_ws (last w)"
  shows "strdupTrimed w True e = Some w"
proof -
  have "trim_front w = w" "e \<Longrightarrow> trim_front (rev w) = rev w" "w \<noteq> '' ''"
    using assms by (auto simp: hs_ws_def hd_rev intro!: trim_front_id)
  then show ?thesis
    using assms(1) by (auto simp: strdupTrimed_def Let_def)
qed

text \<open>Parsing a start line is an update of the new packet.\<close>

definition start_parses :: "http_packet \<Rightarrow> (http_packet \<Rightarrow> http_packet) \<Rightarrow> bool" where
  "start_parses p f \<longleftrightarrow> (\<forall>c. hc_packet c = Some hp_new \<longrightarrow>
      (if take 5 (c_str (start_text p)) = ''HTTP/'' then processStatusLine c (start_text p)
       else processRequestLine c (start_text p)) = Some (True, hc_upd f c)) \<and>
     same_start p (f hp_new) \<and> hp_headers (f hp_new) = [] \<and> hp_headerLen (f hp_new) = 0 \<and> hp_body (f hp_new) = [] \<and>
     LF \<notin> set (start_text p)"

lemma request_parses:
  assumes ty: "hp_type p = PT_REQUEST" and mu: "method_ok p m" "hp_URI p = Some u" "uri_ok u" and v: "hp_version p \<noteq> HTTP_UNSUPPORTED"
  shows "start_parses p (\<lambda>q. hp_setVersion (hp_version p) (hp_setURI (Some u) (hp_setMethodStr m (hp_setPacketType PT_REQUEST q))))"
proof -
  have m: "hp_getMethodString p = Some m" "isValidToken m"
    using mu(1) by (auto simp: method_ok_def)
  note mw = token_word [OF m(2)]
  have uw: "u \<noteq> []" "\<not> hs_ws (hd u)" "\<not> hs_ws (last u)" "LF \<notin> set u" "is_cstr u"
    using mu(3) by (auto simp: uri_ok_def is_cstr_def)
  have line: "start_text p = m @ '' '' @ u @ '' '' @ version_text (hp_version p)"
    using ty m(1) mu(2) by (simp add: start_text_def)
  have cs: "c_str (start_text p) = start_text p"
    by (rule c_str_id) (use mw uw version_text_ok [of "hp_version p"] in \<open>auto simp: line is_cstr_def\<close>)
  have lf: "LF \<notin> set (start_text p)"
    using mw uw version_text_ok [of "hp_version p"] by (auto simp: line)
  have pre: "take 5 (start_text p) \<noteq> ''HTTP/''"
    unfolding line using not_http_prefix [OF mw(4)] by simp
  let ?q = "hp_setMethodStr m (hp_setPacketType PT_REQUEST hp_new)"
  have q: "hp_method ?q = hp_method p" "hp_getMethodString ?q = Some m" "hp_type ?q = PT_REQUEST"
    using setMethodStr_ok [OF mu(1)] by (simp_all add: hp_setPacketType_def hp_new_def)
  have q2: "hp_headers ?q = []" "hp_headerLen ?q = 0" "hp_body ?q = []"
    by (simp_all add: hp_setMethodStr_def hp_setMethod_def hp_setPacketType_def hp_new_def)
  have "same_start p (hp_setVersion (hp_version p) (hp_setURI (Some u) ?q))"
    using ty m(1) mu(2) v q strdupTrimed_word [OF uw(1,2), of True] uw(3)
    by (auto simp: same_start_def hp_setVersion_def hp_setURI_def Let_def hp_getMethodString_def split: http_method.splits)
  moreover have "hp_headers (hp_setVersion v (hp_setURI x r)) = hp_headers r" "hp_headerLen (hp_setVersion v (hp_setURI x r)) = hp_headerLen r"
    "hp_body (hp_setVersion v (hp_setURI x r)) = hp_body r" for v x r
    by (simp_all add: hp_setVersion_def hp_setURI_def Let_def split: option.splits)
  ultimately show ?thesis
    using requestLine_ok [OF _ m(2) mu(3) v] lf pre q2 by (simp add: start_parses_def cs) (simp add: line)
qed

lemma response_parses:
  assumes st: "hp_type p = PT_RESPONSE" "100 \<le> hp_statusCode p" "hp_statusCode p < 600" and r: "reason_ok (hp_getReasonPhrase p)"
    and v: "hp_version p \<noteq> HTTP_UNSUPPORTED"
  shows "start_parses p (\<lambda>q. hp_setReasonPhrase (Some (hp_getReasonPhrase p)) (hp_setStatusCode (hp_statusCode p)
    (hp_setVersion (hp_version p) (hp_setPacketType PT_RESPONSE q))))"
proof -
  let ?n = "nat (hp_statusCode p)" and ?r = "hp_getReasonPhrase p"
  have n: "100 \<le> ?n" "?n < 600" "int ?n = hp_statusCode p"
    using st by auto
  have line: "start_text p = version_text (hp_version p) @ '' '' @ dec ?n @ '' '' @ ?r"
    using st by (simp add: start_text_def)
  have cs: "c_str (start_text p) = start_text p" and lf: "LF \<notin> set (start_text p)"
    using digits_word [OF dec_digits [of ?n]] r version_text_ok [of "hp_version p"]
    by (auto simp: line is_cstr_def reason_ok_def intro!: c_str_id)
  have pre: "take 5 (start_text p) = ''HTTP/''"
    unfolding line by (rule version_text_ok(5))
  have "same_start p (hp_setReasonPhrase (Some ?r) (hp_setStatusCode (hp_statusCode p) (hp_setVersion (hp_version p) (hp_setPacketType PT_RESPONSE hp_new))))"
    using st n(3) v r strdupTrimed_word [of ?r False]
    by (simp add: same_start_def hp_setReasonPhrase_def hp_setStatusCode_def hp_setVersion_def hp_setPacketType_def hp_new_def
        Let_def hp_getReasonPhrase_def reason_ok_def)
  moreover have "hp_headers (hp_setReasonPhrase x (hp_setStatusCode s (hp_setVersion w (hp_setPacketType t hp_new)))) = []"
    "hp_headerLen (hp_setReasonPhrase x (hp_setStatusCode s (hp_setVersion w (hp_setPacketType t hp_new)))) = 0"
    "hp_body (hp_setReasonPhrase x (hp_setStatusCode s (hp_setVersion w (hp_setPacketType t hp_new)))) = []" for x s w t
    by (simp_all add: hp_setReasonPhrase_def hp_setStatusCode_def hp_setVersion_def hp_setPacketType_def hp_new_def Let_def
        split: option.splits)
  moreover have "processStatusLine c (start_text p) = Some (True, hc_upd (\<lambda>q. hp_setReasonPhrase (Some ?r)
      (hp_setStatusCode (hp_statusCode p) (hp_setVersion (hp_version p) (hp_setPacketType PT_RESPONSE q)))) c)"
    if "hc_packet c = Some hp_new" for c
    using statusLine_ok [OF that n(1,2) r v] unfolding n(3) line .
  ultimately show ?thesis
    using lf pre by (simp add: start_parses_def cs)
qed

lemma startLine_ok:
  assumes p: "start_ok p" and c: "sc_packet c = None" and l: "length (start_text p) + 2 \<le> getPkgLimit l"
  shows "\<exists>q. processStartLine (Some hp_new) l (start_text p @ CR # LF # rest) c =
      Some (True, rest, hc_drained (length (start_text p) + 2) (c\<lparr>sc_packet := Some (Regular q)\<rparr>)) \<and>
    same_start p q \<and> hp_headers q = [] \<and> hp_headerLen q = 0 \<and> hp_body q = []"
proof -
  let ?line = "start_text p"
  define c0 where "c0 = sc_setPacket (Some (Regular hp_new)) c"
  have c0: "hc_packet c0 = Some hp_new" "hc_upd f c0 = c\<lparr>sc_packet := Some (Regular (f hp_new))\<rparr>" for f
    by (simp_all add: c0_def sc_setPacket_def hc_packet_def hc_upd_def)
  obtain f where f: "start_parses p f"
    using p request_parses [of p] response_parses [of p] by (auto simp: start_ok_def)
  then have f1: "(if take 5 (c_str ?line) = ''HTTP/'' then processStatusLine c0 ?line else processRequestLine c0 ?line) =
      Some (True, hc_upd f c0)" "LF \<notin> set ?line"
    using c0(1) by (auto simp: start_parses_def)
  have "processStartLine (Some hp_new) l (?line @ CR # LF # rest) c =
      Some (True, rest, hc_drained (length ?line + 2) (hc_upd f c0))"
    using findCRLF_line [OF f1(2), of rest] l c f1(1)
    by (cases "take 5 (c_str ?line) = ''HTTP/''") (simp_all add: processStartLine_def Let_def c0_def [symmetric] list_update_append)
  then show ?thesis
    using f c0(2) by (auto simp: start_parses_def)
qed

subsection \<open>Messages\<close>

abbreviation CL :: string where "CL \<equiv> ''Content-Length''"
abbreviation TE :: string where "TE \<equiv> ''Transfer-Encoding''"

definition http_sendable :: "http_packet \<Rightarrow> bool" where
  "http_sendable p \<longleftrightarrow> start_ok p \<and> hp_inv p \<and> list_all header_ok (hp_headers p) \<and> length (hp_headers p) < HEADERS_LIMIT \<and>
     length (hp_body p) < 2 ^ 31 \<and> hp_getHeader TE p = None \<and>
     (hp_getHeader CL p = None \<and> hp_addContentLengthHeader p \<or> hp_getHeader CL p = Some (dec (length (hp_body p))))"

definition all_headers :: "http_packet \<Rightarrow> headers" where
  "all_headers p = hp_headers p @ (if hp_getHeader CL p = None then [(CL, dec (length (hp_body p)))] else [])"

definition message_text :: "http_packet \<Rightarrow> string" where
  "message_text p = start_text p @ CR # LF # header_lines (all_headers p) @ CR # LF # hp_body p"

definition same_message :: "http_packet \<Rightarrow> http_packet \<Rightarrow> bool" where
  "same_message p q \<longleftrightarrow> same_start p q \<and> hp_body q = hp_body p \<and>
     (\<forall>k. lower k \<noteq> lower CL \<longrightarrow> hp_getHeader k q = hp_getHeader k p) \<and>
     hp_getHeader CL q = Some (dec (length (hp_body p))) \<and> hp_inv q"

lemma encodeEach_lines: "hp_encodeEach hs out = out @ header_lines hs"
  by (induction hs out rule: hp_encodeEach.induct) (simp_all add: header_text_def)

lemma encode_text:
  assumes "http_sendable p"
  shows "hp_encode p out = (True, out @ message_text p)"
proof -
  have "hp_encodeStartLine p out = (True, out @ start_text p @ [CR, LF])"
    using assms dec_status [of "nat (hp_statusCode p)"]
    by (auto simp: http_sendable_def start_ok_def method_ok_def hp_encodeStartLine_def start_text_def)
  moreover have "hp_encodeHeaders p out = (True, out @ header_lines (all_headers p) @ [CR, LF])" for out
    using assms by (auto simp: http_sendable_def hp_encodeHeaders_def encodeEach_lines all_headers_def header_text_def Let_def)
  ultimately show ?thesis
    by (simp add: hp_encode_def hp_encodeBody_def message_text_def)
qed

lemma start_fields [simp]:
  "hp_getMethodString (q\<lparr>hp_headers := x\<rparr>) = hp_getMethodString q" "hp_getMethodString (q\<lparr>hp_headerLen := y\<rparr>) = hp_getMethodString q"
  "hp_getMethodString (q\<lparr>hp_body := z\<rparr>) = hp_getMethodString q" "hp_getReasonPhrase (q\<lparr>hp_headers := x\<rparr>) = hp_getReasonPhrase q"
  "hp_getReasonPhrase (q\<lparr>hp_headerLen := y\<rparr>) = hp_getReasonPhrase q" "hp_getReasonPhrase (q\<lparr>hp_body := z\<rparr>) = hp_getReasonPhrase q"
  by (simp_all add: hp_getMethodString_def hp_getReasonPhrase_def split: http_method.split)

lemma same_start_upd [simp]:
  "same_start p (q\<lparr>hp_headers := x\<rparr>) = same_start p q" "same_start p (q\<lparr>hp_headerLen := y\<rparr>) = same_start p q"
  "same_start p (q\<lparr>hp_body := z\<rparr>) = same_start p q"
  by (simp_all add: same_start_def)

lemma same_start_add [simp]: "same_start p (hp_add k v q) = same_start p q"
  by (simp add: hp_add_def hp_addHeader_def hp_removeHeader_def Let_def split: option.splits)

lemma hp_body_add [simp]: "hp_body (hp_add k v q) = hp_body q"
  by (simp add: hp_add_def hp_addHeader_def hp_removeHeader_def Let_def split: option.splits)

lemma CL_not_TE: "lower TE \<noteq> lower CL" "is_cstr CL"
  by (simp_all add: c_chars is_cstr_def)

text \<open>The packet after all headers have been added.\<close>

lemma headers_parsed:
  assumes p: "http_sendable p" and q: "same_start p q" "hp_headers q = []" "hp_headerLen q = 0" "hp_body q = []"
  shows "\<exists>r. fold (\<lambda>(k, v). hp_add k v) (all_headers p) q = r \<and> same_start p r \<and> hp_inv r \<and> hp_body r = [] \<and>
    hp_getHeader CL r = Some (dec (length (hp_body p))) \<and> (\<forall>k. lower k \<noteq> lower CL \<longrightarrow> hp_getHeader k r = hp_getHeader k p)"
proof -
  let ?hs = "hp_headers p" and ?d = "dec (length (hp_body p))"
  let ?r = "q\<lparr>hp_headers := ?hs, hp_headerLen := hd_len ?hs\<rparr>"
  have inv: "hp_inv p"
    using p by (simp add: http_sendable_def)
  then have r: "fold (\<lambda>(k, v). hp_add k v) ?hs q = ?r"
    using hp_add_all [of q ?hs] q by (simp add: hp_inv_def)
  have r1: "hp_inv ?r" "same_start p ?r" "hp_body ?r = []" "hp_getHeader k ?r = hp_getHeader k p" for k
    using inv q by (simp_all add: hp_inv_def hp_getHeader_def)
  have d: "is_cstr ?d"
    using digits_word [OF dec_digits] by blast
  show ?thesis
  proof (cases "hp_getHeader CL p")
    case None
    then have "fold (\<lambda>(k, v). hp_add k v) (all_headers p) q = hp_add CL ?d ?r"
      by (simp add: all_headers_def r)
    moreover have "hp_getHeader k (hp_add CL ?d ?r) = (if lower k = lower CL then Some ?d else hp_getHeader k p)" for k
      using hm.get_add [OF r1(1)] r1(4) by simp
    ultimately show ?thesis
      using r1(2,3) hp_inv_add [OF r1(1) CL_not_TE(2) d] by simp
  next
    case (Some v)
    then show ?thesis
      using r r1 p by (auto simp: all_headers_def http_sendable_def)
  qed
qed

lemma headersEnd_ok:
  assumes "hc_packet c = Some q" "hp_getHeader TE q = None" "hp_getHeader CL q = Some (dec n)" "n < 2 ^ 31"
    "n + hc_drainedLength c \<le> getPkgLimit l"
  shows "messageHeadersEnd l c = Some (True, if n = 0 then c\<lparr>hc_encodingType := HET_NO_BODY\<rparr>
    else c\<lparr>hc_encodingType := HET_LENGTH, hc_dataLength := n\<rparr>)"
proof -
  have "c_atoi (dec n) = int n"
    using assms(4) by (rule c_atoi_dec)
  then show ?thesis
    using assms dec_digits [of n] by (auto simp: messageHeadersEnd_def isValidDigits_def Let_def)
qed

lemma body_ok:
  assumes c: "hc_packet c = Some q" "hc_step c = HSS_MESSAGE_BODY" "hp_body q = []"
    and e: "n = 0 \<and> hc_encodingType c = HET_NO_BODY \<or> n \<noteq> 0 \<and> hc_encodingType c = HET_LENGTH \<and> hc_dataLength c = n"
    and n: "n = length w"
  shows "\<exists>c'. hs_body l (w @ rest) c = Some (rest, c') \<and> completed c' \<and> broken c' = broken c \<and> eof c' = eof c \<and>
    hc_packet c' = Some (q\<lparr>hp_body := w\<rparr>) \<and> hc_drainedLength c' = hc_drainedLength c + n \<and>
    hc_encodingType c' = hc_encodingType c"
  using e
proof
  assume "n = 0 \<and> hc_encodingType c = HET_NO_BODY"
  moreover from this have "q\<lparr>hp_body := w\<rparr> = q"
    using c(3) n by simp
  ultimately show ?thesis
    using c n by (simp add: hs_body_def processBody_def)
next
  assume "n \<noteq> 0 \<and> hc_encodingType c = HET_LENGTH \<and> hc_dataLength c = n"
  then show ?thesis
    using c n by (simp add: hs_body_def processBody_def processLengthBody_def Let_def)
qed

lemma message_parsed:
  assumes p: "http_sendable p" and len: "length (message_text p) \<le> getPkgLimit l"
  shows "\<exists>c' q. hs_processData (Some hp_new) l (message_text p @ rest) (hc_new enc) = Some (True, rest, c') \<and> completed c' \<and>
    hc_packet c' = Some q \<and> same_message p q \<and> hc_drainedLength c' = length (message_text p) \<and> hc_encodingType c' \<noteq> HET_EOF"
proof -
  let ?c = "hc_new enc" and ?n = "length (hp_body p)"
  have c: "sc_packet ?c = None" "hc_drainedLength ?c = 0" "hc_headersCount ?c = 0" "\<not> broken ?c" "\<not> eof ?c" "hc_step ?c = HSS_START_LINE"
    by (simp_all add: hc_new_def sc_new_def streaming_context.defs)
  let ?hl = "header_lines (all_headers p)"
  have sz: "length (start_text p) + 2 + length ?hl + 2 + ?n = length (message_text p)"
    by (simp add: message_text_def)
  obtain q where q: "processStartLine (Some hp_new) l (message_text p @ rest) ?c = Some (True, ?hl @ CR # LF # hp_body p @ rest,
      hc_drained (length (start_text p) + 2) (?c\<lparr>sc_packet := Some (Regular q)\<rparr>))"
    "same_start p q" "hp_headers q = []" "hp_headerLen q = 0" "hp_body q = []"
    using startLine_ok [of p ?c l "?hl @ CR # LF # hp_body p @ rest"] p c(1) len sz
    by (auto simp: http_sendable_def message_text_def)
  define c1 where "c1 = (hc_drained (length (start_text p) + 2) (?c\<lparr>sc_packet := Some (Regular q)\<rparr>))\<lparr>hc_step := HSS_MESSAGE_HEADER\<rparr>"
  have c1: "hc_packet c1 = Some q" "hc_drainedLength c1 = length (start_text p) + 2" "hc_headersCount c1 = 0" "\<not> broken c1" "\<not> eof c1"
    using c by (simp_all add: c1_def hc_packet_def hc_drained_def)
  obtain r where r: "fold (\<lambda>(k, v). hp_add k v) (all_headers p) q = r" "same_start p r" "hp_inv r" "hp_body r = []"
    "hp_getHeader CL r = Some (dec ?n)" "\<forall>k. lower k \<noteq> lower CL \<longrightarrow> hp_getHeader k r = hp_getHeader k p"
    using headers_parsed [OF p q(2-5)] by blast
  define c2 where "c2 = c1\<lparr>sc_packet := Some (Regular r), hc_headersCount := hc_headersCount c1 + length (all_headers p),
      hc_drainedLength := hc_drainedLength c1 + length ?hl + 2\<rparr>"
  have "list_all header_ok (all_headers p)" "length (all_headers p) \<le> HEADERS_LIMIT"
    using p digits_word [OF dec_digits [of ?n]]
    by (auto simp: all_headers_def http_sendable_def header_ok_def is_cstr_def hs_trim_digits dec_digits)
  then have lp: "hs_headers_loop l (?hl @ CR # LF # hp_body p @ rest) c1 = (True, hp_body p @ rest, c2)"
    using headers_loop_lines [of "all_headers p" c1 q l "hp_body p @ rest"] c1 len sz r(1) by (simp add: c2_def)
  have c2: "hc_packet c2 = Some r" "hc_drainedLength c2 + ?n = length (message_text p)" "\<not> broken c2" "\<not> eof c2"
    using c1 sz by (simp_all add: c2_def hc_packet_def)
  define c3 where "c3 = (if ?n = 0 then c2\<lparr>hc_encodingType := HET_NO_BODY\<rparr> else c2\<lparr>hc_encodingType := HET_LENGTH, hc_dataLength := ?n\<rparr>)
      \<lparr>hc_step := HSS_MESSAGE_BODY\<rparr>"
  have "messageHeadersEnd l c2 = Some (True, if ?n = 0 then c2\<lparr>hc_encodingType := HET_NO_BODY\<rparr>
      else c2\<lparr>hc_encodingType := HET_LENGTH, hc_dataLength := ?n\<rparr>)"
    by (rule headersEnd_ok [OF c2(1)]) (use r(5,6) p CL_not_TE(1) c2(2) len in \<open>auto simp: http_sendable_def\<close>)
  then have hd: "hs_header l (?hl @ CR # LF # hp_body p @ rest) c1 = hs_body l (hp_body p @ rest) c3"
    using lp c1(1) by (simp add: hs_header_def processHeaders_def processHeadersOrTrailers_def c3_def)
  have c3: "hc_packet c3 = Some r" "hc_step c3 = HSS_MESSAGE_BODY" "\<not> broken c3" "\<not> eof c3" "hc_drainedLength c3 = hc_drainedLength c2"
    "?n = 0 \<and> hc_encodingType c3 = HET_NO_BODY \<or> ?n \<noteq> 0 \<and> hc_encodingType c3 = HET_LENGTH \<and> hc_dataLength c3 = ?n"
    using c2 by (auto simp: c3_def)
  obtain c4 where c4: "hs_body l (hp_body p @ rest) c3 = Some (rest, c4)" "completed c4" "broken c4 = broken c3" "eof c4 = eof c3"
    "hc_packet c4 = Some (r\<lparr>hp_body := hp_body p\<rparr>)" "hc_drainedLength c4 = hc_drainedLength c3 + ?n"
    "hc_encodingType c4 = hc_encodingType c3"
    using body_ok [OF c3(1,2) r(4) c3(6) refl, of l rest] by blast
  have "hs_step (Some hp_new) l (message_text p @ rest) ?c = Some (rest, c4)"
    using c(6) q(1) hd c4(1) by (simp add: hs_step_def hs_start_def c1_def)
  moreover have "same_message p (r\<lparr>hp_body := hp_body p\<rparr>)"
    using r(2,3,5,6) by (simp add: same_message_def hp_getHeader_def hp_inv_def)
  ultimately show ?thesis
    using c4 c3(3-6) c2(2) by (auto simp: hs_processData_eq hs_finish_def)
qed

end
