(* ===== verification/HttpFragments.thy ===== *)
theory HttpFragments
  imports HttpMessages
begin

text \<open>
  An error found in the first part of the data is also found when more data is there: with
  the results of \<open>HttpStreamer\<close> on resuming, parsing does not depend on the way the
  data is cut into fragments. The theory also holds the limits on the size of a message.
\<close>

subsection \<open>Errors in a prefix of the data\<close>

lemma findCRLF_None_append:
  "findCRLF b = None \<Longrightarrow> findCRLF (b @ x) = Some (cr, len) \<Longrightarrow> length b < len"
proof -
  have "hs_findLF b = None \<Longrightarrow> hs_findLF (b @ x) = Some i \<Longrightarrow> length b \<le> i" for i
    by (induction b arbitrary: i) (auto split: if_splits)
  then show "findCRLF b = None \<Longrightarrow> findCRLF (b @ x) = Some (cr, len) \<Longrightarrow> length b < len"
    by (fastforce simp: findCRLF_def Let_def split: option.splits if_splits)
qed

lemma headers_loop_prefix_fail:
  assumes "hs_headers_loop l b c = (r, b1, c1)" and "broken c1"
  shows "broken (snd (snd (hs_headers_loop l (b @ x) c)))"
  using assms
proof (induction l b c rule: hs_headers_loop.induct)
  case (1 l b c)
  note unf = hs_headers_loop.simps [of l b c] hs_headers_loop.simps [of l "b @ x" c]
  have mono: "broken c \<Longrightarrow> ?case"
    using headers_loop_broken [of l "b @ x" c] by (cases "hs_headers_loop l (b @ x) c") auto
  show ?case
  proof (cases "findCRLF b")
    case None
    then have "broken c \<or> length b + hc_drainedLength c > getPkgLimit l"
      using 1(2,3) by (auto simp: unf(1) split: if_splits)
    then show ?thesis
      using mono findCRLF_None_append [OF None, of x] None
      by (auto simp: unf(2) split: option.splits)
  next
    case (Some y)
    obtain cr len where y: "y = (cr, len)"
      by (cases y)
    have bx: "findCRLF (b @ x) = Some (cr, len)" "len \<le> length b" "cr < len"
      using findCRLF_append [of b _ x] findCRLF_bounds [of b] Some y by auto
    show ?thesis
    proof (cases "hc_drainedLength c + len > getPkgLimit l \<or> cr = 0")
      case True
      then show ?thesis
        using 1(2,3) Some y bx by (auto simp: unf)
    next
      case False
      let ?c = "hc_drained len (hs_headerLine (take cr b) c)"
      have eq: "hs_headers_loop l b c = hs_headers_loop l (drop len b) ?c"
        "hs_headers_loop l (b @ x) c = hs_headers_loop l (drop len b @ x) ?c"
        using Some y bx False by (simp_all add: unf)
      show ?thesis
        using 1(1) [OF Some y [symmetric]] 1(2,3) False unfolding eq by simp
    qed
  qed
qed

lemma chunkSize_prefix_fail:
  assumes "processChunkSize l b c = (False, b1, c1)" and "broken c1" and "\<not> broken c"
  shows "\<exists>b2 c2. processChunkSize l (b @ x) c = (False, b2, c2) \<and> broken c2"
proof (cases "findCRLF b")
  case None
  then have lim: "length b + hc_drainedLength c > getPkgLimit l"
    using assms by (auto simp: processChunkSize_def split: if_splits)
  show ?thesis
    using lim findCRLF_None_append [OF None, of x]
    by (cases "findCRLF (b @ x)") (force simp: processChunkSize_def Let_def split: if_splits)+
next
  case (Some y)
  obtain cr len where y: "y = (cr, len)"
    by (cases y)
  have bx: "findCRLF (b @ x) = Some (cr, len)" "len \<le> length b" "cr < len"
    using findCRLF_append [of b _ x] findCRLF_bounds [of b] Some y by auto
  then have dx: "(b @ x)[cr := NUL] = b[cr := NUL] @ x" "take cr (b[cr := NUL] @ x) = take cr (b[cr := NUL])"
    by (simp_all add: list_update_append)
  show ?thesis
    using assms Some y bx dx by (auto simp: processChunkSize_def Let_def split: if_splits prod.splits)
qed

lemma getCRLF_prefix_fail:
  "getCRLF b c = (False, b1, c1) \<Longrightarrow> broken c1 \<Longrightarrow> \<not> broken c \<Longrightarrow> \<exists>b2 c2. getCRLF (b @ x) c = (False, b2, c2) \<and> broken c2"
  by (cases b rule: remdups_adj.cases) (auto simp: getCRLF_def split: if_splits list.splits)

text \<open>\<open>failed res\<close>: the result carries an error.\<close>

definition failed :: "(bool \<times> string \<times> http_context) option \<Rightarrow> bool" where
  "failed res \<longleftrightarrow> (case res of None \<Rightarrow> False | Some (r, b, c) \<Rightarrow> broken c)"

lemma failed_Some [simp]: "failed (Some (r, b, c)) = broken c"
  by (simp add: failed_def)

lemma lengthBody_Some: "hc_packet c \<noteq> None \<Longrightarrow> \<exists>r b' c'. processLengthBody b c = Some (r, b', c')"
  by (auto simp: processLengthBody_def Let_def)

lemma chunked_Some:
  "hc_packet c \<noteq> None \<Longrightarrow> \<exists>r b' c'. hs_chunked_loop l b c = Some (r, b', c')"
proof (induction l b c rule: hs_chunked_loop.induct)
  case (1 l b c)
  show ?case
  proof (cases "hc_chunkState c")
    case CHUNK_SIZE
    obtain r b' c' where p: "processChunkSize l b c = (r, b', c')"
      by (cases "processChunkSize l b c") auto
    then show ?thesis
      using 1(1) [OF CHUNK_SIZE p [symmetric]] 1(4) CHUNK_SIZE chunkSize_frame [OF p]
      by (cases r) (auto simp: hs_chunked_loop.simps [of l b c] hc_frame_def)
  next
    case CHUNK_DATA
    obtain r b' c' where p: "processLengthBody b c = Some (r, b', c')"
      using lengthBody_Some [OF 1(4)] by blast
    then show ?thesis
      using 1(2) [OF CHUNK_DATA p refl _ refl] 1(4) CHUNK_DATA lengthBody_frame [OF p]
      by (cases r) (auto simp: hs_chunked_loop.simps [of l b c] hc_frame_def)
  next
    case CHUNK_DATA_CRLF
    obtain r b' c' where p: "getCRLF b c = (r, b', c')"
      by (cases "getCRLF b c") auto
    then show ?thesis
      using 1(3) [OF CHUNK_DATA_CRLF p [symmetric]] 1(4) CHUNK_DATA_CRLF getCRLF_frame [OF p]
      by (cases r) (auto simp: hs_chunked_loop.simps [of l b c] hc_frame_def)
  next
    case TRAILER
    then show ?thesis
      using 1(4) by (cases "hs_headers_loop l b c") (auto simp: hs_chunked_loop.simps [of l b c] processHeadersOrTrailers_def)
  qed
qed

lemma chunked_failed_mono: "broken c \<Longrightarrow> hc_packet c \<noteq> None \<Longrightarrow> failed (hs_chunked_loop l b c)"
  using chunked_Some [of c l b] chunked_broken [of l b c] by (auto simp: failed_def)

lemma chunked_prefix_fail:
  assumes "hs_chunked_loop l b c = Some (r, b1, c1)" and "broken c1" and "hc_packet c \<noteq> None"
  shows "failed (hs_chunked_loop l (b @ x) c)"
  using assms
proof (induction l b c rule: hs_chunked_loop.induct)
  case (1 l b c)
  note unf = hs_chunked_loop.simps [of l b c] hs_chunked_loop.simps [of l "b @ x" c]
  show ?case
  proof (cases "broken c")
    case True
    then show ?thesis
      using 1(6) by (rule chunked_failed_mono)
  next
    case nb: False
    show ?thesis
    proof (cases "hc_chunkState c")
      case CHUNK_SIZE
      obtain r' b' c' where p: "processChunkSize l b c = (r', b', c')"
        by (cases "processChunkSize l b c") auto
      show ?thesis
      proof (cases r')
        case True
        then have "hs_chunked_loop l b c = hs_chunked_loop l b' c'" "hs_chunked_loop l (b @ x) c = hs_chunked_loop l (b' @ x) c'"
          using chunkSize_resume [OF p, of x] p CHUNK_SIZE by (simp_all add: unf)
        then show ?thesis
          using 1(1) [OF CHUNK_SIZE p [symmetric]] 1(4-6) True chunkSize_frame [OF p] by (auto simp: hc_frame_def)
      next
        case False
        then show ?thesis
          using chunkSize_prefix_fail [of l b c b' c' x] p CHUNK_SIZE 1(4,5) nb by (auto simp: unf)
      qed
    next
      case CHUNK_DATA
      obtain r' b' c' where p: "processLengthBody b c = Some (r', b', c')"
        using lengthBody_Some [OF 1(6)] by blast
      have "\<not> broken c'"
        using p nb by (auto simp: processLengthBody_def Let_def split: if_splits)
      moreover have "hs_chunked_loop l (b @ x) c = hs_chunked_loop l (b' @ x) (c'\<lparr>hc_chunkState := CHUNK_DATA_CRLF\<rparr>)" if r'
        using lengthBody_resume [OF p, of x] p that CHUNK_DATA by (simp add: unf)
      ultimately show ?thesis
        using 1(2) [OF CHUNK_DATA p refl _ refl] 1(4-6) p CHUNK_DATA lengthBody_frame [OF p]
        by (cases r') (auto simp: unf(1) hc_frame_def)
    next
      case CHUNK_DATA_CRLF
      obtain r' b' c' where p: "getCRLF b c = (r', b', c')"
        by (cases "getCRLF b c") auto
      show ?thesis
      proof (cases r')
        case True
        let ?c = "c'\<lparr>hc_chunkState := CHUNK_SIZE\<rparr>"
        have "hs_chunked_loop l b c = hs_chunked_loop l b' ?c" "hs_chunked_loop l (b @ x) c = hs_chunked_loop l (b' @ x) ?c"
          using getCRLF_append [of b c b' c' x] p True CHUNK_DATA_CRLF by (simp_all add: unf)
        then show ?thesis
          using 1(3) [OF CHUNK_DATA_CRLF p [symmetric]] 1(4-6) True getCRLF_frame [OF p] by (auto simp: hc_frame_def)
      next
        case False
        then show ?thesis
          using getCRLF_prefix_fail [of b c b' c' x] p CHUNK_DATA_CRLF 1(4,5) nb by (auto simp: unf)
      qed
    next
      case TRAILER
      then have "hs_headers_loop l b c = (r, b1, c1)"
        using 1(4,6) by (auto simp: unf processHeadersOrTrailers_def)
      from headers_loop_prefix_fail [OF this 1(5), of x] TRAILER 1(6) show ?thesis
        by (auto simp: unf processHeadersOrTrailers_def failed_def split: prod.splits)
    qed
  qed
qed

subsection \<open>The whole parser\<close>

definition stop_failed :: "(string \<times> http_context) option \<Rightarrow> bool" where
  "stop_failed res \<longleftrightarrow> (case res of None \<Rightarrow> False | Some (b, c) \<Rightarrow> broken c)"

lemma hs_body_prefix_fail:
  assumes "hs_body l b c = Some (b1, c1)" and "broken c1" and pk: "hc_packet c \<noteq> None"
  shows "stop_failed (hs_body l (b @ x) c)"
proof -
  obtain r c2 where p: "processBody l b c = Some (r, b1, c2)" "broken c2"
    using assms by (auto simp: hs_body_def bind_eq_Some_conv split: if_splits)
  have "failed (processBody l (b @ x) c)"
  proof (cases "hc_encodingType c")
    case HET_NO_BODY
    then show ?thesis
      using p by (simp add: processBody_def)
  next
    case HET_LENGTH
    then show ?thesis
      using p by (auto simp: processBody_def processLengthBody_def Let_def failed_def split: if_splits)
  next
    case HET_CHUNKED
    then show ?thesis
      using p pk chunked_prefix_fail [of l b c r b1 c2 x] by (simp add: processBody_def)
  next
    case HET_EOF
    then show ?thesis
      using p by (auto simp: processBody_def processEOFBody_def failed_def split: if_splits)
  qed
  then show ?thesis
    by (auto simp: hs_body_def stop_failed_def failed_def split: option.splits)
qed

lemma stop_failed_broken: "res = Some (b, c) \<Longrightarrow> broken c \<Longrightarrow> stop_failed res"
  by (simp add: stop_failed_def)

lemma hs_body_Some: "hc_packet c \<noteq> None \<Longrightarrow> \<exists>b' c'. hs_body l b c = Some (b', c')"
  using lengthBody_Some [of c b] chunked_Some [of c l b]
  by (cases "hc_encodingType c") (auto simp: hs_body_def processBody_def processEOFBody_def)

lemma messageHeadersEnd_Some: "hc_packet c \<noteq> None \<Longrightarrow> \<exists>r c'. messageHeadersEnd l c = Some (r, c')"
  by (auto simp: messageHeadersEnd_def Let_def split: option.splits)

lemma hs_header_Some: "hc_packet c \<noteq> None \<Longrightarrow> \<exists>b' c'. hs_header l b c = Some (b', c')"
proof -
  assume pk: "hc_packet c \<noteq> None"
  obtain r b2 c2 where lp: "hs_headers_loop l b c = (r, b2, c2)"
    by (cases "hs_headers_loop l b c")
  then have pk2: "hc_packet c2 \<noteq> None"
    using headers_loop_frame [OF lp] pk by (simp add: hc_frame_def)
  then obtain r3 c3 where m: "messageHeadersEnd l c2 = Some (r3, c3)"
    using messageHeadersEnd_Some by blast
  then have "hc_packet (c3\<lparr>hc_step := HSS_MESSAGE_BODY\<rparr>) \<noteq> None"
    using messageHeadersEnd_frame [OF m] pk2 by simp
  then show ?thesis
    using pk lp m hs_body_Some [of "c3\<lparr>hc_step := HSS_MESSAGE_BODY\<rparr>" l b2]
    by (auto simp: hs_header_def processHeaders_def processHeadersOrTrailers_def)
qed

lemma hs_header_failed_mono: "broken c \<Longrightarrow> hc_packet c \<noteq> None \<Longrightarrow> stop_failed (hs_header l b c)"
  using hs_header_Some [of c l b] hs_header_broken [of l b c] by (auto simp: stop_failed_def)

lemma hs_body_failed_mono: "broken c \<Longrightarrow> hc_packet c \<noteq> None \<Longrightarrow> stop_failed (hs_body l b c)"
  using hs_body_Some [of c l b] hs_body_broken [of l b c] by (auto simp: stop_failed_def)

lemma hs_header_prefix_fail:
  assumes h: "hs_header l b c = Some (b1, c1)" and br: "broken c1" and pk: "hc_packet c \<noteq> None"
  shows "stop_failed (hs_header l (b @ x) c)"
proof -
  obtain r b2 c2 where lp: "hs_headers_loop l b c = (r, b2, c2)"
    by (cases "hs_headers_loop l b c")
  have pk2: "hc_packet c2 \<noteq> None"
    using headers_loop_frame [OF lp] pk by (simp add: hc_frame_def)
  show ?thesis
  proof (cases r)
    case False
    then have "broken c2"
      using h br lp pk by (auto simp: hs_header_def processHeaders_def processHeadersOrTrailers_def)
    obtain r' b' c' where lx: "hs_headers_loop l (b @ x) c = (r', b', c')"
      by (cases "hs_headers_loop l (b @ x) c")
    then have c': "broken c'" "hc_packet c' \<noteq> None"
      using headers_loop_prefix_fail [OF lp \<open>broken c2\<close>, of x] headers_loop_frame [OF lx] pk by (auto simp: hc_frame_def)
    obtain r3 c3 where m: "messageHeadersEnd l c' = Some (r3, c3)"
      using messageHeadersEnd_Some [OF c'(2)] by blast
    then have "broken c3" "hc_packet c3 \<noteq> None"
      using messageHeadersEnd_broken [OF m c'(1)] messageHeadersEnd_frame [OF m] c'(2) by auto
    then have "stop_failed (hs_body l b' (c3\<lparr>hc_step := HSS_MESSAGE_BODY\<rparr>))"
      by (intro hs_body_failed_mono) auto
    then show ?thesis
      using lx pk m c' \<open>broken c3\<close>
      by (auto simp: hs_header_def processHeaders_def processHeadersOrTrailers_def stop_failed_def)
  next
    case True
    obtain r3 c3 where m: "messageHeadersEnd l c2 = Some (r3, c3)"
      using messageHeadersEnd_Some [OF pk2] by blast
    have "hs_headers_loop l (b @ x) c = (True, b2 @ x, c2)"
      using headers_loop_resume [OF lp, of x] True by simp
    then show ?thesis
      using h br lp pk m True hs_body_prefix_fail [of l b2 "c3\<lparr>hc_step := HSS_MESSAGE_BODY\<rparr>" b1 c1 x] messageHeadersEnd_frame [OF m] pk2
      by (cases r3) (auto simp: hs_header_def processHeaders_def processHeadersOrTrailers_def stop_failed_def)
  qed
qed

lemma startLine_prefix:
  assumes "processStartLine create l b c = Some (r, b1, c1)"
  shows "(\<exists>b2. processStartLine create l (b @ x) c = Some (r, b2, c1) \<and> (r \<longrightarrow> b2 = b1 @ x)) \<or>
    \<not> r \<and> (broken c1 \<longrightarrow> broken c \<or> (\<exists>b2 c2. processStartLine create l (b @ x) c = Some (False, b2, c2) \<and> broken c2))"
proof (cases "findCRLF b")
  case None
  then have "\<not> r \<and> (broken c1 \<longrightarrow> broken c \<or> length b > getPkgLimit l)"
    using assms by (auto simp: processStartLine_def split: if_splits)
  then show ?thesis
    using findCRLF_None_append [OF None, of x]
    by (cases "findCRLF (b @ x)") (fastforce simp: processStartLine_def Let_def split: prod.splits)+
next
  case (Some y)
  obtain cr len where y: "y = (cr, len)"
    by (cases y)
  have bx: "findCRLF (b @ x) = Some (cr, len)" "len \<le> length b" "cr < len"
    using findCRLF_append [of b _ x] findCRLF_bounds [of b] Some y by auto
  then show ?thesis
    using assms Some y
    by (auto simp: processStartLine_def Let_def list_update_append bind_eq_Some_conv split: if_splits)
qed

lemma startLine_packet: "processStartLine create l b c = Some (True, b1, c1) \<Longrightarrow> hc_packet c1 \<noteq> None"
  by (auto simp: processStartLine_def Let_def bind_eq_Some_conv hc_frame_def sc_setPacket_def
      dest!: requestLine_frame statusLine_frame split: option.splits if_splits) (simp_all add: hc_packet_def)

text \<open>There is a packet exactly behind the start line.\<close>

definition hc_ok :: "http_context \<Rightarrow> bool" where
  "hc_ok c \<longleftrightarrow> (if hc_step c = HSS_START_LINE then sc_packet c = None else hc_packet c \<noteq> None)"

lemma hs_start_prefix_fail:
  assumes h: "hs_start create l b c = Some (b1, c1)" and br: "broken c1" "\<not> broken c"
  shows "stop_failed (hs_start create l (b @ x) c)"
proof -
  obtain r b2 c2 where p: "processStartLine create l b c = Some (r, b2, c2)"
    using h by (auto simp: hs_start_def bind_eq_Some_conv)
  show ?thesis
  proof (cases r)
    case False
    then have "broken c2"
      using h br p by (auto simp: hs_start_def)
    then show ?thesis
      using startLine_prefix [OF p, of x] False br(2) by (auto simp: hs_start_def stop_failed_def)
  next
    case True
    let ?c = "c2\<lparr>hc_step := HSS_MESSAGE_HEADER\<rparr>"
    have "hs_header l b2 ?c = Some (b1, c1)" "processStartLine create l (b @ x) c = Some (True, b2 @ x, c2)"
      using h p True startLine_prefix [OF p, of x] by (auto simp: hs_start_def)
    moreover have "hc_packet ?c \<noteq> None"
      using startLine_packet [of create l b c b2 c2] p True by simp
    ultimately show ?thesis
      using hs_header_prefix_fail [of l b2 ?c b1 c1 x] br(1) by (simp add: hs_start_def)
  qed
qed

lemma hs_step_prefix_fail:
  assumes "hs_step create l b c = Some (b1, c1)" and "broken c1" "\<not> broken c" "hc_ok c"
  shows "stop_failed (hs_step create l (b @ x) c)"
  using assms hs_start_prefix_fail [of create l b c b1 c1 x] hs_header_prefix_fail [of l b c b1 c1 x]
    hs_body_prefix_fail [of l b c b1 c1 x]
  by (cases "hc_step c") (auto simp: hs_step_def hc_ok_def)

lemma hs_step_ok:
  assumes "hs_step create l b c = Some (b1, c1)" and "hc_ok c" and "\<not> broken c1"
  shows "hc_ok c1"
proof -
  have body: "hc_packet c1 \<noteq> None \<and> hc_step c1 = hc_step c" if "hs_body l b c = Some (b1, c1)" "hc_packet c \<noteq> None" for b c
    using that by (auto simp: hs_body_def bind_eq_Some_conv hc_frame_def dest!: processBody_frame split: if_splits)
  have header: "hc_packet c1 \<noteq> None \<and> hc_step c1 \<noteq> HSS_START_LINE"
    if h: "hs_header l b c = Some (b1, c1)" and pk: "hc_packet c \<noteq> None" and st: "hc_step c \<noteq> HSS_START_LINE" for b c
  proof -
    obtain r b2 c2 where lp: "hs_headers_loop l b c = (r, b2, c2)"
      by (cases "hs_headers_loop l b c")
    have pk2: "hc_packet c2 \<noteq> None" "hc_step c2 = hc_step c"
      using headers_loop_frame [OF lp] pk by (simp_all add: hc_frame_def)
    obtain r3 c3 where m: "messageHeadersEnd l c2 = Some (r3, c3)"
      using messageHeadersEnd_Some [OF pk2(1)] by blast
    show ?thesis
      using h lp pk pk2 st m messageHeadersEnd_frame [OF m] body [of b2 "c3\<lparr>hc_step := HSS_MESSAGE_BODY\<rparr>"]
      by (cases r; cases r3) (auto simp: hs_header_def processHeaders_def processHeadersOrTrailers_def)
  qed
  show ?thesis
  proof (cases "hc_step c")
    case HSS_START_LINE
    obtain r b2 c2 where p: "processStartLine create l b c = Some (r, b2, c2)"
      using assms(1) HSS_START_LINE by (auto simp: hs_step_def hs_start_def bind_eq_Some_conv)
    show ?thesis
    proof (cases r)
      case True
      then show ?thesis
        using assms(1) HSS_START_LINE p startLine_packet [of create l b c b2 c2] header [of b2 "c2\<lparr>hc_step := HSS_MESSAGE_HEADER\<rparr>"]
        by (auto simp: hs_step_def hs_start_def hc_ok_def)
    next
      case False
      then show ?thesis
        using assms HSS_START_LINE p startLine_resume [OF p] by (auto simp: hs_step_def hs_start_def)
    qed
  next
    case HSS_MESSAGE_HEADER
    then show ?thesis
      using assms header [of b c] by (auto simp: hs_step_def hc_ok_def)
  next
    case HSS_MESSAGE_BODY
    then show ?thesis
      using assms body [of b c] by (auto simp: hs_step_def hc_ok_def)
  qed
qed

lemma processData_prefix_fail:
  assumes "hs_processData create l b c = Some (False, b1, c1)" and "\<not> broken c" "\<not> eof c" "hc_ok c"
  shows "\<exists>b2 c2. hs_processData create l (b @ x) c = Some (False, b2, c2)"
proof -
  obtain c0 where c0: "hs_step create l b c = Some (b1, c0)" "broken (hs_finish c0)" "c1 = hs_finish c0"
    using assms(1) by (auto simp: hs_processData_eq)
  have "eof c0 = eof c"
    using processData_frame [OF assms(1)] c0(3) by (auto simp: hs_finish_def Let_def split: if_splits)
  then have "broken c0"
    using c0(2) assms(3) by (simp add: hs_finish_def)
  then have "stop_failed (hs_step create l (b @ x) c)"
    using hs_step_prefix_fail [OF c0(1)] assms(2,4) by blast
  moreover have "broken c2 \<Longrightarrow> broken (hs_finish c2)" for c2
    by (simp add: hs_finish_def Let_def)
  ultimately show ?thesis
    by (auto simp: hs_processData_eq stop_failed_def split: option.splits)
qed

lemma processData_ok:
  "hs_processData create l b c = Some (True, b1, c1) \<Longrightarrow> hc_ok c \<Longrightarrow> hc_ok c1 \<and> \<not> broken c1"
  using hs_finish_cases hs_step_ok [of create l b c b1] by (auto simp: hs_processData_eq) metis

lemma feed_whole:
  assumes "hs_feed create l b c (x # xs) = Some (r, b', c')" and "\<not> eof c" "\<not> completed c" "\<not> broken c" "hc_ok c"
    and "list_all (\<lambda>x. x \<noteq> []) (x # xs)" "cr_safe (x # xs)"
  shows "\<exists>b2 c2. hs_processData create l (b @ concat (x # xs)) c = Some (r, b2, c2) \<and> (r \<longrightarrow> b2 = b' \<and> but_len c' c2)"
  using assms
proof (induction xs arbitrary: b c x)
  case Nil
  obtain r1 b1 c1 where p: "hs_processData create l (b @ x) c = Some (r1, b1, c1)"
    using Nil.prems(1) by (auto simp: bind_eq_Some_conv)
  show ?case
    using Nil.prems(1,5) p processData_ok [of create l "b @ x" c b1 c1] by (cases r1) (auto split: if_splits)
next
  case (Cons y xs)
  obtain r1 b1 c1 where p: "hs_processData create l (b @ x) c = Some (r1, b1, c1)"
    using Cons.prems(1) by (auto simp: bind_eq_Some_conv)
  let ?w = "concat (y # xs)"
  have w: "?w \<noteq> []" "hd ?w = hd y"
    using Cons.prems(6) by auto
  have cr: "cr_ok (b @ x) c1 ?w"
    using Cons.prems(6,7) w by (auto simp: cr_ok_def)
  show ?case
  proof (cases "r1 \<and> \<not> completed c1")
    case True
    then have p1: "hs_processData create l (b @ x) c = Some (True, b1, c1)"
      using p by simp
    have "\<exists>b2 c2. hs_processData create l (b1 @ ?w) c1 = Some (r, b2, c2) \<and> (r \<longrightarrow> b2 = b' \<and> but_len c' c2)"
      by (rule Cons.IH) (use Cons.prems True p processData_ok [OF p1] processData_frame [OF p] in auto)
    moreover have "same_result (hs_processData create l (b1 @ ?w) c1) (hs_processData create l (b @ concat (x # y # xs)) c)"
      using processData_resume [OF p1 Cons.prems(2,3) cr w(1)] True by simp
    ultimately show ?thesis
      by (cases "hs_processData create l (b @ concat (x # y # xs)) c") (auto simp: but_len_def)
  next
    case False
    then have rb: "r = r1" "b' = b1 @ ?w" "c' = c1"
      using Cons.prems(1) p by auto
    show ?thesis
    proof (cases r1)
      case True
      then show ?thesis
        using processData_resume [of create l "b @ x" c b1 c1 ?w] p Cons.prems(2,3) cr w(1) False rb by simp
    next
      case r1: False
      then show ?thesis
        using processData_prefix_fail [of create l "b @ x" c b1 c1 ?w] p Cons.prems(2,4,5) rb by simp
    qed
  qed
qed

lemma processData_Some:
  assumes "hc_ok c"
  shows "\<exists>r b' c'. hs_processData (Some p) l b c = Some (r, b', c')"
proof -
  have start: "\<exists>r b' c'. processStartLine (Some p) l b c = Some (r, b', c')" if "sc_packet c = None"
  proof -
    have "hc_packet (sc_setPacket (Some (Regular p)) c) = Some p"
      by (simp add: hc_packet_def sc_setPacket_def)
    then have "\<exists>r c'. processStatusLine (sc_setPacket (Some (Regular p)) c) li = Some (r, c')"
      "\<exists>r c'. processRequestLine (sc_setPacket (Some (Regular p)) c) li = Some (r, c')" for li
      by (auto simp: processStatusLine_def processRequestLine_def Let_def)
    then have line: "\<exists>r c'. (if take 5 (c_str li) = ''HTTP/'' then processStatusLine (sc_setPacket (Some (Regular p)) c) li
        else processRequestLine (sc_setPacket (Some (Regular p)) c) li) = Some (r, c')" for li
      by (cases "take 5 (c_str li) = ''HTTP/''") auto
    show ?thesis
    proof (cases "findCRLF b")
      case None
      then show ?thesis
        by (auto simp: processStartLine_def)
    next
      case (Some y)
      obtain cr len where y: "y = (cr, len)"
        by (cases y)
      show ?thesis
        using line [of "take cr (b[cr := NUL])"] that Some y by (auto simp: processStartLine_def Let_def)
    qed
  qed
  have "\<exists>b' c'. hs_step (Some p) l b c = Some (b', c')"
  proof (cases "hc_step c")
    case HSS_START_LINE
    then obtain r b' c' where s: "processStartLine (Some p) l b c = Some (r, b', c')"
      using start assms by (auto simp: hc_ok_def)
    then show ?thesis
      using HSS_START_LINE startLine_packet [of "Some p" l b c b' c'] hs_header_Some [of "c'\<lparr>hc_step := HSS_MESSAGE_HEADER\<rparr>" l b']
      by (cases r) (auto simp: hs_step_def hs_start_def)
  qed (use assms hs_header_Some [of c l b] hs_body_Some [of c l b] in \<open>auto simp: hs_step_def hc_ok_def\<close>)
  then show ?thesis
    by (auto simp: hs_processData_eq)
qed

lemma feed_Some:
  "hc_ok c \<Longrightarrow> \<exists>r b' c'. hs_feed (Some p) l b c xs = Some (r, b', c')"
proof (induction xs arbitrary: b c)
  case (Cons x xs)
  obtain r b' c' where d: "hs_processData (Some p) l (b @ x) c = Some (r, b', c')"
    using processData_Some [OF Cons.prems] by blast
  then show ?case
    using Cons.IH [of c' b'] processData_ok [of "Some p" l "b @ x" c b' c'] Cons.prems by (cases r) auto
qed simp

subsection \<open>Limits\<close>

definition body_len :: "http_context \<Rightarrow> nat" where
  "body_len c = (case hc_packet c of None \<Rightarrow> 0 | Some p \<Rightarrow> length (hp_body p))"

definition count_ok :: "http_context \<Rightarrow> bool" where
  "count_ok c \<longleftrightarrow> (hc_headersCount c > HEADERS_LIMIT \<longrightarrow> broken c)"

lemma limit_simps [simp]:
  "body_len (hc_drained n c) = body_len c" "body_len (hc_setErrorNo e c) = body_len c" "body_len (c\<lparr>hc_dataLength := d\<rparr>) = body_len c"
  "body_len (c\<lparr>hc_chunkState := cs\<rparr>) = body_len c" "body_len (c\<lparr>hc_step := st\<rparr>) = body_len c"
  "body_len (c\<lparr>hc_encodingType := en\<rparr>) = body_len c" "body_len (c\<lparr>completed := v\<rparr>) = body_len c"
  "count_ok (hc_drained n c) = count_ok c" "count_ok (hc_setErrorNo e c)" "count_ok (c\<lparr>hc_dataLength := d\<rparr>) = count_ok c"
  "count_ok (c\<lparr>hc_chunkState := cs\<rparr>) = count_ok c" "count_ok (c\<lparr>hc_step := st\<rparr>) = count_ok c"
  "count_ok (c\<lparr>hc_encodingType := en\<rparr>) = count_ok c" "count_ok (hc_upd f c) = count_ok c" "count_ok (c\<lparr>completed := v\<rparr>) = count_ok c"
  by (simp_all add: body_len_def count_ok_def)

lemma headerLine_limits: "body_len (hs_headerLine li c) = body_len c" "count_ok (hs_headerLine li c)"
proof -
  have "hp_body (snd (processPerHeaderLine li p)) = hp_body p" for p
    by (simp add: processPerHeaderLine_def Let_def hp_addHeader_def hp_removeHeader_def split: option.splits)
  then show "body_len (hs_headerLine li c) = body_len c" "count_ok (hs_headerLine li c)"
    by (simp_all add: hs_headerLine_def Let_def body_len_def count_ok_def split: option.splits)
qed

lemma headers_loop_limits:
  assumes "hs_headers_loop l b c = (r, b', c')" "count_ok c"
  shows "count_ok c' \<and> body_len c' = body_len c \<and> hc_drainedLength c \<le> hc_drainedLength c' \<and>
    (r \<longrightarrow> hc_drainedLength c' \<le> getPkgLimit l)"
  using assms
proof (induction l b c rule: hs_headers_loop.induct)
  case (1 l b c)
  show ?case
  proof (cases "findCRLF b")
    case None
    then show ?thesis
      using 1(2,3) by (auto simp: hs_headers_loop.simps [of l b c] split: if_splits)
  next
    case (Some y)
    obtain cr len where y: "y = (cr, len)"
      by (cases y)
    show ?thesis
    proof (cases "hc_drainedLength c + len > getPkgLimit l \<or> cr = 0")
      case True
      then show ?thesis
        using 1(2,3) Some y by (auto simp: hs_headers_loop.simps [of l b c] split: if_splits)
    next
      case False
      let ?c = "hc_drained len (hs_headerLine (take cr b) c)"
      have "hs_headers_loop l b c = hs_headers_loop l (drop len b) ?c"
        using Some y False by (simp add: hs_headers_loop.simps [of l b c])
      then show ?thesis
        using 1(1) [OF Some y [symmetric]] 1(2) False headerLine_limits [of "take cr b" c] by auto
    qed
  qed
qed

lemma lengthBody_limits:
  assumes "processLengthBody b c = Some (r, b', c')" "count_ok c" "body_len c \<le> hc_drainedLength c"
  shows "count_ok c' \<and> body_len c' \<le> hc_drainedLength c' \<and> (r \<longrightarrow> hc_drainedLength c' = hc_drainedLength c + hc_dataLength c)"
  using assms by (auto simp: processLengthBody_def Let_def body_len_def split: if_splits)

lemma getCRLF_limits:
  "getCRLF b c = (r, b', c') \<Longrightarrow> count_ok c \<Longrightarrow> count_ok c' \<and> body_len c' = body_len c \<and> hc_drainedLength c \<le> hc_drainedLength c'"
  by (auto simp: getCRLF_def split: list.splits if_splits)

lemma chunkSize_limits:
  "processChunkSize l b c = (r, b', c') \<Longrightarrow> count_ok c \<Longrightarrow> count_ok c' \<and> body_len c' = body_len c \<and> hc_drainedLength c \<le> hc_drainedLength c'"
  by (auto simp: processChunkSize_def Let_def split: option.splits prod.splits if_splits)

lemma chunked_limits:
  assumes "hs_chunked_loop l b c = Some (r, b', c')" "count_ok c" "body_len c \<le> hc_drainedLength c"
  shows "count_ok c' \<and> body_len c' \<le> hc_drainedLength c' \<and> (r \<longrightarrow> hc_drainedLength c' \<le> getPkgLimit l)"
  using assms
proof (induction l b c rule: hs_chunked_loop.induct)
  case (1 l b c)
  note unf = hs_chunked_loop.simps [of l b c]
  show ?case
  proof (cases "hc_chunkState c")
    case CHUNK_SIZE
    obtain r1 b1 c1 where p: "processChunkSize l b c = (r1, b1, c1)"
      by (cases "processChunkSize l b c") auto
    then show ?thesis
      using 1(1) [OF CHUNK_SIZE p [symmetric]] 1(4-6) CHUNK_SIZE chunkSize_limits [OF p] by (cases r1) (auto simp: unf)
  next
    case CHUNK_DATA
    obtain r1 b1 c1 where p: "processLengthBody b c = Some (r1, b1, c1)"
      using 1(4) CHUNK_DATA by (cases "processLengthBody b c") (auto simp: unf)
    then show ?thesis
      using 1(2) [OF CHUNK_DATA p refl _ refl] 1(4-6) CHUNK_DATA lengthBody_limits [OF p] by (cases r1) (auto simp: unf)
  next
    case CHUNK_DATA_CRLF
    obtain r1 b1 c1 where p: "getCRLF b c = (r1, b1, c1)"
      by (cases "getCRLF b c") auto
    then show ?thesis
      using 1(3) [OF CHUNK_DATA_CRLF p [symmetric]] 1(4-6) CHUNK_DATA_CRLF getCRLF_limits [OF p] by (cases r1) (auto simp: unf)
  next
    case TRAILER
    then show ?thesis
      using 1(4-6) headers_loop_limits [of l b c r b' c']
      by (cases "hc_packet c") (auto simp: unf processHeadersOrTrailers_def)
  qed
qed

text \<open>What holds of a context between two calls of \<open>processData\<close>, and of the context
  a call leaves: a completed message that is not read up to the end of the connection is within
  the limits.\<close>

definition fed_ok :: "nat \<Rightarrow> http_context \<Rightarrow> bool" where
  "fed_ok l c \<longleftrightarrow> count_ok c \<and> \<not> completed c \<and> (hc_step c = HSS_START_LINE \<longrightarrow> sc_packet c = None) \<and>
     (hc_step c = HSS_MESSAGE_BODY \<and> hc_encodingType c = HET_EOF \<or> body_len c \<le> hc_drainedLength c) \<and>
     (hc_step c = HSS_MESSAGE_BODY \<longrightarrow>
       (hc_encodingType c = HET_LENGTH \<longrightarrow> hc_drainedLength c + hc_dataLength c \<le> getPkgLimit l) \<and>
       (hc_encodingType c = HET_NO_BODY \<longrightarrow> hc_drainedLength c \<le> getPkgLimit l))"

definition within_limits :: "nat \<Rightarrow> http_context \<Rightarrow> bool" where
  "within_limits l c \<longleftrightarrow> hc_drainedLength c \<le> getPkgLimit l \<and> body_len c \<le> hc_drainedLength c \<and> hc_headersCount c \<le> HEADERS_LIMIT"

definition limits_kept :: "nat \<Rightarrow> http_context \<Rightarrow> bool" where
  "limits_kept l c \<longleftrightarrow> broken c \<or> (if completed c then hc_encodingType c = HET_EOF \<or> within_limits l c else fed_ok l c)"

lemma lengthBody_sum:
  "processLengthBody b c = Some (False, b', c') \<Longrightarrow> hc_drainedLength c' + hc_dataLength c' = hc_drainedLength c + hc_dataLength c"
  by (auto simp: processLengthBody_def Let_def split: if_splits)

lemma body_limits:
  assumes b: "hs_body l b c = Some (b', c')" and c: "fed_ok l c" "hc_step c = HSS_MESSAGE_BODY"
  shows "limits_kept l c'"
proof -
  obtain r c2 where p: "processBody l b c = Some (r, b', c2)" "c' = (if r then c2\<lparr>completed := True\<rparr> else c2)"
    using b by (auto simp: hs_body_def bind_eq_Some_conv)
  have fr: "\<not> completed c2" "hc_step c2 = HSS_MESSAGE_BODY" "hc_encodingType c2 = hc_encodingType c"
    using processBody_frame [OF p(1)] c by (auto simp: hc_frame_def fed_ok_def)
  have eof: "count_ok c2" if "hc_encodingType c = HET_EOF"
    using that p(1) c(1) by (auto simp: processBody_def processEOFBody_def fed_ok_def split: if_splits)
  have lim: "count_ok c2 \<and> body_len c2 \<le> hc_drainedLength c2 \<and> (r \<longrightarrow> hc_drainedLength c2 \<le> getPkgLimit l)"
    if "hc_encodingType c \<noteq> HET_EOF"
    using p(1) c that lengthBody_limits [of b c r b' c2] chunked_limits [of l b c r b' c2]
    by (cases "hc_encodingType c") (auto simp: processBody_def fed_ok_def)
  have part: "hc_drainedLength c2 + hc_dataLength c2 \<le> getPkgLimit l" if "hc_encodingType c = HET_LENGTH" "\<not> r"
    using p(1) c that lengthBody_sum [of b c b' c2] by (auto simp: processBody_def fed_ok_def)
  have "r" if "hc_encodingType c = HET_NO_BODY"
    using p(1) that by (auto simp: processBody_def)
  then show ?thesis
    using fr eof lim part p(2) by (cases "hc_encodingType c = HET_EOF"; cases r)
      (auto simp: limits_kept_def within_limits_def fed_ok_def count_ok_def body_len_def not_less)
qed

lemma headersEnd_limits:
  assumes "messageHeadersEnd l c = Some (True, c')" "hc_drainedLength c \<le> getPkgLimit l"
  shows "hc_drainedLength c' = hc_drainedLength c \<and> body_len c' = body_len c \<and> (count_ok c \<longrightarrow> count_ok c') \<and>
    (hc_encodingType c' = HET_LENGTH \<longrightarrow> hc_drainedLength c' + hc_dataLength c' \<le> getPkgLimit l)"
  using assms by (auto simp: messageHeadersEnd_def Let_def split: option.splits if_splits bind_splits)

lemma header_limits:
  assumes h: "hs_header l b c = Some (b', c')" and c: "fed_ok l c" "hc_step c = HSS_MESSAGE_HEADER"
  shows "limits_kept l c'"
proof -
  obtain r b2 c2 where lp: "hs_headers_loop l b c = (r, b2, c2)"
    by (cases "hs_headers_loop l b c")
  have pk: "hc_packet c \<noteq> None"
    using h by (cases "hc_packet c") (auto simp: hs_header_def processHeaders_def processHeadersOrTrailers_def)
  have c2: "count_ok c2" "body_len c2 \<le> hc_drainedLength c2" "\<not> completed c2" "hc_step c2 = HSS_MESSAGE_HEADER"
    "r \<longrightarrow> hc_drainedLength c2 \<le> getPkgLimit l"
    using headers_loop_limits [OF lp] headers_loop_frame [OF lp] c by (auto simp: hc_frame_def fed_ok_def)
  show ?thesis
  proof (cases r)
    case False
    then have "c' = c2"
      using h lp pk by (auto simp: hs_header_def processHeaders_def processHeadersOrTrailers_def)
    then show ?thesis
      using c2 by (simp add: limits_kept_def fed_ok_def)
  next
    case r: True
    obtain r3 c3 where m: "messageHeadersEnd l c2 = Some (r3, c3)"
      using h lp pk r by (auto simp: hs_header_def processHeaders_def processHeadersOrTrailers_def bind_eq_Some_conv)
    show ?thesis
    proof (cases r3)
      case False
      then have "c' = c3" "broken c3"
        using h lp pk r m messageHeadersEnd_fail by (auto simp: hs_header_def processHeaders_def processHeadersOrTrailers_def)
      then show ?thesis
        by (simp add: limits_kept_def)
    next
      case True
      let ?c = "c3\<lparr>hc_step := HSS_MESSAGE_BODY\<rparr>"
      have hb: "hs_body l b2 ?c = Some (b', c')"
        using h lp pk r m True by (simp add: hs_header_def processHeaders_def processHeadersOrTrailers_def)
      have "fed_ok l ?c"
        using headersEnd_limits [of l c2 c3] messageHeadersEnd_frame [OF m] m True r c2 by (auto simp: fed_ok_def)
      with hb show ?thesis
        by (rule body_limits) simp
    qed
  qed
qed

lemma requestLine_limits: "processRequestLine c li = Some (r, c') \<Longrightarrow> count_ok c \<Longrightarrow> count_ok c' \<and> body_len c' = body_len c"
proof -
  have "hp_body (hp_setMethodStr m p) = hp_body p" "hp_body (hp_setPacketType t p) = hp_body p" "hp_body (hp_setURI u p) = hp_body p"
    "hp_body (hp_setVersion v p) = hp_body p" for m p t u v
    by (simp_all add: hp_setMethodStr_def hp_setMethod_def hp_setPacketType_def hp_setURI_def hp_setVersion_def Let_def split: option.splits)
  then show "processRequestLine c li = Some (r, c') \<Longrightarrow> count_ok c \<Longrightarrow> count_ok c' \<and> body_len c' = body_len c"
    by (auto simp: processRequestLine_def Let_def body_len_def split: if_splits)
qed

lemma statusLine_limits: "processStatusLine c li = Some (r, c') \<Longrightarrow> count_ok c \<Longrightarrow> count_ok c' \<and> body_len c' = body_len c"
proof -
  have "hp_body (hp_setStatusCode n p) = hp_body p" "hp_body (hp_setPacketType t p) = hp_body p" "hp_body (hp_setReasonPhrase u p) = hp_body p"
    "hp_body (hp_setVersion v p) = hp_body p" for n p t u v
    by (simp_all add: hp_setStatusCode_def hp_setPacketType_def hp_setReasonPhrase_def hp_setVersion_def Let_def split: option.splits)
  then show "processStatusLine c li = Some (r, c') \<Longrightarrow> count_ok c \<Longrightarrow> count_ok c' \<and> body_len c' = body_len c"
    by (auto simp: processStatusLine_def Let_def body_len_def split: if_splits)
qed

lemma startLine_limits:
  assumes "processStartLine (Some hp_new) l b c = Some (r, b', c')" "count_ok c" "sc_packet c = None"
  shows "count_ok c' \<and> body_len c' = 0 \<and> completed c' = completed c"
proof -
  let ?c = "sc_setPacket (Some (Regular hp_new)) c"
  have c0: "count_ok ?c" "body_len ?c = 0" "completed ?c = completed c" "body_len c = 0"
    using assms(2,3) by (simp_all add: count_ok_def sc_setPacket_def body_len_def hc_packet_def hp_new_def)
  show ?thesis
  proof (cases "findCRLF b")
    case None
    then show ?thesis
      using assms c0 by (auto simp: processStartLine_def split: if_splits)
  next
    case (Some y)
    obtain cr len where y: "y = (cr, len)"
      by (cases y)
    define li where "li = take cr (b[cr := NUL])"
    show ?thesis
    proof (cases "len > getPkgLimit l")
      case True
      then show ?thesis
        using assms c0 Some y by (auto simp: processStartLine_def Let_def)
    next
      case False
      obtain c1 where c1: "(if take 5 (c_str li) = ''HTTP/'' then processStatusLine ?c li else processRequestLine ?c li) = Some (r, c1)"
        "c' = hc_drained len c1"
        using assms Some y False
        by (cases "take 5 (c_str li) = ''HTTP/''") (auto simp: processStartLine_def Let_def bind_eq_Some_conv li_def)
      then have "count_ok c1 \<and> body_len c1 = 0 \<and> completed c1 = completed c"
        using requestLine_limits [of ?c li r c1] statusLine_limits [of ?c li r c1] requestLine_frame [of ?c li r c1]
          statusLine_frame [of ?c li r c1] c0 by (auto simp: hc_frame_def split: if_splits)
      then show ?thesis
        using c1(2) by simp
    qed
  qed
qed

lemma startLine_more:
  assumes "processStartLine (Some hp_new) l b c = Some (False, b', c')" "\<not> broken c'"
  shows "c' = c"
proof (cases "findCRLF b")
  case None
  then show ?thesis
    using assms by (auto simp: processStartLine_def split: if_splits)
next
  case (Some y)
  obtain cr len where y: "y = (cr, len)"
    by (cases y)
  have "broken c'"
    using assms Some y requestLine_fail statusLine_fail
    by (auto simp: processStartLine_def Let_def bind_eq_Some_conv split: if_splits)
  with assms show ?thesis
    by simp
qed

lemma step_limits:
  assumes "hs_step (Some hp_new) l b c = Some (b', c')" "fed_ok l c"
  shows "limits_kept l c'"
proof (cases "hc_step c")
  case HSS_START_LINE
  then have st: "hs_start (Some hp_new) l b c = Some (b', c')" "sc_packet c = None" "count_ok c" "\<not> completed c"
    using assms by (auto simp: hs_step_def fed_ok_def)
  obtain r b1 c1 where p: "processStartLine (Some hp_new) l b c = Some (r, b1, c1)"
    using st(1) by (auto simp: hs_start_def bind_eq_Some_conv)
  note c1 = startLine_limits [OF p st(3,2)]
  show ?thesis
  proof (cases r)
    case True
    have "hs_header l b1 (c1\<lparr>hc_step := HSS_MESSAGE_HEADER\<rparr>) = Some (b', c')"
      using st(1) p True by (simp add: hs_start_def)
    from header_limits [OF this] c1 st(4) show ?thesis
      by (simp add: fed_ok_def)
  next
    case False
    then have "c' = c1"
      using st(1) p by (simp add: hs_start_def)
    then show ?thesis
      using startLine_more [of l b c b1 c1] p False assms(2) st(4) by (auto simp: limits_kept_def)
  qed
next
  case HSS_MESSAGE_HEADER
  then show ?thesis
    using header_limits [of l b c b' c'] assms by (simp add: hs_step_def)
next
  case HSS_MESSAGE_BODY
  then show ?thesis
    using body_limits [of l b c b' c'] assms by (simp add: hs_step_def)
qed

lemma processData_limits:
  assumes "hs_processData (Some hp_new) l b c = Some (r, b', c')" "fed_ok l c"
  shows "limits_kept l c'"
proof -
  obtain c0 where "hs_step (Some hp_new) l b c = Some (b', c0)" "c' = hs_finish c0"
    using assms(1) by (auto simp: hs_processData_eq)
  then show ?thesis
    using step_limits [of l b c b' c0] assms(2) hs_finish_cases [of c0] by (auto simp: limits_kept_def)
qed

lemma feed_limits:
  "hs_feed (Some hp_new) l b c xs = Some (True, b', c') \<Longrightarrow> fed_ok l c \<Longrightarrow> limits_kept l c' \<and> \<not> broken c'"
proof (induction xs arbitrary: b c)
  case Nil
  then show ?case
    by (auto simp: limits_kept_def fed_ok_def)
next
  case (Cons x xs)
  obtain r b1 c1 where p: "hs_processData (Some hp_new) l (b @ x) c = Some (r, b1, c1)"
    using Cons.prems(1) by (auto simp: bind_eq_Some_conv)
  have "r = (\<not> broken c1)"
    using p by (auto simp: hs_processData_eq)
  then show ?case
    using Cons.IH [of b1 c1] Cons.prems(1) p processData_limits [OF p Cons.prems(2)]
    by (cases "r \<and> \<not> completed c1") (auto simp: limits_kept_def)
qed

section \<open>Properties\<close>

definition sample_request :: http_packet where
  "sample_request = hp_new\<lparr>hp_type := PT_REQUEST, hp_method := HM_GET, hp_URI := Some ''/a'', hp_body := ''hi''\<rparr>"

definition sample_fragments :: "string list" where
  "sample_fragments = [''GET /a HT'', ''TP/1.1'' @ [CR], LF # ''Content-Length: 2'' @ [CR, LF, CR, LF, CHR ''h''], ''i'']"

lemma sample_sendable: "http_sendable sample_request"
  by (simp add: http_sendable_def sample_request_def start_ok_def method_ok_def uri_ok_def hp_getMethodString_def isValidToken_def
      isTokenCharacter_def hs_table_def hs_ws_def URI_LIMIT_def HEADERS_LIMIT_def hp_inv_def hd_len_def hp_getHeader_def hp_new_def)

lemma sample_text: "concat sample_fragments = message_text sample_request"
  by (simp add: sample_fragments_def message_text_def start_text_def sample_request_def hp_getMethodString_def version_text_def
      all_headers_def hp_getHeader_def hp_new_def header_text_def dec.simps dec_digit_def char_eq_char_of)



text \<open>Property C2. The result of parsing does not depend on the fragmentation, for non-empty
  pieces that do not separate a CR from a following character other than LF: feeding the data piece by piece
  returns, fails exactly when parsing all of it at once fails, and otherwise leaves the same
  rest and the same context, with the same packet and state, up to \<open>_dataLength\<close>. On
  failure only the verdict is the same: the pieces behind the failing one are not
  looked at.\<close>

theorem http_fragmentation:
  assumes "hc_ok c" "\<not> eof c" "\<not> completed c" "\<not> broken c" and "list_all (\<lambda>x. x \<noteq> []) (x # xs)" "cr_safe (x # xs)"
  shows "\<exists>r b' c' b2 c2. hs_feed (Some p) l b c (x # xs) = Some (r, b', c') \<and>
    hs_processData (Some p) l (b @ concat (x # xs)) c = Some (r, b2, c2) \<and> (r \<longrightarrow> b2 = b' \<and> but_len c' c2)"
proof -
  obtain r b' c' where f: "hs_feed (Some p) l b c (x # xs) = Some (r, b', c')"
    using feed_Some [OF assms(1)] by blast
  from feed_whole [OF f assms(2-4,1,5,6)] f show ?thesis
    by blast
qed

theorem http_fragmentation_witness:
  "\<exists>r b' c' b2 c2. hs_feed (Some hp_new) 0 [] (hc_new HET_EOF) [''GET'', '' / HTTP/1.1'' @ [CR], [LF, CR], [LF]] = Some (r, b', c') \<and>
    hs_processData (Some hp_new) 0 (''GET / HTTP/1.1'' @ [CR, LF, CR, LF]) (hc_new HET_EOF) = Some (r, b2, c2)"
  using http_fragmentation [of "hc_new HET_EOF" "''GET''" "['' / HTTP/1.1'' @ [CR], [LF, CR], [LF]]" hp_new 0 "[]"]
  by (auto simp: hc_ok_def hc_new_def sc_new_def streaming_context.defs)

text \<open>Property C22. A message that arrives in any number of pieces, cut anywhere, and that is
  completed without error has at most \<open>getPkgLimit()\<close> bytes and at most
  \<open>HEADERS_LIMIT\<close> header lines, and its body is not longer than the message. Messages whose
  body ends with the connection are excepted: the code puts no limit on them.\<close>

theorem http_limits:
  assumes "hs_feed (Some hp_new) l [] (hc_new enc) xs = Some (True, b', c')" and "completed c'" "hc_encodingType c' \<noteq> HET_EOF"
  shows "hc_drainedLength c' \<le> getPkgLimit l \<and> body_len c' \<le> hc_drainedLength c' \<and> hc_headersCount c' \<le> HEADERS_LIMIT"
proof -
  have "fed_ok l (hc_new enc)"
    by (simp add: fed_ok_def hc_new_def sc_new_def streaming_context.defs count_ok_def body_len_def hc_packet_def)
  from feed_limits [OF assms(1) this] assms(2,3) show ?thesis
    by (auto simp: limits_kept_def within_limits_def)
qed

theorem http_limits_witness:
  "\<exists>c'. hs_feed (Some hp_new) 0 [] (hc_new HET_EOF) sample_fragments = Some (True, [], c') \<and>
     hc_drainedLength c' \<le> getPkgLimit 0 \<and> body_len c' \<le> hc_drainedLength c' \<and> hc_headersCount c' \<le> HEADERS_LIMIT"
proof -
  have len: "length (message_text sample_request) \<le> getPkgLimit 0"
    unfolding sample_text [symmetric] by (simp add: sample_fragments_def getPkgLimit_def PKG_LIMIT_def)
  from message_parsed [OF sample_sendable len, of "[]" HET_EOF]
  obtain c2 where c2: "hs_processData (Some hp_new) 0 (concat sample_fragments) (hc_new HET_EOF) = Some (True, [], c2)"
    "completed c2" "hc_encodingType c2 \<noteq> HET_EOF"
    unfolding sample_text by auto
  have c: "hc_ok (hc_new HET_EOF)" "\<not> eof (hc_new HET_EOF)" "\<not> completed (hc_new HET_EOF)" "\<not> broken (hc_new HET_EOF)"
    by (simp_all add: hc_ok_def hc_new_def sc_new_def streaming_context.defs)
  obtain x ys where xs: "sample_fragments = x # ys" "list_all (\<lambda>x. x \<noteq> []) (x # ys)" "cr_safe (x # ys)"
    by (simp add: sample_fragments_def)
  obtain r b c' where f: "hs_feed (Some hp_new) 0 [] (hc_new HET_EOF) (x # ys) = Some (r, b, c')"
    using feed_Some [OF c(1)] by blast
  from feed_whole [OF f c(2-4,1) xs(2,3)] c2 xs(1) have "r" "b = []" "but_len c' c2"
    by auto
  with f c2 xs(1) have c': "hs_feed (Some hp_new) 0 [] (hc_new HET_EOF) sample_fragments = Some (True, [], c')"
    "completed c'" "hc_encodingType c' \<noteq> HET_EOF"
    by (auto simp: but_len_iff)
  from http_limits [OF this] c'(1) show ?thesis
    by blast
qed

definition http_separators :: string where
  "http_separators = ''()<>@,;:'' @ [CHR 0x5C, CHR 0x22] @ ''/[]?={} '' @ [TAB]"

text \<open>The table of token characters is the set of the HTTP grammar: the printable
  ASCII characters other than the space and the separators.\<close>

theorem token_table:
  "isTokenCharacter c \<longleftrightarrow> 33 \<le> code c \<and> code c \<le> 126 \<and> c \<notin> set http_separators"
proof -
  let ?f = "\<lambda>n. if n \<le> 32 \<or> 127 \<le> n \<or> n \<in> set (map (\<lambda>d. int (code d)) http_separators) then 0 else 1"
  have "tabulates ?f 0 hs_table"
    by (simp add: hs_table_def http_separators_def)
  moreover have "length hs_table = 256"
    by (simp add: hs_table_def)
  ultimately have "hs_table ! code c = ?f (int (code c))"
    using tabulates_nth [of ?f 0 hs_table "code c"] by simp
  moreover have "int (code c) \<in> set (map (\<lambda>d. int (code d)) http_separators) \<longleftrightarrow> c \<in> set http_separators"
    by (auto simp: image_iff)
  ultimately show ?thesis
    by (auto simp: isTokenCharacter_def)
qed

text \<open>Property C39. The value of \<open>Content-Length\<close> is read modulo 2 to the 32nd: a message
  that announces \<open>2^32 + n\<close> bytes is taken to have a body of \<open>n\<close> bytes, and the rest
  of the body is parsed as the next message.\<close>

theorem content_length_wraps:
  assumes "hc_packet c = Some p" "hp_getHeader TE p = None" "hp_getHeader CL p = Some (dec (2 ^ 32 + n))"
    and "0 < n" "n < 2 ^ 31" "n + hc_drainedLength c \<le> getPkgLimit l"
  shows "messageHeadersEnd l c = Some (True, c\<lparr>hc_encodingType := HET_LENGTH, hc_dataLength := n\<rparr>)"
proof -
  have "c_strtol (dec (2 ^ 32 + n)) = 2 ^ 32 + int n"
    using assms(5) by (simp add: c_strtol_digits dec_digits)
  moreover have wrap: "(of_int (2 ^ 32 + int n) :: 32 word) = of_int (int n)"
    by simp
  ultimately have "c_atoi (dec (2 ^ 32 + n)) = sint (of_int (int n) :: 32 word)"
    by (simp only: c_atoi_def)
  then have "c_atoi (dec (2 ^ 32 + n)) = int n"
    using sint_of_int_small [of "int n"] assms(5) by (simp only:) simp
  then show ?thesis
    using assms dec_digits by (simp add: messageHeadersEnd_def isValidDigits_def Let_def)
qed

theorem content_length_wraps_witness:
  "messageHeadersEnd 0 ((hc_new HET_EOF)\<lparr>sc_packet := Some (Regular (hp_new\<lparr>hp_headers := [(CL, dec (2 ^ 32 + 5))]\<rparr>))\<rparr>) =
     Some (True, (hc_new HET_EOF)\<lparr>sc_packet := Some (Regular (hp_new\<lparr>hp_headers := [(CL, dec (2 ^ 32 + 5))]\<rparr>)),
       hc_encodingType := HET_LENGTH, hc_dataLength := 5\<rparr>)"
  by (rule content_length_wraps [where p = "hp_new\<lparr>hp_headers := [(CL, dec (2 ^ 32 + 5))]\<rparr>"])
    (simp_all add: hc_packet_def hp_getHeader_def hc_new_def sc_new_def streaming_context.defs getPkgLimit_def PKG_LIMIT_def c_chars)

end
