(* ===== verification/Base64.thy ===== *)
theory Base64
  imports CStrings
begin

text \<open>
  Base64 (\<open>util/legacy/base64.cpp\<close>). The stream functions \<open>Base64Encoding\<close> and
  \<open>Base64DecodingEx\<close> read an input stream, a list of characters whose \<open>get()\<close> is -1 at
  the end, and write an output stream; an exception leaves the output written so far. The fast
  functions work on raw memory: the input is the text with its terminating NUL, the output a
  buffer of a fixed size in which a write behind the end is undefined. The theorems show that
  the two decoders invert the encoders, that the fast versions compute what the stream versions
  compute and stay inside their buffers, and which texts the stream decoder accepts.
\<close>

subsection \<open>Encoding of a stream\<close>

definition is_get :: "string \<Rightarrow> int \<times> string" where
  "is_get s = (case s of [] \<Rightarrow> (-1, []) | c # r \<Rightarrow> (int (code c), r))"

definition is_peek :: "string \<Rightarrow> int" where
  "is_peek s = fst (is_get s)"

definition basis_64 :: string where
  "basis_64 = ''ABCDEFGHIJKLMNOPQRSTUVWXYZabcdefghijklmnopqrstuvwxyz0123456789+/''"

definition b64_out :: "int \<Rightarrow> int \<Rightarrow> int \<Rightarrow> int list" where
  "b64_out byte1 byte2 byte3 =
     [drop_bit 2 byte1, push_bit 4 (byte1 AND 0x03) + drop_bit 4 byte2,
      push_bit 2 (byte2 AND 0x0F) + drop_bit 6 byte3, byte3 AND 0x3F]"

text \<open>The three ways \<open>get()\<close> can end within a group of three bytes are the three last
  equations; after the second and third the stream is at its end and the loop stops.\<close>

fun Base64Encoding :: "char \<Rightarrow> string \<Rightarrow> string \<Rightarrow> string" where
  "Base64Encoding makeupChar alphabet [] = []"
| "Base64Encoding makeupChar alphabet [c1] =
     (let out = b64_out (int (code c1)) 0 0
      in [alphabet ! nat (out ! 0), alphabet ! nat (out ! 1), makeupChar, makeupChar])"
| "Base64Encoding makeupChar alphabet [c1, c2] =
     (let out = b64_out (int (code c1)) (int (code c2)) 0
      in [alphabet ! nat (out ! 0), alphabet ! nat (out ! 1), alphabet ! nat (out ! 2), makeupChar])"
| "Base64Encoding makeupChar alphabet (c1 # c2 # c3 # is) =
     (let out = b64_out (int (code c1)) (int (code c2)) (int (code c3))
      in [alphabet ! nat (out ! 0), alphabet ! nat (out ! 1), alphabet ! nat (out ! 2), alphabet ! nat (out ! 3)] @
         Base64Encoding makeupChar alphabet is)"

subsection \<open>Decoding of a stream\<close>

datatype BadBase64Exception = NotMultipleOfFour | BadCharacter | MakeupTooEarly | AfterDoubleMakeup | OnlyMakeupAfterMakeup | AfterMakeup

text \<open>The inner loop, with \<open>n = 4 - i\<close> rounds to go. The parameters are the values of the
  three characters as signed chars.\<close>

primrec b64_quad :: "int \<Rightarrow> int \<Rightarrow> int \<Rightarrow> nat \<Rightarrow> int list \<Rightarrow> int \<Rightarrow> nat \<Rightarrow> string \<Rightarrow>
    BadBase64Exception + (int list \<times> int \<times> nat \<times> string)" where
  "b64_quad makeupChar plusChar slashChar 0 byte bTmp index is = Inr (byte, bTmp, index, is)"
| "b64_quad makeupChar plusChar slashChar (Suc n) byte b0 index is =
     (let i = 3 - n; (bTmp, is) = is_get is;
          go = (\<lambda>v. b64_quad makeupChar plusChar slashChar n (byte[i := v]) bTmp index is)
      in if bTmp = makeupChar then Inr (byte, bTmp, i, is)
         else if 65 \<le> bTmp \<and> bTmp \<le> 90 then go (bTmp - 65)
         else if 97 \<le> bTmp \<and> bTmp \<le> 122 then go (bTmp - 97 + 26)
         else if 48 \<le> bTmp \<and> bTmp \<le> 57 then go (bTmp + 26 * 2 - 48)
         else if bTmp = plusChar then go (26 * 2 + 10)
         else if bTmp = slashChar then go (64 - 1)
         else if bTmp < 0 then Inl NotMultipleOfFour
         else Inl BadCharacter)"

definition os_put :: "int \<Rightarrow> char" where
  "os_put v = char_of v"

lemma quad_shorter:
  "b64_quad mk pl sl n byte t ix s = Inr (byte', t', ix', s') \<Longrightarrow> length s' \<le> length s \<and> (n \<noteq> 0 \<and> s \<noteq> [] \<longrightarrow> length s' < length s)"
proof (induction n arbitrary: byte t s)
  case (Suc n)
  then show ?case
    by (cases s) (fastforce simp: is_get_def Let_def split: if_splits)+
qed simp

function b64_decode_loop :: "int \<Rightarrow> int \<Rightarrow> int \<Rightarrow> nat \<Rightarrow> string \<Rightarrow> string \<Rightarrow> string \<times> BadBase64Exception option" where
  "b64_decode_loop makeupChar plusChar slashChar index is os =
     (if is_peek is < 0 then (os, None)
      else case b64_quad makeupChar plusChar slashChar 4 [0, 0, 0, 0] 0 index is of
        Inl e \<Rightarrow> (os, Some e)
      | Inr (byte, bTmp, index, is) \<Rightarrow>
          let out0 = push_bit 2 (byte ! 0) + drop_bit 4 (byte ! 1);
              out1 = push_bit 4 (byte ! 1 AND 0x0F) + drop_bit 2 (byte ! 2);
              out2 = push_bit 6 (byte ! 2 AND 0x03) + byte ! 3
          in if bTmp = makeupChar then
               if index = 0 \<or> index = 1 then (os, Some MakeupTooEarly)
               else if index = 2 then
                 if fst (is_get is) = makeupChar then
                   if is_peek (snd (is_get is)) < 0
                   then b64_decode_loop makeupChar plusChar slashChar index (snd (is_get is)) (os @ [os_put out0])
                   else (os, Some AfterDoubleMakeup)
                 else (os, Some OnlyMakeupAfterMakeup)
               else if is_peek is < 0
               then b64_decode_loop makeupChar plusChar slashChar index is (os @ [os_put out0, os_put out1])
               else (os, Some AfterMakeup)
             else b64_decode_loop makeupChar plusChar slashChar index is (os @ [os_put out0, os_put out1, os_put out2]))"
  by auto
termination
  by (relation "measure (\<lambda>(mk, pl, sl, ix, s, os). length s)")
    (auto simp: is_get_def is_peek_def dest!: quad_shorter sym [of _ "b64_quad _ _ _ _ _ _ _ _"] split: list.splits)

definition Base64DecodingEx :: "int \<Rightarrow> int \<Rightarrow> int \<Rightarrow> string \<Rightarrow> string \<times> BadBase64Exception option" where
  "Base64DecodingEx makeupChar plusChar slashChar is = b64_decode_loop makeupChar plusChar slashChar 0 is []"

definition Base64Decoding :: "int \<Rightarrow> int \<Rightarrow> string \<Rightarrow> string \<times> BadBase64Exception option" where
  "Base64Decoding plusChar slashChar is = Base64DecodingEx 61 plusChar slashChar is"

subsection \<open>The fast versions\<close>

definition pr2six :: "nat list" where
  "pr2six = [
    64, 64, 64, 64, 64, 64, 64, 64, 64, 64, 64, 64, 64, 64, 64, 64, 64, 64, 64, 64, 64, 64, 64, 64, 64, 64, 64, 64, 64,
    64, 64, 64, 64, 64, 64, 64, 64, 64, 64, 64, 64, 64, 64, 62, 64, 64, 64, 63, 52, 53, 54, 55, 56, 57, 58, 59, 60, 61,
    64, 64, 64, 64, 64, 64, 64, 0,  1,  2,  3,  4,  5,  6,  7,  8,  9,  10, 11, 12, 13, 14, 15, 16, 17, 18, 19, 20, 21,
    22, 23, 24, 25, 64, 64, 64, 64, 64, 64, 26, 27, 28, 29, 30, 31, 32, 33, 34, 35, 36, 37, 38, 39, 40, 41, 42, 43, 44,
    45, 46, 47, 48, 49, 50, 51, 64, 64, 64, 64, 64, 64, 64, 64, 64, 64, 64, 64, 64, 64, 64, 64, 64, 64, 64, 64, 64, 64,
    64, 64, 64, 64, 64, 64, 64, 64, 64, 64, 64, 64, 64, 64, 64, 64, 64, 64, 64, 64, 64, 64, 64, 64, 64, 64, 64, 64, 64,
    64, 64, 64, 64, 64, 64, 64, 64, 64, 64, 64, 64, 64, 64, 64, 64, 64, 64, 64, 64, 64, 64, 64, 64, 64, 64, 64, 64, 64,
    64, 64, 64, 64, 64, 64, 64, 64, 64, 64, 64, 64, 64, 64, 64, 64, 64, 64, 64, 64, 64, 64, 64, 64, 64, 64, 64, 64, 64,
    64, 64, 64, 64, 64, 64, 64, 64, 64, 64, 64, 64, 64, 64, 64, 64, 64, 64, 64, 64, 64, 64, 64, 64]"

text \<open>Writing at the end of what is written, in a buffer of \<open>cap\<close> bytes.\<close>

definition buf_put :: "nat \<Rightarrow> string \<Rightarrow> char \<Rightarrow> string option" where
  "buf_put cap p c = (if length p < cap then Some (p @ [c]) else None)"

text \<open>The scan for the first character that is not a digit of the encoding.\<close>

fun b64_nprbytes :: "string \<Rightarrow> nat option" where
  "b64_nprbytes [] = None"
| "b64_nprbytes (c # bufin) = (if pr2six ! code c \<le> 63 then map_option Suc (b64_nprbytes bufin) else Some 0)"

definition Base64decode_len :: "string \<Rightarrow> int option" where
  "Base64decode_len bufcoded = map_option (\<lambda>nprbytes. (int nprbytes + 3) div 4 * 3 + 1) (b64_nprbytes bufcoded)"

definition b64_six :: "string \<Rightarrow> nat \<Rightarrow> nat option" where
  "b64_six bufin i = (if i < length bufin then Some (pr2six ! code (bufin ! i)) else None)"

definition b64_dec0 :: "string \<Rightarrow> char option" where
  "b64_dec0 bufin = do { a \<leftarrow> b64_six bufin 0; b \<leftarrow> b64_six bufin 1; Some (char_of (push_bit 2 a OR drop_bit 4 b)) }"

definition b64_dec1 :: "string \<Rightarrow> char option" where
  "b64_dec1 bufin = do { a \<leftarrow> b64_six bufin 1; b \<leftarrow> b64_six bufin 2; Some (char_of (push_bit 4 a OR drop_bit 2 b)) }"

definition b64_dec2 :: "string \<Rightarrow> char option" where
  "b64_dec2 bufin = do { a \<leftarrow> b64_six bufin 2; b \<leftarrow> b64_six bufin 3; Some (char_of (push_bit 6 a OR b)) }"

fun b64_dec_loop :: "nat \<Rightarrow> string \<Rightarrow> string \<Rightarrow> nat \<Rightarrow> (string \<times> string \<times> nat) option" where
  "b64_dec_loop cap bufout bufin nprbytes =
     (if nprbytes > 4 then do {
        c0 \<leftarrow> b64_dec0 bufin; bufout \<leftarrow> buf_put cap bufout c0;
        c1 \<leftarrow> b64_dec1 bufin; bufout \<leftarrow> buf_put cap bufout c1;
        c2 \<leftarrow> b64_dec2 bufin; bufout \<leftarrow> buf_put cap bufout c2;
        b64_dec_loop cap bufout (drop 4 bufin) (nprbytes - 4) }
      else Some (bufout, bufin, nprbytes))"

text \<open>\<open>Base64decode\<close>: the bytes written, the final NUL included, and the value returned.\<close>

definition Base64decode :: "nat \<Rightarrow> string \<Rightarrow> (string \<times> int) option" where
  "Base64decode cap bufcoded = do {
     npr \<leftarrow> b64_nprbytes bufcoded;
     let nbytesdecoded = (int npr + 3) div 4 * 3;
     (bufout, bufin, nprbytes) \<leftarrow> b64_dec_loop cap [] bufcoded npr;
     bufout \<leftarrow> (if nprbytes > 1 then do { c \<leftarrow> b64_dec0 bufin; buf_put cap bufout c } else Some bufout);
     bufout \<leftarrow> (if nprbytes > 2 then do { c \<leftarrow> b64_dec1 bufin; buf_put cap bufout c } else Some bufout);
     bufout \<leftarrow> (if nprbytes > 3 then do { c \<leftarrow> b64_dec2 bufin; buf_put cap bufout c } else Some bufout);
     bufout \<leftarrow> buf_put cap bufout NUL;
     Some (bufout, nbytesdecoded - ((4 - int nprbytes) AND 3)) }"

definition schar :: "char \<Rightarrow> int" where
  "schar c = (if code c < 128 then int (code c) else int (code c) - 256)"

definition b64_basis :: "int \<Rightarrow> char option" where
  "b64_basis i = (if 0 \<le> i \<and> i < 64 then Some (basis_64 ! nat i) else None)"

definition Base64encode_len :: "int \<Rightarrow> int" where
  "Base64encode_len len = (len + 2) div 3 * 4 + 1"

text \<open>\<open>string + i\<close> is the rest of the input; its length is \<open>len - i\<close>.\<close>

fun Base64encode :: "nat \<Rightarrow> string \<Rightarrow> string \<Rightarrow> string option" where
  "Base64encode cap p (a # b # c # string) = do {
     x \<leftarrow> b64_basis (drop_bit 2 (schar a) AND 0x3F); p \<leftarrow> buf_put cap p x;
     x \<leftarrow> b64_basis (push_bit 4 (schar a AND 0x3) OR drop_bit 4 (schar b AND 0xF0)); p \<leftarrow> buf_put cap p x;
     x \<leftarrow> b64_basis (push_bit 2 (schar b AND 0xF) OR drop_bit 6 (schar c AND 0xC0)); p \<leftarrow> buf_put cap p x;
     x \<leftarrow> b64_basis (schar c AND 0x3F); p \<leftarrow> buf_put cap p x;
     Base64encode cap p string }"
| "Base64encode cap p [a] = do {
     x \<leftarrow> b64_basis (drop_bit 2 (schar a) AND 0x3F); p \<leftarrow> buf_put cap p x;
     x \<leftarrow> b64_basis (push_bit 4 (schar a AND 0x3)); p \<leftarrow> buf_put cap p x;
     p \<leftarrow> buf_put cap p (CHR ''=''); p \<leftarrow> buf_put cap p (CHR ''=''); buf_put cap p NUL }"
| "Base64encode cap p [a, b] = do {
     x \<leftarrow> b64_basis (drop_bit 2 (schar a) AND 0x3F); p \<leftarrow> buf_put cap p x;
     x \<leftarrow> b64_basis (push_bit 4 (schar a AND 0x3) OR drop_bit 4 (schar b AND 0xF0)); p \<leftarrow> buf_put cap p x;
     x \<leftarrow> b64_basis (push_bit 2 (schar b AND 0xF)); p \<leftarrow> buf_put cap p x;
     p \<leftarrow> buf_put cap p (CHR ''=''); buf_put cap p NUL }"
| "Base64encode cap p [] = buf_put cap p NUL"

text \<open>\<open>buffer.resize(len)\<close> of a string of \<open>cap\<close> NULs over the start of which
  \<open>buffer\<close> was written.\<close>

definition resize :: "nat \<Rightarrow> nat \<Rightarrow> string \<Rightarrow> string" where
  "resize cap len buffer = take len (buffer @ replicate (max cap len - length buffer) NUL)"

text \<open>The buffer has \<open>size + 1\<close> bytes, respectively \<open>Base64encode_len(size)\<close> bytes; the
  lengths are \<open>int\<close>s.\<close>

definition Base64DecodeFast :: "string \<Rightarrow> string option" where
  "Base64DecodeFast input = do {
     check (length input + 3 < 2 ^ 31);
     (buffer, len) \<leftarrow> Base64decode (length input + 1) (input @ [NUL]);
     check (0 \<le> len);
     Some (resize (length input + 1) (nat len) buffer) }"

definition Base64EncodeFast :: "string \<Rightarrow> string option" where
  "Base64EncodeFast input = do {
     check (Base64encode_len (int (length input)) < 2 ^ 31 \<and> length input + 2 < 2 ^ 31);
     p \<leftarrow> Base64encode (nat (Base64encode_len (int (length input)))) [] input;
     Some (resize (nat (Base64encode_len (int (length input)))) (length p - 1) p) }"

subsection \<open>Groups of six bits\<close>

text \<open>The specification: a byte string as the numbers of its groups of six bits, and back.\<close>

fun six :: "string \<Rightarrow> nat list" where
  "six (x # y # z # s) =
     [code x div 4, code x mod 4 * 16 + code y div 16, code y mod 16 * 4 + code z div 64, code z mod 64] @ six s"
| "six [x, y] = [code x div 4, code x mod 4 * 16 + code y div 16, code y mod 16 * 4]"
| "six [x] = [code x div 4, code x mod 4 * 16]"
| "six [] = []"

definition six0 :: "nat \<Rightarrow> nat \<Rightarrow> char" where
  "six0 a b = char_of (4 * a + b div 16)"

definition six1 :: "nat \<Rightarrow> nat \<Rightarrow> char" where
  "six1 b c = char_of (b mod 16 * 16 + c div 4)"

definition six2 :: "nat \<Rightarrow> nat \<Rightarrow> char" where
  "six2 c d = char_of (c mod 4 * 64 + d)"

fun unsix :: "nat list \<Rightarrow> string" where
  "unsix (a # b # c # d # r) = six0 a b # six1 b c # six2 c d # unsix r"
| "unsix [a, b, c] = [six0 a b, six1 b c]"
| "unsix [a, b] = [six0 a b]"
| "unsix _ = []"

definition makeup :: "string \<Rightarrow> string" where
  "makeup s = (case length s mod 3 of 0 \<Rightarrow> [] | Suc 0 \<Rightarrow> ''=='' | _ \<Rightarrow> ''='')"

lemma div_mod_glue:
  fixes x :: nat
  shows "4 * (x div 4) + (x mod 4 * 16 + y) div 16 = x + y div 16"
    "(x mod 16 * 4 + y) div 4 = x mod 16 + y div 4"
    "(u * 16 + y) mod 16 = y mod 16" "(u * 4 + v) mod 4 = v mod 4"
proof -
  have "(x mod 4 * 16 + y) div 16 = x mod 4 + y div 16"
    by simp
  then show "4 * (x div 4) + (x mod 4 * 16 + y) div 16 = x + y div 16"
    using mult_div_mod_eq [of 4 x] by linarith
qed simp_all

lemma unsix_six [simp]: "unsix (six s) = s"
proof -
  have e: "six0 (code x div 4) (code x mod 4 * 16 + y) = x" if "y < 16" for x y
    using that by (simp add: six0_def div_mod_glue)
  have e0: "six0 (code x div 4) (code x mod 4 * 16) = x" for x
    using e [of 0 x] by simp
  have f: "six1 (u * 16 + code y div 16) (code y mod 16 * 4 + v) = y" if "v < 4" for u v y
  proof -
    have "code y div 16 < 16"
      using code_less [of y] by linarith
    then have eq: "(u * 16 + code y div 16) mod 16 * 16 + (code y mod 16 * 4 + v) div 4 = code y"
      using that by (simp add: div_mod_glue)
    show ?thesis
      unfolding six1_def eq by simp
  qed
  have f0: "six1 (u * 16 + code y div 16) (code y mod 16 * 4) = y" for u y
    using f [of 0 u y] by simp
  have g: "six2 (u * 4 + code z div 64) (code z mod 64) = z" for u z
  proof -
    have "code z div 64 < 4"
      using code_less [of z] by linarith
    then have eq: "(u * 4 + code z div 64) mod 4 * 64 + code z mod 64 = code z"
      by (simp add: div_mod_glue)
    show ?thesis
      unfolding six2_def eq by simp
  qed
  have b: "code y div 16 < 16" "code y div 64 < 4" for y
    using code_less [of y] by linarith+
  show ?thesis
    by (induction s rule: six.induct) (simp_all add: e e0 f f0 g b)
qed

lemma six_less: "\<forall>v\<in>set (six s). v < 64"
proof -
  have "code x div 4 < 64" "code x mod 4 * 16 + code y div 16 < 64" "code x mod 16 * 4 + code y div 64 < 64"
    "code x mod 4 * 16 < 64" "code x mod 16 * 4 < 64" for x y
    using code_less [of x] code_less [of y] mod_less_divisor [of 4 "code x"] mod_less_divisor [of 16 "code x"] by linarith+
  then show ?thesis
    by (induction s rule: six.induct) simp_all
qed

lemma length_six: "length (six s) + length (makeup s) = (length s + 2) div 3 * 4"
proof (induction s rule: six.induct)
  case (1 x y z s)
  have "(length (x # y # z # s) + 2) div 3 = Suc ((length s + 2) div 3)"
    by simp
  then show ?case
    using 1 by (simp add: makeup_def)
qed (simp_all add: makeup_def)

lemma makeup_Cons3 [simp]: "makeup (x # y # z # s) = makeup s"
  by (simp add: makeup_def)

subsection \<open>The encoders\<close>

definition b64_text :: "string \<Rightarrow> string" where
  "b64_text s = map (\<lambda>v. basis_64 ! v) (six s) @ makeup s"

lemma and_low:
  "(k :: int) AND 3 = k mod 4" "k AND 15 = k mod 16" "k AND 63 = k mod 64"
  using take_bit_eq_mask [of 2 k] take_bit_eq_mask [of 4 k] take_bit_eq_mask [of 6 k]
  by (simp_all add: take_bit_eq_mod mask_eq_exp_minus_1)

lemmas bit_arith = and_low push_bit_eq_mult drop_bit_eq_div

lemma nat_of_ints:
  "nat (int x div 4) = x div 4" "nat (int x mod 4 * 16 + int y div 16) = x mod 4 * 16 + y div 16"
  "nat (int x mod 16 * 4 + int y div 64) = x mod 16 * 4 + y div 64" "nat (int x mod 64) = x mod 64"
  "nat (int x mod 4 * 16) = x mod 4 * 16" "nat (int x mod 16 * 4) = x mod 16 * 4"
  by (simp_all add: nat_eq_iff nat_div_distrib zdiv_int zmod_int)

lemma Base64Encoding_text: "Base64Encoding (CHR ''='') basis_64 s = b64_text s"
proof -
  have "Base64Encoding m a s = (if m = CHR ''='' \<and> a = basis_64 then b64_text s else Base64Encoding m a s)" for m a s
    by (induction m a s rule: Base64Encoding.induct)
      (auto simp: b64_text_def makeup_def b64_out_def Let_def bit_arith nat_of_ints numeral_2_eq_2)
  from this [of "CHR ''=''" basis_64 s] show ?thesis
    by simp
qed

lemma schar_bits:
  "schar c mod 4 = int (code c) mod 4" "schar c mod 16 = int (code c) mod 16" "schar c mod 64 = int (code c) mod 64"
  "(schar c div 4) mod 64 = int (code c) div 4" "(schar c div 16) mod 16 = int (code c) div 16"
  "(schar c div 64) mod 4 = int (code c) div 64"
proof -
  obtain q where q: "schar c = int (code c) + 256 * q"
    by (metis (no_types, opaque_lifting) add.right_neutral diff_conv_add_uminus mult_zero_right mult_minus_right mult.right_neutral schar_def)
  have m: "(n + 256 * q) mod 4 = n mod 4" "(n + 256 * q) mod 16 = n mod 16" "(n + 256 * q) mod 64 = n mod 64" for n :: int
    using mod_mult_self1 [of n "64 * q" 4] mod_mult_self1 [of n "16 * q" 16] mod_mult_self1 [of n "4 * q" 64] by simp_all
  have d: "(n + 256 * q) div 4 = n div 4 + 64 * q" "(n + 256 * q) div 16 = n div 16 + 16 * q"
    "(n + 256 * q) div 64 = n div 64 + 4 * q" for n :: int
    using div_mult_self1 [of 4 n "64 * q"] div_mult_self1 [of 16 n "16 * q"] div_mult_self1 [of 64 n "4 * q"]
    by (simp_all add: add.commute)
  have b: "int (code c) div 4 < 64" "int (code c) div 16 < 16" "int (code c) div 64 < 4"
    using code_less [of c] by linarith+
  show "schar c mod 4 = int (code c) mod 4" "schar c mod 16 = int (code c) mod 16" "schar c mod 64 = int (code c) mod 64"
    by (simp_all add: q m)
  show "(schar c div 4) mod 64 = int (code c) div 4" "(schar c div 16) mod 16 = int (code c) div 16"
    "(schar c div 64) mod 4 = int (code c) div 64"
    using b by (simp_all add: q d)
qed

lemma push_or_int: "0 \<le> b \<Longrightarrow> b < 2 ^ n \<Longrightarrow> push_bit n a OR b = push_bit n a + (b :: int)"
proof -
  assume "0 \<le> b" "b < 2 ^ n"
  then have "take_bit n b = b"
    by (simp add: take_bit_eq_mod)
  moreover have "push_bit n a OR take_bit n b = push_bit n a + take_bit n b"
    by (rule disjunctive_add_eq_or [symmetric], rule bit_eqI) (simp add: bit_and_iff bit_push_bit_iff bit_take_bit_iff)
  ultimately show ?thesis
    by simp
qed

lemma fast_groups:
  "drop_bit 2 (schar a) AND 63 = int (code a) div 4"
  "push_bit 4 (schar a AND 3) OR drop_bit 4 (schar b AND 240) = int (code a) mod 4 * 16 + int (code b) div 16"
  "push_bit 2 (schar b AND 15) OR drop_bit 6 (schar c AND 192) = int (code b) mod 16 * 4 + int (code c) div 64"
  "schar c AND 63 = int (code c) mod 64"
  "push_bit 4 (schar a AND 3) = int (code a) mod 4 * 16"
  "push_bit 2 (schar b AND 15) = int (code b) mod 16 * 4"
proof -
  have hi: "drop_bit 4 (schar b AND 240) = int (code b) div 16" "drop_bit 6 (schar c AND 192) = int (code c) div 64"
    unfolding drop_bit_and by (simp_all add: bit_arith schar_bits)
  have b: "0 \<le> int (code b) div 16" "int (code b) div 16 < 2 ^ 4" "0 \<le> int (code c) div 64" "int (code c) div 64 < 2 ^ 2"
    using code_less [of b] code_less [of c] by (simp_all, linarith+)
  show "push_bit 4 (schar a AND 3) OR drop_bit 4 (schar b AND 240) = int (code a) mod 4 * 16 + int (code b) div 16"
    unfolding hi push_or_int [OF b(1,2)] by (simp add: bit_arith schar_bits)
  show "push_bit 2 (schar b AND 15) OR drop_bit 6 (schar c AND 192) = int (code b) mod 16 * 4 + int (code c) div 64"
    unfolding hi push_or_int [OF b(3,4)] by (simp add: bit_arith schar_bits)
qed (simp_all add: bit_arith schar_bits)

lemma b64_basis_Some: "n < 64 \<Longrightarrow> b64_basis (int n) = Some (basis_64 ! n)"
  by (simp add: b64_basis_def)

lemma basis_groups:
  "b64_basis (int (code a) div 4) = Some (basis_64 ! (code a div 4))"
  "b64_basis (int (code a) mod 4 * 16 + int (code b) div 16) = Some (basis_64 ! (code a mod 4 * 16 + code b div 16))"
  "b64_basis (int (code b) mod 16 * 4 + int (code c) div 64) = Some (basis_64 ! (code b mod 16 * 4 + code c div 64))"
  "b64_basis (int (code c) mod 64) = Some (basis_64 ! (code c mod 64))"
  "b64_basis (int (code a) mod 4 * 16) = Some (basis_64 ! (code a mod 4 * 16))"
  "b64_basis (int (code b) mod 16 * 4) = Some (basis_64 ! (code b mod 16 * 4))"
  using six_less [of "[a, b, c]"] six_less [of "[a]"] six_less [of "[b, b]"]
    b64_basis_Some [of "code a div 4"] b64_basis_Some [of "code a mod 4 * 16 + code b div 16"]
    b64_basis_Some [of "code b mod 16 * 4 + code c div 64"] b64_basis_Some [of "code c mod 64"]
    b64_basis_Some [of "code a mod 4 * 16"] b64_basis_Some [of "code b mod 16 * 4"]
  by (simp_all add: zdiv_int zmod_int)

lemmas Base64encode_eqs = Base64encode.simps [unfolded fast_groups(1-4), unfolded fast_groups(5,6) basis_groups bind.bind_lunit]

lemma Base64encode_text:
  "length p + length (b64_text s) < cap \<Longrightarrow> Base64encode cap p s = Some (p @ b64_text s @ [NUL])"
proof (induction s arbitrary: p rule: six.induct)
  case (1 x y z s)
  then show ?case
    by (simp only: Base64encode_eqs) (simp add: buf_put_def b64_text_def)
qed (simp_all only: Base64encode_eqs, simp_all add: buf_put_def b64_text_def makeup_def)

lemma Base64EncodeFast_text:
  assumes "length s \<le> 2 ^ 30"
  shows "Base64EncodeFast s = Some (b64_text s)"
proof -
  have l: "int (length (b64_text s)) + 1 = Base64encode_len (int (length s))"
    using length_six [of s] by (simp add: b64_text_def Base64encode_len_def zdiv_int)
  moreover have "Base64encode_len (int (length s)) < 2 ^ 31"
    using assms by (simp add: Base64encode_len_def)
  moreover have "Base64encode (nat (Base64encode_len (int (length s)))) [] s = Some (b64_text s @ [NUL])"
    using Base64encode_text [of "[]" s "nat (Base64encode_len (int (length s)))"] l by simp
  ultimately show ?thesis
    using assms by (simp add: Base64EncodeFast_def resize_def)
qed

subsection \<open>The decoders\<close>

definition digit :: "char \<Rightarrow> nat" where
  "digit c = pr2six ! code c"

definition is64 :: "char \<Rightarrow> bool" where
  "is64 c \<longleftrightarrow> digit c \<le> 63"

definition six_val :: "int \<Rightarrow> nat" where
  "six_val n = (if 65 \<le> n \<and> n \<le> 90 then nat n - 65 else if 97 \<le> n \<and> n \<le> 122 then nat n - 71
     else if 48 \<le> n \<and> n \<le> 57 then nat n + 4 else if n = 43 then 62 else if n = 47 then 63 else 64)"

lemma digit_val: "digit c = six_val (int (code c))"
proof -
  have "tabulates six_val 0 pr2six"
    by (simp add: six_val_def pr2six_def)
  moreover have "length pr2six = 256"
    by (simp add: pr2six_def)
  ultimately show ?thesis
    using tabulates_nth [of six_val 0 pr2six "code c"] by (simp add: digit_def)
qed

lemma digit_less: "is64 c \<longleftrightarrow> digit c < 64"
  by (auto simp: is64_def)

lemma digit_basis: "v < 64 \<Longrightarrow> digit (basis_64 ! v) = v"
proof -
  have "tabulates nat 0 (map digit basis_64)"
    by (simp add: basis_64_def digit_val six_val_def)
  moreover have "length basis_64 = 64"
    by (simp add: basis_64_def)
  ultimately show "v < 64 \<Longrightarrow> digit (basis_64 ! v) = v"
    using tabulates_nth [of nat 0 "map digit basis_64" v] by simp
qed

lemma char_of_mod: "char_of (n mod 256 :: nat) = char_of n"
  using char_of_take_bit_eq [of 8 n] by (simp add: take_bit_eq_mod)

lemma push_or_nat: "b < 2 ^ n \<Longrightarrow> push_bit n a OR b = push_bit n a + (b :: nat)"
proof -
  assume "b < 2 ^ n"
  then have "take_bit n b = b"
    by (simp add: take_bit_eq_mod)
  moreover have "push_bit n a OR take_bit n b = push_bit n a + take_bit n b"
    by (rule disjunctive_add_eq_or [symmetric], rule bit_eqI) (simp add: bit_and_iff bit_push_bit_iff bit_take_bit_iff)
  ultimately show ?thesis
    by simp
qed

lemma dec_chars:
  assumes "a < 64" "b < 64" "c < 64" "d < 64"
  shows "char_of (push_bit 2 a OR drop_bit 4 b) = six0 a b" "char_of (push_bit 4 b OR drop_bit 2 c) = six1 b c"
    "char_of (push_bit 6 c OR d) = six2 c d"
proof -
  have l: "drop_bit 4 b < 2 ^ 2" "drop_bit 2 c < 2 ^ 4" "d < 2 ^ 6"
    using assms by (simp_all add: drop_bit_eq_div)
  show "char_of (push_bit 2 a OR drop_bit 4 b) = six0 a b"
    unfolding push_or_nat [OF l(1)] by (simp add: six0_def push_bit_eq_mult drop_bit_eq_div mult.commute)
  have "(16 * b + c div 4) mod 256 = b mod 16 * 16 + c div 4"
    using assms mod_mult2_eq [of "16 * b + c div 4" 16 16] by simp
  then show "char_of (push_bit 4 b OR drop_bit 2 c) = six1 b c"
    unfolding push_or_nat [OF l(2)] six1_def using char_of_mod [of "16 * b + c div 4"]
    by (simp add: push_bit_eq_mult drop_bit_eq_div mult.commute)
  have "(64 * c + d) mod 256 = c mod 4 * 64 + d"
    using assms mod_mult2_eq [of "64 * c + d" 64 4] by simp
  then show "char_of (push_bit 6 c OR d) = six2 c d"
    unfolding push_or_nat [OF l(3)] six2_def using char_of_mod [of "64 * c + d"]
    by (simp add: push_bit_eq_mult mult.commute)
qed

lemma nprbytes_eq: "b64_nprbytes (s @ [NUL]) = Some (length (takeWhile is64 s))"
proof -
  have "pr2six ! 0 = 64"
    using digit_val [of NUL] by (simp add: digit_def six_val_def)
  then show ?thesis
    by (induction s) (simp_all add: is64_def digit_def)
qed

lemma b64_dec_simps:
  "is64 a \<Longrightarrow> is64 b \<Longrightarrow> b64_dec0 (a # b # m) = Some (six0 (digit a) (digit b))"
  "is64 b \<Longrightarrow> is64 c \<Longrightarrow> b64_dec1 (a # b # c # m) = Some (six1 (digit b) (digit c))"
  "is64 c \<Longrightarrow> is64 d \<Longrightarrow> b64_dec2 (a # b # c # d # m) = Some (six2 (digit c) (digit d))"
  using dec_chars [of "digit a" "digit b" "digit b" "digit b"] dec_chars [of "digit b" "digit b" "digit c" "digit c"]
    dec_chars [of "digit c" "digit c" "digit c" "digit d"]
  by (simp_all add: b64_dec0_def b64_dec1_def b64_dec2_def b64_six_def digit_def [symmetric] digit_less numeral_2_eq_2 numeral_3_eq_3)

text \<open>The second half of \<open>Base64decode\<close>, after its loop.\<close>

definition b64_tail :: "nat \<Rightarrow> int \<Rightarrow> string \<times> string \<times> nat \<Rightarrow> (string \<times> int) option" where
  "b64_tail cap nb = (\<lambda>(bufout, bufin, nprbytes). do {
     bufout \<leftarrow> (if nprbytes > 1 then do { c \<leftarrow> b64_dec0 bufin; buf_put cap bufout c } else Some bufout);
     bufout \<leftarrow> (if nprbytes > 2 then do { c \<leftarrow> b64_dec1 bufin; buf_put cap bufout c } else Some bufout);
     bufout \<leftarrow> (if nprbytes > 3 then do { c \<leftarrow> b64_dec2 bufin; buf_put cap bufout c } else Some bufout);
     bufout \<leftarrow> buf_put cap bufout NUL;
     Some (bufout, nb - ((4 - int nprbytes) AND 3)) })"

declare b64_dec_loop.simps [simp del]

lemma list4_cases:
  obtains "cs = []" | a where "cs = [a]" | a b where "cs = [a, b]" | a b c where "cs = [a, b, c]"
    | a b c d r where "cs = a # b # c # d # r"
  by (cases cs; cases "tl cs"; cases "tl (tl cs)"; cases "tl (tl (tl cs))") auto

lemma Base64decode_tail:
  "Base64decode cap m = b64_nprbytes m \<bind> (\<lambda>npr. b64_dec_loop cap [] m npr \<bind> b64_tail cap ((int npr + 3) div 4 * 3))"
  by (simp add: Base64decode_def b64_tail_def Let_def split_def)

lemma dec_loop_tail:
  assumes "list_all is64 cs" "length out + length (unsix (map digit cs)) < cap"
  shows "b64_dec_loop cap out (cs @ m) (length cs) \<bind> b64_tail cap nb =
    Some (out @ unsix (map digit cs) @ [NUL], nb + int (length (unsix (map digit cs))) - (int (length cs) + 3) div 4 * 3)"
  using assms
proof (induction "length cs" arbitrary: cs out nb rule: less_induct)
  case less
  show ?case
  proof (cases "length cs > 4")
    case True
    then obtain a b c d cs' where cs: "cs = a # b # c # d # cs'" "cs' \<noteq> []"
      by (cases cs rule: list4_cases) auto
    let ?o = "out @ [six0 (digit a) (digit b), six1 (digit b) (digit c), six2 (digit c) (digit d)]"
    have "b64_dec_loop cap out (cs @ m) (length cs) = b64_dec_loop cap ?o (cs' @ m) (length cs')"
      using less.prems cs by (subst b64_dec_loop.simps) (simp add: b64_dec_simps buf_put_def)
    moreover have "(int (length cs) + 3) div 4 * 3 = (int (length cs') + 3) div 4 * 3 + 3"
      using div_add_self2 [of 4 "int (length cs') + 3"] by (simp add: cs)
    ultimately show ?thesis
      using less.hyps [of cs' ?o nb] less.prems cs by simp
  next
    case False
    then show ?thesis
      using less.prems
      by (cases cs rule: list4_cases) (auto simp: b64_dec_loop.simps b64_tail_def b64_dec_simps buf_put_def and_low)
  qed
qed

lemma length_unsix: "length (unsix ds) \<le> length ds"
  by (induction ds rule: unsix.induct) auto

lemma Base64DecodeFast_eq:
  assumes "length s < 2 ^ 30"
  shows "Base64DecodeFast s = Some (unsix (map digit (takeWhile is64 s)))"
proof -
  let ?cs = "takeWhile is64 s"
  have "list_all is64 ?cs"
    by (auto simp: list_all_iff dest: set_takeWhileD)
  moreover have "length (unsix (map digit ?cs)) < length s + 1"
    using length_unsix [of "map digit ?cs"] length_takeWhile_le [of is64 s] by simp
  moreover have eq: "?cs @ dropWhile is64 s @ [NUL] = s @ [NUL]"
    by (simp flip: append_assoc)
  ultimately have "Base64decode (length s + 1) (s @ [NUL]) = Some (unsix (map digit ?cs) @ [NUL], int (length (unsix (map digit ?cs))))"
    using dec_loop_tail [of ?cs "[]" "length s + 1" "dropWhile is64 s @ [NUL]"] unfolding eq
    by (simp add: Base64decode_tail nprbytes_eq)
  then show ?thesis
    using assms by (simp add: Base64DecodeFast_def resize_def)
qed

text \<open>The stream decoder, with the usual characters: its inner loop by the class of the next
  character.\<close>

abbreviation quad where "quad \<equiv> b64_quad 61 43 47"
abbreviation decode_loop where "decode_loop \<equiv> b64_decode_loop 61 43 47"

lemma quad_Nil: "quad (Suc n) byte t ix [] = Inl NotMultipleOfFour"
  by (simp add: is_get_def)

lemma quad_Cons:
  "quad (Suc n) byte t ix (c # s) =
     (if c = CHR ''='' then Inr (byte, 61, 3 - n, s)
      else if is64 c then quad n (byte[3 - n := int (digit c)]) (int (code c)) ix s else Inl BadCharacter)"
proof -
  have "c = CHR ''='' \<longleftrightarrow> int (code c) = 61"
    using of_char_eq_iff [of c "CHR ''=''", where 'a = nat] by simp
  then show ?thesis
    by (auto simp: is_get_def Let_def is64_def digit_val six_val_def algebra_simps of_nat_diff)
qed

lemma quad_0: "quad 0 byte t ix s = Inr (byte, t, ix, s)"
  by simp

lemma code_is64: "is64 c \<Longrightarrow> int (code c) \<noteq> 61"
  by (auto simp: is64_def digit_val six_val_def)

lemma is64_makeup [simp]: "\<not> is64 (CHR ''='')"
  using code_is64 by fastforce

declare b64_quad.simps [simp del] b64_decode_loop.simps [simp del]

lemmas quad_steps = quad_Nil quad_Nil [of "Suc 0", folded numeral_2_eq_2] quad_Nil [of 2, simplified] quad_Nil [of 3, simplified]
  quad_Cons [of 0, simplified] quad_Cons [of "Suc 0", folded numeral_2_eq_2, simplified] quad_Cons [of 2, simplified] quad_Cons [of 3, simplified] quad_0 code_is64

lemma put_chars:
  "os_put (push_bit 2 (int a) + drop_bit 4 (int b)) = six0 a b"
  "os_put (push_bit 4 (int b AND 15) + drop_bit 2 (int c)) = six1 b c"
  "os_put (push_bit 6 (int c AND 3) + int d) = six2 c d"
proof -
  have "os_put (int n) = char_of n" for n
    by (simp add: os_put_def char_of_def bit_of_nat_iff)
  from this [of "4 * a + b div 16"] this [of "b mod 16 * 16 + c div 4"] this [of "c mod 4 * 64 + d"]
  show "os_put (push_bit 2 (int a) + drop_bit 4 (int b)) = six0 a b"
    "os_put (push_bit 4 (int b AND 15) + drop_bit 2 (int c)) = six1 b c"
    "os_put (push_bit 6 (int c AND 3) + int d) = six2 c d"
    by (simp_all add: six0_def six1_def six2_def bit_arith zdiv_int zmod_int mult.commute)
qed

lemmas put_simps = put_chars put_chars [simplified]

lemma decode_loop_Nil: "decode_loop ix [] os = (os, None)"
  by (simp add: b64_decode_loop.simps is_peek_def is_get_def)

lemma is_peek_simps: "is_peek [] = -1" "is_peek (c # s) = int (code c)"
  "is_get [] = (-1, [])" "is_get (c # s) = (int (code c), s)"
  by (simp_all add: is_peek_def is_get_def)

lemma decode_loop_four:
  assumes "is64 a" "is64 b" "is64 c" "is64 d"
  shows "decode_loop ix (a # b # c # d # s) os = decode_loop ix s (os @ unsix (map digit [a, b, c, d]))"
proof -
  have "a \<noteq> CHR ''=''" "b \<noteq> CHR ''=''" "c \<noteq> CHR ''=''" "d \<noteq> CHR ''=''"
    using assms by auto
  then have "quad 4 [0, 0, 0, 0] 0 ix (a # b # c # d # s) =
      Inr ([int (digit a), int (digit b), int (digit c), int (digit d)], int (code d), ix, s)"
    using assms by (simp add: quad_steps)
  then show ?thesis
    using code_is64 [OF assms(4)] by (subst b64_decode_loop.simps) (simp add: is_peek_simps put_simps)
qed

text \<open>The texts the stream decoder accepts.\<close>

definition b64_wf :: "string \<Rightarrow> bool" where
  "b64_wf s \<longleftrightarrow> length s mod 4 = 0 \<and> dropWhile is64 s \<in> {[], ''='', ''==''}"

lemma decode_loop_makeup:
  "is64 a \<Longrightarrow> is64 b \<Longrightarrow> is64 c \<Longrightarrow> decode_loop ix [a, b, c, CHR ''=''] os = (os @ unsix (map digit [a, b, c]), None)"
  "is64 a \<Longrightarrow> is64 b \<Longrightarrow> decode_loop ix [a, b, CHR ''='', CHR ''=''] os = (os @ unsix (map digit [a, b]), None)"
proof -
  assume a: "is64 a" "is64 b"
  then have n: "a \<noteq> CHR ''=''" "b \<noteq> CHR ''=''"
    by auto
  show "decode_loop ix [a, b, CHR ''='', CHR ''=''] os = (os @ unsix (map digit [a, b]), None)"
    using a n by (subst b64_decode_loop.simps) (simp add: quad_steps is_peek_simps put_simps decode_loop_Nil)
  assume "is64 c"
  moreover from this have "c \<noteq> CHR ''=''"
    by auto
  ultimately show "decode_loop ix [a, b, c, CHR ''=''] os = (os @ unsix (map digit [a, b, c]), None)"
    using a n by (subst b64_decode_loop.simps) (simp add: quad_steps is_peek_simps put_simps decode_loop_Nil)
qed

lemma decode_loop_bad:
  assumes "\<not> (is64 a \<and> is64 b \<and> is64 c \<and> is64 d)"
    and "\<not> (is64 a \<and> is64 b \<and> (is64 c \<or> c = CHR ''='') \<and> d = CHR ''='' \<and> s = [])"
  shows "\<exists>e. decode_loop ix (a # b # c # d # s) os = (os, Some e)"
proof -
  have eq: "code d = 61 \<longleftrightarrow> d = CHR ''=''"
    using of_char_eq_iff [of d "CHR ''=''", where 'a = nat] by simp
  have pk: "is_peek s < 0 \<longleftrightarrow> s = []"
    by (cases s) (simp_all add: is_peek_simps)
  show ?thesis
    using assms by (subst b64_decode_loop.simps) (auto simp: quad_steps is_peek_simps eq pk)
qed

lemma decode_loop_short:
  assumes "s \<noteq> []" "length s < 4"
  shows "\<exists>e. decode_loop ix s os = (os, Some e)"
  using assms by (subst b64_decode_loop.simps, cases s rule: list4_cases) (auto simp: quad_steps is_peek_simps)

lemma decode_loop_result:
  "if b64_wf s then decode_loop ix s os = (os @ unsix (map digit (takeWhile is64 s)), None)
   else \<exists>out e. decode_loop ix s os = (out, Some e)"
proof (induction "length s" arbitrary: s os rule: less_induct)
  case less
  show ?case
  proof (cases "length s < 4")
    case True
    then show ?thesis
      using decode_loop_short [of s ix os] by (cases "s = []") (auto simp: b64_wf_def decode_loop_Nil)
  next
    case False
    then obtain a b c d r where s: "s = a # b # c # d # r"
      by (cases s rule: list4_cases) auto
    show ?thesis
    proof (cases "is64 a \<and> is64 b \<and> is64 c \<and> is64 d")
      case True
      moreover have "b64_wf s \<longleftrightarrow> b64_wf r"
        using True by (simp add: s b64_wf_def)
      ultimately show ?thesis
        using less.hyps [of r "os @ unsix (map digit [a, b, c, d])"] by (auto simp: s decode_loop_four)
    next
      case nd: False
      show ?thesis
      proof (cases "is64 a \<and> is64 b \<and> (is64 c \<or> c = CHR ''='') \<and> d = CHR ''='' \<and> r = []")
        case True
        then show ?thesis
          using nd by (auto simp: s b64_wf_def decode_loop_makeup)
      next
        case False
        then have "\<not> b64_wf s"
          using nd by (auto simp: s b64_wf_def)
        then show ?thesis
          using decode_loop_bad [OF nd False, of ix os] by (auto simp: s)
      qed
    qed
  qed
qed

subsection \<open>Properties\<close>

lemma text_digits: "takeWhile is64 (b64_text s) = map (\<lambda>v. basis_64 ! v) (six s)" "dropWhile is64 (b64_text s) = makeup s"
proof -
  have d: "is64 c" if "c \<in> set (map (\<lambda>v. basis_64 ! v) (six s))" for c
    using that six_less [of s] by (auto simp: is64_def digit_basis)
  have "takeWhile is64 (makeup s) = []" "dropWhile is64 (makeup s) = makeup s"
    by (simp_all add: makeup_def split: nat.splits)
  then show "takeWhile is64 (b64_text s) = map (\<lambda>v. basis_64 ! v) (six s)" "dropWhile is64 (b64_text s) = makeup s"
    unfolding b64_text_def by (simp_all only: takeWhile_append2 [OF d] dropWhile_append2 [OF d] append_Nil2)
qed

lemma digits_text: "map (digit \<circ> (!) basis_64) (six s) = six s"
  using six_less [of s] by (simp add: digit_basis map_idI)

lemma text_wf: "b64_wf (b64_text s)"
  using length_six [of s] unfolding b64_wf_def text_digits by (auto simp: b64_text_def makeup_def split: nat.splits)

text \<open>Property C14. Both decoders invert both encoders: for every byte string of at most 2 ^ 29 bytes, the stream encoder
  and the fast encoder write the same text, the stream decoder reads it back without an
  exception, and so does the fast decoder. The fast functions never write outside of their buffers.\<close>

theorem base64_round_trip:
  assumes "length s \<le> 2 ^ 29"
  shows "Base64EncodeFast s = Some (Base64Encoding (CHR ''='') basis_64 s) \<and>
    Base64Decoding 43 47 (Base64Encoding (CHR ''='') basis_64 s) = (s, None) \<and>
    Base64DecodeFast (Base64Encoding (CHR ''='') basis_64 s) = Some s"
proof -
  have "length (b64_text s) = (length s + 2) div 3 * 4"
    using length_six [of s] by (simp add: b64_text_def)
  then have "length (b64_text s) < 2 ^ 30"
    using assms by simp
  then show ?thesis
    using assms Base64DecodeFast_eq [of "b64_text s"] decode_loop_result [of "b64_text s" 0 "[]"]
    by (simp add: Base64Encoding_text Base64EncodeFast_text Base64Decoding_def Base64DecodingEx_def text_wf text_digits digits_text)
qed

theorem base64_round_trip_witness:
  "Base64EncodeFast ''foob'' = Some ''Zm9vYg=='' \<and> Base64DecodeFast ''Zm9vYg=='' = Some ''foob''"
proof -
  have "Base64Encoding (CHR ''='') basis_64 ''foob'' = ''Zm9vYg==''"
    by code_simp
  then show ?thesis
    using base64_round_trip [of "''foob''"] by simp
qed

text \<open>Property C18. The stream decoder accepts exactly the texts of a multiple of four characters,
  all of the alphabet but for at most two padding characters at the end, and every other text raises
  an exception; on the accepted texts the fast decoder returns the same bytes. On every text,
  accepted or not, the fast decoder returns and stays inside its buffer.\<close>

theorem base64_decoders_agree:
  assumes "length s < 2 ^ 30"
  shows "(snd (Base64Decoding 43 47 s) = None \<longleftrightarrow> b64_wf s) \<and>
    Base64DecodeFast s \<noteq> None \<and> (b64_wf s \<longrightarrow> Base64DecodeFast s = Some (fst (Base64Decoding 43 47 s)))"
  using Base64DecodeFast_eq [OF assms] decode_loop_result [of s 0 "[]"]
  by (auto simp: Base64Decoding_def Base64DecodingEx_def split: if_splits)

theorem base64_decoders_agree_witness:
  "snd (Base64Decoding 43 47 ''Zm=v'') \<noteq> None \<and> Base64DecodeFast ''Zm=v'' \<noteq> None"
proof -
  have "\<not> b64_wf ''Zm=v''"
    by (simp add: b64_wf_def is64_def digit_val six_val_def)
  then show ?thesis
    using base64_decoders_agree [of "''Zm=v''"] by simp
qed

end
