(* ===== verification/Md5.thy ===== *)
theory Md5
  imports CStrings
begin

text \<open>
  MD5 (\<open>util/legacy/md5.cpp\<close>). A block of 16 words is its 64 bytes in memory, read as
  words in the byte order of the machine (\<open>le\<close> for little endian); the input is a byte
  array and a read behind its end is undefined. The one-shot functions and the stream class
  are modelled, loops with their 32-bit index. The source also keeps, disabled, a plain loop
  version of the compression function with tables; it is the reference here: the unrolled
  function is equal to it, the one-shot function is MD5 of its input and the stream class
  computes the same however the input is cut. The last theorems are about what goes wrong:
  the 32-bit index never reaches the end of an input of 4 GiB, and the copy loop of the big
  endian code runs over the end of the block.
\<close>

subsection \<open>Operations and rounds\<close>

type_synonym word32 = "32 word"

definition SHIFT_LEFT :: "word32 \<Rightarrow> nat \<Rightarrow> word32" where
  "SHIFT_LEFT a b = push_bit b a OR drop_bit (32 - b) a"

definition F :: "word32 \<Rightarrow> word32 \<Rightarrow> word32 \<Rightarrow> word32" where
  "F b c d = (b AND c) OR (NOT b AND d)"

definition G :: "word32 \<Rightarrow> word32 \<Rightarrow> word32 \<Rightarrow> word32" where
  "G b c d = (d AND b) OR (NOT d AND c)"

definition H :: "word32 \<Rightarrow> word32 \<Rightarrow> word32 \<Rightarrow> word32" where
  "H b c d = b XOR c XOR d"

definition I :: "word32 \<Rightarrow> word32 \<Rightarrow> word32 \<Rightarrow> word32" where
  "I b c d = c XOR (b OR NOT d)"

text \<open>The value the macros leave in their first argument.\<close>

definition FF :: "word32 \<Rightarrow> word32 \<Rightarrow> word32 \<Rightarrow> word32 \<Rightarrow> word32 \<Rightarrow> nat \<Rightarrow> word32 \<Rightarrow> word32" where
  "FF a b c d w shift k = SHIFT_LEFT (a + (F b c d + w + k)) shift + b"

definition GG :: "word32 \<Rightarrow> word32 \<Rightarrow> word32 \<Rightarrow> word32 \<Rightarrow> word32 \<Rightarrow> nat \<Rightarrow> word32 \<Rightarrow> word32" where
  "GG a b c d w shift k = SHIFT_LEFT (a + (G b c d + w + k)) shift + b"

definition HH :: "word32 \<Rightarrow> word32 \<Rightarrow> word32 \<Rightarrow> word32 \<Rightarrow> word32 \<Rightarrow> nat \<Rightarrow> word32 \<Rightarrow> word32" where
  "HH a b c d w shift k = SHIFT_LEFT (a + (H b c d + w + k)) shift + b"

definition II :: "word32 \<Rightarrow> word32 \<Rightarrow> word32 \<Rightarrow> word32 \<Rightarrow> word32 \<Rightarrow> nat \<Rightarrow> word32 \<Rightarrow> word32" where
  "II a b c d w shift k = SHIFT_LEFT (a + (I b c d + w + k)) shift + b"

type_synonym md5_state = "word32 \<times> word32 \<times> word32 \<times> word32"

definition md5_round1 :: "word32 list \<Rightarrow> md5_state \<Rightarrow> md5_state" where
  "md5_round1 block = (\<lambda>(a, b, c, d).
     let
      a = FF a b c d (block ! 0) 7 0xd76aa478;
      d = FF d a b c (block ! 1) 12 0xe8c7b756;
      c = FF c d a b (block ! 2) 17 0x242070db;
      b = FF b c d a (block ! 3) 22 0xc1bdceee;
      a = FF a b c d (block ! 4) 7 0xf57c0faf;
      d = FF d a b c (block ! 5) 12 0x4787c62a;
      c = FF c d a b (block ! 6) 17 0xa8304613;
      b = FF b c d a (block ! 7) 22 0xfd469501;
      a = FF a b c d (block ! 8) 7 0x698098d8;
      d = FF d a b c (block ! 9) 12 0x8b44f7af;
      c = FF c d a b (block ! 10) 17 0xffff5bb1;
      b = FF b c d a (block ! 11) 22 0x895cd7be;
      a = FF a b c d (block ! 12) 7 0x6b901122;
      d = FF d a b c (block ! 13) 12 0xfd987193;
      c = FF c d a b (block ! 14) 17 0xa679438e;
      b = FF b c d a (block ! 15) 22 0x49b40821
     in (a, b, c, d))"

definition md5_round2 :: "word32 list \<Rightarrow> md5_state \<Rightarrow> md5_state" where
  "md5_round2 block = (\<lambda>(a, b, c, d).
     let
      a = GG a b c d (block ! 1) 5 0xf61e2562;
      d = GG d a b c (block ! 6) 9 0xc040b340;
      c = GG c d a b (block ! 11) 14 0x265e5a51;
      b = GG b c d a (block ! 0) 20 0xe9b6c7aa;
      a = GG a b c d (block ! 5) 5 0xd62f105d;
      d = GG d a b c (block ! 10) 9 0x2441453;
      c = GG c d a b (block ! 15) 14 0xd8a1e681;
      b = GG b c d a (block ! 4) 20 0xe7d3fbc8;
      a = GG a b c d (block ! 9) 5 0x21e1cde6;
      d = GG d a b c (block ! 14) 9 0xc33707d6;
      c = GG c d a b (block ! 3) 14 0xf4d50d87;
      b = GG b c d a (block ! 8) 20 0x455a14ed;
      a = GG a b c d (block ! 13) 5 0xa9e3e905;
      d = GG d a b c (block ! 2) 9 0xfcefa3f8;
      c = GG c d a b (block ! 7) 14 0x676f02d9;
      b = GG b c d a (block ! 12) 20 0x8d2a4c8a
     in (a, b, c, d))"

definition md5_round3 :: "word32 list \<Rightarrow> md5_state \<Rightarrow> md5_state" where
  "md5_round3 block = (\<lambda>(a, b, c, d).
     let
      a = HH a b c d (block ! 5) 4 0xfffa3942;
      d = HH d a b c (block ! 8) 11 0x8771f681;
      c = HH c d a b (block ! 11) 16 0x6d9d6122;
      b = HH b c d a (block ! 14) 23 0xfde5380c;
      a = HH a b c d (block ! 1) 4 0xa4beea44;
      d = HH d a b c (block ! 4) 11 0x4bdecfa9;
      c = HH c d a b (block ! 7) 16 0xf6bb4b60;
      b = HH b c d a (block ! 10) 23 0xbebfbc70;
      a = HH a b c d (block ! 13) 4 0x289b7ec6;
      d = HH d a b c (block ! 0) 11 0xeaa127fa;
      c = HH c d a b (block ! 3) 16 0xd4ef3085;
      b = HH b c d a (block ! 6) 23 0x4881d05;
      a = HH a b c d (block ! 9) 4 0xd9d4d039;
      d = HH d a b c (block ! 12) 11 0xe6db99e5;
      c = HH c d a b (block ! 15) 16 0x1fa27cf8;
      b = HH b c d a (block ! 2) 23 0xc4ac5665
     in (a, b, c, d))"

definition md5_round4 :: "word32 list \<Rightarrow> md5_state \<Rightarrow> md5_state" where
  "md5_round4 block = (\<lambda>(a, b, c, d).
     let
      a = II a b c d (block ! 0) 6 0xf4292244;
      d = II d a b c (block ! 7) 10 0x432aff97;
      c = II c d a b (block ! 14) 15 0xab9423a7;
      b = II b c d a (block ! 5) 21 0xfc93a039;
      a = II a b c d (block ! 12) 6 0x655b59c3;
      d = II d a b c (block ! 3) 10 0x8f0ccc92;
      c = II c d a b (block ! 10) 15 0xffeff47d;
      b = II b c d a (block ! 1) 21 0x85845dd1;
      a = II a b c d (block ! 8) 6 0x6fa87e4f;
      d = II d a b c (block ! 15) 10 0xfe2ce6e0;
      c = II c d a b (block ! 6) 15 0xa3014314;
      b = II b c d a (block ! 13) 21 0x4e0811a1;
      a = II a b c d (block ! 4) 6 0xf7537e82;
      d = II d a b c (block ! 11) 10 0xbd3af235;
      c = II c d a b (block ! 2) 15 0x2ad7d2bb;
      b = II b c d a (block ! 9) 21 0xeb86d391
     in (a, b, c, d))"

definition CalMd5 :: "word32 list \<Rightarrow> word32 list \<Rightarrow> word32 list" where
  "CalMd5 block h =
     (let x = (h ! 0, h ! 1, h ! 2, h ! 3);
          x = md5_round1 block x; x = md5_round2 block x; x = md5_round3 block x; x = md5_round4 block x
      in case x of (a, b, c, d) \<Rightarrow> [h ! 0 + a, h ! 1 + b, h ! 2 + c, h ! 3 + d])"

subsection \<open>The reference\<close>

text \<open>The disabled version at the end of the file: tables of shifts and constants and one loop.\<close>

definition md5_r :: "nat list" where
  "md5_r = [
    7, 12, 17, 22, 7, 12, 17, 22, 7, 12, 17, 22, 7, 12, 17, 22,
    5, 9, 14, 20, 5, 9, 14, 20, 5, 9, 14, 20, 5, 9, 14, 20,
    4, 11, 16, 23, 4, 11, 16, 23, 4, 11, 16, 23, 4, 11, 16, 23,
    6, 10, 15, 21, 6, 10, 15, 21, 6, 10, 15, 21, 6, 10, 15, 21]"

definition md5_k :: "word32 list" where
  "md5_k = [
    0xd76aa478, 0xe8c7b756, 0x242070db, 0xc1bdceee,
    0xf57c0faf, 0x4787c62a, 0xa8304613, 0xfd469501,
    0x698098d8, 0x8b44f7af, 0xffff5bb1, 0x895cd7be,
    0x6b901122, 0xfd987193, 0xa679438e, 0x49b40821,
    0xf61e2562, 0xc040b340, 0x265e5a51, 0xe9b6c7aa,
    0xd62f105d, 0x02441453, 0xd8a1e681, 0xe7d3fbc8,
    0x21e1cde6, 0xc33707d6, 0xf4d50d87, 0x455a14ed,
    0xa9e3e905, 0xfcefa3f8, 0x676f02d9, 0x8d2a4c8a,
    0xfffa3942, 0x8771f681, 0x6d9d6122, 0xfde5380c,
    0xa4beea44, 0x4bdecfa9, 0xf6bb4b60, 0xbebfbc70,
    0x289b7ec6, 0xeaa127fa, 0xd4ef3085, 0x04881d05,
    0xd9d4d039, 0xe6db99e5, 0x1fa27cf8, 0xc4ac5665,
    0xf4292244, 0x432aff97, 0xab9423a7, 0xfc93a039,
    0x655b59c3, 0x8f0ccc92, 0xffeff47d, 0x85845dd1,
    0x6fa87e4f, 0xfe2ce6e0, 0xa3014314, 0x4e0811a1,
    0xf7537e82, 0xbd3af235, 0x2ad7d2bb, 0xeb86d391]"

definition md5_step :: "word32 list \<Rightarrow> nat \<Rightarrow> md5_state \<Rightarrow> md5_state" where
  "md5_step block i = (\<lambda>(a, b, c, d).
     let (f, g) =
           (if i < 16 then ((b AND c) OR (NOT b AND d), i)
            else if i < 32 then ((d AND b) OR (NOT d AND c), (5 * i + 1) mod 16)
            else if i < 48 then (b XOR c XOR d, (3 * i + 5) mod 16)
            else (c XOR (b OR NOT d), (7 * i) mod 16))
     in (d, b + SHIFT_LEFT (a + f + md5_k ! i + block ! g) (md5_r ! i), b, c))"

definition md5_compress :: "word32 list \<Rightarrow> word32 list \<Rightarrow> word32 list" where
  "md5_compress block h =
     (case fold (md5_step block) [0..<64] (h ! 0, h ! 1, h ! 2, h ! 3) of
        (a, b, c, d) \<Rightarrow> [h ! 0 + a, h ! 1 + b, h ! 2 + c, h ! 3 + d])"

lemma md5_step_macros:
  "i < 16 \<Longrightarrow> md5_step block i (a, b, c, d) = (d, FF a b c d (block ! i) (md5_r ! i) (md5_k ! i), b, c)"
  "16 \<le> i \<Longrightarrow> i < 32 \<Longrightarrow> md5_step block i (a, b, c, d) = (d, GG a b c d (block ! ((5 * i + 1) mod 16)) (md5_r ! i) (md5_k ! i), b, c)"
  "32 \<le> i \<Longrightarrow> i < 48 \<Longrightarrow> md5_step block i (a, b, c, d) = (d, HH a b c d (block ! ((3 * i + 5) mod 16)) (md5_r ! i) (md5_k ! i), b, c)"
  "48 \<le> i \<Longrightarrow> md5_step block i (a, b, c, d) = (d, II a b c d (block ! ((7 * i) mod 16)) (md5_r ! i) (md5_k ! i), b, c)"
  by (simp_all add: md5_step_def FF_def GG_def HH_def II_def F_def G_def H_def I_def add_ac)

text \<open>A \<open>let\<close> whose value is kept under its name.\<close>

lemma Let_named: "(\<And>x. s = x \<Longrightarrow> f x = t) \<Longrightarrow> Let s f = t"
  by (simp add: Let_def)

lemmas md5_tables = md5_r_def md5_k_def

lemma upt_rounds:
  "[0..<16] = [0, 1, 2, 3, 4, 5, 6, 7, 8, 9, 10, 11, 12, 13, 14, 15]"
  "[16..<32] = [16, 17, 18, 19, 20, 21, 22, 23, 24, 25, 26, 27, 28, 29, 30, 31]"
  "[32..<48] = [32, 33, 34, 35, 36, 37, 38, 39, 40, 41, 42, 43, 44, 45, 46, 47]"
  "[48..<64] = [48, 49, 50, 51, 52, 53, 54, 55, 56, 57, 58, 59, 60, 61, 62, 63]"
  by (simp_all add: upt_numeral_Cons)

lemma md5_round1_fold: "md5_round1 block x = fold (md5_step block) [0..<16] x"
  unfolding md5_round1_def upt_rounds
  by (cases x, simp only: prod.case, intro Let_named) (simp add: md5_step_macros md5_tables)

lemma md5_round2_fold: "md5_round2 block x = fold (md5_step block) [16..<32] x"
  unfolding md5_round2_def upt_rounds
  by (cases x, simp only: prod.case, intro Let_named) (simp add: md5_step_macros md5_tables)

lemma md5_round3_fold: "md5_round3 block x = fold (md5_step block) [32..<48] x"
  unfolding md5_round3_def upt_rounds
  by (cases x, simp only: prod.case, intro Let_named) (simp add: md5_step_macros md5_tables)

lemma md5_round4_fold: "md5_round4 block x = fold (md5_step block) [48..<64] x"
  unfolding md5_round4_def upt_rounds
  by (cases x, simp only: prod.case, intro Let_named) (simp add: md5_step_macros md5_tables)

lemma upt_64: "[0..<64] = [0..<16] @ [16..<32] @ [32..<48] @ [48..<64]"
  using upt_add_eq_append [of 0 16 48] upt_add_eq_append [of 16 32 32] upt_add_eq_append [of 32 48 16] by simp

lemma CalMd5_compress: "CalMd5 block h = md5_compress block h"
proof -
  show ?thesis
    by (simp add: upt_64 CalMd5_def md5_compress_def md5_round1_fold md5_round2_fold md5_round3_fold md5_round4_fold)
qed

subsection \<open>Memory\<close>

text \<open>A word in memory in the byte order of the machine, and its value.\<close>

definition bytes32 :: "bool \<Rightarrow> word32 \<Rightarrow> byte list" where
  "bytes32 le w = (let bs = [ucast w, ucast (drop_bit 8 w), ucast (drop_bit 16 w), ucast (drop_bit 24 w)] in if le then bs else rev bs)"

definition bytes64 :: "bool \<Rightarrow> 64 word \<Rightarrow> byte list" where
  "bytes64 le w = (let bs = map (\<lambda>i. ucast (drop_bit (8 * i) w)) [0..<8] in if le then bs else rev bs)"

definition word_le :: "byte \<Rightarrow> byte \<Rightarrow> byte \<Rightarrow> byte \<Rightarrow> word32" where
  "word_le p q r s = ucast p OR push_bit 8 (ucast q) OR push_bit 16 (ucast r) OR push_bit 24 (ucast s)"

definition word_at :: "bool \<Rightarrow> byte list \<Rightarrow> nat \<Rightarrow> word32" where
  "word_at le m i =
     (if le then word_le (m ! (4 * i)) (m ! (4 * i + 1)) (m ! (4 * i + 2)) (m ! (4 * i + 3))
      else word_le (m ! (4 * i + 3)) (m ! (4 * i + 2)) (m ! (4 * i + 1)) (m ! (4 * i)))"

text \<open>The 16 words of a block of 64 bytes.\<close>

definition block_words :: "bool \<Rightarrow> byte list \<Rightarrow> word32 list" where
  "block_words le m = map (word_at le m) [0..<16]"

text \<open>\<open>n\<close> bytes read from an array.\<close>

definition rd :: "byte list \<Rightarrow> nat \<Rightarrow> nat \<Rightarrow> byte list option" where
  "rd p i n = (if i + n \<le> length p then Some (seg i (i + n) p) else None)"

text \<open>\<open>CopyBytesToBlock\<close>, with \<open>n = 32 - i\<close> rounds to go.\<close>

primrec copy_loop :: "byte list \<Rightarrow> nat \<Rightarrow> byte list \<Rightarrow> byte list option" where
  "copy_loop poolIn 0 block = Some block"
| "copy_loop poolIn (Suc n) block = do {
     b \<leftarrow> rd poolIn (4 * (31 - n)) 4;
     block \<leftarrow> blit block (4 * (31 - n)) (bytes32 False (word_le (b ! 0) (b ! 1) (b ! 2) (b ! 3)));
     copy_loop poolIn n block }"

definition CopyBytesToBlock :: "byte list \<Rightarrow> byte list \<Rightarrow> byte list option" where
  "CopyBytesToBlock poolIn block = copy_loop poolIn 32 block"

text \<open>How 64 bytes get into a block on either machine. The bytes of an uninitialised block are
  all overwritten before they are read; they are taken as zero.\<close>

definition raw_block :: "byte list" where
  "raw_block = replicate 64 0"

definition to_block :: "bool \<Rightarrow> byte list \<Rightarrow> byte list option" where
  "to_block le p = (if le then do { b \<leftarrow> rd p 0 64; blit raw_block 0 b } else CopyBytesToBlock p raw_block)"

definition gPadding :: "byte list" where
  "gPadding = [0x80, 0x0, 0x0, 0x0, 0x0, 0x0, 0x0, 0x0, 0x0, 0x0, 0x0, 0x0, 0x0, 0x0, 0x0, 0x0,
               0x0, 0x0, 0x0, 0x0, 0x0, 0x0, 0x0, 0x0, 0x0, 0x0, 0x0, 0x0, 0x0, 0x0, 0x0, 0x0,
               0x0, 0x0, 0x0, 0x0, 0x0, 0x0, 0x0, 0x0, 0x0, 0x0, 0x0, 0x0, 0x0, 0x0, 0x0, 0x0,
               0x0, 0x0, 0x0, 0x0, 0x0, 0x0, 0x0, 0x0, 0x0, 0x0, 0x0, 0x0, 0x0, 0x0, 0x0, 0x0]"

text \<open>The rest of the input followed by padding, up to the size of a block.\<close>

definition pad_block :: "byte list \<Rightarrow> nat \<Rightarrow> nat \<Rightarrow> byte list option" where
  "pad_block p i n = do {
     b \<leftarrow> rd p i n; block \<leftarrow> blit raw_block 0 b;
     q \<leftarrow> rd gPadding 0 (64 - n); blit block n q }"

subsection \<open>The one-shot functions\<close>

definition md5_h0 :: "word32 list" where
  "md5_h0 = [0x67452301, 0xEFCDAB89, 0x98BADCFE, 0x10325476]"

text \<open>The loop over the complete blocks; its index has 32 bits, its bound 64.\<close>

partial_function (option) md5_blocks :: "bool \<Rightarrow> byte list \<Rightarrow> 64 word \<Rightarrow> 32 word \<Rightarrow> word32 list \<Rightarrow> (32 word \<times> word32 list) option" where
  "md5_blocks le poolIn fullLen i h =
     (if ucast i < fullLen then do {
        block \<leftarrow> to_block le (drop (unat i) poolIn);
        md5_blocks le poolIn fullLen (i + 64) (CalMd5 (block_words le block) h) }
      else Some (i, h))"

definition DoMd5Little :: "byte list \<Rightarrow> 64 word \<Rightarrow> byte list option" where
  "DoMd5Little poolIn inputBytesNum = do {
     let fullLen = push_bit 6 (drop_bit 6 inputBytesNum);
     let partLen = unat (inputBytesNum AND 0x3F);
     (i, h) \<leftarrow> md5_blocks True poolIn fullLen 0 md5_h0;
     block \<leftarrow> pad_block poolIn (unat i) partLen;
     let (block, h) = (if partLen > 55 then (replicate 64 0, CalMd5 (block_words True block) h) else (block, h));
     let bitsNum = inputBytesNum * 8;
     block \<leftarrow> blit block 56 (bytes64 True bitsNum);
     let h = CalMd5 (block_words True block) h;
     Some (concat (map (bytes32 True) h)) }"

definition DoMd5Big :: "byte list \<Rightarrow> 64 word \<Rightarrow> byte list option" where
  "DoMd5Big poolIn inputBytesNum = do {
     let fullLen = push_bit 6 (drop_bit 6 inputBytesNum);
     let partLen = unat (inputBytesNum AND 0x3F);
     (i, h) \<leftarrow> md5_blocks False poolIn fullLen 0 md5_h0;
     tempBlock \<leftarrow> pad_block poolIn (unat i) partLen;
     (tempBlock, h) \<leftarrow> (if partLen > 55 then do {
          block \<leftarrow> CopyBytesToBlock tempBlock raw_block;
          Some (replicate 64 0, CalMd5 (block_words False block) h) }
        else Some (tempBlock, h));
     let bitsNum = inputBytesNum * 8;
     tempBlock \<leftarrow> blit tempBlock 56 (bytes64 False bitsNum);
     block \<leftarrow> CopyBytesToBlock tempBlock raw_block;
     let h = CalMd5 (block_words False block) h;
     Some (concat (map (bytes32 False) h)) }"

definition DoMd5 :: "bool \<Rightarrow> byte list \<Rightarrow> 64 word \<Rightarrow> byte list option" where
  "DoMd5 le poolIn inputBytesNum =
     (if le then DoMd5Little poolIn inputBytesNum else DoMd5Big poolIn inputBytesNum)"

fun md5_equal :: "nat \<Rightarrow> byte list \<Rightarrow> byte list \<Rightarrow> bool option" where
  "md5_equal 0 p q = Some True"
| "md5_equal (Suc n) (x # p) (y # q) = (if x \<noteq> y then Some False else md5_equal n p q)"
| "md5_equal (Suc n) _ _ = None"

definition CheckMd5 :: "bool \<Rightarrow> byte list \<Rightarrow> 64 word \<Rightarrow> byte list \<Rightarrow> bool option" where
  "CheckMd5 le poolIn inputBytesNum md5 = do {
     newMd5 \<leftarrow> DoMd5 le poolIn inputBytesNum;
     md5_equal 16 newMd5 md5 }"

subsection \<open>The stream\<close>

record md5_stream =
  mLittleEndian :: bool
  mBuf :: "byte list"
  mBufPosition :: "64 word"
  mH :: "word32 list"
  mTotalBytes :: "64 word"

definition Initailize :: "md5_stream \<Rightarrow> md5_stream" where
  "Initailize m = m\<lparr>mH := md5_h0, mBufPosition := 0, mBuf := replicate 64 0, mTotalBytes := 0\<rparr>"

definition Md5Stream :: "bool \<Rightarrow> md5_stream" where
  "Md5Stream le = Initailize \<lparr>mLittleEndian = le, mBuf = [], mBufPosition = 0, mH = [], mTotalBytes = 0\<rparr>"

text \<open>\<open>md5_blocks\<close> with the bound \<open>fullLen - mBufPosition\<close> is the inner loop of \<open>Put\<close>.\<close>

definition md5_Put :: "byte list \<Rightarrow> 64 word \<Rightarrow> md5_stream \<Rightarrow> md5_stream option" where
  "md5_Put poolIn inputBytesNum m = do {
     let pos = mBufPosition m;
     let m = m\<lparr>mTotalBytes := mTotalBytes m + inputBytesNum\<rparr>;
     let length = inputBytesNum + pos;
     let fullLen = push_bit 6 (drop_bit 6 length);
     if fullLen \<ge> 64 then do {
       let i = (ucast (64 - pos) :: 32 word);
       b \<leftarrow> rd poolIn 0 (unat i);
       buf \<leftarrow> blit (mBuf m) (unat pos) b;
       block \<leftarrow> to_block (mLittleEndian m) buf;
       let h = CalMd5 (block_words (mLittleEndian m) block) (mH m);
       (i, h) \<leftarrow> md5_blocks (mLittleEndian m) poolIn (fullLen - pos) i h;
       let pos = inputBytesNum - ucast i;
       b \<leftarrow> rd poolIn (unat i) (unat pos);
       buf \<leftarrow> blit buf 0 b;
       Some (m\<lparr>mBuf := buf, mBufPosition := pos, mH := h\<rparr>) }
     else do {
       b \<leftarrow> rd poolIn 0 (unat inputBytesNum);
       buf \<leftarrow> blit (mBuf m) (unat pos) b;
       Some (m\<lparr>mBuf := buf, mBufPosition := pos + inputBytesNum\<rparr>) } }"

definition md5_Get :: "md5_stream \<Rightarrow> (byte list \<times> md5_stream) option" where
  "md5_Get m = do {
     let le = mLittleEndian m;
     (block, h) \<leftarrow> (if mBufPosition m > 55 then do {
          block \<leftarrow> pad_block (mBuf m) 0 (unat (mBufPosition m));
          block \<leftarrow> (if le then Some block else CopyBytesToBlock block raw_block);
          Some (replicate 64 0, CalMd5 (block_words le block) (mH m)) }
        else do {
          block \<leftarrow> pad_block (mBuf m) 0 (unat (mBufPosition m));
          Some (block, mH m) });
     let bitsNum = mTotalBytes m * 8;
     block \<leftarrow> blit block 56 (bytes64 le bitsNum);
     block \<leftarrow> (if le then Some block else CopyBytesToBlock block raw_block);
     let h = CalMd5 (block_words le block) h;
     Some (concat (map (bytes32 le) h), Initailize (m\<lparr>mH := h\<rparr>)) }"

text \<open>\<open>%02x\<close>.\<close>

definition hex_digit :: "nat \<Rightarrow> char" where
  "hex_digit n = ''0123456789abcdef'' ! n"

definition hex_02 :: "byte \<Rightarrow> string" where
  "hex_02 b = [hex_digit (unat b div 16), hex_digit (unat b mod 16)]"

definition GetMd5String :: "md5_stream \<Rightarrow> (string \<times> md5_stream) option" where
  "GetMd5String m = do {
     (hash, m) \<leftarrow> md5_Get m;
     Some (concat (map hex_02 hash), m) }"

subsection \<open>MD5 as a function of the message\<close>

fun md5_fold :: "word32 list \<Rightarrow> byte list \<Rightarrow> word32 list" where
  "md5_fold h m = (if length m < 64 then h else md5_fold (md5_compress (block_words True (take 64 m)) h) (drop 64 m))"

definition md5_pad :: "byte list \<Rightarrow> byte list" where
  "md5_pad msg = 0x80 # replicate ((119 - length msg mod 64) mod 64) 0 @ bytes64 True (word_of_nat (8 * length msg))"

definition md5 :: "byte list \<Rightarrow> byte list" where
  "md5 msg = concat (map (bytes32 True) (md5_fold md5_h0 (msg @ md5_pad msg)))"

declare md5_fold.simps [simp del]

lemma md5_fold_short: "length m < 64 \<Longrightarrow> md5_fold h m = h"
  by (simp add: md5_fold.simps)

lemma md5_fold_block: "length b = 64 \<Longrightarrow> md5_fold h (b @ m) = md5_fold (md5_compress (block_words True b) h) m"
  by (simp add: md5_fold.simps [of h "b @ m"])

lemma md5_fold_append: "length a mod 64 = 0 \<Longrightarrow> md5_fold h (a @ b) = md5_fold (md5_fold h a) b"
proof (induction "length a" arbitrary: a h rule: less_induct)
  case less
  show ?case
  proof (cases "length a < 64")
    case True
    then show ?thesis
      using less.prems by (simp add: md5_fold_short)
  next
    case False
    then have a: "a = take 64 a @ drop 64 a" "length (take 64 a) = 64"
      by simp_all
    have "length (drop 64 a) mod 64 = 0" "length (drop 64 a) < length a"
      using less.prems False by (simp_all add: le_mod_geq)
    then have "md5_fold g (drop 64 a @ b) = md5_fold (md5_fold g (drop 64 a)) b" for g
      by (rule less.hyps [rotated])
    then show ?thesis
      using a md5_fold_block [OF a(2), of h "drop 64 a @ b"] md5_fold_block [OF a(2), of h "drop 64 a"]
      by (metis append_assoc)
  qed
qed

subsection \<open>The model on a little endian machine\<close>

lemma unat_full: "unat (push_bit 6 (drop_bit 6 (n :: 64 word))) = unat n div 64 * 64"
proof -
  have "unat n div 64 * 64 \<le> unat n"
    by simp
  also have "\<dots> < 2 ^ 64"
    using unsigned_less [of n] by simp
  finally show ?thesis
    by (simp only: unsigned_push_bit_eq unsigned_drop_bit_eq) (simp add: drop_bit_eq_div push_bit_eq_mult take_bit_eq_mod)
qed

lemma unat_part: "unat ((n :: 64 word) AND 0x3F) = unat n mod 64"
proof -
  have "(n AND 0x3F) = take_bit 6 n"
    by (simp add: take_bit_eq_mask mask_eq_exp_minus_1)
  then have "unat (n AND 0x3F) = take_bit 6 (unat n)"
    by (simp only: unsigned_take_bit_eq)
  then show ?thesis
    by (simp add: take_bit_eq_mod)
qed

lemma rd_Some: "i + n \<le> length p \<Longrightarrow> rd p i n = Some (seg i (i + n) p)"
  by (simp add: rd_def)

lemma to_block_le: "64 \<le> length p \<Longrightarrow> to_block True p = Some (take 64 p)"
  by (simp add: to_block_def rd_def blit_def raw_block_def seg_def)

lemma gPadding_take: "n < 64 \<Longrightarrow> take (64 - n) gPadding = 0x80 # replicate (63 - n) 0"
proof -
  have g: "gPadding = 0x80 # replicate 63 0"
    by (simp add: gPadding_def numeral_eq_Suc)
  assume "n < 64"
  then have "64 - n = Suc (63 - n)"
    by simp
  then show "take (64 - n) gPadding = 0x80 # replicate (63 - n) 0"
    unfolding g by (simp add: min_def)
qed

lemma length_gPadding: "length gPadding = 64"
  by (simp add: gPadding_def)

lemma pad_block_eq:
  assumes "n < 64" "i + n \<le> length p"
  shows "pad_block p i n = Some (seg i (i + n) p @ 0x80 # replicate (63 - n) 0)"
proof -
  have "rd gPadding 0 (64 - n) = Some (0x80 # replicate (63 - n) 0)"
    using assms(1) gPadding_take [of n] by (simp add: rd_def length_gPadding seg_def)
  then show ?thesis
    using assms by (simp add: pad_block_def rd_Some blit_def raw_block_def)
qed

lemma unat_small: "k < 2 ^ LENGTH('a) \<Longrightarrow> unat (word_of_nat k :: 'a::len word) = k"
  by (simp add: unsigned_of_nat take_bit_nat_eq_self)

lemma unat_ucast_64: "unat (ucast (i :: 32 word) :: 64 word) = unat i"
proof -
  have "unat i < 2 ^ 64"
    using unsigned_less [of i] by (rule less_trans) simp
  then show ?thesis
    by (simp add: unsigned_ucast_eq take_bit_nat_eq_self)
qed

lemma md5_blocks_le:
  assumes "unat i + 64 * j = unat fullLen" "unat fullLen < 2 ^ 32" "unat fullLen \<le> length p"
  shows "md5_blocks True p fullLen i h = Some (word_of_nat (unat fullLen), md5_fold h (seg (unat i) (unat fullLen) p))"
  using assms(1)
proof (induction j arbitrary: i h)
  case 0
  note unat_ucast_64 [of i]
  then have "\<not> ucast i < fullLen" and i: "i = word_of_nat (unat fullLen)"
    using 0 by (simp_all add: word_less_nat_alt flip: 0)
  then show ?case
    using 0 by (subst md5_blocks.simps) (simp add: md5_fold_short)
next
  case (Suc j)
  note unat_ucast_64 [of i]
  then have "ucast i < fullLen"
    using Suc.prems by (simp add: word_less_nat_alt)
  moreover have i: "unat (i + 64) = unat i + 64"
    using Suc.prems assms(2) by (subst unat_add_lem [THEN iffD1]) simp_all
  moreover have "to_block True (drop (unat i) p) = Some (seg (unat i) (unat i + 64) p)"
    using Suc.prems assms(3) by (simp add: to_block_le seg_def)
  moreover have "seg (unat i) (unat fullLen) p = seg (unat i) (unat i + 64) p @ seg (unat i + 64) (unat fullLen) p"
    using Suc.prems assms(3) by (simp add: seg_append_seg)
  moreover have "length (seg (unat i) (unat i + 64) p) = 64"
    using Suc.prems assms(3) by simp
  ultimately show ?case
    using Suc.IH [of "i + 64"] Suc.prems
    by (subst md5_blocks.simps) (simp add: md5_fold_block CalMd5_compress)
qed

text \<open>The last one or two blocks: the rest of the message, the padding and the length.\<close>

definition md5_last :: "byte list \<Rightarrow> byte list \<Rightarrow> word32 list \<Rightarrow> word32 list" where
  "md5_last rest len h =
     (let block = rest @ 0x80 # replicate (63 - length rest) 0;
          (block, h) = (if length rest > 55 then (replicate 64 0, md5_compress (block_words True block) h) else (block, h))
      in md5_compress (block_words True (take 56 block @ len)) h)"

lemma length_bytes64 [simp]: "length (bytes64 le w) = 8"
  by (simp add: bytes64_def Let_def)

lemma md5_last_fold:
  assumes "length rest < 64" "length len = 8"
  shows "md5_last rest len h = md5_fold h (rest @ 0x80 # replicate ((119 - length rest) mod 64) 0 @ len)"
proof (cases "length rest > 55")
  case True
  then have e: "(119 - length rest) mod 64 = (63 - length rest) + 56"
    using assms(1) by simp
  have "rest @ 0x80 # replicate ((119 - length rest) mod 64) 0 @ len =
      (rest @ 0x80 # replicate (63 - length rest) 0) @ (replicate 56 0 @ len) @ []"
    unfolding e replicate_add by simp
  moreover have "length (rest @ 0x80 # replicate (63 - length rest) (0 :: byte)) = 64" "length (replicate 56 0 @ len) = 64"
    using assms by simp_all
  ultimately show ?thesis
    using True by (simp only: md5_fold_block) (simp add: md5_last_def md5_fold_short)
next
  case False
  then have e: "(119 - length rest) mod 64 = 55 - length rest"
    using mod_add_self1 [of 64 "55 - length rest"] by simp
  have "replicate (63 - length rest) (0 :: byte) = replicate (55 - length rest) 0 @ replicate 8 0"
    using False by (simp flip: replicate_add)
  then have "take 56 (rest @ 0x80 # replicate (63 - length rest) 0) = rest @ 0x80 # replicate (55 - length rest) (0 :: byte)"
    using False by (simp add: take_Cons')
  then have t: "take 56 (rest @ 0x80 # replicate (63 - length rest) 0) @ len = rest @ 0x80 # replicate (55 - length rest) 0 @ len"
    by simp
  have "length (rest @ 0x80 # replicate (55 - length rest) 0 @ len) = 64"
    using False assms(2) by simp
  then have "md5_fold h (rest @ 0x80 # replicate (55 - length rest) 0 @ len) =
      md5_compress (block_words True (rest @ 0x80 # replicate (55 - length rest) 0 @ len)) h"
    using md5_fold_block [of "rest @ 0x80 # replicate (55 - length rest) 0 @ len" h "[]"] by (simp add: md5_fold_short)
  then show ?thesis
    unfolding e using False t by (simp add: md5_last_def)
qed

lemma blit_56: "length block = 64 \<Longrightarrow> length len = 8 \<Longrightarrow> blit block 56 len = Some (take 56 block @ len)"
  by (simp add: blit_def)

lemma md5_split: "md5_fold md5_h0 (msg @ md5_pad msg) =
    md5_last (drop (length msg div 64 * 64) msg) (bytes64 True (word_of_nat (8 * length msg)))
      (md5_fold md5_h0 (take (length msg div 64 * 64) msg))"
proof -
  let ?n = "length msg div 64 * 64"
  have l: "length (drop ?n msg) = length msg mod 64" "length (take ?n msg) = ?n"
    by (simp_all add: minus_div_mult_eq_mod)
  have "msg @ md5_pad msg = take ?n msg @ drop ?n msg @ md5_pad msg"
    by (simp flip: append_assoc)
  then show ?thesis
    using l by (simp only: md5_fold_append) (simp add: md5_fold_append md5_last_fold md5_pad_def)
qed

lemma DoMd5Little_eq:
  assumes "n < 2 ^ 32" "n \<le> length p"
  shows "DoMd5Little p (word_of_nat n) = Some (md5 (take n p))"
proof -
  let ?w = "word_of_nat n :: 64 word" and ?f = "n div 64 * 64"
  have w: "unat ?w = n"
    using assms(1) by (intro unat_small) simp
  have f: "?f \<le> n"
    by simp
  have full: "unat (push_bit 6 (drop_bit 6 ?w)) = ?f" and part: "unat (?w AND 0x3F) = n mod 64"
    by (simp_all only: unat_full unat_part w)
  have b: "md5_blocks True p (push_bit 6 (drop_bit 6 ?w)) 0 md5_h0 = Some (word_of_nat ?f, md5_fold md5_h0 (seg 0 ?f p))"
    using md5_blocks_le [of 0 "n div 64" "push_bit 6 (drop_bit 6 ?w)" p md5_h0] full f assms by simp
  have i: "unat (word_of_nat ?f :: 32 word) = ?f"
    using f assms(1) by (intro unat_small) simp
  have n: "?f + n mod 64 = n"
    by simp
  have pb: "pad_block p ?f (n mod 64) = Some (drop ?f (take n p) @ 0x80 # replicate (63 - n mod 64) 0)"
    using pad_block_eq [of "n mod 64" ?f p] n assms(2) by (simp add: seg_def drop_take)
  have l: "length (drop ?f (take n p)) = n mod 64"
    using assms(2) by (simp add: minus_div_mult_eq_mod)
  have t: "seg 0 ?f p = take ?f (take n p)" "length (take n p) = n"
    using f assms(2) by (simp_all add: seg_def min_def)
  show ?thesis
    unfolding DoMd5Little_def Let_def part b bind.bind_lunit prod.case i pb md5_def md5_split t(2)
    using l t(1) by (simp add: md5_last_def blit_56 CalMd5_compress mult.commute)
qed

text \<open>The state of a stream that has consumed \<open>msg\<close>.\<close>

definition md5_inv :: "byte list \<Rightarrow> md5_stream \<Rightarrow> bool" where
  "md5_inv msg m \<longleftrightarrow> mLittleEndian m \<and> length (mBuf m) = 64 \<and> unat (mBufPosition m) = length msg mod 64 \<and>
     take (length msg mod 64) (mBuf m) = drop (length msg div 64 * 64) msg \<and>
     mH m = md5_fold md5_h0 (take (length msg div 64 * 64) msg) \<and> mTotalBytes m = word_of_nat (length msg)"

lemma md5_inv_init: "md5_inv [] (Md5Stream True)"
  by (simp add: md5_inv_def Md5Stream_def Initailize_def md5_fold_short)

lemma md5_Get_eq:
  assumes "md5_inv msg m"
  shows "md5_Get m = Some (md5 msg, Md5Stream True)"
proof -
  let ?r = "length msg mod 64" and ?f = "length msg div 64 * 64"
  have inv: "mLittleEndian m" "length (mBuf m) = 64" "unat (mBufPosition m) = ?r" "take ?r (mBuf m) = drop ?f msg"
    "mH m = md5_fold md5_h0 (take ?f msg)" "mTotalBytes m = word_of_nat (length msg)"
    using assms by (simp_all add: md5_inv_def)
  have l: "length (drop ?f msg) = ?r"
    by (simp add: minus_div_mult_eq_mod)
  have pb: "pad_block (mBuf m) 0 ?r = Some (drop ?f msg @ 0x80 # replicate (63 - ?r) 0)"
    using pad_block_eq [of ?r 0 "mBuf m"] inv(2,4) by (simp add: seg_def)
  have gt: "mBufPosition m > 55 \<longleftrightarrow> ?r > 55"
    by (simp add: word_less_nat_alt inv(3))
  have "Initailize (m\<lparr>mH := h\<rparr>) = Md5Stream True" for h
    using inv(1) by (cases m) (simp add: Initailize_def Md5Stream_def)
  then show ?thesis
    unfolding md5_Get_def md5_def md5_split gt inv(3) pb
    using inv(1,5,6) l by (simp add: md5_last_def blit_56 CalMd5_compress mult.commute)
qed

lemma md5_invI:
  assumes "length msg = q * 64 + r" "r < 64" "mLittleEndian m" "length (mBuf m) = 64" "unat (mBufPosition m) = r"
    "take r (mBuf m) = drop (q * 64) msg" "mH m = md5_fold md5_h0 (take (q * 64) msg)" "mTotalBytes m = word_of_nat (length msg)"
  shows "md5_inv msg m"
  using assms by (simp add: md5_inv_def)

lemma md5_Put_ok:
  assumes "md5_inv msg m" "n < 2 ^ 32" "n \<le> length p"
  shows "succeeds (md5_Put p (word_of_nat n) m) (md5_inv (msg @ take n p))"
proof -
  define q r N where "q = length msg div 64" and "r = length msg mod 64" and "N = n + r"
  have inv: "mLittleEndian m" "length (mBuf m) = 64" "unat (mBufPosition m) = r" "take r (mBuf m) = drop (q * 64) msg"
    "mH m = md5_fold md5_h0 (take (q * 64) msg)" "mTotalBytes m = word_of_nat (length msg)"
    using assms by (simp_all add: md5_inv_def q_def r_def)
  have r: "r < 64" "length msg = q * 64 + r"
    by (simp_all add: r_def q_def)
  have len: "length (msg @ take n p) = q * 64 + N"
    using assms(3) by (simp add: r N_def)
  have dm: "length (msg @ take n p) div 64 = q + N div 64" "length (msg @ take n p) mod 64 = N mod 64"
    unfolding len by simp_all
  have w: "unat (word_of_nat n :: 64 word) = n"
    using assms(2) by (intro unat_small) simp
  have wN: "unat (word_of_nat n + mBufPosition m) = N"
    using assms(2) r(1) by (subst unat_add_lem [THEN iffD1]) (simp_all add: w inv N_def)
  have full: "unat (push_bit 6 (drop_bit 6 (word_of_nat n + mBufPosition m))) = N div 64 * 64"
    by (simp only: unat_full wN)
  have ge: "64 \<le> push_bit 6 (drop_bit 6 (word_of_nat n + mBufPosition m)) \<longleftrightarrow> 64 \<le> N"
    unfolding word_le_nat_alt full by (simp add: Suc_le_eq div_greater_zero_iff)
  show ?thesis
  proof (cases "64 \<le> N")
    case False
    then have N: "N < 64"
      by simp
    let ?buf = "take r (mBuf m) @ take n p @ drop N (mBuf m)"
    let ?m = "m\<lparr>mTotalBytes := mTotalBytes m + word_of_nat n, mBuf := ?buf, mBufPosition := mBufPosition m + word_of_nat n\<rparr>"
    have "blit (mBuf m) r (take n p) = Some ?buf"
      using N assms(3) by (simp add: blit_def inv(2) N_def add.commute)
    then have put: "md5_Put p (word_of_nat n) m = Some ?m"
      unfolding md5_Put_def Let_def ge using False assms(3) by (simp add: w rd_Some seg_def inv(3))
    have "md5_inv (msg @ take n p) ?m"
    proof (rule md5_invI [OF len N])
      show "length (mBuf ?m) = 64"
        using r(1) N assms(3) by (simp add: inv(2) N_def)
      show "take N (mBuf ?m) = drop (q * 64) (msg @ take n p)"
        using assms(3) r by (simp add: N_def inv(2) flip: inv(4))
    qed (use inv(1,5,6) wN r in \<open>simp_all add: add.commute min.absorb2 assms(3)\<close>)
    then show ?thesis
      by (simp add: put)
  next
    case True
    let ?full = "push_bit 6 (drop_bit 6 (word_of_nat n + mBufPosition m))"
    define B where "B = N div 64 * 64 - r"
    have N: "N = N div 64 * 64 + N mod 64" "64 \<le> N div 64 * 64"
      using True by (simp_all add: Suc_le_eq div_greater_zero_iff)
    have j: "64 * (N div 64 - 1) = N div 64 * 64 - 64"
      by (simp add: diff_mult_distrib2)
    have "N = n + r"
      by (simp add: N_def)
    then have B: "64 - r \<le> B" "B \<le> n" "n - B = N mod 64" "64 - r + 64 * (N div 64 - 1) = B"
      unfolding B_def j using N r(1) by linarith+
    have i: "unat (ucast (64 - mBufPosition m) :: 32 word) = 64 - r"
      using r(1) inv(3) by (simp add: unsigned_ucast_eq unat_sub word_le_nat_alt take_bit_nat_eq_self)
    have bound: "unat (?full - mBufPosition m) = B"
      using N(2) r(1) by (simp add: unat_sub word_le_nat_alt full inv(3) B_def)
    define buf where "buf = drop (q * 64) msg @ take (64 - r) p"
    have buf: "length buf = 64" "blit (mBuf m) r (take (64 - r) p) = Some buf"
      using r B(1,2) assms(3) inv(2,4) by (simp_all add: buf_def blit_def)
    have loop: "md5_blocks True p (?full - mBufPosition m) (ucast (64 - mBufPosition m)) h =
        Some (word_of_nat B, md5_fold h (seg (64 - r) B p))" for h
      using md5_blocks_le [of "ucast (64 - mBufPosition m)" "N div 64 - 1" "?full - mBufPosition m" p h] i bound B assms(2,3)
      by simp
    have wB: "unat (word_of_nat B :: 32 word) = B"
      using B(2) assms(2) by (intro unat_small) simp
    have pos: "unat (word_of_nat n - ucast (word_of_nat B :: 32 word) :: 64 word) = N mod 64"
      using B(2,3) by (simp add: unat_sub word_le_nat_alt unat_ucast_64 wB w)
    let ?h = "md5_compress (block_words True buf) (mH m)"
    let ?buf = "seg B n p @ drop (n - B) buf"
    let ?m = "m\<lparr>mTotalBytes := mTotalBytes m + word_of_nat n, mBuf := ?buf,
      mBufPosition := word_of_nat n - ucast (word_of_nat B :: 32 word), mH := md5_fold ?h (seg (64 - r) B p)\<rparr>"
    have "blit buf 0 (seg B n p) = Some ?buf"
      using B(3) assms(3) buf(1) by (simp add: blit_def min_def)
    moreover have "B + N mod 64 = n"
      using B(2,3) by simp
    ultimately have put: "md5_Put p (word_of_nat n) m = Some ?m"
      unfolding md5_Put_def Let_def ge using True assms(3) B(1-3) buf
      by (simp add: w rd_Some seg_def [of 0] inv(1,3) i to_block_le CalMd5_compress loop wB pos)
    have "md5_inv (msg @ take n p) ?m"
    proof (rule md5_invI [where q = "q + N div 64" and r = "N mod 64"])
      show "length (mBuf ?m) = 64"
        using B(3) assms(3) buf(1) by (simp add: min_def)
      have d: "(q + N div 64) * 64 - length msg = B"
        using N(2) by (simp add: r(2) B_def)
      moreover have "length msg \<le> (q + N div 64) * 64"
        using N(2) r by simp
      moreover have "length (seg B n p) = N mod 64" "drop B (take n p) = seg B n p"
        using B(3) assms(3) by (simp_all add: seg_def drop_take)
      ultimately show "take (N mod 64) (mBuf ?m) = drop ((q + N div 64) * 64) (msg @ take n p)"
        by simp
      have "take ((q + N div 64) * 64) (msg @ take n p) = msg @ take B p"
        using d \<open>length msg \<le> _\<close> B(2) by (simp add: min_def)
      also have "\<dots> = take (q * 64) msg @ buf @ seg (64 - r) B p"
        using seg_append_seg [of 0 "64 - r" B p] B(1,2) assms(3) by (simp add: buf_def seg_def [of 0])
      finally have eq: "take ((q + N div 64) * 64) (msg @ take n p) = take (q * 64) msg @ buf @ seg (64 - r) B p" .
      show "mH ?m = md5_fold md5_h0 (take ((q + N div 64) * 64) (msg @ take n p))"
        unfolding eq using r(2) by (simp add: md5_fold_append [of "take (q * 64) msg"] md5_fold_block buf(1) inv(5))
      show "length (msg @ take n p) = (q + N div 64) * 64 + N mod 64"
        unfolding len using N(1) by simp
    qed (use inv(1,6) pos in \<open>simp_all add: min.absorb2 assms(3)\<close>)
    then show ?thesis
      by (simp add: put)
  qed
qed

subsection \<open>Properties\<close>

primrec md5_puts :: "byte list list \<Rightarrow> md5_stream \<Rightarrow> md5_stream option" where
  "md5_puts [] m = Some m"
| "md5_puts (p # ps) m = do { m \<leftarrow> md5_Put p (word_of_nat (length p)) m; md5_puts ps m }"

lemma md5_puts_ok:
  "md5_inv msg m \<Longrightarrow> list_all (\<lambda>p. length p < 2 ^ 32) ps \<Longrightarrow> succeeds (md5_puts ps m) (md5_inv (msg @ concat ps))"
proof (induction ps arbitrary: msg m)
  case (Cons p ps)
  then have "succeeds (md5_Put p (word_of_nat (length p)) m) (md5_inv (msg @ p))"
    using md5_Put_ok [of msg m "length p" p] by simp
  moreover have "succeeds (md5_puts ps m') (md5_inv (msg @ concat (p # ps)))" if "md5_inv (msg @ p) m'" for m'
    using Cons.IH [OF that] Cons.prems(2) by simp
  ultimately show ?case
    by (auto intro: succeeds_bind)
qed simp

lemma md5_blocks_diverges:
  assumes "2 ^ 32 \<le> unat fullLen"
  shows "md5_blocks True p fullLen i h = None"
proof -
  have "2 ^ 32 \<le> unat f \<longrightarrow> False" if "md5_blocks le p f i h = Some x" for le p f i h x
    using that
  proof (rule md5_blocks.raw_induct [rotated, where P = "\<lambda>le p f i h x. 2 ^ 32 \<le> unat f \<longrightarrow> False"], goal_cases)
    case (1 md5_blocks le p f i h x)
    show ?case
    proof
      assume f: "2 ^ 32 \<le> unat f"
      have "unat i < 2 ^ LENGTH(32)"
        by (rule unsigned_less)
      then have "unat (ucast i :: 64 word) < unat f"
        unfolding unat_ucast_64 using f by simp
      then have "ucast i < f"
        by (simp add: word_less_nat_alt)
      with 1 f show False
        by (auto split: Option.bind_splits)
    qed
  qed
  then show ?thesis
    using assms by (cases "md5_blocks True p fullLen i h") auto
qed

lemma CopyBytesToBlock_overrun: "CopyBytesToBlock p raw_block = None"
proof -
  have "copy_loop p n block = None" if "length block = 64" "0 < n" "n \<le> 32" for n block
    using that
  proof (induction n arbitrary: block)
    case (Suc n)
    show ?case
    proof (cases "n < 16")
      case True
      then show ?thesis
        using Suc.prems by (auto simp: blit_def bytes32_def Let_def split: Option.bind_splits)
    next
      case False
      then show ?thesis
        using Suc.prems Suc.IH by (auto split: Option.bind_splits dest: length_blit)
    qed
  qed simp
  from this [of raw_block 32] show ?thesis
    by (simp add: CopyBytesToBlock_def raw_block_def)
qed

text \<open>The test vector of the message \<open>abc\<close>, computed round by round.\<close>

definition abc_words :: "word32 list" where
  "abc_words = [0x80636261, 0, 0, 0, 0, 0, 0, 0, 0, 0, 0, 0, 0, 0, 24, 0]"

lemma abc_compress: "md5_compress abc_words md5_h0 = [0x98500190, 0xb04fd23c, 0x7d3f96d6, 0x727fe128]"
proof -
  have u: "[0..<64] = [0, 1, 2, 3, 4, 5, 6, 7] @ [8, 9, 10, 11, 12, 13, 14, 15] @ [16, 17, 18, 19, 20, 21, 22, 23] @ [24, 25, 26, 27, 28, 29, 30, 31] @ [32, 33, 34, 35, 36, 37, 38, 39] @ [40, 41, 42, 43, 44, 45, 46, 47] @ [48, 49, 50, 51, 52, 53, 54, 55] @ [56, 57, 58, 59, 60, 61, 62, 63]"
    by (simp add: upt_64 upt_rounds)
  have h: "(md5_h0 ! 0, md5_h0 ! 1, md5_h0 ! 2, md5_h0 ! 3) = (0x67452301, 0xefcdab89, 0x98badcfe, 0x10325476)"
    by (simp add: md5_h0_def)
  have r0: "fold (md5_step abc_words) [0, 1, 2, 3, 4, 5, 6, 7] (0x67452301, 0xefcdab89, 0x98badcfe, 0x10325476) = (0xc73741ef, 0x928d99f6, 0x207dc67b, 0x8bac3051)"
    by (simp add: md5_step_def md5_tables SHIFT_LEFT_def abc_words_def)
  have r1: "fold (md5_step abc_words) [8, 9, 10, 11, 12, 13, 14, 15] (0xc73741ef, 0x928d99f6, 0x207dc67b, 0x8bac3051) = (0xdda9b9a6, 0x72aff2e0, 0xe396856b, 0xa1051895)"
    by (simp add: md5_step_def md5_tables SHIFT_LEFT_def abc_words_def)
  have r2: "fold (md5_step abc_words) [16, 17, 18, 19, 20, 21, 22, 23] (0xdda9b9a6, 0x72aff2e0, 0xe396856b, 0xa1051895) = (0x59a8ffda, 0x47092c07, 0xabfc7920, 0x6d002f1e)"
    by (simp add: md5_step_def md5_tables SHIFT_LEFT_def abc_words_def)
  have r3: "fold (md5_step abc_words) [24, 25, 26, 27, 28, 29, 30, 31] (0x59a8ffda, 0x47092c07, 0xabfc7920, 0x6d002f1e) = (0x790a77fb, 0x726342d3, 0xa62884aa, 0x9f47e4f8)"
    by (simp add: md5_step_def md5_tables SHIFT_LEFT_def abc_words_def)
  have r4: "fold (md5_step abc_words) [32, 33, 34, 35, 36, 37, 38, 39] (0x790a77fb, 0x726342d3, 0xa62884aa, 0x9f47e4f8) = (0x21b117b9, 0x5a2f5ea5, 0x3575227e, 0x6e7429d5)"
    by (simp add: md5_step_def md5_tables SHIFT_LEFT_def abc_words_def)
  have r5: "fold (md5_step abc_words) [40, 41, 42, 43, 44, 45, 46, 47] (0x21b117b9, 0x5a2f5ea5, 0x3575227e, 0x6e7429d5) = (0x7f2e507b, 0x7beb9700, 0x8fae6399, 0x99d9679d)"
    by (simp add: md5_step_def md5_tables SHIFT_LEFT_def abc_words_def)
  have r6: "fold (md5_step abc_words) [48, 49, 50, 51, 52, 53, 54, 55] (0x7f2e507b, 0x7beb9700, 0x8fae6399, 0x99d9679d) = (0x06cc5e8a, 0x3bfa2c27, 0x7d632dd0, 0x5b0d97aa)"
    by (simp add: md5_step_def md5_tables SHIFT_LEFT_def abc_words_def)
  have r7: "fold (md5_step abc_words) [56, 57, 58, 59, 60, 61, 62, 63] (0x06cc5e8a, 0x3bfa2c27, 0x7d632dd0, 0x5b0d97aa) = (0x310ade8f, 0xc08226b3, 0xe484b9d8, 0x624d8cb2)"
    by (simp add: md5_step_def md5_tables SHIFT_LEFT_def abc_words_def)
  show ?thesis
    unfolding md5_compress_def u h fold_append comp_apply r0 r1 r2 r3 r4 r5 r6 r7 prod.case by (simp add: md5_h0_def)
qed

lemma abc_md5: "md5 [0x61, 0x62, 0x63] =
  [0x90, 0x01, 0x50, 0x98, 0x3c, 0xd2, 0x4f, 0xb0, 0xd6, 0x96, 0x3f, 0x7d, 0x28, 0xe1, 0x7f, 0x72]"
proof -
  let ?m = "[0x61, 0x62, 0x63, 0x80, 0, 0, 0, 0, 0, 0, 0, 0, 0, 0, 0, 0, 0, 0, 0, 0, 0, 0, 0, 0, 0, 0, 0, 0, 0, 0, 0, 0, 0, 0, 0, 0, 0, 0, 0, 0, 0, 0, 0, 0, 0, 0, 0, 0, 0, 0, 0, 0, 0, 0, 0, 0, 24, 0, 0, 0, 0, 0, 0, 0]"
  have pad: "[0x61, 0x62, 0x63] @ md5_pad [0x61, 0x62, 0x63] = ?m"
    by (simp add: md5_pad_def bytes64_def upt_numeral_Cons) (simp add: numeral_eq_Suc)
  have "block_words True ?m = abc_words"
    by (simp add: block_words_def word_at_def word_le_def upt_rounds abc_words_def)
  then have "md5_fold md5_h0 ?m = [0x98500190, 0xb04fd23c, 0x7d3f96d6, 0x727fe128]"
    using md5_fold_block [of ?m md5_h0 "[]"] by (simp add: abc_compress md5_fold_short)
  then show ?thesis
    unfolding md5_def pad by (simp add: bytes32_def)
qed

text \<open>Property C12. On a little endian machine \<open>DoMd5\<close> of the first \<open>n\<close> bytes of an array,
  \<open>n\<close> below 4 GiB, returns and computes MD5 of those bytes: the fold of the reference compression
  function over the padded message. It reads nothing behind those bytes.\<close>

theorem md5_one_shot:
  assumes "n < 2 ^ 32" "n \<le> length p"
  shows "DoMd5 True p (word_of_nat n) = Some (md5 (take n p))"
  using DoMd5Little_eq [OF assms] by (simp add: DoMd5_def)

theorem md5_one_shot_witness:
  "DoMd5 True [0x61, 0x62, 0x63] 3 =
     Some [0x90, 0x01, 0x50, 0x98, 0x3c, 0xd2, 0x4f, 0xb0, 0xd6, 0x96, 0x3f, 0x7d, 0x28, 0xe1, 0x7f, 0x72]"
  using md5_one_shot [of 3 "[0x61, 0x62, 0x63]"] by (simp add: abc_md5)

text \<open>Property C16. On a little endian machine a stream that is fed the pieces of a message with \<open>Put\<close>, each below 4 GiB,
  and then asked with \<open>Get\<close> returns MD5 of the whole message, however it is cut, and is then in
  the state of a new stream; no call leaves its buffers.\<close>

theorem md5_stream_pieces:
  assumes "list_all (\<lambda>p. length p < 2 ^ 32) ps"
  shows "(md5_puts ps (Md5Stream True) \<bind> md5_Get) = Some (md5 (concat ps), Md5Stream True)"
  using md5_puts_ok [OF md5_inv_init assms] by (auto simp: succeeds_def md5_Get_eq)

theorem md5_stream_pieces_witness:
  "(md5_puts [[0x61], [], [0x62, 0x63]] (Md5Stream True) \<bind> md5_Get) =
     Some ([0x90, 0x01, 0x50, 0x98, 0x3c, 0xd2, 0x4f, 0xb0, 0xd6, 0x96, 0x3f, 0x7d, 0x28, 0xe1, 0x7f, 0x72], Md5Stream True)"
  using md5_stream_pieces [of "[[0x61], [], [0x62, 0x63]]"] by (simp add: abc_md5)

text \<open>Property C38. \<open>DoMd5\<close> of 4 GiB or more does not return on a little endian machine: the
  32-bit index of its loop never reaches the bound. On a big endian machine it returns for no
  input: the loop of \<open>CopyBytesToBlock\<close> makes 32 rounds over a block of 16 words.\<close>

theorem md5_no_result:
  assumes "2 ^ 32 \<le> unat n"
  shows "DoMd5 True p n = None \<and> DoMd5 False q k = None"
proof -
  have "2 ^ 32 \<le> unat (push_bit 6 (drop_bit 6 n))"
    using div_le_mono [OF assms, of 64] by (simp add: unat_full)
  then show ?thesis
    by (auto simp: DoMd5_def DoMd5Little_def DoMd5Big_def md5_blocks_diverges CopyBytesToBlock_overrun Let_def split: Option.bind_splits)
qed

theorem md5_no_result_witness:
  "DoMd5 True (replicate (2 ^ 32) 0) (2 ^ 32) = None \<and> DoMd5 False [] 0 = None"
  using md5_no_result [of "2 ^ 32" "replicate (2 ^ 32) 0" "[]" 0] by simp

end
