(* ===== verification/Utf8.thy ===== *)
theory Utf8
  imports CStrings
begin

text \<open>
  UTF-8 (\<open>util/legacy/string_utf8.cpp\<close>): counting, case conversion and comparison, the
  search for the next character, the character iterator and \<open>Utf8Substr\<close>, and the conversion
  of 16-bit code units in both directions. A string is its list of characters, a
  \<open>const_iterator\<close> an index into it; a read at the end of the string is undefined. The theorem
  shows that a text of encoded code units is read back, counted and cut as the list of
  code units it stands for.
\<close>

subsection \<open>Bytes\<close>

definition cb :: "char \<Rightarrow> 8 word" where
  "cb c = word_of_nat (code c)"

definition bc :: "8 word \<Rightarrow> char" where
  "bc w = char_of (unat w)"

lemma cb_bc [simp]: "cb (bc w) = w"
proof -
  have "unat w < 256"
    using unsigned_less [of w] by simp
  then show ?thesis
    by (simp add: cb_def bc_def)
qed

text \<open>The exceptions.\<close>

datatype utf8_error = BadUtf8Format | IndexOutOfRange | IllegalCharacter

subsection \<open>Counting and case\<close>

text \<open>The number of bytes the first byte of a character announces, when its top bit is set.\<close>

definition charBytes :: "8 word \<Rightarrow> nat option" where
  "charBytes b =
     (if b AND 0xE0 = 0xC0 then Some 2
      else if b AND 0xF0 = 0xE0 then Some 3
      else if b AND 0xF8 = 0xF0 then Some 4
      else if b AND 0xFC = 0xF8 then Some 5
      else if b AND 0xFE = 0xFC then Some 6
      else None)"

text \<open>The inner loop over \<open>n\<close> trailing bytes.\<close>

fun skip_trail :: "nat \<Rightarrow> string \<Rightarrow> string option" where
  "skip_trail 0 r = Some r"
| "skip_trail (Suc n) [] = None"
| "skip_trail (Suc n) (c # r) = (if cb c AND 0xC0 \<noteq> 0x80 then None else skip_trail n r)"

lemma skip_trail_length: "skip_trail n r = Some r' \<Longrightarrow> length r' \<le> length r"
  by (induction n r rule: skip_trail.induct) (auto split: if_splits)

function CountCharUtf8 :: "string \<Rightarrow> utf8_error + nat" where
  "CountCharUtf8 [] = Inr 0"
| "CountCharUtf8 (c # r) =
     (case (if cb c AND 0x80 \<noteq> 0 then (case charBytes (cb c) of None \<Rightarrow> None | Some n \<Rightarrow> skip_trail (n - 1) r) else Some r) of
        None \<Rightarrow> Inl BadUtf8Format
      | Some r' \<Rightarrow> (case CountCharUtf8 r' of Inl e \<Rightarrow> Inl e | Inr n \<Rightarrow> Inr (n + 1)))"
  by pat_completeness auto
termination
  by (relation "measure length")
    (auto split: if_splits option.splits dest: skip_trail_length intro: le_imp_less_Suc)

definition ToUpperCaseUtf8 :: "string \<Rightarrow> string" where
  "ToUpperCaseUtf8 str = map (\<lambda>c. if cb c AND 0x80 = 0 then toupper c else c) str"

definition ToLowerCaseUtf8 :: "string \<Rightarrow> string" where
  "ToLowerCaseUtf8 str = map (\<lambda>c. if cb c AND 0x80 = 0 then tolower c else c) str"

fun StrCaseCmpUtf8 :: "string \<Rightarrow> string \<Rightarrow> int" where
  "StrCaseCmpUtf8 (c1 # s1) (c2 # s2) =
     (if c1 = c2 then StrCaseCmpUtf8 s1 s2
      else if cb c1 AND 0x80 = 0 \<and> cb c2 AND 0x80 = 0 \<and> tolower c1 = tolower c2 then StrCaseCmpUtf8 s1 s2
      else if code c1 > code c2 then 1 else -1)"
| "StrCaseCmpUtf8 s1 s2 = (if length s1 = length s2 then 0 else if length s1 > length s2 then 1 else -1)"

text \<open>The search for the next first byte, on the bytes behind \<open>pos\<close>.\<close>

fun find_next :: "string \<Rightarrow> nat \<Rightarrow> utf8_error + nat" where
  "find_next [] currPos = Inr currPos"
| "find_next (c # r) currPos =
     (if cb c AND 0x80 = 0 \<or> charBytes (cb c) \<noteq> None then Inr currPos
      else if cb c AND 0xC0 \<noteq> 0x80 then Inl BadUtf8Format
      else find_next r (currPos + 1))"

definition FindNextCharUtf8 :: "string \<Rightarrow> nat \<Rightarrow> utf8_error + nat" where
  "FindNextCharUtf8 str pos =
     (let currPos = (pos + 1) mod 2 ^ 64
      in if currPos > length str then Inl IndexOutOfRange else find_next (drop currPos str) currPos)"

subsection \<open>The iterator\<close>

record Utf8StringIterator =
  mString :: string
  currPos :: nat

definition NextChar :: "Utf8StringIterator \<Rightarrow> utf8_error + (string \<times> Utf8StringIterator)" where
  "NextChar it =
     (let substr = (\<lambda>n. Inr (take n (drop (currPos it) (mString it)), it\<lparr>currPos := currPos it + n\<rparr>))
      in if currPos it < length (mString it)
         then let b = cb (mString it ! currPos it)
              in if b AND 0x80 \<noteq> 0
                 then if b AND 0xE0 = 0xC0 then substr 2
                      else if b AND 0xF0 = 0xE0 then substr 3
                      else if b AND 0xF8 = 0xF0 then substr 4
                      else Inl IllegalCharacter
                 else substr 1
         else Inr ([], it))"

lemma NextChar_progress:
  "NextChar it = Inr (tmp, it') \<Longrightarrow> tmp \<noteq> [] \<Longrightarrow>
    mString it' = mString it \<and> currPos it < length (mString it) \<and> currPos it < currPos it'"
  by (auto simp: NextChar_def Let_def split: if_splits)

text \<open>The loop of \<open>Utf8Substr\<close>; \<open>n\<close> is its \<open>currPos\<close>.\<close>

function substr_loop :: "nat \<Rightarrow> nat \<Rightarrow> Utf8StringIterator \<Rightarrow> nat \<Rightarrow> string \<Rightarrow> utf8_error + string" where
  "substr_loop pos len it n ret =
     (case NextChar it of Inl e \<Rightarrow> Inl e
      | Inr (tmp, it') \<Rightarrow>
          if tmp \<noteq> [] \<and> (n < pos \<or> n - pos < len)
          then substr_loop pos len it' (n + 1) (if n \<ge> pos then ret @ tmp else ret)
          else Inr ret)"
  by pat_completeness auto
termination
  by (relation "measure (\<lambda>(pos, len, it, n, ret). length (mString it) - currPos it)") (auto dest!: NextChar_progress)

declare substr_loop.simps [simp del]

definition Utf8Substr :: "string \<Rightarrow> nat \<Rightarrow> nat \<Rightarrow> utf8_error + string" where
  "Utf8Substr str pos len = substr_loop pos len \<lparr>mString = str, currPos = 0\<rparr> 0 []"

subsection \<open>Code units\<close>

definition UTF8_3BYTE_PREFIX :: "8 word" where "UTF8_3BYTE_PREFIX = 0xE0"
definition UTF8_2BYTE_PREFIX :: "8 word" where "UTF8_2BYTE_PREFIX = 0xC0"
definition UTF8_BYTE_PREFIX :: "8 word" where "UTF8_BYTE_PREFIX = 0x80"
definition UTF8_3BYTE_MASK :: "8 word" where "UTF8_3BYTE_MASK = 0xF0"
definition UTF8_2BYTE_MASK :: "8 word" where "UTF8_2BYTE_MASK = 0xE0"
definition UTF8_BYTE_MASK :: "8 word" where "UTF8_BYTE_MASK = 0xC0"

lemmas utf8_masks = UTF8_3BYTE_PREFIX_def UTF8_2BYTE_PREFIX_def UTF8_BYTE_PREFIX_def
  UTF8_3BYTE_MASK_def UTF8_2BYTE_MASK_def UTF8_BYTE_MASK_def

definition UnicodeToUtf8 :: "16 word \<Rightarrow> string" where
  "UnicodeToUtf8 unicode =
     (if unicode \<le> 0x7F then [bc (ucast unicode)]
      else if unicode \<le> 0x7FF
      then [bc (ucast (drop_bit 6 (unicode AND 0x7C0)) OR UTF8_2BYTE_PREFIX),
            bc (ucast (unicode AND 0x3F) OR UTF8_BYTE_PREFIX)]
      else [bc (ucast (drop_bit 12 (unicode AND 0xF000)) OR UTF8_3BYTE_PREFIX),
            bc (ucast (drop_bit 6 (unicode AND 0x0FC0)) OR UTF8_BYTE_PREFIX),
            bc (ucast (unicode AND 0x003F) OR UTF8_BYTE_PREFIX)])"

text \<open>\<open>*(it + k)\<close>; reading at the end of the string is undefined.\<close>

definition at :: "string \<Rightarrow> nat \<Rightarrow> 8 word option" where
  "at s i = (if i < length s then Some (cb (s ! i)) else None)"

text \<open>For three bytes the code combines \<open>(*++it & 0x3F) << 6\<close> and
  \<open>*++it & 0x3F\<close> in one expression. The language does not say in which order the calls of
  the two operands are made: one operand first, or both increments before the first of the
  iterators is read. The order the compiler chose is a parameter; the result is the pair of bytes
  the left and the right operand read.\<close>

datatype operand_order = LeftFirst | RightFirst | Interleaved

fun operands :: "operand_order \<Rightarrow> 'b \<Rightarrow> 'b \<Rightarrow> 'b \<times> 'b" where
  "operands LeftFirst c1 c2 = (c1, c2)"
| "operands RightFirst c1 c2 = (c2, c1)"
| "operands Interleaved c1 c2 = (c2, c2)"

definition Utf8ToUnicode :: "operand_order \<Rightarrow> string \<Rightarrow> nat \<Rightarrow> (utf8_error + (16 word \<times> nat)) option" where
  "Utf8ToUnicode ord s it =
     (if it = length s then Some (Inl IllegalCharacter)
      else do {
        c \<leftarrow> at s it;
        if UTF8_3BYTE_PREFIX = c AND UTF8_3BYTE_MASK
        then if it + 2 > length s then Some (Inl IllegalCharacter)
             else do {
               c1 \<leftarrow> at s (it + 1);
               if c1 AND UTF8_BYTE_MASK \<noteq> UTF8_BYTE_PREFIX then Some (Inl IllegalCharacter)
               else do {
                 c2 \<leftarrow> at s (it + 2);
                 if c2 AND UTF8_BYTE_MASK \<noteq> UTF8_BYTE_PREFIX then Some (Inl IllegalCharacter)
                 else let (x, y) = operands ord c1 c2
                      in Some (Inr (push_bit 12 (ucast (c AND 0x0F)) OR push_bit 6 (ucast (x AND 0x3F)) OR ucast (y AND 0x3F), it + 3)) } }
        else if UTF8_2BYTE_PREFIX = c AND UTF8_2BYTE_MASK
        then if it + 1 > length s then Some (Inl IllegalCharacter)
             else do {
               c1 \<leftarrow> at s (it + 1);
               if c1 AND UTF8_BYTE_MASK \<noteq> UTF8_BYTE_PREFIX then Some (Inl IllegalCharacter)
               else Some (Inr (push_bit 6 (ucast (c AND 0x1F)) OR ucast (c1 AND 0x3F), it + 2)) }
        else if c AND UTF8_BYTE_PREFIX \<noteq> UTF8_BYTE_PREFIX then Some (Inr (ucast c, it + 1))
        else Some (Inl IllegalCharacter) })"

subsection \<open>The bytes of an encoded code unit\<close>

text \<open>The masks as ranges of bits.\<close>

lemma masks8:
  "(0xE0 :: 8 word) = push_bit 5 (mask 3)" "(0xF0 :: 8 word) = push_bit 4 (mask 4)" "(0xC0 :: 8 word) = push_bit 6 (mask 2)"
  "(0x3F :: 8 word) = mask 6" "(0x1F :: 8 word) = mask 5" "(0x0F :: 8 word) = mask 4"
  by (simp_all add: mask_eq_exp_minus_1)

lemma masks16:
  "(0x7C0 :: 16 word) = push_bit 6 (mask 5)" "(0xF000 :: 16 word) = push_bit 12 (mask 4)" "(0x0FC0 :: 16 word) = push_bit 6 (mask 6)"
  "(0x3F :: 16 word) = mask 6"
  by (simp_all add: mask_eq_exp_minus_1)

lemma bit_0x80: "bit (0x80 :: int) n \<longleftrightarrow> n = 7"
proof -
  have "(0x80 :: int) = push_bit 7 1"
    by simp
  then show ?thesis
    by (simp only: bit_simps) auto
qed

lemma word_bound_bits:
  fixes u :: "16 word"
  assumes "unat u < 2 ^ k" "bit u n"
  shows "n < k"
proof (rule ccontr)
  assume "\<not> n < k"
  then have "unat u < 2 ^ n"
    using assms(1) power_increasing [of k n "2 :: nat"] by linarith
  then have "\<not> bit (unat u) n"
    by (simp add: bit_iff_odd)
  then show False
    using assms(2) bit_imp_le_length [OF assms(2)] by (simp add: bit_unsigned_iff)
qed

text \<open>The payload of a trailing byte and of the two kinds of first bytes.\<close>

lemma payload:
  fixes u :: "16 word"
  shows "ucast ((ucast (u AND 0x3F) OR (0x80 :: 8 word)) AND 0x3F) = take_bit 6 u"
    and "ucast ((ucast (drop_bit 6 (u AND 0x0FC0)) OR (0x80 :: 8 word)) AND 0x3F) = take_bit 6 (drop_bit 6 u)"
    and "ucast ((ucast (drop_bit 6 (u AND 0x7C0)) OR (0xC0 :: 8 word)) AND 0x1F) = take_bit 5 (drop_bit 6 u)"
    and "ucast ((ucast (drop_bit 12 (u AND 0xF000)) OR (0xE0 :: 8 word)) AND 0x0F) = take_bit 4 (drop_bit 12 u)"
  unfolding masks8 masks16 by (rule bit_word_eqI; auto simp: bit_simps bit_0x80)+

lemma trail_byte:
  fixes u :: "16 word"
  shows "(ucast (u AND 0x3F) OR (0x80 :: 8 word)) AND 0xC0 = 0x80"
    and "(ucast (drop_bit 6 (u AND 0x0FC0)) OR (0x80 :: 8 word)) AND 0xC0 = 0x80"
  unfolding masks8 masks16 by (rule bit_word_eqI; auto simp: bit_simps bit_0x80)+

lemma first_byte:
  fixes u :: "16 word"
  shows "(ucast (drop_bit 6 (u AND 0x7C0)) OR (0xC0 :: 8 word)) AND 0xE0 = 0xC0"
    and "(ucast (drop_bit 12 (u AND 0xF000)) OR (0xE0 :: 8 word)) AND 0xF0 = 0xE0"
  unfolding masks8 masks16 by (rule bit_word_eqI; auto simp: bit_simps)+

lemma push_take_bit: "push_bit m (take_bit k (drop_bit m u)) OR take_bit m u = take_bit (m + k) u" for u :: "16 word"
proof (rule bit_word_eqI)
  fix n
  show "bit (push_bit m (take_bit k (drop_bit m u)) OR take_bit m u) n \<longleftrightarrow> bit (take_bit (m + k) u) n" if "n < LENGTH(16)"
    by (cases "m \<le> n") (use that in \<open>auto simp: bit_simps\<close>)
qed

lemma take_bit_all16: "take_bit 16 u = u" for u :: "16 word"
  by (rule bit_word_eqI) (simp add: bit_simps)

lemma enc1:
  fixes u :: "16 word"
  assumes "u \<le> 0x7F"
  shows "(ucast u :: 8 word) AND 0x80 = 0" "ucast (ucast u :: 8 word) = u"
proof -
  have "unat u < 2 ^ 7"
    using assms by (simp add: word_le_nat_alt)
  note b = word_bound_bits [OF this]
  show "(ucast u :: 8 word) AND 0x80 = 0" "ucast (ucast u :: 8 word) = u"
    by (rule bit_word_eqI; use b in \<open>force simp: bit_simps bit_0x80\<close>)+
qed

lemma enc2:
  fixes u :: "16 word"
  assumes "u \<le> 0x7FF"
  shows "push_bit 6 (take_bit 5 (drop_bit 6 u)) OR take_bit 6 u = u"
proof -
  have "unat u < 2 ^ 11"
    using assms by (simp add: word_le_nat_alt)
  from word_bound_bits [OF this] have "take_bit (6 + 5) u = u"
    by (intro bit_word_eqI) (auto simp: bit_simps)
  then show ?thesis
    by (simp only: push_take_bit)
qed

lemma enc3: "push_bit 12 (take_bit 4 (drop_bit 12 u)) OR push_bit 6 (take_bit 6 (drop_bit 6 u)) OR take_bit 6 u = u" for u :: "16 word"
  using push_take_bit [of 6 6 u] push_take_bit [of 12 4 u] take_bit_all16 [of u] by (simp add: or.assoc)

text \<open>The kinds of first bytes exclude one another.\<close>

lemma byte_kinds:
  fixes b :: "8 word"
  shows "b AND 0x80 = 0 \<Longrightarrow> b AND 0xF0 \<noteq> 0xE0 \<and> b AND 0xE0 \<noteq> 0xC0"
    and "b AND 0xE0 = 0xC0 \<Longrightarrow> b AND 0x80 = 0x80 \<and> b AND 0xF0 \<noteq> 0xE0"
    and "b AND 0xF0 = 0xE0 \<Longrightarrow> b AND 0x80 = 0x80 \<and> b AND 0xE0 \<noteq> 0xC0"
proof -
  have eqs: "(b AND 0xF0) AND 0x80 = b AND 0x80" "(b AND 0xE0) AND 0x80 = b AND 0x80" "(b AND 0xF0) AND 0xE0 = b AND 0xE0"
    by (simp_all add: and.assoc)
  show "b AND 0x80 = 0 \<Longrightarrow> b AND 0xF0 \<noteq> 0xE0 \<and> b AND 0xE0 \<noteq> 0xC0"
    using eqs(1,2) by auto
  show "b AND 0xE0 = 0xC0 \<Longrightarrow> b AND 0x80 = 0x80 \<and> b AND 0xF0 \<noteq> 0xE0"
    using eqs(2,3) by auto
  show "b AND 0xF0 = 0xE0 \<Longrightarrow> b AND 0x80 = 0x80 \<and> b AND 0xE0 \<noteq> 0xC0"
    using eqs(1,3) by auto
qed

lemma UnicodeToUtf8_cases:
  fixes u :: "16 word"
  obtains (one) b where "UnicodeToUtf8 u = [bc b]" "b AND 0x80 = 0" "ucast b = u"
  | (two) b0 b1 where "UnicodeToUtf8 u = [bc b0, bc b1]" "b0 AND 0xE0 = 0xC0" "b1 AND 0xC0 = 0x80"
      "push_bit 6 (ucast (b0 AND 0x1F)) OR ucast (b1 AND 0x3F) = u"
  | (three) b0 b1 b2 where "UnicodeToUtf8 u = [bc b0, bc b1, bc b2]" "b0 AND 0xF0 = 0xE0" "b1 AND 0xC0 = 0x80" "b2 AND 0xC0 = 0x80"
      "push_bit 12 (ucast (b0 AND 0x0F)) OR push_bit 6 (ucast (b1 AND 0x3F)) OR ucast (b2 AND 0x3F) = u"
proof -
  consider "u \<le> 0x7F" | "\<not> u \<le> 0x7F" "u \<le> 0x7FF" | "\<not> u \<le> 0x7F" "\<not> u \<le> 0x7FF"
    by blast
  then show thesis
  proof cases
    case 1
    then show thesis
      using one [of "ucast u"] enc1 [OF 1] by (simp add: UnicodeToUtf8_def)
  next
    case 2
    then have eq: "UnicodeToUtf8 u = [bc (ucast (drop_bit 6 (u AND 0x7C0)) OR 0xC0), bc (ucast (u AND 0x3F) OR 0x80)]"
      by (simp only: UnicodeToUtf8_def utf8_masks if_False if_True)
    show thesis
      by (rule two [OF eq first_byte(1) trail_byte(1)]) (simp only: payload enc2 [OF 2(2)])
  next
    case 3
    then have eq: "UnicodeToUtf8 u = [bc (ucast (drop_bit 12 (u AND 0xF000)) OR 0xE0), bc (ucast (drop_bit 6 (u AND 0x0FC0)) OR 0x80),
        bc (ucast (u AND 0x3F) OR 0x80)]"
      by (simp only: UnicodeToUtf8_def utf8_masks if_False)
    show thesis
      by (rule three [OF eq first_byte(2) trail_byte(2,1)]) (simp only: payload enc3)
  qed
qed

lemma charBytes_kinds:
  "b AND 0xE0 = 0xC0 \<Longrightarrow> charBytes b = Some 2"
  "b AND 0xF0 = 0xE0 \<Longrightarrow> charBytes b = Some 3"
  using byte_kinds(3) [of b] by (auto simp: charBytes_def)

lemma CountCharUtf8_unit: "CountCharUtf8 (UnicodeToUtf8 u @ r) = (case CountCharUtf8 r of Inl e \<Rightarrow> Inl e | Inr n \<Rightarrow> Inr (n + 1))"
proof (cases u rule: UnicodeToUtf8_cases)
  case (one b)
  then show ?thesis
    by simp
next
  case (two b0 b1)
  have "skip_trail 1 (bc b1 # r) = Some r"
    using two(3) by simp
  then show ?thesis
    using byte_kinds(2) [OF two(2)] charBytes_kinds(1) [OF two(2)] by (simp add: two(1))
next
  case (three b0 b1 b2)
  have "skip_trail 2 (bc b1 # bc b2 # r) = Some r"
    using three(3,4) by (simp add: numeral_2_eq_2)
  then show ?thesis
    using byte_kinds(3) [OF three(2)] charBytes_kinds(2) [OF three(2)] by (simp add: three(1))
qed

lemma NextChar_unit:
  "NextChar \<lparr>mString = p @ UnicodeToUtf8 u @ r, currPos = length p\<rparr> =
     Inr (UnicodeToUtf8 u, \<lparr>mString = p @ UnicodeToUtf8 u @ r, currPos = length p + length (UnicodeToUtf8 u)\<rparr>)"
proof (cases u rule: UnicodeToUtf8_cases)
  case (one b)
  then show ?thesis
    by (simp add: NextChar_def Let_def nth_append)
next
  case (two b0 b1)
  then show ?thesis
    using byte_kinds(2) [OF two(2)] by (simp add: NextChar_def Let_def nth_append)
next
  case (three b0 b1 b2)
  then show ?thesis
    using byte_kinds(3) [OF three(2)] by (simp add: NextChar_def Let_def nth_append)
qed

lemma UnicodeToUtf8_not_Nil [simp]: "UnicodeToUtf8 u \<noteq> []"
  by (cases u rule: UnicodeToUtf8_cases) simp_all

lemma substr_loop_units:
  "substr_loop pos len \<lparr>mString = p @ concat (map UnicodeToUtf8 us), currPos = length p\<rparr> n ret =
     Inr (ret @ concat (map UnicodeToUtf8 (take (len - (n - pos)) (drop (pos - n) us))))"
proof (induction us arbitrary: p n ret)
  case Nil
  then show ?case
    by (simp add: substr_loop.simps NextChar_def)
next
  case (Cons u us)
  have step: "substr_loop pos len \<lparr>mString = p @ concat (map UnicodeToUtf8 (u # us)), currPos = length p\<rparr> n ret =
      (if n < pos \<or> n - pos < len
       then substr_loop pos len \<lparr>mString = (p @ UnicodeToUtf8 u) @ concat (map UnicodeToUtf8 us), currPos = length (p @ UnicodeToUtf8 u)\<rparr>
              (n + 1) (if n \<ge> pos then ret @ UnicodeToUtf8 u else ret)
       else Inr ret)"
    by (subst substr_loop.simps) (simp add: NextChar_unit)
  consider "n < pos" | "n \<ge> pos" "n - pos < len" | "n \<ge> pos" "\<not> n - pos < len"
    by linarith
  then show ?case
  proof cases
    case 1
    then have "drop (pos - n) (u # us) = drop (pos - (n + 1)) us" "n - pos = n + 1 - pos"
      by (simp_all add: drop_Cons')
    then show ?thesis
      unfolding step using 1 Cons.IH [of "p @ UnicodeToUtf8 u" "n + 1" ret] by simp
  next
    case 2
    then have "take (len - (n - pos)) (u # us) = u # take (len - (n + 1 - pos)) us"
      by (simp add: take_Cons' Suc_diff_le)
    then show ?thesis
      unfolding step using 2 Cons.IH [of "p @ UnicodeToUtf8 u" "n + 1" "ret @ UnicodeToUtf8 u"] by simp
  next
    case 3
    then show ?thesis
      unfolding step by simp
  qed
qed

lemma Utf8ToUnicode_unit:
  "\<exists>v. Utf8ToUnicode ord (p @ UnicodeToUtf8 u @ r) (length p) = Some (Inr (v, length p + length (UnicodeToUtf8 u))) \<and>
     (ord = LeftFirst \<or> u \<le> 0x7FF \<longrightarrow> v = u)"
proof (cases u rule: UnicodeToUtf8_cases)
  case (one b)
  then show ?thesis
    using byte_kinds(1) [OF one(2)] by (simp add: Utf8ToUnicode_def utf8_masks at_def nth_append eq_commute [of "0xE0"] eq_commute [of "0xC0"])
next
  case (two b0 b1)
  then show ?thesis
    using byte_kinds(2) [OF two(2)] by (simp add: Utf8ToUnicode_def utf8_masks at_def nth_append eq_commute [of "0xE0"])
next
  case (three b0 b1 b2)
  then have "\<not> u \<le> 0x7FF"
    by (auto simp: UnicodeToUtf8_def split: if_splits)
  with three show ?thesis
    by (cases ord) (auto simp: Utf8ToUnicode_def utf8_masks at_def nth_append)
qed

lemma CountCharUtf8_units: "CountCharUtf8 (concat (map UnicodeToUtf8 us)) = Inr (length us)"
  by (induction us) (simp_all add: CountCharUtf8_unit)

text \<open>Property C26. UTF-8 text: at any place of any text \<open>Utf8ToUnicode\<close> accepts a code
  unit that \<open>UnicodeToUtf8\<close> has written and stops one byte behind it. The code unit is read back
  when it is at most \<open>0x7FF\<close> or when the compiler evaluates the operands of the
  three-byte case from left to right; the language does not guarantee that, and with the other order
  \<open>0x801\<close> is read as \<open>0x60\<close>. A text of encoded code units
  has as many characters as code units for \<open>CountCharUtf8\<close>, and \<open>Utf8Substr\<close> cuts out
  of it exactly the encoding of the sublist of code units asked for.\<close>

theorem utf8_round_trip:
  "(\<exists>v. Utf8ToUnicode ord (p @ UnicodeToUtf8 u @ r) (length p) = Some (Inr (v, length p + length (UnicodeToUtf8 u))) \<and>
     (ord = LeftFirst \<or> u \<le> 0x7FF \<longrightarrow> v = u)) \<and>
   Utf8ToUnicode RightFirst (UnicodeToUtf8 0x801) 0 = Some (Inr (0x60, 3)) \<and>
   CountCharUtf8 (concat (map UnicodeToUtf8 us)) = Inr (length us) \<and>
   Utf8Substr (concat (map UnicodeToUtf8 us)) pos len = Inr (concat (map UnicodeToUtf8 (take len (drop pos us))))"
proof -
  have "Utf8ToUnicode RightFirst (UnicodeToUtf8 0x801) 0 = Some (Inr (0x60, 3))"
    by code_simp
  then show ?thesis
    using Utf8ToUnicode_unit [of ord p u r] CountCharUtf8_units [of us] substr_loop_units [of pos len "[]" us 0 "[]"]
    by (simp add: Utf8Substr_def)
qed

theorem utf8_round_trip_witness:
  "Utf8ToUnicode LeftFirst (''a'' @ UnicodeToUtf8 0x20AC @ ''b'') 1 = Some (Inr (0x20AC, 1 + length (UnicodeToUtf8 0x20AC)))"
  using utf8_round_trip [of LeftFirst "''a''" "0x20AC" "''b''"] by auto

end
