(* ===== verification/StringUtil.thy ===== *)
theory StringUtil
  imports CStrings "HOL-Library.Sublist"
begin

text \<open>
  \<open>util::StringUtil\<close> (\<open>util/string_util.cc\<close>, \<open>string_util.h\<close>): trimming, splitting and
  joining, replacing, case conversion, the conversion of decimal texts to the fixed-width integer
  types, big-endian serialisation and hexadecimal text. A \<open>std::string\<close> is a list of
  characters; where the code takes a C string, it sees the part before the first NUL. A function
  with a result parameter gets its old value and returns the new one. A loop that never ends
  gives \<open>None\<close>.
\<close>

subsection \<open>Searching\<close>

text \<open>\<open>std::string::find\<close>, \<open>rfind\<close> and \<open>replace\<close>.\<close>

fun find_in :: "string \<Rightarrow> string \<Rightarrow> nat option" where
  "find_in sep [] = (if sep = [] then Some 0 else None)"
| "find_in sep (c # s) = (if prefix sep (c # s) then Some 0 else map_option Suc (find_in sep s))"

definition str_find :: "string \<Rightarrow> string \<Rightarrow> nat \<Rightarrow> nat option" where
  "str_find str sep n = (if n > length str then None else map_option (\<lambda>i. n + i) (find_in sep (drop n str)))"

fun str_rfind :: "string \<Rightarrow> string \<Rightarrow> nat option" where
  "str_rfind [] sep = (if sep = [] then Some 0 else None)"
| "str_rfind (c # s) sep =
     (case str_rfind s sep of Some i \<Rightarrow> Some (Suc i) | None \<Rightarrow> if prefix sep (c # s) then Some 0 else None)"

definition str_replace :: "string \<Rightarrow> nat \<Rightarrow> nat \<Rightarrow> string \<Rightarrow> string" where
  "str_replace str pos n new = take pos str @ new @ drop (pos + n) str"

definition str_substr :: "string \<Rightarrow> nat \<Rightarrow> nat \<Rightarrow> string" where
  "str_substr str pos n = take n (drop pos str)"

subsection \<open>Trimming and testing\<close>

definition Trim :: "string \<Rightarrow> string" where
  "Trim str = (let str = rev (dropWhile (\<lambda>c. c = CHR '' '') (rev str)) in dropWhile (\<lambda>c. c = CHR '' '') str)"

definition ToUpperCase :: "string \<Rightarrow> string" where
  "ToUpperCase str = map toupper str"

definition ToLowerCase :: "string \<Rightarrow> string" where
  "ToLowerCase str = map tolower str"

text \<open>On a C string the loop changes the letters up to the NUL.\<close>

fun ToUpperCase_c :: "string \<Rightarrow> string" where
  "ToUpperCase_c [] = []"
| "ToUpperCase_c (c # s) =
     (if c = NUL then c # s
      else (if 97 \<le> code c \<and> code c \<le> 122 then char_of (code c + 65 - 97) else c) # ToUpperCase_c s)"

fun ToLowerCase_c :: "string \<Rightarrow> string" where
  "ToLowerCase_c [] = []"
| "ToLowerCase_c (c # s) =
     (if c = NUL then c # s
      else (if 65 \<le> code c \<and> code c \<le> 90 then char_of (code c + 97 - 65) else c) # ToLowerCase_c s)"

definition ParseTrueFalse :: "string \<Rightarrow> bool \<Rightarrow> bool \<times> bool" where
  "ParseTrueFalse str value =
     (let trimStr = ToLowerCase (Trim str)
      in if trimStr \<in> {''t'', ''true'', ''y'', ''yes'', ''1''} then (True, True)
         else if trimStr \<in> {''f'', ''false'', ''n'', ''no'', ''0''} then (True, False)
         else (False, value))"

definition StartsWith :: "string \<Rightarrow> string \<Rightarrow> bool" where
  "StartsWith str pre \<longleftrightarrow> length str \<ge> length pre \<and> take (length pre) str = pre"

definition EndWith :: "string \<Rightarrow> string \<Rightarrow> bool" where
  "EndWith str suf \<longleftrightarrow> length str \<ge> length suf \<and> take (length suf) (drop (length str - length suf) str) = suf"

text \<open>The first literal is the ideographic space in UTF-8; the character at the end of a string
  is NUL.\<close>

definition IsSpace :: "string \<Rightarrow> bool" where
  "IsSpace text =
     (if text = [CHR 0xE3, CHR 0x80, CHR 0x80] then True
      else if length text > 1 then False
      else isspace (case text of [] \<Rightarrow> NUL | c # s \<Rightarrow> c))"

subsection \<open>Splitting and joining\<close>

partial_function (option) split_loop :: "string \<Rightarrow> string \<Rightarrow> bool \<Rightarrow> nat \<Rightarrow> nat \<Rightarrow> string list \<Rightarrow> (nat \<times> string list) option" where
  "split_loop str sep ignoreEmpty n old vec =
     (case str_find str sep n of None \<Rightarrow> Some (old, vec)
      | Some n \<Rightarrow>
          split_loop str sep ignoreEmpty (n + length sep) (n + length sep)
            (if \<not> ignoreEmpty \<or> n \<noteq> old then vec @ [str_substr str old (n - old)] else vec))"

definition Split :: "string list \<Rightarrow> string \<Rightarrow> string \<Rightarrow> bool \<Rightarrow> string list option" where
  "Split vec text sep ignoreEmpty = do {
     (old, vec) \<leftarrow> split_loop text sep ignoreEmpty 0 0 vec;
     Some (if \<not> ignoreEmpty \<or> old < length text then vec @ [str_substr text old (length text - old)] else vec) }"

fun Join :: "string list \<Rightarrow> string \<Rightarrow> string" where
  "Join [] sep = []"
| "Join (x # xs) sep = x @ (if xs \<noteq> [] then sep else []) @ Join xs sep"

subsection \<open>Replacing\<close>

definition ReplaceLast :: "string \<Rightarrow> string \<Rightarrow> string \<Rightarrow> string" where
  "ReplaceLast str oldStr newStr =
     (case str_rfind str oldStr of None \<Rightarrow> str | Some pos \<Rightarrow> str_replace str pos (length oldStr) newStr)"

definition ReplaceFirst :: "string \<Rightarrow> string \<Rightarrow> string \<Rightarrow> string" where
  "ReplaceFirst str oldStr newStr =
     (case str_find str oldStr 0 of None \<Rightarrow> str | Some pos \<Rightarrow> str_replace str pos (length oldStr) newStr)"

partial_function (option) replace_loop :: "string \<Rightarrow> string \<Rightarrow> nat option \<Rightarrow> string \<Rightarrow> string option" where
  "replace_loop oldStr newStr pos str =
     (case pos of None \<Rightarrow> Some str
      | Some p \<Rightarrow>
          let str = str_replace str p (length oldStr) newStr
          in replace_loop oldStr newStr (str_find str oldStr (p + length newStr)) str)"

definition ReplaceAll :: "string \<Rightarrow> string \<Rightarrow> string \<Rightarrow> string option" where
  "ReplaceAll str oldStr newStr = replace_loop oldStr newStr (str_find str oldStr 0) str"

definition Replace :: "string \<Rightarrow> char \<Rightarrow> char \<Rightarrow> string" where
  "Replace str oldValue newValue = map (\<lambda>c. if c = oldValue then newValue else c) str"

subsection \<open>Numbers\<close>

text \<open>\<open>strtol\<close>/\<open>strtoll\<close> and \<open>strtoul\<close>/\<open>strtoull\<close> in base 10 or 16 on a C string: the
  value, the rest \<open>endPtr\<close> points to, and whether \<open>errno\<close> is set. Without digits the rest
  is the whole string. In base 16 a prefix \<open>0x\<close> is skipped when a digit follows it.\<close>

definition c_digits :: "nat \<Rightarrow> string \<Rightarrow> nat \<times> string" where
  "c_digits base s =
     (if base = 16 then (hex_val (takeWhile isxdigit s), dropWhile isxdigit s)
      else (dec_val (takeWhile isdigit s), dropWhile isdigit s))"

definition c_is_digit :: "nat \<Rightarrow> string \<Rightarrow> bool" where
  "c_is_digit base s \<longleftrightarrow> s \<noteq> [] \<and> (if base = 16 then isxdigit (hd s) else isdigit (hd s))"

definition c_number :: "nat \<Rightarrow> string \<Rightarrow> (bool \<times> nat \<times> string) option" where
  "c_number base s =
     (let (neg, t) = c_sign (dropWhile isspace s);
          t = (if base = 16 \<and> (take 2 t = ''0x'' \<or> take 2 t = ''0X'') \<and> c_is_digit 16 (drop 2 t) then drop 2 t else t)
      in if c_is_digit base t then Some (neg, c_digits base t) else None)"

definition c_strtoll :: "nat \<Rightarrow> string \<Rightarrow> int \<times> string \<times> bool" where
  "c_strtoll base s =
     (case c_number base s of None \<Rightarrow> (0, s, False)
      | Some (neg, n, r) \<Rightarrow>
          let v = (if neg then - int n else int n)
          in if v < - (2 ^ 63) then (- (2 ^ 63), r, True) else if v > 2 ^ 63 - 1 then (2 ^ 63 - 1, r, True) else (v, r, False))"

definition c_strtoull :: "nat \<Rightarrow> string \<Rightarrow> int \<times> string \<times> bool" where
  "c_strtoull base s =
     (case c_number base s of None \<Rightarrow> (0, s, False)
      | Some (neg, n, r) \<Rightarrow>
          if n > 2 ^ 64 - 1 then (2 ^ 64 - 1, r, True)
          else ((if neg then - int n else int n) mod 2 ^ 64, r, False))"

text \<open>A \<open>const char *\<close> is \<open>None\<close> for NULL.\<close>

type_synonym cstring = "string option"

definition StrToInt32 :: "cstring \<Rightarrow> int \<Rightarrow> bool \<times> int" where
  "StrToInt32 str value =
     (case str of None \<Rightarrow> (False, value)
      | Some s \<Rightarrow>
          if s = [] then (False, value)
          else let (value64, endPtr, err) = c_strtoll 10 s
               in if value64 < - (2 ^ 31) \<or> value64 > 2 ^ 31 - 1 then (False, value)
                  else (\<not> err \<and> endPtr = [], value64))"

definition StrToUInt32 :: "cstring \<Rightarrow> int \<Rightarrow> bool \<times> int" where
  "StrToUInt32 str value =
     (case str of None \<Rightarrow> (False, value)
      | Some s \<Rightarrow>
          if s = [] \<or> hd s = CHR ''-'' then (False, value)
          else let (value64, endPtr, err) = c_strtoull 10 s
               in if value64 > 2 ^ 32 - 1 then (False, value)
                  else (\<not> err \<and> endPtr = [], value64))"

definition StrToUInt64 :: "cstring \<Rightarrow> int \<Rightarrow> bool \<times> int" where
  "StrToUInt64 str value =
     (case str of None \<Rightarrow> (False, value)
      | Some s \<Rightarrow>
          if s = [] \<or> hd s = CHR ''-'' then (False, value)
          else let (v, endPtr, err) = c_strtoull 10 s in (\<not> err \<and> endPtr = [], v))"

definition StrToInt64 :: "cstring \<Rightarrow> int \<Rightarrow> bool \<times> int" where
  "StrToInt64 str value =
     (case str of None \<Rightarrow> (False, value)
      | Some s \<Rightarrow>
          if s = [] then (False, value)
          else let (v, endPtr, err) = c_strtoll 10 s in (\<not> err \<and> endPtr = [], v))"

definition HexStrToUint64 :: "cstring \<Rightarrow> int \<Rightarrow> bool \<times> int" where
  "HexStrToUint64 str value =
     (case str of None \<Rightarrow> (False, value)
      | Some s \<Rightarrow>
          if s = [] then (False, value)
          else let (v, endPtr, err) = c_strtoull 16 s in (\<not> err \<and> endPtr = [], v))"

definition HexStrToInt64 :: "cstring \<Rightarrow> int \<Rightarrow> bool \<times> int" where
  "HexStrToInt64 str value =
     (case str of None \<Rightarrow> (False, value)
      | Some s \<Rightarrow>
          if s = [] then (False, value)
          else let (v, endPtr, err) = c_strtoll 16 s in (\<not> err \<and> endPtr = [], v))"

text \<open>The narrow types go through 32 bits; the result parameter is written in any case.\<close>

definition StrToInt8 :: "cstring \<Rightarrow> int \<Rightarrow> bool \<times> int" where
  "StrToInt8 str value =
     (let (ret, v32) = StrToInt32 str 0
      in (ret \<and> v32 \<ge> - (2 ^ 7) \<and> v32 \<le> 2 ^ 7 - 1, sint (of_int v32 :: 8 word)))"

definition StrToUInt8 :: "cstring \<Rightarrow> int \<Rightarrow> bool \<times> int" where
  "StrToUInt8 str value =
     (let (ret, v32) = StrToUInt32 str 0 in (ret \<and> v32 \<le> 2 ^ 8 - 1, v32 mod 2 ^ 8))"

definition StrToInt16 :: "cstring \<Rightarrow> int \<Rightarrow> bool \<times> int" where
  "StrToInt16 str value =
     (let (ret, v32) = StrToInt32 str 0
      in (ret \<and> v32 \<ge> - (2 ^ 15) \<and> v32 \<le> 2 ^ 15 - 1, sint (of_int v32 :: 16 word)))"

definition StrToUInt16 :: "cstring \<Rightarrow> int \<Rightarrow> bool \<times> int" where
  "StrToUInt16 str value =
     (let (ret, v32) = StrToUInt32 str 0 in (ret \<and> v32 \<le> 2 ^ 16 - 1, v32 mod 2 ^ 16))"

text \<open>The variants with a default read their temporary only when it has been set.\<close>

definition withDefault :: "(cstring \<Rightarrow> int \<Rightarrow> bool \<times> int) \<Rightarrow> cstring \<Rightarrow> int \<Rightarrow> int" where
  "withDefault conv str defaultValue = (let (ret, tmp) = conv str 0 in if ret then tmp else defaultValue)"

definition StrToInt8WithDefault :: "cstring \<Rightarrow> int \<Rightarrow> int" where
  "StrToInt8WithDefault = withDefault StrToInt8"

definition StrToUInt8WithDefault :: "cstring \<Rightarrow> int \<Rightarrow> int" where
  "StrToUInt8WithDefault = withDefault StrToUInt8"

definition StrToInt16WithDefault :: "cstring \<Rightarrow> int \<Rightarrow> int" where
  "StrToInt16WithDefault = withDefault StrToInt16"

definition StrToUInt16WithDefault :: "cstring \<Rightarrow> int \<Rightarrow> int" where
  "StrToUInt16WithDefault = withDefault StrToUInt16"

definition StrToInt32WithDefault :: "cstring \<Rightarrow> int \<Rightarrow> int" where
  "StrToInt32WithDefault = withDefault StrToInt32"

definition StrToUInt32WithDefault :: "cstring \<Rightarrow> int \<Rightarrow> int" where
  "StrToUInt32WithDefault = withDefault StrToUInt32"

definition StrToInt64WithDefault :: "cstring \<Rightarrow> int \<Rightarrow> int" where
  "StrToInt64WithDefault = withDefault StrToInt64"

definition StrToUInt64WithDefault :: "cstring \<Rightarrow> int \<Rightarrow> int" where
  "StrToUInt64WithDefault = withDefault StrToUInt64"

text \<open>The integer types the templates are specialised for, \<open>FromString\<close> and \<open>ToString\<close>.\<close>

datatype int_type = I8 | U8 | I16 | U16 | I32 | U32 | I64 | U64

fun int_range :: "int_type \<Rightarrow> int \<times> int" where
  "int_range I8 = (- (2 ^ 7), 2 ^ 7 - 1)"
| "int_range U8 = (0, 2 ^ 8 - 1)"
| "int_range I16 = (- (2 ^ 15), 2 ^ 15 - 1)"
| "int_range U16 = (0, 2 ^ 16 - 1)"
| "int_range I32 = (- (2 ^ 31), 2 ^ 31 - 1)"
| "int_range U32 = (0, 2 ^ 32 - 1)"
| "int_range I64 = (- (2 ^ 63), 2 ^ 63 - 1)"
| "int_range U64 = (0, 2 ^ 64 - 1)"

definition in_type :: "int_type \<Rightarrow> int \<Rightarrow> bool" where
  "in_type ty v \<longleftrightarrow> fst (int_range ty) \<le> v \<and> v \<le> snd (int_range ty)"

fun FromString :: "int_type \<Rightarrow> string \<Rightarrow> int \<Rightarrow> bool \<times> int" where
  "FromString I8 str value = StrToInt8 (Some (c_str str)) value"
| "FromString U8 str value = StrToUInt8 (Some (c_str str)) value"
| "FromString I16 str value = StrToInt16 (Some (c_str str)) value"
| "FromString U16 str value = StrToUInt16 (Some (c_str str)) value"
| "FromString I32 str value = StrToInt32 (Some (c_str str)) value"
| "FromString U32 str value = StrToUInt32 (Some (c_str str)) value"
| "FromString I64 str value = StrToInt64 (Some (c_str str)) value"
| "FromString U64 str value = StrToUInt64 (Some (c_str str)) value"

definition c_dec :: "int \<Rightarrow> string" where
  "c_dec v = (if v < 0 then CHR ''-'' # dec (nat (- v)) else dec (nat v))"

definition ToString_int :: "int_type \<Rightarrow> int \<Rightarrow> string" where
  "ToString_int ty v = c_dec v"

subsection \<open>Serialisation and hexadecimal text\<close>

text \<open>The loop fills the buffer from its end.\<close>

primrec ser_loop :: "nat \<Rightarrow> 'a::len word \<Rightarrow> string \<Rightarrow> string" where
  "ser_loop 0 value key = key"
| "ser_loop (Suc i) value key = ser_loop i (drop_bit 8 value) (char_of (unat (and value 0xFF)) # key)"

definition SerializeUInt32 :: "32 word \<Rightarrow> string" where
  "SerializeUInt32 value = ser_loop 4 value []"

definition SerializeUInt64 :: "64 word \<Rightarrow> string" where
  "SerializeUInt64 value = ser_loop 8 value []"

definition deser_step :: "'a::len word \<Rightarrow> char \<Rightarrow> 'a word" where
  "deser_step value c = or (push_bit 8 value) (of_nat (code c))"

definition DeSerializeUInt32 :: "string \<Rightarrow> 32 word option" where
  "DeSerializeUInt32 str = do { check (length str = 4); Some (foldl deser_step 0 str) }"

definition DeSerializeUInt64 :: "string \<Rightarrow> 64 word option" where
  "DeSerializeUInt64 str = do { check (length str = 8); Some (foldl deser_step 0 str) }"

definition hex_digit :: "nat \<Rightarrow> char" where
  "hex_digit n = char_of (if n < 10 then 48 + n else 87 + n)"

definition StrToHexStr :: "string \<Rightarrow> string" where
  "StrToHexStr str = concat (map (\<lambda>c. [hex_digit (code c div 16), hex_digit (code c mod 16)]) str)"

text \<open>\<open>char\<close> is signed: a byte above 127 is below \<open>'a'\<close>.\<close>

definition schar :: "char \<Rightarrow> int" where
  "schar c = sint (of_nat (code c) :: 8 word)"

definition hex_nibble :: "char \<Rightarrow> int" where
  "hex_nibble a = (if schar a \<ge> 97 then schar a - 97 + 10 else schar a - 48)"

fun hex_loop :: "string \<Rightarrow> string" where
  "hex_loop [] = []"
| "hex_loop [a] = [char_of (nat ((hex_nibble a * 16 + hex_nibble NUL) mod 256))]"
| "hex_loop (a # b # s) = char_of (nat ((hex_nibble a * 16 + hex_nibble b) mod 256)) # hex_loop s"

definition HexStrToStr :: "string \<Rightarrow> string option" where
  "HexStrToStr hexStr = do { check (length hexStr mod 2 = 0); Some (hex_loop (ToLowerCase (c_str hexStr))) }"

definition Uint64ToHexStr :: "64 word \<Rightarrow> string" where
  "Uint64ToHexStr value = StrToHexStr (SerializeUInt64 value)"

subsection \<open>Splitting, joining and replacing\<close>

text \<open>The specification of splitting: cut at the leftmost occurrence, then split the rest.\<close>

function pieces :: "string \<Rightarrow> string \<Rightarrow> string list" where
  "pieces sep s =
     (case find_in sep s of None \<Rightarrow> [s]
      | Some i \<Rightarrow> if sep = [] then [s] else take i s # pieces sep (drop (i + length sep) s))"
  by pat_completeness auto

lemma find_in_SomeD:
  assumes "find_in sep s = Some i"
  shows "s = take i s @ sep @ drop (i + length sep) s" "i + length sep \<le> length s"
    "sep \<noteq> [] \<Longrightarrow> find_in sep (take i s) = None"
proof -
  have "s = take i s @ sep @ drop (i + length sep) s \<and> i + length sep \<le> length s \<and> (sep \<noteq> [] \<longrightarrow> find_in sep (take i s) = None)"
    using assms
  proof (induction sep s arbitrary: i rule: find_in.induct)
    case (2 sep c s)
    show ?case
    proof (cases "prefix sep (c # s)")
      case True
      then show ?thesis using 2(2) prefix_length_le [OF True] by (auto elim!: prefixE)
    next
      case False
      then obtain j where j: "find_in sep s = Some j" "i = Suc j" using 2(2) by auto
      have "\<not> prefix sep (c # take j s)" using False take_is_prefix [of "Suc j" "c # s"] prefix_order.trans by fastforce
      then show ?thesis using 2(1) [OF False j(1)] j(2) by auto
    qed
  qed (auto split: if_splits)
  then show "s = take i s @ sep @ drop (i + length sep) s" "i + length sep \<le> length s"
    "sep \<noteq> [] \<Longrightarrow> find_in sep (take i s) = None" by blast+
qed

termination pieces
  by (relation "measure (\<lambda>(sep, s). length s)") (auto dest!: find_in_SomeD(2) simp: less_eq_Suc_le [symmetric] intro: diff_less)

declare pieces.simps [simp del]

lemma pieces_not_Nil [simp]: "pieces sep s \<noteq> []"
  by (subst pieces.simps) (simp split: option.split)

lemma Join_pieces: "Join (pieces sep s) sep = s"
proof (induction sep s rule: pieces.induct)
  case (1 sep s)
  show ?case
  proof (cases "find_in sep s")
    case (Some i)
    then show ?thesis using 1 [OF Some] find_in_SomeD(1) [OF Some] by (subst pieces.simps) simp
  qed (simp add: pieces.simps)
qed

lemma pieces_free:
  assumes "sep \<noteq> []" "p \<in> set (pieces sep s)"
  shows "find_in sep p = None"
  using assms
proof (induction sep s rule: pieces.induct)
  case (1 sep s)
  show ?case
  proof (cases "find_in sep s")
    case (Some i)
    then show ?thesis using 1(1) [OF Some 1(2)] 1(2,3) find_in_SomeD(3) [OF Some] by (subst (asm) pieces.simps) auto
  next
    case None
    then show ?thesis using 1(3) by (simp add: pieces.simps)
  qed
qed

lemma add_0_fun: "(+) (0 :: nat) = (\<lambda>i. i)"
  by auto

lemma str_find_at: "str_find (u @ s) sep (length u) = map_option (\<lambda>i. length u + i) (find_in sep s)"
  by (simp add: str_find_def)

lemma split_loop_pieces:
  assumes "sep \<noteq> []"
  shows "\<exists>old. old \<le> length (u @ s) \<and>
           split_loop (u @ s) sep b (length u) (length u) vec
             = Some (old, vec @ filter (\<lambda>p. \<not> b \<or> p \<noteq> []) (butlast (pieces sep s)))
         \<and> drop old (u @ s) = last (pieces sep s)"
  using assms
proof (induction sep s arbitrary: u vec rule: pieces.induct)
  case (1 sep s)
  show ?case
  proof (cases "find_in sep s")
    case None
    then show ?thesis by (subst split_loop.simps) (simp add: str_find_at pieces.simps)
  next
    case (Some i)
    define v where "v = u @ take i s @ sep"
    note D = find_in_SomeD [OF Some]
    have eq: "u @ s = v @ drop (i + length sep) s" using D(1) by (simp add: v_def)
    have lv: "length v = length u + i + length sep" using D(2) by (simp add: v_def)
    have P: "pieces sep s = take i s # pieces sep (drop (i + length sep) s)"
      using Some \<open>sep \<noteq> []\<close> by (subst pieces.simps) simp
    have sub: "str_substr (u @ s) (length u) i = take i s" by (simp add: str_substr_def)
    have e: "take i s = [] \<longleftrightarrow> i = 0" using D(2) \<open>sep \<noteq> []\<close> by auto
    show ?thesis
      using 1(1) [OF Some 1(2) 1(2), of v "if \<not> b \<or> i \<noteq> 0 then vec @ [take i s] else vec"]
      unfolding eq [symmetric] lv
      by (subst split_loop.simps) (use D(2) \<open>sep \<noteq> []\<close> in \<open>auto simp: str_find_at Some sub P e\<close>)
  qed
qed

lemma filter_butlast: "xs \<noteq> [] \<Longrightarrow> filter P xs = filter P (butlast xs) @ (if P (last xs) then [last xs] else [])"
  by (cases xs rule: rev_cases) auto

lemma Split_pieces: "sep \<noteq> [] \<Longrightarrow> Split vec text sep b = Some (vec @ filter (\<lambda>p. \<not> b \<or> p \<noteq> []) (pieces sep text))"
proof -
  assume "sep \<noteq> []"
  from split_loop_pieces [OF this, of "[]" "text" b vec]
  obtain old where o: "old \<le> length text" "drop old text = last (pieces sep text)"
    "split_loop text sep b 0 0 vec = Some (old, vec @ filter (\<lambda>p. \<not> b \<or> p \<noteq> []) (butlast (pieces sep text)))" by auto
  have "filter (\<lambda>p. \<not> b \<or> p \<noteq> []) (pieces sep text)
      = filter (\<lambda>p. \<not> b \<or> p \<noteq> []) (butlast (pieces sep text)) @ (if \<not> b \<or> drop old text \<noteq> [] then [drop old text] else [])"
    by (subst filter_butlast) (simp_all add: o(2))
  then show ?thesis using o(1,3) by (auto simp: Split_def str_substr_def)
qed

lemma find_in_empty [simp]: "find_in [] s = Some 0"
  by (cases s) auto

lemma split_loop_empty: "split_loop str [] b n old vec = Some r \<Longrightarrow> length str < n"
proof -
  have "split_loop str sep b n old vec = Some r \<Longrightarrow> sep = [] \<longrightarrow> length str < n" for sep
  proof (rule split_loop.raw_induct [rotated, where P = "\<lambda>str sep b n old vec r. sep = [] \<longrightarrow> length str < n"], goal_cases)
    case (2 f str sep b n old vec r)
    show ?case
    proof (cases "sep = [] \<and> \<not> length str < n")
      case True
      then show ?thesis using 2(3) by (auto simp: str_find_def dest: 2(2))
    qed blast
  qed
  then show "split_loop str [] b n old vec = Some r \<Longrightarrow> length str < n" by blast
qed

lemma replace_loop_pieces:
  assumes "sep \<noteq> []"
  shows "replace_loop sep new (map_option (\<lambda>i. length u + i) (find_in sep s)) (u @ s) = Some (u @ Join (pieces sep s) new)"
  using assms
proof (induction sep s arbitrary: u rule: pieces.induct)
  case (1 sep s)
  show ?case
  proof (cases "find_in sep s")
    case None
    then show ?thesis by (subst replace_loop.simps) (simp add: pieces.simps)
  next
    case (Some i)
    note D = find_in_SomeD [OF Some]
    define w where "w = u @ take i s @ new"
    have r: "str_replace (u @ s) (length u + i) (length sep) new = w @ drop (i + length sep) s"
      by (simp add: str_replace_def w_def add.assoc)
    have lw: "length u + i + length new = length w" using D(2) by (simp add: w_def)
    have P: "pieces sep s = take i s # pieces sep (drop (i + length sep) s)"
      using Some \<open>sep \<noteq> []\<close> by (subst pieces.simps) simp
    show ?thesis
      using 1(1) [OF Some 1(2) 1(2), of w]
      by (subst replace_loop.simps) (simp add: Some Let_def r lw str_find_at P, simp add: w_def)
  qed
qed

text \<open>Property C19. With a separator that is not empty, splitting returns the pieces of the text
  between the leftmost occurrences of the separator: no piece contains the separator, joining the
  pieces gives the text back, ignoring empty pieces drops exactly those, and replacing every
  occurrence by another text is joining the pieces with that text. With the empty separator
  neither splitting nor replacing returns.\<close>

theorem split_join:
  "(sep \<noteq> [] \<longrightarrow> (\<exists>ps. Split [] text sep False = Some ps \<and> Join ps sep = text
      \<and> (\<forall>p\<in>set ps. find_in sep p = None)
      \<and> Split [] text sep True = Some (filter (\<lambda>p. p \<noteq> []) ps)
      \<and> (\<forall>new. ReplaceAll text sep new = Some (Join ps new))))
   \<and> Split vec text [] b = None"
proof (intro conjI impI)
  assume s: "sep \<noteq> []"
  have "ReplaceAll text sep new = Some (Join (pieces sep text) new)" for new
    using replace_loop_pieces [OF s, of new "[]" "text"] by (simp add: ReplaceAll_def str_find_def add_0_fun)
  then show "\<exists>ps. Split [] text sep False = Some ps \<and> Join ps sep = text
      \<and> (\<forall>p\<in>set ps. find_in sep p = None)
      \<and> Split [] text sep True = Some (filter (\<lambda>p. p \<noteq> []) ps)
      \<and> (\<forall>new. ReplaceAll text sep new = Some (Join ps new))"
    using Join_pieces pieces_free [OF s] by (auto simp: Split_pieces [OF s])
next
  show "Split vec text [] b = None"
    using split_loop_empty [of "text" b 0 0 vec] by (cases "split_loop text [] b 0 0 vec") (auto simp: Split_def)
qed

theorem split_join_witness:
  "\<exists>ps. Split [] ''a,b,,c'' '','' False = Some ps \<and> Join ps '','' = ''a,b,,c''"
  using split_join [of "'',''" "''a,b,,c''" "[]" False] by blast

subsection \<open>Decimal texts\<close>

lemma isdigit_not_NUL: "isdigit c \<Longrightarrow> c \<noteq> NUL"
  by (auto simp: isdigit_def)

lemma dec_Cons: "\<exists>c t. dec n = c # t \<and> isdigit c \<and> list_all isdigit t"
  using dec_digits [of n] by (cases "dec n") auto

lemma c_str_c_dec [simp]: "c_str (c_dec v) = c_dec v"
  using dec_digits [of "nat v"] dec_digits [of "nat (- v)"]
  by (intro c_str_id) (auto simp: is_cstr_def c_dec_def list_all_iff dest: isdigit_not_NUL)

lemma c_dec_Cons: "\<exists>c t. c_dec v = c # t \<and> (c = CHR ''-'' \<longleftrightarrow> v < 0)"
  using dec_Cons [of "nat v"] by (auto simp: c_dec_def dest: isdigit_not_sign)

lemma c_number_dec: "c_number 10 (c_dec v) = Some (v < 0, nat \<bar>v\<bar>, [])"
proof -
  have D: "c_digits 10 (dec n) = (n, [])" "c_is_digit 10 (dec n)" for n
    using dec_digits [of n] dec_Cons [of n]
    by (auto simp: c_digits_def c_is_digit_def list_all_iff takeWhile_eq_all_conv [THEN iffD2] dropWhile_eq_Nil_conv)
  show ?thesis
  proof (cases "v < 0")
    case True
    then show ?thesis by (simp add: c_number_def c_dec_def c_sign_def isspace_def D)
  next
    case False
    obtain c t where d: "dec (nat v) = c # t" "isdigit c" using dec_Cons by blast
    then have "c_sign (dropWhile isspace (dec (nat v))) = (False, dec (nat v))"
      using isdigit_not_space [of c] isdigit_not_sign [of c] by (simp add: c_sign_def)
    then show ?thesis using False by (simp add: c_number_def c_dec_def D)
  qed
qed

lemma strtoll_dec: "in_type I64 v \<Longrightarrow> c_strtoll 10 (c_dec v) = (v, [], False)"
  by (auto simp: c_strtoll_def c_number_dec in_type_def)

lemma strtoull_dec: "in_type U64 v \<Longrightarrow> c_strtoull 10 (c_dec v) = (v, [], False)"
  by (auto simp: c_strtoull_def c_number_dec in_type_def)

lemma strtoll_range: "c_strtoll base s = (v, r, e) \<Longrightarrow> in_type I64 v"
  by (auto simp: c_strtoll_def in_type_def Let_def split: option.splits if_splits)

lemma strtoull_range: "c_strtoull base s = (v, r, e) \<Longrightarrow> in_type U64 v"
  by (auto simp: c_strtoull_def in_type_def split: option.splits if_splits intro: order.trans [OF order_less_imp_le [OF pos_mod_bound]])

lemma StrToInt32_dec: "in_type I32 v \<Longrightarrow> StrToInt32 (Some (c_dec v)) w = (True, v)"
  using strtoll_dec [of v] c_dec_Cons [of v] by (auto simp: StrToInt32_def in_type_def)

lemma StrToUInt32_dec: "in_type U32 v \<Longrightarrow> StrToUInt32 (Some (c_dec v)) w = (True, v)"
  using strtoull_dec [of v] c_dec_Cons [of v] by (auto simp: StrToUInt32_def in_type_def)

lemma StrToInt64_dec: "in_type I64 v \<Longrightarrow> StrToInt64 (Some (c_dec v)) w = (True, v)"
  using strtoll_dec [of v] c_dec_Cons [of v] by (auto simp: StrToInt64_def)

lemma StrToUInt64_dec: "in_type U64 v \<Longrightarrow> StrToUInt64 (Some (c_dec v)) w = (True, v)"
  using strtoull_dec [of v] c_dec_Cons [of v] by (auto simp: StrToUInt64_def in_type_def)

lemma sint8_small: "in_type I8 k \<Longrightarrow> sint (of_int k :: 8 word) = k"
  unfolding in_type_def by transfer (simp add: signed_take_bit_int_eq_self)

lemma sint16_small: "in_type I16 k \<Longrightarrow> sint (of_int k :: 16 word) = k"
  unfolding in_type_def by transfer (simp add: signed_take_bit_int_eq_self)

lemma FromString_dec:
  assumes "in_type ty v"
  shows "FromString ty (c_dec v) w = (True, v)"
proof -
  have "in_type I8 v \<Longrightarrow> in_type I32 v" "in_type I16 v \<Longrightarrow> in_type I32 v"
    "in_type U8 v \<Longrightarrow> in_type U32 v" "in_type U16 v \<Longrightarrow> in_type U32 v"
    by (auto simp: in_type_def)
  then show ?thesis using assms
    by (cases ty) (simp_all add: StrToInt8_def StrToUInt8_def StrToInt16_def StrToUInt16_def StrToInt32_dec
        StrToUInt32_dec StrToInt64_dec StrToUInt64_dec sint8_small sint16_small, simp_all add: in_type_def)
qed

lemma StrToInt32_range: "StrToInt32 str w = (True, v) \<Longrightarrow> in_type I32 v"
  by (auto simp: StrToInt32_def in_type_def Let_def split: option.splits if_splits prod.splits)

lemma StrToUInt32_range: "StrToUInt32 str w = (True, v) \<Longrightarrow> in_type U32 v"
  by (auto simp: StrToUInt32_def in_type_def Let_def split: option.splits if_splits prod.splits dest!: strtoull_range)

lemma FromString_range:
  assumes "FromString ty s w = (True, v)"
  shows "in_type ty v"
proof -
  have a: "StrToInt8 str w = (True, v) \<Longrightarrow> in_type I8 v" "StrToInt16 str w = (True, v) \<Longrightarrow> in_type I16 v" for str
    by (auto simp: StrToInt8_def StrToInt16_def in_type_def sint8_small sint16_small split: prod.splits)
  have b: "StrToUInt8 str w = (True, v) \<Longrightarrow> in_type U8 v" "StrToUInt16 str w = (True, v) \<Longrightarrow> in_type U16 v" for str
    by (auto simp: StrToUInt8_def StrToUInt16_def in_type_def split: prod.splits dest!: StrToUInt32_range)
  have c: "StrToInt64 str w = (True, v) \<Longrightarrow> in_type I64 v" "StrToUInt64 str w = (True, v) \<Longrightarrow> in_type U64 v" for str
    by (auto simp: StrToInt64_def StrToUInt64_def Let_def split: option.splits if_splits prod.splits dest: strtoll_range strtoull_range)
  show ?thesis using assms by (cases ty) (auto dest: a b c StrToInt32_range StrToUInt32_range)
qed

text \<open>What any text is converted to, by the number \<open>strtol\<close> finds at its start: sign,
  absolute value and the characters behind it.\<close>

definition is_signed :: "int_type \<Rightarrow> bool" where
  "is_signed ty \<longleftrightarrow> fst (int_range ty) < 0"

definition number_value :: "bool \<Rightarrow> nat \<Rightarrow> int" where
  "number_value neg n = (if neg then - int n else int n)"

lemma c_number_sign: "c_number base (c # s) = Some (neg, n, r) \<Longrightarrow> c = CHR ''-'' \<Longrightarrow> neg"
  by (auto simp: c_number_def c_sign_def isspace_def Let_def split: if_splits prod.splits)

lemma c_number_Nil [simp]: "c_number 10 [] = None"
  by (simp add: c_number_def c_sign_def c_is_digit_def)

lemma StrTo_None:
  assumes "c_number 10 s = None"
  shows "\<not> fst (StrToInt32 (Some s) w)" "\<not> fst (StrToUInt32 (Some s) w)" "\<not> fst (StrToInt64 (Some s) w)" "\<not> fst (StrToUInt64 (Some s) w)"
  using assms by (auto simp: StrToInt32_def StrToUInt32_def StrToInt64_def StrToUInt64_def c_strtoll_def c_strtoull_def)

lemma StrTo_signed:
  assumes "c_number 10 s = Some (neg, n, r)"
  defines "v \<equiv> number_value neg n"
  shows "if r = [] \<and> in_type I32 v then StrToInt32 (Some s) w = (True, v) else \<not> fst (StrToInt32 (Some s) w)"
    "if r = [] \<and> in_type I64 v then StrToInt64 (Some s) w = (True, v) else \<not> fst (StrToInt64 (Some s) w)"
proof -
  have s: "s \<noteq> []"
    using assms(1) by auto
  have l: "c_strtoll 10 s = (if v < - (2 ^ 63) then (- (2 ^ 63), r, True) else if v > 2 ^ 63 - 1 then (2 ^ 63 - 1, r, True) else (v, r, False))"
    using assms by (simp add: c_strtoll_def number_value_def Let_def)
  show "if r = [] \<and> in_type I32 v then StrToInt32 (Some s) w = (True, v) else \<not> fst (StrToInt32 (Some s) w)"
    using s by (auto simp: StrToInt32_def l in_type_def)
  show "if r = [] \<and> in_type I64 v then StrToInt64 (Some s) w = (True, v) else \<not> fst (StrToInt64 (Some s) w)"
    using s by (auto simp: StrToInt64_def l in_type_def)
qed

lemma StrTo_unsigned:
  assumes "c_number 10 s = Some (False, n, r)"
  shows "if r = [] \<and> in_type U32 (int n) then StrToUInt32 (Some s) w = (True, int n) else \<not> fst (StrToUInt32 (Some s) w)"
    "if r = [] \<and> in_type U64 (int n) then StrToUInt64 (Some s) w = (True, int n) else \<not> fst (StrToUInt64 (Some s) w)"
proof -
  have s: "s \<noteq> []" "hd s \<noteq> CHR ''-''"
    using assms c_number_sign [of 10 "hd s" "tl s"] by (cases s; auto)+
  have l: "c_strtoull 10 s = (if n > 2 ^ 64 - 1 then (2 ^ 64 - 1, r, True) else (int n, r, False))"
    using assms by (auto simp: c_strtoull_def)
  show "if r = [] \<and> in_type U32 (int n) then StrToUInt32 (Some s) w = (True, int n) else \<not> fst (StrToUInt32 (Some s) w)"
    using s by (auto simp: StrToUInt32_def l in_type_def)
  show "if r = [] \<and> in_type U64 (int n) then StrToUInt64 (Some s) w = (True, int n) else \<not> fst (StrToUInt64 (Some s) w)"
    using s by (auto simp: StrToUInt64_def l in_type_def)
qed

lemma FromString_None: "c_number 10 (c_str s) = None \<Longrightarrow> \<not> fst (FromString ty s w)"
  using StrTo_None [of "c_str s" w] StrTo_None [of "c_str s" 0]
  by (cases ty) (auto simp: StrToInt8_def StrToUInt8_def StrToInt16_def StrToUInt16_def split: prod.splits)

lemma FromString_number:
  assumes "c_number 10 (c_str s) = Some (neg, n, r)" "is_signed ty \<or> \<not> neg"
  defines "v \<equiv> number_value neg n"
  shows "if r = [] \<and> in_type ty v then FromString ty s w = (True, v) else \<not> fst (FromString ty s w)"
proof -
  have sub: "in_type I8 v \<Longrightarrow> in_type I32 v" "in_type I16 v \<Longrightarrow> in_type I32 v"
    "in_type U8 v \<Longrightarrow> in_type U32 v" "in_type U16 v \<Longrightarrow> in_type U32 v"
    by (auto simp: in_type_def)
  note S = StrTo_signed [OF assms(1), folded v_def]
  have U: "if r = [] \<and> in_type U32 v then StrToUInt32 (Some (c_str s)) w = (True, v) else \<not> fst (StrToUInt32 (Some (c_str s)) w)"
    "if r = [] \<and> in_type U64 v then StrToUInt64 (Some (c_str s)) w = (True, v) else \<not> fst (StrToUInt64 (Some (c_str s)) w)"
    if "\<not> neg" for w
    using StrTo_unsigned [of "c_str s" n r w] assms(1) that by (auto simp: v_def number_value_def)
  show ?thesis
  proof (cases ty)
    case I8
    then show ?thesis
      using S(1) [of 0] sub sint8_small [of v] by (cases "r = [] \<and> in_type I32 v") (auto simp: StrToInt8_def in_type_def split: prod.splits)
  next
    case I16
    then show ?thesis
      using S(1) [of 0] sub sint16_small [of v] by (cases "r = [] \<and> in_type I32 v") (auto simp: StrToInt16_def in_type_def split: prod.splits)
  next
    case U8
    then show ?thesis
      using U(1) [of 0] sub assms(2) by (cases "r = [] \<and> in_type U32 v") (auto simp: StrToUInt8_def in_type_def is_signed_def split: prod.splits)
  next
    case U16
    then show ?thesis
      using U(1) [of 0] sub assms(2) by (cases "r = [] \<and> in_type U32 v") (auto simp: StrToUInt16_def in_type_def is_signed_def split: prod.splits)
  qed (use S [of w] U [of w] assms(2) in \<open>auto simp: is_signed_def\<close>)
qed

lemma FromString_dec_refused:
  assumes "\<not> in_type ty v"
  shows "\<not> fst (FromString ty (c_dec v) w)"
proof (cases "is_signed ty \<or> 0 \<le> v")
  case True
  then show ?thesis
    using assms FromString_number [of "c_dec v" "v < 0" "nat \<bar>v\<bar>" "[]" ty w] c_number_dec [of v]
    by (auto simp: number_value_def)
next
  case False
  then have "hd (c_dec v) = CHR ''-''"
    by (simp add: c_dec_def)
  then show ?thesis
    using False by (cases ty) (auto simp: is_signed_def StrToUInt8_def StrToUInt16_def StrToUInt32_def StrToUInt64_def)
qed

lemma FromString_wraps: "FromString U8 (CHR '' '' # c_dec (1 - 2 ^ 64)) w = (True, 1)"
proof -
  have "c_number 10 (CHR '' '' # s) = c_number 10 s" for s
    by (simp add: c_number_def isspace_def)
  then have "c_number 10 (CHR '' '' # c_dec (1 - 2 ^ 64)) = Some (True, 2 ^ 64 - 1, [])"
    using c_number_dec [of "1 - 2 ^ 64"] by simp
  then have "c_strtoull 10 (CHR '' '' # c_dec (1 - 2 ^ 64)) = (1, [], False)"
    by (simp add: c_strtoull_def)
  moreover have "c_str (CHR '' '' # c_dec (1 - 2 ^ 64)) = CHR '' '' # c_str (c_dec (1 - 2 ^ 64))"
    by (simp add: c_str_def)
  ultimately show ?thesis
    by (simp add: StrToUInt8_def StrToUInt32_def)
qed

text \<open>Property C36. For each of the eight integer types: the decimal text of an integer is converted
  back to it when the integer is a value of the type and is refused otherwise; no text at all is
  converted to a value outside the type. A text that does not start with a number is refused. A
  text that does, behind blanks and a sign as \<open>strtol\<close> skips them, is converted to that number if it has nothing behind it and is in
  the range of the type, and refused otherwise, except for negative numbers and unsigned types: there a
  blank in front of the sign defeats the check, and a blank followed by the text of \<open>1 - 2^64\<close> is converted to 1.\<close>

theorem FromString_round_trip:
  "(if in_type ty v then FromString ty (ToString_int ty v) w = (True, v) else \<not> fst (FromString ty (ToString_int ty v) w)) \<and>
   (\<forall>s x. FromString ty s w = (True, x) \<longrightarrow> in_type ty x) \<and>
   (\<forall>s. c_number 10 (c_str s) = None \<longrightarrow> \<not> fst (FromString ty s w)) \<and>
   (\<forall>s neg n r. c_number 10 (c_str s) = Some (neg, n, r) \<and> (is_signed ty \<or> \<not> neg) \<longrightarrow>
     (if r = [] \<and> in_type ty (number_value neg n) then FromString ty s w = (True, number_value neg n)
      else \<not> fst (FromString ty s w))) \<and>
   FromString U8 (CHR '' '' # c_dec (1 - 2 ^ 64)) w = (True, 1)"
proof (intro conjI allI impI)
  show "if in_type ty v then FromString ty (ToString_int ty v) w = (True, v) else \<not> fst (FromString ty (ToString_int ty v) w)"
    using FromString_dec [of ty v w] FromString_dec_refused [of ty v w] by (simp add: ToString_int_def)
  show "if r = [] \<and> in_type ty (number_value neg n) then FromString ty s w = (True, number_value neg n) else \<not> fst (FromString ty s w)"
    if "c_number 10 (c_str s) = Some (neg, n, r) \<and> (is_signed ty \<or> \<not> neg)" for s neg n r
    using FromString_number [of s neg n r ty w] that by blast
qed (simp_all only: FromString_None FromString_range FromString_wraps not_False_eq_True)

theorem FromString_round_trip_witness:
  "FromString I16 (ToString_int I16 (- 32768)) 0 = (True, - 32768) \<and> \<not> fst (FromString I16 (ToString_int I16 32768) 0)"
  using FromString_round_trip [of I16 "- 32768" 0] FromString_round_trip [of I16 32768 0] by (simp add: in_type_def)

subsection \<open>Serialised numbers and hexadecimal texts\<close>

lemma ser_loop_append: "ser_loop n v key = ser_loop n v [] @ key"
proof (induction n arbitrary: v key)
  case (Suc n)
  then show ?case by (metis append.assoc append_Cons append_Nil ser_loop.simps(2))
qed simp

lemma ser_loop_snoc: "ser_loop (Suc n) v [] = ser_loop n (drop_bit 8 v) [] @ [char_of (unat (and v 0xFF))]"
  by (simp add: ser_loop_append [of n _ "[_]"])

lemma low_byte_mask: "(0xFF :: 'a::len word) = mask 8"
  by (simp add: mask_eq_exp_minus_1)

lemma unat_low_byte: "unat (and v (0xFF :: 'a::len word)) < 256"
proof -
  have "unat (take_bit 8 v) = take_bit 8 (unat v)" by (rule unsigned_take_bit_eq)
  moreover have "take_bit 8 (unat v) < 256" using take_bit_nat_less_exp [of 8 "unat v"] by simp
  ultimately show ?thesis by (simp only: low_byte_mask take_bit_eq_mask)
qed

lemma deser_step_byte: "deser_step u (char_of (unat (and v 0xFF))) = or (push_bit 8 u) (and v (0xFF :: 'a::len word))"
  by (simp add: deser_step_def unat_low_byte)

lemma deser_ser: "foldl deser_step 0 (ser_loop n v []) = take_bit (8 * n) (v :: 'a::len word)"
proof (induction n arbitrary: v)
  case (Suc n)
  have "or (push_bit 8 (take_bit (8 * n) (drop_bit 8 v))) (and v 0xFF) = take_bit (8 * Suc n) v"
    unfolding low_byte_mask by (rule bit_word_eqI) (auto simp: bit_simps)
  then show ?case by (simp only: ser_loop_snoc foldl_append Suc foldl_Cons foldl_Nil deser_step_byte)
qed simp

lemma length_ser_loop [simp]: "length (ser_loop n v key) = n + length key"
  by (induction n arbitrary: v key) auto

lemma code_hex_digit: "n < 16 \<Longrightarrow> code (hex_digit n) = (if n < 10 then 48 + n else 87 + n)"
  by (simp add: hex_digit_def)

lemma schar_ascii: "code c < 128 \<Longrightarrow> schar c = int (code c)"
  unfolding schar_def by (subst of_int_of_nat_eq [symmetric], subst sint8_small) (simp_all add: in_type_def)

lemma hex_digit_facts:
  assumes "n < 16"
  shows "hex_nibble (hex_digit n) = int n" "tolower (hex_digit n) = hex_digit n" "hex_digit n \<noteq> NUL"
    "isxdigit (hex_digit n)" "xdigit_val (hex_digit n) = n"
proof -
  note C = code_hex_digit [OF assms]
  have S: "schar (hex_digit n) = int (code (hex_digit n))" using assms by (intro schar_ascii) (simp add: C)
  show "hex_nibble (hex_digit n) = int n" using assms unfolding hex_nibble_def S C by auto
  show "tolower (hex_digit n) = hex_digit n" using assms unfolding tolower_def isupper_def C by auto
  show "hex_digit n \<noteq> NUL" using C by (auto split: if_splits)
  show "isxdigit (hex_digit n)" using assms unfolding isxdigit_def isdigit_def C by auto
  show "xdigit_val (hex_digit n) = n" using assms unfolding xdigit_val_def isdigit_def C by auto
qed

lemma StrToHexStr_Cons: "StrToHexStr (c # s) = hex_digit (code c div 16) # hex_digit (code c mod 16) # StrToHexStr s"
  by (simp add: StrToHexStr_def)

lemma nibbles: "code c div 16 < 16" "code c mod 16 < 16"
  using code_less [of c] by (auto simp: less_mult_imp_div_less)

lemma StrToHexStr_digits: "list_all isxdigit (StrToHexStr s)" "is_cstr (StrToHexStr s)"
    "ToLowerCase (StrToHexStr s) = StrToHexStr s" "length (StrToHexStr s) = 2 * length s"
  by (induction s)
    (simp_all add: StrToHexStr_Cons hex_digit_facts nibbles is_cstr_def ToLowerCase_def hex_digit_facts(3) [symmetric],
     simp_all add: StrToHexStr_def)

lemma hex_loop_StrToHexStr: "hex_loop (StrToHexStr s) = s"
proof (induction s)
  case (Cons c s)
  have "int (code c div 16) * 16 + int (code c mod 16) = int (code c)"
    by (metis div_mult_mod_eq of_nat_add of_nat_mult of_nat_numeral)
  then show ?case using Cons code_less [of c] by (simp add: StrToHexStr_Cons hex_digit_facts nibbles)
qed (simp add: StrToHexStr_def)

lemma hex_val_StrToHexStr: "hex_val (StrToHexStr s) = foldl (\<lambda>n c. 256 * n + code c) 0 s"
proof (induction s rule: rev_induct)
  case (snoc c s)
  have "StrToHexStr (s @ [c]) = StrToHexStr s @ [hex_digit (code c div 16), hex_digit (code c mod 16)]"
    by (simp add: StrToHexStr_def)
  with snoc show ?case by (simp add: hex_val_def hex_digit_facts nibbles)
qed (simp add: hex_val_def StrToHexStr_def)

lemma ser_loop_value: "foldl (\<lambda>n c. 256 * n + code c) 0 (ser_loop n v []) = unat (take_bit (8 * n) (v :: 'a::len word))"
proof (induction n arbitrary: v)
  case (Suc n)
  have "256 * take_bit (8 * n) (m div 256) + m mod 256 = take_bit (8 * Suc n) m" for m :: nat
  proof -
    have "m mod (256 * 2 ^ (8 * n)) = 256 * (m div 256 mod 2 ^ (8 * n)) + m mod 256" by (rule mod_mult2_eq)
    then show ?thesis by (simp add: take_bit_eq_mod power_add mult.commute)
  qed
  moreover have "unat (drop_bit 8 v) = unat v div 256" by (simp only: unat_drop_bit_eq drop_bit_eq_div [where 'a = nat]) simp
  moreover have "unat (and v 0xFF) = unat v mod 256"
    by (simp only: low_byte_mask take_bit_eq_mask [symmetric] unsigned_take_bit_eq take_bit_eq_mod [where 'a = nat]) simp
  ultimately show ?case
    using unat_low_byte [of v] by (simp add: ser_loop_snoc Suc unsigned_take_bit_eq del: ser_loop.simps)
qed simp

lemma c_number_hex:
  assumes "list_all isxdigit h" "length h \<ge> 2"
  shows "c_number 16 h = Some (False, hex_val h, [])"
proof -
  obtain a b t where h: "h = a # b # t" using assms(2) by (cases h; cases "tl h") auto
  have X: "isxdigit a" "isxdigit b" using assms(1) h by auto
  have "\<not> isspace a" "a \<noteq> CHR ''-''" "a \<noteq> CHR ''+''" "b \<noteq> CHR ''x''" "b \<noteq> CHR ''X''"
    using X by (auto simp: isxdigit_def isspace_def isdigit_def)
  then have s: "c_sign (dropWhile isspace h) = (False, h)" and "take 2 h \<noteq> ''0x''" "take 2 h \<noteq> ''0X''"
    by (simp_all add: h c_sign_def numeral_2_eq_2)
  moreover have "c_is_digit 16 h" using X by (simp add: c_is_digit_def h)
  moreover have "c_digits 16 h = (hex_val h, [])"
    using assms(1) unfolding c_digits_def list_all_iff
    by (metis dropWhile_eq_Nil_conv takeWhile_eq_all_conv)
  ultimately show ?thesis unfolding c_number_def s by simp
qed

lemma HexStrToUint64_hex: "HexStrToUint64 (Some (Uint64ToHexStr w)) x = (True, uint w)"
proof -
  let ?h = "Uint64ToHexStr w"
  have l: "length ?h = 16" by (simp add: Uint64ToHexStr_def StrToHexStr_digits SerializeUInt64_def)
  then have ne: "?h \<noteq> []" by auto
  have v: "hex_val ?h = unat w"
    using ser_loop_value [of 8 w] by (simp add: Uint64ToHexStr_def hex_val_StrToHexStr SerializeUInt64_def take_bit_word_eq_self)
  have "c_number 16 ?h = Some (False, unat w, [])"
    using c_number_hex [of ?h] l by (simp add: v) (simp add: Uint64ToHexStr_def StrToHexStr_digits)
  moreover have "unat w < 2 ^ 64" "uint w mod 2 ^ 64 = uint w"
    using unsigned_less [of w, where ?'a = nat] unsigned_less [of w, where ?'a = int] by simp_all
  ultimately have "c_strtoull 16 ?h = (uint w, [], False)"
    by (simp add: c_strtoull_def)
  then show ?thesis using ne by (simp add: HexStrToUint64_def)
qed

text \<open>Hexadecimal text and big-endian serialisation are inverted by their decoders on
  every byte string and every number, and the sixteen digits printed for a 64-bit number are read
  back as that number.\<close>

theorem hex_round_trip:
  "HexStrToStr (StrToHexStr s) = Some s
   \<and> DeSerializeUInt32 (SerializeUInt32 v) = Some v
   \<and> DeSerializeUInt64 (SerializeUInt64 w) = Some w
   \<and> HexStrToUint64 (Some (Uint64ToHexStr w)) x = (True, uint w)"
  by (simp add: HexStrToStr_def StrToHexStr_digits hex_loop_StrToHexStr HexStrToUint64_hex DeSerializeUInt32_def
      SerializeUInt32_def DeSerializeUInt64_def SerializeUInt64_def deser_ser take_bit_word_eq_self)

end
