(* ===== verification/Modules.thy ===== *)
theory Modules
  imports AE_Prelude "HOL-Library.AList"
begin

text \<open>
  The engine's modules and its worker (\<open>engine/common\<close>: \<open>base_module\<close>, \<open>creator_factory.h\<close>,
  \<open>module_manager\<close>, \<open>worker_base\<close>). Modules register a creator; the manager creates and
  initialises them, binds each to the modules it depends on, loads them in dependency order and
  unloads them in the opposite one.

  Module objects live in a heap; a \<open>shared_ptr\<close> is an address, the null pointer is
  \<open>None\<close>. An \<open>unordered_map\<close> is an association list in the order of insertion; the order in which
  its elements are visited is a parameter. What a subclass does
  in \<open>DoInit\<close>, \<open>DoLoad\<close> and \<open>DoUnload\<close> is a parameter: a result that may depend on all
  calls made so far, which the state records. The mutex makes every operation of the manager
  atomic; the worker's \<open>Stop\<close> is called from another thread and takes effect in two parts.
\<close>

subsection \<open>Modules\<close>

record base_module =
  mod_name :: string
  loaded :: bool
  has_manager :: bool
  depend_modules :: "(string \<times> ptr) list"
  be_depended_modules :: "(string \<times> ptr) list"
  bind_funcs :: "string list"
  depends_on :: "string list"

text \<open>\<open>depends_on\<close> is the list of \<open>DEPEND_ON\<close> declarations of the subclass.\<close>

definition BaseModule :: "string list \<Rightarrow> base_module" where
  "BaseModule deps = \<lparr>mod_name = [], loaded = False, has_manager = False, depend_modules = [],
     be_depended_modules = [], bind_funcs = [], depends_on = deps\<rparr>"

datatype module_call = Called_Init nat bool | Called_Load nat bool | Called_Unload nat bool

record virtuals =
  DoInit :: "nat \<Rightarrow> module_call list \<Rightarrow> bool"
  DoLoad :: "nat \<Rightarrow> module_call list \<Rightarrow> bool"
  DoUnload :: "nat \<Rightarrow> module_call list \<Rightarrow> bool"
  map_order :: "string list \<Rightarrow> nat list"

text \<open>\<open>map_order\<close> is how the implementation of \<open>unordered_map\<close> visits the keys that were
  inserted one after the other: a permutation of their positions.\<close>

definition in_order :: "nat list \<Rightarrow> 'v list \<Rightarrow> 'v list" where
  "in_order ps xs = (if sort ps = [0..<length xs] then map ((!) xs) ps else xs)"

definition iteration :: "virtuals \<Rightarrow> (string \<times> 'v) list \<Rightarrow> (string \<times> 'v) list" where
  "iteration E kvs = in_order (map_order E (map fst kvs)) kvs"

lemma set_in_order [simp]: "set (in_order ps xs) = set xs"
proof (cases "sort ps = [0..<length xs]")
  case True
  have "set ps = {0..<length xs}"
    using arg_cong [OF True, of set] by simp
  then show ?thesis
    using True nth_image [of "length xs" xs] by (simp add: in_order_def)
qed (simp add: in_order_def)

lemma set_iteration [simp]: "set (iteration E kvs) = set kvs"
  by (simp add: iteration_def)

text \<open>A creator function is empty (\<open>None\<close>), or returns the null pointer (\<open>Some None\<close>) or a new
  object of a class.\<close>

type_synonym creator = "string list option option"

record module_manager =
  stopped :: bool
  modules :: "(string \<times> nat) list"
  module_creator_funcs :: "(string \<times> creator) list"
  objects :: "base_module heap"
  next_object :: nat
  calls :: "module_call list"

definition ModuleManager :: module_manager where
  "ModuleManager = \<lparr>stopped = True, modules = [], module_creator_funcs = [], objects = Map.empty,
     next_object = 0, calls = []\<rparr>"

definition set_object :: "nat \<Rightarrow> base_module \<Rightarrow> module_manager \<Rightarrow> module_manager" where
  "set_object a m s = s\<lparr>objects := (objects s)(a \<mapsto> m)\<rparr>"

definition bm_Init :: "virtuals \<Rightarrow> nat \<Rightarrow> bool \<Rightarrow> module_manager \<Rightarrow> (bool \<times> module_manager) option" where
  "bm_Init E a manager s = do {
     m \<leftarrow> objects s a;
     if \<not> manager then Some (False, s)
     else do {
       let s = set_object a (m\<lparr>has_manager := True\<rparr>) s;
       let r = DoInit E a (calls s);
       let s = s\<lparr>calls := calls s @ [Called_Init a r]\<rparr>;
       if \<not> r then Some (False, s) else Some (True, s) } }"

definition bm_Load :: "virtuals \<Rightarrow> nat \<Rightarrow> module_manager \<Rightarrow> (bool \<times> module_manager) option" where
  "bm_Load E a s = do {
     m \<leftarrow> objects s a;
     if loaded m then Some (True, s)
     else do {
       let r = DoLoad E a (calls s);
       let s = s\<lparr>calls := calls s @ [Called_Load a r]\<rparr>;
       if \<not> r then Some (False, s)
       else Some (True, set_object a (m\<lparr>loaded := True\<rparr>) s) } }"

definition bm_Unload :: "virtuals \<Rightarrow> nat \<Rightarrow> module_manager \<Rightarrow> (bool \<times> module_manager) option" where
  "bm_Unload E a s = do {
     m \<leftarrow> objects s a;
     if \<not> loaded m then Some (True, s)
     else do {
       let r = DoUnload E a (calls s);
       let s = s\<lparr>calls := calls s @ [Called_Unload a r]\<rparr>;
       if \<not> r then Some (False, s)
       else Some (True, set_object a (m\<lparr>loaded := False\<rparr>) s) } }"

definition BeDepended :: "string \<Rightarrow> ptr \<Rightarrow> base_module \<Rightarrow> base_module" where
  "BeDepended name module m = m\<lparr>be_depended_modules := AList.update name module (be_depended_modules m)\<rparr>"

text \<open>The generated \<open>DefineDependModule\<close> assigns one bind function per declaration.\<close>

definition InitDepends :: "base_module \<Rightarrow> base_module" where
  "InitDepends m = m\<lparr>bind_funcs := foldl (\<lambda>fs d. if d \<in> set fs then fs else fs @ [d]) (bind_funcs m) (depends_on m)\<rparr>"

definition emplace :: "string \<Rightarrow> 'v \<Rightarrow> (string \<times> 'v) list \<Rightarrow> (string \<times> 'v) list" where
  "emplace k v kvs = (if k \<in> fst ` set kvs then kvs else kvs @ [(k, v)])"

definition bind_func :: "string \<Rightarrow> ptr \<Rightarrow> base_module \<Rightarrow> base_module" where
  "bind_func dep base m = m\<lparr>depend_modules := emplace dep base (depend_modules m)\<rparr>"

subsection \<open>The registry\<close>

definition AddCreatorFunc :: "string \<Rightarrow> creator \<Rightarrow> (string \<times> creator) list \<Rightarrow> (string \<times> creator) list" where
  "AddCreatorFunc name func creator_func_map = AList.update name func creator_func_map"

definition GetCreatorFunc :: "string \<Rightarrow> (string \<times> creator) list \<Rightarrow> creator" where
  "GetCreatorFunc name creator_func_map =
     (case map_of creator_func_map name of None \<Rightarrow> None | Some f \<Rightarrow> f)"

subsection \<open>The manager\<close>

definition MaxDepth :: nat where "MaxDepth = 64"

definition GetModule :: "string \<Rightarrow> module_manager \<Rightarrow> ptr" where
  "GetModule module_name s = map_of (modules s) module_name"

fun CreateModule :: "virtuals \<Rightarrow> (string \<times> creator) list \<Rightarrow> module_manager \<Rightarrow> (bool \<times> module_manager) option" where
  "CreateModule E [] s = Some (True, s)"
| "CreateModule E ((name, func) # fs) s =
     (case func of None \<Rightarrow> Some (False, s)
      | Some None \<Rightarrow> Some (False, s)
      | Some (Some deps) \<Rightarrow> do {
          let a = next_object s;
          let s = set_object a ((BaseModule deps)\<lparr>mod_name := name\<rparr>) (s\<lparr>next_object := a + 1\<rparr>);
          (r, s) \<leftarrow> bm_Init E a True s;
          if \<not> r then Some (False, s)
          else CreateModule E fs (s\<lparr>modules := emplace name a (modules s)\<rparr>) })"

fun bind_loop :: "string \<Rightarrow> nat \<Rightarrow> string list \<Rightarrow> module_manager \<Rightarrow> (bool \<times> module_manager) option" where
  "bind_loop module_name module [] s = Some (True, s)"
| "bind_loop module_name module (dep # deps) s =
     (case GetModule dep s of None \<Rightarrow> Some (False, s)
      | Some d \<Rightarrow> do {
          m \<leftarrow> objects s module;
          let s = set_object module (bind_func dep (Some d) m) s;
          dm \<leftarrow> objects s d;
          bind_loop module_name module deps (set_object d (BeDepended module_name (Some module) dm) s) })"

fun BindDependModule :: "virtuals \<Rightarrow> (string \<times> nat) list \<Rightarrow> module_manager \<Rightarrow> (bool \<times> module_manager) option" where
  "BindDependModule E [] s = Some (True, s)"
| "BindDependModule E ((module_name, module) # ms) s = do {
     m \<leftarrow> objects s module;
     let m = InitDepends m;
     (r, s) \<leftarrow> bind_loop module_name module (in_order (map_order E (bind_funcs m)) (bind_funcs m)) (set_object module m s);
     if \<not> r then Some (False, s) else BindDependModule E ms s }"

definition mm_Init :: "virtuals \<Rightarrow> (string \<times> creator) list \<Rightarrow> module_manager \<Rightarrow> (bool \<times> module_manager) option" where
  "mm_Init E registry s = do {
     let s = s\<lparr>module_creator_funcs := registry\<rparr>;
     (r, s) \<leftarrow> CreateModule E (iteration E (module_creator_funcs s)) s;
     if \<not> r then Some (False, s) else BindDependModule E (iteration E (modules s)) s }"

function Load :: "virtuals \<Rightarrow> nat \<Rightarrow> nat \<Rightarrow> module_manager \<Rightarrow> (bool \<times> module_manager) option"
  and load_depends :: "virtuals \<Rightarrow> (string \<times> ptr) list \<Rightarrow> nat \<Rightarrow> module_manager \<Rightarrow> (bool \<times> module_manager) option" where
  "Load E module depth s =
     (if depth \<ge> MaxDepth then Some (False, s)
      else do {
        m \<leftarrow> objects s module;
        (r, s) \<leftarrow> load_depends E (iteration E (depend_modules m)) depth s;
        if \<not> r then Some (False, s) else bm_Load E module s })"
| "load_depends E [] depth s = Some (True, s)"
| "load_depends E ((depend_module_name, depend_module) # ds) depth s =
     (case depend_module of None \<Rightarrow> Some (False, s)
      | Some d \<Rightarrow> do {
          m \<leftarrow> objects s d;
          if loaded m then load_depends E ds depth s
          else do {
            (r, s) \<leftarrow> Load E d (depth + 1) s;
            if \<not> r then Some (False, s) else load_depends E ds depth s } })"
  by pat_completeness auto

text \<open>The depth bound makes the recursion end, also on a cycle of modules.\<close>

termination
  by (relation "measures [case_sum (\<lambda>(E, m, depth, s). 2 * (MaxDepth + 1 - depth)) (\<lambda>(E, ds, depth, s). 2 * (MaxDepth - depth) + 1),
      case_sum (\<lambda>_. 0) (\<lambda>(E, ds, depth, s). length ds)]") auto

function Unload :: "virtuals \<Rightarrow> nat \<Rightarrow> nat \<Rightarrow> module_manager \<Rightarrow> (bool \<times> module_manager) option"
  and unload_depended :: "virtuals \<Rightarrow> (string \<times> ptr) list \<Rightarrow> nat \<Rightarrow> module_manager \<Rightarrow> (bool \<times> module_manager) option" where
  "Unload E module depth s =
     (if depth \<ge> MaxDepth then Some (False, s)
      else do {
        m \<leftarrow> objects s module;
        (r, s) \<leftarrow> unload_depended E (iteration E (be_depended_modules m)) depth s;
        if \<not> r then Some (False, s) else bm_Unload E module s })"
| "unload_depended E [] depth s = Some (True, s)"
| "unload_depended E ((depended_module_name, depended_module) # ds) depth s =
     (case depended_module of None \<Rightarrow> Some (False, s)
      | Some d \<Rightarrow> do {
          m \<leftarrow> objects s d;
          if \<not> loaded m then unload_depended E ds depth s
          else do {
            (r, s) \<leftarrow> Unload E d (depth + 1) s;
            if \<not> r then Some (False, s) else unload_depended E ds depth s } })"
  by pat_completeness auto

termination
  by (relation "measures [case_sum (\<lambda>(E, m, depth, s). 2 * (MaxDepth + 1 - depth)) (\<lambda>(E, ds, depth, s). 2 * (MaxDepth - depth) + 1),
      case_sum (\<lambda>_. 0) (\<lambda>(E, ds, depth, s). length ds)]") auto

fun start_loop :: "virtuals \<Rightarrow> (string \<times> nat) list \<Rightarrow> module_manager \<Rightarrow> (bool \<times> module_manager) option" where
  "start_loop E [] s = Some (True, s)"
| "start_loop E ((name, module) # ms) s = do {
     (r, s) \<leftarrow> Load E module 0 s;
     if \<not> r then Some (False, s) else start_loop E ms s }"

definition mm_Start :: "virtuals \<Rightarrow> module_manager \<Rightarrow> (bool \<times> module_manager) option" where
  "mm_Start E s =
     (if \<not> stopped s then Some (True, s)
      else do {
        (r, s) \<leftarrow> start_loop E (iteration E (modules s)) s;
        if \<not> r then Some (False, s) else Some (True, s\<lparr>stopped := False\<rparr>) })"

fun stop_loop :: "virtuals \<Rightarrow> (string \<times> nat) list \<Rightarrow> module_manager \<Rightarrow> (bool \<times> module_manager) option" where
  "stop_loop E [] s = Some (True, s)"
| "stop_loop E ((name, module) # ms) s = do {
     (r, s) \<leftarrow> Unload E module 0 s;
     if \<not> r then Some (False, s) else stop_loop E ms s }"

definition mm_Stop :: "virtuals \<Rightarrow> module_manager \<Rightarrow> (bool \<times> module_manager) option" where
  "mm_Stop E s =
     (if stopped s then Some (True, s)
      else do {
        (r, s) \<leftarrow> stop_loop E (iteration E (modules s)) s;
        if \<not> r then Some (False, s) else Some (True, s\<lparr>stopped := True\<rparr>) })"

subsection \<open>The worker\<close>


record worker_base =
  is_stop :: bool
  wb_stopped :: bool
  module_manager :: "module_manager option"
  destroyed :: "module_manager list"




text \<open>\<open>Stop\<close> runs on a thread of its own: what it does to the flag and what it does to the
  manager are two events, between which the thread of \<open>Run\<close> goes on.\<close>

definition stop_flag :: "worker_base \<Rightarrow> worker_base" where
  "stop_flag w = w\<lparr>wb_stopped := True\<rparr>"

definition stop_manager :: "virtuals \<Rightarrow> worker_base \<Rightarrow> worker_base option" where
  "stop_manager E w =
     (case module_manager w of None \<Rightarrow> Some w
      | Some s \<Rightarrow> do { (r, s) \<leftarrow> mm_Stop E s; Some (w\<lparr>module_manager := Some s\<rparr>) })"

definition wb_Stop :: "virtuals \<Rightarrow> worker_base \<Rightarrow> worker_base option" where
  "wb_Stop E w = stop_manager E (stop_flag w)"









declare Load.simps [simp del] load_depends.simps [simp del] Unload.simps [simp del] unload_depended.simps [simp del]

subsection \<open>The dependency graph and the history of calls\<close>

definition alive :: "module_manager \<Rightarrow> nat \<Rightarrow> bool" where
  "alive s a \<longleftrightarrow> objects s a \<noteq> None"

definition dep_list :: "module_manager \<Rightarrow> nat \<Rightarrow> (string \<times> ptr) list" where
  "dep_list s a = (case objects s a of None \<Rightarrow> [] | Some m \<Rightarrow> depend_modules m)"

definition bdep_list :: "module_manager \<Rightarrow> nat \<Rightarrow> (string \<times> ptr) list" where
  "bdep_list s a = (case objects s a of None \<Rightarrow> [] | Some m \<Rightarrow> be_depended_modules m)"

definition loaded_set :: "module_manager \<Rightarrow> nat set" where
  "loaded_set s = {a. \<exists>m. objects s a = Some m \<and> loaded m}"

definition deps :: "module_manager \<Rightarrow> nat \<Rightarrow> nat set" where
  "deps s a = {d. \<exists>n. (n, Some d) \<in> set (dep_list s a)}"

text \<open>Every pointer of the graph is valid, and the two kinds of edges mirror each other.\<close>

definition bound :: "module_manager \<Rightarrow> bool" where
  "bound s \<longleftrightarrow>
     (\<forall>n a. (n, a) \<in> set (modules s) \<longrightarrow> alive s a)
   \<and> (\<forall>a n q. (n, q) \<in> set (dep_list s a) \<longrightarrow> (\<exists>d k. q = Some d \<and> alive s d \<and> (k, Some a) \<in> set (bdep_list s d)))
   \<and> (\<forall>a k q. (k, q) \<in> set (bdep_list s a) \<longrightarrow> (\<exists>d. q = Some d \<and> alive s d \<and> a \<in> deps s d))"

text \<open>A legal history: a module is loaded only when it is not, and all its dependencies are; it is
  unloaded only when it is loaded and nothing loaded depends on it. The result is the set of
  modules loaded at the end.\<close>

fun replay :: "(nat \<Rightarrow> nat set) \<Rightarrow> nat set \<Rightarrow> module_call list \<Rightarrow> nat set option" where
  "replay D L [] = Some L"
| "replay D L (Called_Init a r # cs) = replay D L cs"
| "replay D L (Called_Load a r # cs) =
     (if a \<notin> L \<and> D a \<subseteq> L then replay D (if r then insert a L else L) cs else None)"
| "replay D L (Called_Unload a r # cs) =
     (if a \<in> L \<and> (\<forall>b\<in>L. a \<notin> D b) then replay D (if r then L - {a} else L) cs else None)"

definition mm_inv :: "module_manager \<Rightarrow> bool" where
  "mm_inv s \<longleftrightarrow> bound s \<and> replay (deps s) {} (calls s) = Some (loaded_set s)"

definition same_graph :: "module_manager \<Rightarrow> module_manager \<Rightarrow> bool" where
  "same_graph s s' \<longleftrightarrow> alive s' = alive s \<and> dep_list s' = dep_list s \<and> bdep_list s' = bdep_list s
     \<and> modules s' = modules s \<and> stopped s' = stopped s"

lemma same_graph_trans: "same_graph s s' \<Longrightarrow> same_graph s' s'' \<Longrightarrow> same_graph s s''"
  by (simp add: same_graph_def)

lemma same_graph_deps: "same_graph s s' \<Longrightarrow> deps s' = deps s"
  by (simp add: same_graph_def deps_def fun_eq_iff)

lemma same_graph_bound: "same_graph s s' \<Longrightarrow> bound s' = bound s"
  using same_graph_deps [of s s'] by (simp add: same_graph_def bound_def)

lemma replay_append: "replay D L (xs @ ys) = replay D L xs \<bind> (\<lambda>L. replay D L ys)"
  by (induction D L xs rule: replay.induct) auto

lemma alive_object: "alive s a \<longleftrightarrow> (\<exists>m. objects s a = Some m)"
  by (auto simp: alive_def)

text \<open>A call of a virtual function and the new value of the flag.\<close>

lemma set_loaded:
  assumes "objects s a = Some m" and "s' = (set_object a (m\<lparr>loaded := b\<rparr>) (s\<lparr>calls := cs\<rparr>))"
  shows "same_graph s s'" "loaded_set s' = (if b then insert a (loaded_set s) else loaded_set s - {a})" "calls s' = cs"
  using assms by (auto simp: same_graph_def alive_def dep_list_def bdep_list_def loaded_set_def set_object_def fun_eq_iff)

lemma set_calls:
  "same_graph s (s\<lparr>calls := cs\<rparr>)" "loaded_set (s\<lparr>calls := cs\<rparr>) = loaded_set s"
  by (auto simp: same_graph_def alive_def dep_list_def bdep_list_def loaded_set_def fun_eq_iff)

definition up :: "module_manager \<Rightarrow> module_manager \<Rightarrow> bool" where
  "up s s' \<longleftrightarrow> mm_inv s' \<and> same_graph s s' \<and> loaded_set s \<subseteq> loaded_set s'"

definition down :: "module_manager \<Rightarrow> module_manager \<Rightarrow> bool" where
  "down s s' \<longleftrightarrow> mm_inv s' \<and> same_graph s s' \<and> loaded_set s' \<subseteq> loaded_set s"

lemma up_refl: "mm_inv s \<Longrightarrow> up s s" and down_refl: "mm_inv s \<Longrightarrow> down s s"
  by (simp_all add: up_def down_def same_graph_def)

lemma up_trans: "up s s' \<Longrightarrow> up s' s'' \<Longrightarrow> up s s''" and down_trans: "down s s' \<Longrightarrow> down s' s'' \<Longrightarrow> down s s''"
  by (auto simp: up_def down_def intro: same_graph_trans)

lemma up_loaded: "up s s' \<Longrightarrow> d \<in> loaded_set s \<Longrightarrow> d \<in> loaded_set s'"
  and down_loaded: "down s s' \<Longrightarrow> d \<in> loaded_set s' \<Longrightarrow> d \<in> loaded_set s"
  by (auto simp: up_def down_def)

lemma bm_Load_step:
  assumes "mm_inv s" "alive s a" "deps s a \<subseteq> loaded_set s"
  shows "succeeds (bm_Load E a s) (\<lambda>(r, s'). up s s' \<and> (r \<longrightarrow> a \<in> loaded_set s') \<and> ((\<forall>a cs. DoLoad E a cs) \<longrightarrow> r))"
proof -
  obtain m where m: "objects s a = Some m" using assms(2) by (auto simp: alive_def)
  show ?thesis
  proof (cases "loaded m")
    case True
    then show ?thesis using m assms(1) by (auto simp: bm_Load_def up_refl loaded_set_def)
  next
    case False
    then have na: "a \<notin> loaded_set s" using m by (auto simp: loaded_set_def)
    have R: "replay (deps s) {} (calls s @ [Called_Load a r]) = Some (if r then insert a (loaded_set s) else loaded_set s)" for r
      using assms na by (simp add: replay_append mm_inv_def)
    show ?thesis
    proof (cases "DoLoad E a (calls s)")
      case True
      define s' where "s' = set_object a (m\<lparr>loaded := True\<rparr>) (s\<lparr>calls := calls s @ [Called_Load a True]\<rparr>)"
      note S = set_loaded [OF m s'_def]
      have "mm_inv s'" unfolding mm_inv_def same_graph_bound [OF S(1)] same_graph_deps [OF S(1)] S(2,3)
        using R [of True] assms(1) by (simp add: mm_inv_def)
      moreover have "bm_Load E a s = Some (True, s')" using m False True by (simp add: bm_Load_def s'_def)
      ultimately show ?thesis using S(1,2) by (auto simp: up_def)
    next
      case no: False
      define s' where "s' = s\<lparr>calls := calls s @ [Called_Load a False]\<rparr>"
      note S = set_calls [where s = s and cs = "calls s @ [Called_Load a False]", folded s'_def]
      have "calls s' = calls s @ [Called_Load a False]" by (simp add: s'_def)
      then have "mm_inv s'" unfolding mm_inv_def same_graph_bound [OF S(1)] same_graph_deps [OF S(1)] S(2)
        using R [of False] assms(1) by (simp add: mm_inv_def)
      moreover have "bm_Load E a s = Some (False, s')" using m False no by (simp add: bm_Load_def s'_def)
      ultimately show ?thesis using S no by (auto simp: up_def)
    qed
  qed
qed

lemma bm_Unload_step:
  assumes "mm_inv s" "alive s a" "\<forall>b\<in>loaded_set s. a \<notin> deps s b"
  shows "succeeds (bm_Unload E a s) (\<lambda>(r, s'). down s s' \<and> (r \<longrightarrow> a \<notin> loaded_set s') \<and> ((\<forall>a cs. DoUnload E a cs) \<longrightarrow> r))"
proof -
  obtain m where m: "objects s a = Some m" using assms(2) by (auto simp: alive_def)
  show ?thesis
  proof (cases "loaded m")
    case False
    then show ?thesis using m assms(1) by (auto simp: bm_Unload_def down_refl loaded_set_def)
  next
    case True
    then have na: "a \<in> loaded_set s" using m by (auto simp: loaded_set_def)
    have R: "replay (deps s) {} (calls s @ [Called_Unload a r]) = Some (if r then loaded_set s - {a} else loaded_set s)" for r
      using assms na by (simp add: replay_append mm_inv_def)
    show ?thesis
    proof (cases "DoUnload E a (calls s)")
      case yes: True
      define s' where "s' = set_object a (m\<lparr>loaded := False\<rparr>) (s\<lparr>calls := calls s @ [Called_Unload a True]\<rparr>)"
      note S = set_loaded [OF m s'_def]
      have "mm_inv s'" unfolding mm_inv_def same_graph_bound [OF S(1)] same_graph_deps [OF S(1)] S(2,3)
        using R [of True] assms(1) by (simp add: mm_inv_def)
      moreover have "bm_Unload E a s = Some (True, s')" using m True yes by (simp add: bm_Unload_def s'_def)
      ultimately show ?thesis using S(1,2) by (auto simp: down_def)
    next
      case no: False
      define s' where "s' = s\<lparr>calls := calls s @ [Called_Unload a False]\<rparr>"
      note S = set_calls [where s = s and cs = "calls s @ [Called_Unload a False]", folded s'_def]
      have "calls s' = calls s @ [Called_Unload a False]" by (simp add: s'_def)
      then have "mm_inv s'" unfolding mm_inv_def same_graph_bound [OF S(1)] same_graph_deps [OF S(1)] S(2)
        using R [of False] assms(1) by (simp add: mm_inv_def)
      moreover have "bm_Unload E a s = Some (False, s')" using m True no by (simp add: bm_Unload_def s'_def)
      ultimately show ?thesis using S no by (auto simp: down_def)
    qed
  qed
qed

text \<open>\<open>rank\<close> bounds the height of a module above those it depends on.\<close>

definition ranked :: "(nat \<Rightarrow> nat) \<Rightarrow> module_manager \<Rightarrow> bool" where
  "ranked rank s \<longleftrightarrow> (\<forall>a. \<forall>d\<in>deps s a. rank d < rank a)"

definition reverse_ranked :: "(nat \<Rightarrow> nat) \<Rightarrow> module_manager \<Rightarrow> bool" where
  "reverse_ranked rank s \<longleftrightarrow> (\<forall>a. \<forall>d\<in>deps s a. rank a < rank d)"

definition entries :: "(string \<times> ptr) list \<Rightarrow> nat set" where
  "entries ds = {d. \<exists>n. (n, Some d) \<in> set ds}"

definition valid :: "module_manager \<Rightarrow> (string \<times> ptr) list \<Rightarrow> bool" where
  "valid s ds \<longleftrightarrow> (\<forall>n q. (n, q) \<in> set ds \<longrightarrow> (\<exists>d. q = Some d \<and> alive s d))"

lemma entries_Cons [simp]: "entries [] = {}" "entries ((n, Some d) # ds) = insert d (entries ds)"
  by (auto simp: entries_def)

lemma entries_iteration [simp]: "entries (iteration E ds) = entries ds" "valid s (iteration E ds) = valid s ds"
  by (simp_all add: entries_def valid_def)

lemma valid_Cons [simp]: "valid s []" "valid s ((n, q) # ds) \<longleftrightarrow> (\<exists>d. q = Some d \<and> alive s d) \<and> valid s ds"
  by (auto simp: valid_def)

lemma same_graph_valid: "same_graph s s' \<Longrightarrow> valid s' ds = valid s ds"
  by (simp add: same_graph_def valid_def)

lemma same_graph_alive: "same_graph s s' \<Longrightarrow> alive s' = alive s"
  by (simp add: same_graph_def)

lemma bound_lists:
  assumes "bound s" "objects s a = Some m"
  shows "valid s (depend_modules m)" "entries (depend_modules m) = deps s a"
    "valid s (be_depended_modules m)" "entries (be_depended_modules m) = {b. a \<in> deps s b}"
proof -
  have d: "dep_list s a = depend_modules m" "bdep_list s a = be_depended_modules m"
    using assms(2) by (simp_all add: dep_list_def bdep_list_def)
  have B: "(n, q) \<in> set (dep_list s a) \<Longrightarrow> \<exists>d k. q = Some d \<and> alive s d \<and> (k, Some a) \<in> set (bdep_list s d)"
    "(k, q) \<in> set (bdep_list s a) \<Longrightarrow> \<exists>d. q = Some d \<and> alive s d \<and> a \<in> deps s d" for a n k q
    using assms(1) unfolding bound_def by blast+
  show "valid s (depend_modules m)" using B(1) [where a = a] unfolding valid_def d by blast
  show "valid s (be_depended_modules m)" using B(2) [where a = a] unfolding valid_def d by blast
  show "entries (depend_modules m) = deps s a" by (simp add: entries_def deps_def d)
  show "entries (be_depended_modules m) = {b. a \<in> deps s b}"
  proof (intro equalityI subsetI)
    fix b assume "b \<in> entries (be_depended_modules m)"
    then show "b \<in> {b. a \<in> deps s b}" using B(2) [where a = a] unfolding entries_def d by blast
  next
    fix b assume "b \<in> {b. a \<in> deps s b}"
    then obtain n where "(n, Some a) \<in> set (dep_list s b)" by (auto simp: deps_def)
    then show "b \<in> entries (be_depended_modules m)" using B(1) [where a = b] unfolding entries_def d [symmetric] by blast
  qed
qed

lemma succeeds_pairE:
  "succeeds c (\<lambda>(r, s). Q r s) \<Longrightarrow> (\<And>r s. c = Some (r, s) \<Longrightarrow> Q r s \<Longrightarrow> thesis) \<Longrightarrow> thesis"
  by (auto simp: succeeds_def)

lemma Load_spec:
  "mm_inv s \<Longrightarrow> alive s a \<Longrightarrow> succeeds (Load E a depth s)
     (\<lambda>(r, s'). up s s' \<and> (r \<longrightarrow> a \<in> loaded_set s')
        \<and> ((\<forall>a cs. DoLoad E a cs) \<and> ranked rank s \<and> depth + rank a < MaxDepth \<longrightarrow> r))"
  "mm_inv s \<Longrightarrow> valid s ds \<Longrightarrow> succeeds (load_depends E ds depth s)
     (\<lambda>(r, s'). up s s' \<and> (r \<longrightarrow> entries ds \<subseteq> loaded_set s')
        \<and> ((\<forall>a cs. DoLoad E a cs) \<and> ranked rank s \<and> (\<forall>d\<in>entries ds. depth + 1 + rank d < MaxDepth) \<longrightarrow> r))"
proof (induction E a depth s and E ds depth s rule: Load_load_depends.induct)
  case (1 E a depth s)
  show ?case
  proof (cases "depth \<ge> MaxDepth")
    case True
    then show ?thesis using 1(2) by (simp add: Load.simps up_refl)
  next
    case False
    obtain m where m: "objects s a = Some m" using 1(3) by (auto simp: alive_def)
    have b: "bound s" using 1(2) by (simp add: mm_inv_def)
    note L = bound_lists [OF b m]
    obtain r s' where l: "load_depends E (iteration E (depend_modules m)) depth s = Some (r, s')" "up s s'"
      "r \<longrightarrow> entries (depend_modules m) \<subseteq> loaded_set s'"
      "(\<forall>a cs. DoLoad E a cs) \<and> ranked rank s \<and> (\<forall>d\<in>entries (depend_modules m). depth + 1 + rank d < MaxDepth) \<longrightarrow> r"
      by (rule succeeds_pairE [OF 1(1) [OF False m 1(2)]]) (use L(1) in simp_all)
    have g: "same_graph s s'" "mm_inv s'" using l(2) by (simp_all add: up_def)
    have k: "(\<forall>a cs. DoLoad E a cs) \<and> ranked rank s \<and> depth + rank a < MaxDepth \<longrightarrow> r"
      using l(4) unfolding L(2) ranked_def by fastforce
    have eq: "Load E a depth s = (if \<not> r then Some (False, s') else bm_Load E a s')"
      using False m l(1) by (simp add: Load.simps)
    show ?thesis
    proof (cases r)
      case True
      then have D: "deps s' a \<subseteq> loaded_set s'" using l(3) L(2) same_graph_deps [OF g(1)] by simp
      have A: "alive s' a" using 1(3) same_graph_alive [OF g(1)] by simp
      show ?thesis unfolding eq using True k
        by (auto intro!: succeeds_mono [OF bm_Load_step [OF g(2) A D, of E]] intro: up_trans [OF l(2)])
    next
      case False
      then show ?thesis unfolding eq using l(2) k by auto
    qed
  qed
next
  case (2 E depth s)
  then show ?case by (simp add: load_depends.simps up_refl)
next
  case (3 E n q ds depth s)
  obtain d where q: "q = Some d" "alive s d" and v: "valid s ds" using 3(5) by auto
  obtain m where m: "objects s d = Some m" using q(2) by (auto simp: alive_def)
  show ?case
  proof (cases "loaded m")
    case True
    then have e: "load_depends E ((n, q) # ds) depth s = load_depends E ds depth s"
      using m by (simp add: load_depends.simps q(1))
    have dl: "d \<in> loaded_set s" using m True by (auto simp: loaded_set_def)
    show ?thesis unfolding e
      by (rule succeeds_mono [OF 3(1) [OF q(1) m True 3(4) v]]) (use dl in \<open>auto simp: q(1) up_def\<close>)
  next
    case False
    obtain r s' where l: "Load E d (depth + 1) s = Some (r, s')" "up s s'" "r \<longrightarrow> d \<in> loaded_set s'"
      "(\<forall>a cs. DoLoad E a cs) \<and> ranked rank s \<and> depth + 1 + rank d < MaxDepth \<longrightarrow> r"
      by (rule succeeds_pairE [OF 3(2) [OF q(1) m False 3(4) q(2)]]) blast
    have g: "same_graph s s'" "mm_inv s'" using l(2) by (simp_all add: up_def)
    have e: "load_depends E ((n, q) # ds) depth s = (if \<not> r then Some (False, s') else load_depends E ds depth s')"
      using m False l(1) by (simp add: load_depends.simps q(1))
    show ?thesis
    proof (cases r)
      case True
      have v': "valid s' ds" using v same_graph_valid [OF g(1)] by simp
      have rk: "ranked rank s' = ranked rank s" using same_graph_deps [OF g(1)] by (simp add: ranked_def)
      have nr: "\<not> \<not> r" using True by simp
      note H = 3(3) [OF q(1) m False _ refl nr g(2) v', OF l(1)]
      have e': "load_depends E ((n, q) # ds) depth s = load_depends E ds depth s'" using e True by simp
      show ?thesis unfolding e'
        by (rule succeeds_mono [OF H]) (use l(2,3) True in \<open>auto simp: q(1) rk intro: up_trans up_loaded\<close>)
    next
      case False
      then show ?thesis unfolding e using l(2,4) by (auto simp: q(1))
    qed
  qed
qed

lemma Unload_spec:
  "mm_inv s \<Longrightarrow> alive s a \<Longrightarrow> succeeds (Unload E a depth s)
     (\<lambda>(r, s'). down s s' \<and> (r \<longrightarrow> a \<notin> loaded_set s')
        \<and> ((\<forall>a cs. DoUnload E a cs) \<and> reverse_ranked rank s \<and> depth + rank a < MaxDepth \<longrightarrow> r))"
  "mm_inv s \<Longrightarrow> valid s ds \<Longrightarrow> succeeds (unload_depended E ds depth s)
     (\<lambda>(r, s'). down s s' \<and> (r \<longrightarrow> entries ds \<inter> loaded_set s' = {})
        \<and> ((\<forall>a cs. DoUnload E a cs) \<and> reverse_ranked rank s \<and> (\<forall>d\<in>entries ds. depth + 1 + rank d < MaxDepth) \<longrightarrow> r))"
proof (induction E a depth s and E ds depth s rule: Unload_unload_depended.induct)
  case (1 E a depth s)
  show ?case
  proof (cases "depth \<ge> MaxDepth")
    case True
    then show ?thesis using 1(2) by (simp add: Unload.simps down_refl)
  next
    case False
    obtain m where m: "objects s a = Some m" using 1(3) by (auto simp: alive_def)
    have b: "bound s" using 1(2) by (simp add: mm_inv_def)
    note L = bound_lists [OF b m]
    obtain r s' where l: "unload_depended E (iteration E (be_depended_modules m)) depth s = Some (r, s')" "down s s'"
      "r \<longrightarrow> entries (be_depended_modules m) \<inter> loaded_set s' = {}"
      "(\<forall>a cs. DoUnload E a cs) \<and> reverse_ranked rank s \<and> (\<forall>d\<in>entries (be_depended_modules m). depth + 1 + rank d < MaxDepth) \<longrightarrow> r"
      by (rule succeeds_pairE [OF 1(1) [OF False m 1(2)]]) (use L(3) in simp_all)
    have g: "same_graph s s'" "mm_inv s'" using l(2) by (simp_all add: down_def)
    have k: "(\<forall>a cs. DoUnload E a cs) \<and> reverse_ranked rank s \<and> depth + rank a < MaxDepth \<longrightarrow> r"
      using l(4) unfolding L(4) reverse_ranked_def by fastforce
    have eq: "Unload E a depth s = (if \<not> r then Some (False, s') else bm_Unload E a s')"
      using False m l(1) by (simp add: Unload.simps)
    show ?thesis
    proof (cases r)
      case True
      then have D: "\<forall>b\<in>loaded_set s'. a \<notin> deps s' b" using l(3) L(4) same_graph_deps [OF g(1)] by auto
      have A: "alive s' a" using 1(3) same_graph_alive [OF g(1)] by simp
      show ?thesis unfolding eq using True k
        by (auto intro!: succeeds_mono [OF bm_Unload_step [OF g(2) A D, of E]] intro: down_trans [OF l(2)])
    next
      case False
      then show ?thesis unfolding eq using l(2) k by auto
    qed
  qed
next
  case (2 E depth s)
  then show ?case by (simp add: unload_depended.simps down_refl)
next
  case (3 E n q ds depth s)
  obtain d where q: "q = Some d" "alive s d" and v: "valid s ds" using 3(5) by auto
  obtain m where m: "objects s d = Some m" using q(2) by (auto simp: alive_def)
  show ?case
  proof (cases "loaded m")
    case False
    then have e: "unload_depended E ((n, q) # ds) depth s = unload_depended E ds depth s"
      using m by (simp add: unload_depended.simps q(1))
    have dl: "d \<notin> loaded_set s" using m False by (auto simp: loaded_set_def)
    show ?thesis unfolding e
      by (rule succeeds_mono [OF 3(1) [OF q(1) m False 3(4) v]]) (use dl in \<open>auto simp: q(1) down_def\<close>)
  next
    case True
    then have nn: "\<not> \<not> loaded m" by simp
    obtain r s' where l: "Unload E d (depth + 1) s = Some (r, s')" "down s s'" "r \<longrightarrow> d \<notin> loaded_set s'"
      "(\<forall>a cs. DoUnload E a cs) \<and> reverse_ranked rank s \<and> depth + 1 + rank d < MaxDepth \<longrightarrow> r"
      by (rule succeeds_pairE [OF 3(2) [OF q(1) m nn 3(4) q(2)]]) blast
    have g: "same_graph s s'" "mm_inv s'" using l(2) by (simp_all add: down_def)
    have e: "unload_depended E ((n, q) # ds) depth s = (if \<not> r then Some (False, s') else unload_depended E ds depth s')"
      using m True l(1) by (simp add: unload_depended.simps q(1))
    show ?thesis
    proof (cases r)
      case True
      have v': "valid s' ds" using v same_graph_valid [OF g(1)] by simp
      have rk: "reverse_ranked rank s' = reverse_ranked rank s" using same_graph_deps [OF g(1)] by (simp add: reverse_ranked_def)
      have nr: "\<not> \<not> r" using True by simp
      note H = 3(3) [OF q(1) m nn _ refl nr g(2) v', OF l(1)]
      have e': "unload_depended E ((n, q) # ds) depth s = unload_depended E ds depth s'" using e True by simp
      show ?thesis unfolding e'
        by (rule succeeds_mono [OF H]) (use l(2,3) True in \<open>auto simp: q(1) rk intro: down_trans down_loaded\<close>)
    next
      case False
      then show ?thesis unfolding e using l(2,4) by (auto simp: q(1))
    qed
  qed
qed


subsection \<open>Initialisation builds the graph\<close>

definition only_inits :: "module_call list \<Rightarrow> bool" where
  "only_inits cs \<longleftrightarrow> (\<forall>c\<in>set cs. \<exists>a r. c = Called_Init a r)"

lemma replay_inits: "only_inits cs \<Longrightarrow> replay D L cs = Some L"
  by (induction D L cs rule: replay.induct) (auto simp: only_inits_def)

text \<open>Before binding, no object has edges; names are bound to distinct live objects.\<close>

definition created :: "module_manager \<Rightarrow> bool" where
  "created s \<longleftrightarrow> (\<forall>n a. (n, a) \<in> set (modules s) \<longrightarrow> alive s a) \<and> distinct (map fst (modules s))
     \<and> (\<forall>a m. objects s a = Some m \<longrightarrow> \<not> loaded m \<and> depend_modules m = [] \<and> be_depended_modules m = [])
     \<and> only_inits (calls s) \<and> stopped s"

definition binding :: "module_manager \<Rightarrow> bool" where
  "binding s \<longleftrightarrow> (\<forall>n a. (n, a) \<in> set (modules s) \<longrightarrow> alive s a) \<and> distinct (map fst (modules s))
     \<and> (\<forall>a n q. (n, q) \<in> set (dep_list s a) \<longrightarrow> (\<exists>d k. q = Some d \<and> (n, d) \<in> set (modules s) \<and> (k, Some a) \<in> set (bdep_list s d)))
     \<and> (\<forall>a k q. (k, q) \<in> set (bdep_list s a) \<longrightarrow> (\<exists>d. q = Some d \<and> (k, d) \<in> set (modules s) \<and> a \<in> deps s d))
     \<and> loaded_set s = {} \<and> only_inits (calls s) \<and> stopped s"

lemma distinct_emplace: "distinct (map fst kvs) \<Longrightarrow> distinct (map fst (emplace k v kvs))"
  by (auto simp: emplace_def)

lemma set_emplace: "set (emplace k v kvs) \<subseteq> insert (k, v) (set kvs)" "set kvs \<subseteq> set (emplace k v kvs)"
  by (auto simp: emplace_def)

lemma CreateModule_spec: "created s \<Longrightarrow> succeeds (CreateModule E fs s) (\<lambda>(r, s'). created s')"
proof (induction fs arbitrary: s)
  case (Cons x fs)
  obtain name func where x: "x = (name, func)" by fastforce
  show ?case
  proof (cases "func = None \<or> func = Some None")
    case True
    then show ?thesis using Cons(2) by (auto simp: x)
  next
    case False
    then obtain ds where f: "func = Some (Some ds)" by (cases func) auto
    define r where "r = DoInit E (next_object s) (calls s)"
    define s1 where "s1 = set_object (next_object s) ((BaseModule ds)\<lparr>mod_name := name\<rparr>) (s\<lparr>next_object := next_object s + 1\<rparr>)"
    define s' where "s' = (set_object (next_object s) ((BaseModule ds)\<lparr>mod_name := name, has_manager := True\<rparr>)
        s1)\<lparr>calls := calls s @ [Called_Init (next_object s) r]\<rparr>"
    have i: "bm_Init E (next_object s) True s1 = Some (r, s')"
      by (cases r) (simp_all add: bm_Init_def s'_def s1_def set_object_def r_def Let_def)
    have c: "created s'" "created (s'\<lparr>modules := emplace name (next_object s) (modules s')\<rparr>)"
      using Cons(2) set_emplace(1) [of name "next_object s" "modules s"]
      by (auto simp: created_def s'_def s1_def set_object_def alive_def BaseModule_def only_inits_def intro!: distinct_emplace)
    show ?thesis
    proof (cases r)
      case True
      then show ?thesis using Cons(1) [OF c(2)] i by (simp add: x f s1_def Let_def)
    next
      case False
      then show ?thesis using i c(1) by (simp add: x f s1_def Let_def)
    qed
  qed
qed simp

lemma created_binding: "created s \<Longrightarrow> binding s"
  by (auto simp: created_def binding_def dep_list_def bdep_list_def loaded_set_def split: option.splits)

lemma set_update: "set (AList.update k v al) \<subseteq> insert (k, v) (set al)" "(k, v) \<in> set (AList.update k v al)"
  "(k', v') \<in> set al \<Longrightarrow> k' \<noteq> k \<Longrightarrow> (k', v') \<in> set (AList.update k v al)"
  by (induction al) auto

lemma GetModule_in: "GetModule n s = Some d \<Longrightarrow> (n, d) \<in> set (modules s)"
  by (simp add: GetModule_def map_of_SomeD)

lemma binding_step:
  assumes "binding s" "(mn, a) \<in> set (modules s)" "GetModule dep s = Some d" "objects s a = Some m"
    "s1 = set_object a (bind_func dep (Some d) m) s" "objects s1 d = Some dm"
    "s2 = set_object d (BeDepended mn (Some a) dm) s1"
  shows "binding s2" "modules s2 = modules s"
proof -
  note B = assms(1) [unfolded binding_def]
  have dm: "(dep, d) \<in> set (modules s)" by (rule GetModule_in [OF assms(3)])
  have uniq: "x = y" if "(n, x) \<in> set (modules s)" "(n, y) \<in> set (modules s)" for n x y
    using B that by (metis eq_key_imp_eq_value)
  have ms: "modules s2 = modules s" "calls s2 = calls s" "stopped s2 = stopped s" by (simp_all add: assms(5,7) set_object_def)
  then show "modules s2 = modules s" by simp
  have al: "alive s2 = alive s" and ld: "loaded_set s2 = loaded_set s"
    using assms(4,6) by (auto simp: assms(5,7) set_object_def alive_def loaded_set_def bind_func_def BeDepended_def fun_eq_iff split: if_splits)
  have dl: "dep_list s2 x = (if x = a then emplace dep (Some d) (dep_list s a) else dep_list s x)" for x
    using assms(4,6) by (auto simp: assms(5,7) set_object_def dep_list_def bind_func_def BeDepended_def split: if_splits)
  have bl: "bdep_list s2 x = (if x = d then AList.update mn (Some a) (bdep_list s d) else bdep_list s x)" for x
    using assms(4,6) by (auto simp: assms(5,7) set_object_def bdep_list_def bind_func_def BeDepended_def split: if_splits)
  have dn: "d \<in> deps s2 a"
  proof (cases "dep \<in> fst ` set (dep_list s a)")
    case True
    then obtain q where q: "(dep, q) \<in> set (dep_list s a)" by auto
    then obtain d' where "q = Some d'" "(dep, d') \<in> set (modules s)" using B by blast
    then have "(dep, Some d) \<in> set (dep_list s a)" using q uniq [OF dm] by blast
    then show ?thesis using set_emplace(2) [of "dep_list s a" dep "Some d"] by (auto simp: deps_def dl)
  qed (auto simp: deps_def dl emplace_def)
  have ds: "deps s x \<subseteq> deps s2 x" for x
    using set_emplace(2) [of "dep_list s a" dep "Some d"] by (auto simp: deps_def dl)
  have 1: "\<exists>e k. q = Some e \<and> (n, e) \<in> set (modules s) \<and> (k, Some x) \<in> set (bdep_list s2 e)"
    if nq: "(n, q) \<in> set (dep_list s2 x)" for x n q
  proof (cases "x = a \<and> (n, q) = (dep, Some d)")
    case True
    then show ?thesis using dm set_update(2) [of mn "Some a" "bdep_list s d"] by (auto simp: bl)
  next
    case False
    then have "(n, q) \<in> set (dep_list s x)" using nq set_emplace(1) [of dep "Some d" "dep_list s a"] by (auto simp: dl split: if_splits)
    then obtain e k where e: "q = Some e" "(n, e) \<in> set (modules s)" "(k, Some x) \<in> set (bdep_list s e)" using B by blast
    have "\<exists>k. (k, Some x) \<in> set (bdep_list s2 e)"
    proof (cases "e = d \<and> k = mn")
      case True
      then have "(mn, x) \<in> set (modules s)" using B e(3) by blast
      then have "x = a" using uniq assms(2) by blast
      then show ?thesis using True set_update(2) [of mn "Some a" "bdep_list s d"] by (auto simp: bl)
    next
      case False
      then show ?thesis using e(3) set_update(3) [of k "Some x" "bdep_list s d" mn "Some a"] by (auto simp: bl)
    qed
    then show ?thesis using e by blast
  qed
  have 2: "\<exists>e. q = Some e \<and> (k, e) \<in> set (modules s) \<and> x \<in> deps s2 e" if kq: "(k, q) \<in> set (bdep_list s2 x)" for x k q
  proof (cases "x = d \<and> (k, q) = (mn, Some a)")
    case True
    then show ?thesis using dn assms(2) by auto
  next
    case False
    then have "(k, q) \<in> set (bdep_list s x)" using kq set_update(1) [of mn "Some a" "bdep_list s d"] by (auto simp: bl split: if_splits)
    then show ?thesis using B ds by blast
  qed
  show "binding s2" unfolding binding_def ms al ld using B 1 2 by blast
qed

lemma binding_alive: "binding s \<Longrightarrow> (n, a) \<in> set (modules s) \<Longrightarrow> \<exists>m. objects s a = Some m"
  by (auto simp: binding_def alive_def)

lemma bind_loop_spec:
  "binding s \<Longrightarrow> (mn, a) \<in> set (modules s) \<Longrightarrow>
   succeeds (bind_loop mn a ds s) (\<lambda>(r, s'). binding s' \<and> modules s' = modules s)"
proof (induction mn a ds s rule: bind_loop.induct)
  case (2 mn a dep ds s)
  show ?case
  proof (cases "GetModule dep s")
    case None
    then show ?thesis using 2(2) by simp
  next
    case (Some d)
    obtain m where m: "objects s a = Some m" using binding_alive [OF 2(2,3)] by blast
    define s1 where "s1 = set_object a (bind_func dep (Some d) m) s"
    obtain dm where dm: "objects s1 d = Some dm"
      using binding_alive [OF 2(2) GetModule_in [OF Some]] by (cases "d = a") (auto simp: s1_def set_object_def)
    define s2 where "s2 = set_object d (BeDepended mn (Some a) dm) s1"
    note S = binding_step [OF 2(2,3) Some m s1_def dm s2_def]
    have "bind_loop mn a (dep # ds) s = bind_loop mn a ds s2"
      using Some m dm by (simp add: s1_def s2_def)
    moreover have "succeeds (bind_loop mn a ds s2) (\<lambda>(r, s'). binding s' \<and> modules s' = modules s2)"
      using 2(1) [OF Some m s1_def dm] S 2(3) by (simp add: s2_def)
    ultimately show ?thesis using S(2) by simp
  qed
qed simp

lemma InitDepends_binding:
  assumes "binding s" "objects s a = Some m"
  shows "binding (set_object a (InitDepends m) s)"
proof -
  define s' where "s' = set_object a (InitDepends m) s"
  have "alive s' = alive s" "dep_list s' = dep_list s" "bdep_list s' = bdep_list s" "loaded_set s' = loaded_set s"
    "modules s' = modules s" "calls s' = calls s" "stopped s' = stopped s"
    using assms(2) by (auto simp: s'_def set_object_def alive_def dep_list_def bdep_list_def loaded_set_def InitDepends_def fun_eq_iff)
  then show ?thesis using assms(1) unfolding s'_def [symmetric] binding_def deps_def by simp
qed

lemma BindDependModule_spec:
  "binding s \<Longrightarrow> set ms \<subseteq> set (modules s) \<Longrightarrow> succeeds (BindDependModule E ms s) (\<lambda>(r, s'). binding s')"
proof (induction ms arbitrary: s)
  case (Cons x ms)
  obtain n a where x: "x = (n, a)" by fastforce
  have in_m: "(n, a) \<in> set (modules s)" using Cons(3) x by simp
  obtain m where m: "objects s a = Some m" using binding_alive [OF Cons(2) in_m] by blast
  let ?s = "set_object a (InitDepends m) s"
  have ms: "modules ?s = modules s" by (simp add: set_object_def)
  let ?fs = "in_order (map_order E (bind_funcs (InitDepends m))) (bind_funcs (InitDepends m))"
  obtain r s' where "bind_loop n a ?fs ?s = Some (r, s')" "binding s'" "modules s' = modules s"
    using bind_loop_spec [OF InitDepends_binding [OF Cons(2) m], of n a ?fs] in_m ms
    by (auto simp: succeeds_ex)
  then show ?case using Cons(1) [of s'] Cons(3) m by (simp add: x)
qed simp

lemma binding_inv: "binding s \<Longrightarrow> mm_inv s"
  unfolding mm_inv_def binding_def bound_def by (simp add: replay_inits) blast

lemma mm_Init_spec:
  assumes "mm_Init E registry ModuleManager = Some (r, s)"
  shows "mm_inv s" "stopped s" "loaded_set s = {}"
proof -
  let ?s0 = "ModuleManager\<lparr>module_creator_funcs := registry\<rparr>"
  have "created ?s0" by (simp add: created_def ModuleManager_def only_inits_def)
  then obtain r1 s1 where c: "CreateModule E (iteration E registry) ?s0 = Some (r1, s1)" "created s1"
    by (rule succeeds_pairE [OF CreateModule_spec])
  obtain r2 s2 where b: "BindDependModule E (iteration E (modules s1)) s1 = Some (r2, s2)" "binding s2"
    by (rule succeeds_pairE [OF BindDependModule_spec [OF created_binding [OF c(2)], of "iteration E (modules s1)" E]]) simp_all
  have "s = s1 \<or> s = s2" using assms c(1) b(1) by (auto simp: mm_Init_def split: if_splits)
  then have "binding s" using b(2) created_binding [OF c(2)] by blast
  then show "mm_inv s" "stopped s" "loaded_set s = {}" by (simp_all add: binding_inv) (simp_all add: binding_def)
qed

subsection \<open>Starting and stopping\<close>

lemma start_loop_spec:
  "mm_inv s \<Longrightarrow> \<forall>n a. (n, a) \<in> set ms \<longrightarrow> alive s a \<Longrightarrow> succeeds (start_loop E ms s)
     (\<lambda>(r, s'). up s s' \<and> (r \<longrightarrow> snd ` set ms \<subseteq> loaded_set s')
        \<and> ((\<forall>a cs. DoLoad E a cs) \<and> ranked rank s \<and> (\<forall>a. rank a < MaxDepth) \<longrightarrow> r))"
proof (induction ms arbitrary: s)
  case (Cons x ms)
  obtain n a where x: "x = (n, a)" by fastforce
  have "alive s a" using Cons(3) x by auto
  then obtain r s' where l: "Load E a 0 s = Some (r, s')" "up s s'" "r \<longrightarrow> a \<in> loaded_set s'"
    "(\<forall>a cs. DoLoad E a cs) \<and> ranked rank s \<and> rank a < MaxDepth \<longrightarrow> r"
    by (rule succeeds_pairE [OF Load_spec(1) [OF Cons(2), where rank = rank and E = E and depth = 0]]) auto
  have g: "same_graph s s'" "mm_inv s'" using l(2) by (simp_all add: up_def)
  have al: "\<forall>n a. (n, a) \<in> set ms \<longrightarrow> alive s' a" using Cons(3) same_graph_alive [OF g(1)] by simp
  have rk: "ranked rank s' = ranked rank s" using same_graph_deps [OF g(1)] by (simp add: ranked_def)
  show ?case
  proof (cases r)
    case True
    then have e: "start_loop E (x # ms) s = start_loop E ms s'" using l(1) by (simp add: x)
    show ?thesis unfolding e
      by (rule succeeds_mono [OF Cons(1) [OF g(2) al]]) (use l(2,3) True in \<open>auto simp: x rk intro: up_trans up_loaded\<close>)
  qed (use l in \<open>auto simp: x\<close>)
qed (simp add: up_refl)

lemma stop_loop_spec:
  "mm_inv s \<Longrightarrow> \<forall>n a. (n, a) \<in> set ms \<longrightarrow> alive s a \<Longrightarrow> succeeds (stop_loop E ms s)
     (\<lambda>(r, s'). down s s' \<and> (r \<longrightarrow> snd ` set ms \<inter> loaded_set s' = {})
        \<and> ((\<forall>a cs. DoUnload E a cs) \<and> reverse_ranked rank s \<and> (\<forall>a. rank a < MaxDepth) \<longrightarrow> r))"
proof (induction ms arbitrary: s)
  case (Cons x ms)
  obtain n a where x: "x = (n, a)" by fastforce
  have "alive s a" using Cons(3) x by auto
  then obtain r s' where l: "Unload E a 0 s = Some (r, s')" "down s s'" "r \<longrightarrow> a \<notin> loaded_set s'"
    "(\<forall>a cs. DoUnload E a cs) \<and> reverse_ranked rank s \<and> rank a < MaxDepth \<longrightarrow> r"
    by (rule succeeds_pairE [OF Unload_spec(1) [OF Cons(2), where rank = rank and E = E and depth = 0]]) auto
  have g: "same_graph s s'" "mm_inv s'" using l(2) by (simp_all add: down_def)
  have al: "\<forall>n a. (n, a) \<in> set ms \<longrightarrow> alive s' a" using Cons(3) same_graph_alive [OF g(1)] by simp
  have rk: "reverse_ranked rank s' = reverse_ranked rank s" using same_graph_deps [OF g(1)] by (simp add: reverse_ranked_def)
  show ?case
  proof (cases r)
    case True
    then have e: "stop_loop E (x # ms) s = stop_loop E ms s'" using l(1) by (simp add: x)
    show ?thesis unfolding e
      by (rule succeeds_mono [OF Cons(1) [OF g(2) al]]) (use l(2,3) True in \<open>auto simp: x rk intro: down_trans down_loaded\<close>)
  qed (use l in \<open>auto simp: x\<close>)
qed (simp add: down_refl)

definition same_edges :: "module_manager \<Rightarrow> module_manager \<Rightarrow> bool" where
  "same_edges s s' \<longleftrightarrow> deps s' = deps s \<and> modules s' = modules s"

lemma inv_modules_alive: "mm_inv s \<Longrightarrow> \<forall>n a. (n, a) \<in> set (modules s) \<longrightarrow> alive s a"
  by (auto simp: mm_inv_def bound_def)

lemma set_stopped [simp]: "mm_inv (s\<lparr>stopped := b\<rparr>) = mm_inv s" "loaded_set (s\<lparr>stopped := b\<rparr>) = loaded_set s"
  "deps (s\<lparr>stopped := b\<rparr>) = deps s"
  by (simp_all add: mm_inv_def bound_def alive_def [abs_def] dep_list_def [abs_def] bdep_list_def [abs_def] deps_def [abs_def] loaded_set_def)

lemma mm_Start_spec:
  assumes "mm_inv s"
  shows "succeeds (mm_Start E s) (\<lambda>(r, s'). mm_inv s' \<and> same_edges s s'
     \<and> (stopped s \<longrightarrow> stopped s' = (\<not> r) \<and> (r \<longrightarrow> snd ` set (modules s) \<subseteq> loaded_set s'))
     \<and> ((\<forall>a cs. DoLoad E a cs) \<and> ranked rank s \<and> (\<forall>a. rank a < MaxDepth) \<longrightarrow> r))"
proof -
  obtain r s' where l: "start_loop E (iteration E (modules s)) s = Some (r, s')" "up s s'" "r \<longrightarrow> snd ` set (modules s) \<subseteq> loaded_set s'"
    "(\<forall>a cs. DoLoad E a cs) \<and> ranked rank s \<and> (\<forall>a. rank a < MaxDepth) \<longrightarrow> r"
    by (rule succeeds_pairE [OF start_loop_spec [OF assms, of "iteration E (modules s)" E rank]]) (use inv_modules_alive [OF assms] in auto)
  have g: "mm_inv s'" "same_edges s s'" "stopped s' = stopped s"
    using l(2) by (auto simp: up_def same_edges_def same_graph_deps) (auto simp: same_graph_def)
  show ?thesis using l(1,3,4) g assms by (cases r) (auto simp: mm_Start_def same_edges_def)
qed

lemma mm_Stop_spec:
  assumes "mm_inv s"
  shows "succeeds (mm_Stop E s) (\<lambda>(r, s'). mm_inv s' \<and> same_edges s s'
     \<and> (\<not> stopped s \<longrightarrow> stopped s' = r \<and> (r \<longrightarrow> snd ` set (modules s) \<inter> loaded_set s' = {}))
     \<and> ((\<forall>a cs. DoUnload E a cs) \<and> reverse_ranked rank s \<and> (\<forall>a. rank a < MaxDepth) \<longrightarrow> r))"
proof -
  obtain r s' where l: "stop_loop E (iteration E (modules s)) s = Some (r, s')" "down s s'" "r \<longrightarrow> snd ` set (modules s) \<inter> loaded_set s' = {}"
    "(\<forall>a cs. DoUnload E a cs) \<and> reverse_ranked rank s \<and> (\<forall>a. rank a < MaxDepth) \<longrightarrow> r"
    by (rule succeeds_pairE [OF stop_loop_spec [OF assms, of "iteration E (modules s)" E rank]]) (use inv_modules_alive [OF assms] in auto)
  have g: "mm_inv s'" "same_edges s s'" "stopped s' = stopped s"
    using l(2) by (auto simp: down_def same_edges_def same_graph_deps) (auto simp: same_graph_def)
  show ?thesis using l(1,3,4) g assms by (cases r) (auto simp: mm_Stop_def same_edges_def)
qed

datatype mm_command = Cmd_Start | Cmd_Stop

fun mm_run :: "virtuals \<Rightarrow> mm_command list \<Rightarrow> module_manager \<Rightarrow> module_manager option" where
  "mm_run E [] s = Some s"
| "mm_run E (Cmd_Start # cs) s = do { (r, s) \<leftarrow> mm_Start E s; mm_run E cs s }"
| "mm_run E (Cmd_Stop # cs) s = do { (r, s) \<leftarrow> mm_Stop E s; mm_run E cs s }"

lemma mm_run_spec: "mm_inv s \<Longrightarrow> succeeds (mm_run E cs s) (\<lambda>s'. mm_inv s' \<and> same_edges s s')"
proof (induction E cs s rule: mm_run.induct)
  case (2 E cs s)
  obtain r s' where "mm_Start E s = Some (r, s')" "mm_inv s'" "same_edges s s'"
    by (rule succeeds_pairE [OF mm_Start_spec [OF 2(2), where E = E and rank = "\<lambda>_. 0"]]) blast
  then show ?case using 2(1) [of "(r, s')" r s'] by (auto simp: same_edges_def)
next
  case (3 E cs s)
  obtain r s' where "mm_Stop E s = Some (r, s')" "mm_inv s'" "same_edges s s'"
    by (rule succeeds_pairE [OF mm_Stop_spec [OF 3(2), where E = E and rank = "\<lambda>_. 0"]]) blast
  then show ?case using 3(1) [of "(r, s')" r s'] by (auto simp: same_edges_def)
qed (simp add: same_edges_def)

text \<open>What a legal history implies for the loaded modules.\<close>

definition edges :: "(nat \<Rightarrow> nat set) \<Rightarrow> nat rel" where
  "edges D = {(a, b). b \<in> D a}"

lemma closed_reach:
  assumes "(a, b) \<in> (edges D)\<^sup>*" "a \<in> L" "\<forall>a\<in>L. D a \<subseteq> L"
  shows "b \<in> L"
  using assms by (induction rule: rtrancl_induct) (auto simp: edges_def)

lemma replay_closed:
  assumes "replay D L cs = Some L'" "\<forall>a\<in>L. D a \<subseteq> L" "\<forall>a\<in>L. (a, a) \<notin> (edges D)\<^sup>+"
  shows "(\<forall>a\<in>L'. D a \<subseteq> L') \<and> (\<forall>a\<in>L'. (a, a) \<notin> (edges D)\<^sup>+)"
  using assms
proof (induction D L cs rule: replay.induct)
  case (3 D L a r cs)
  have c: "a \<notin> L" "D a \<subseteq> L" using 3(2) by (auto split: if_splits)
  have "(a, a) \<notin> (edges D)\<^sup>+"
  proof
    assume "(a, a) \<in> (edges D)\<^sup>+"
    then obtain b where "(a, b) \<in> edges D" "(b, a) \<in> (edges D)\<^sup>*" by (auto dest: tranclD)
    then show False using closed_reach [of b a D L] c 3(3) by (auto simp: edges_def)
  qed
  then show ?case using 3 c by (auto split: if_splits)
next
  case (4 D L a r cs)
  have "\<forall>b\<in>L. a \<notin> D b" using 4(2) by (auto split: if_splits)
  then show ?case using 4 by (auto split: if_splits)
qed auto

lemma inv_loaded:
  assumes "mm_inv s" "a \<in> loaded_set s"
  shows "deps s a \<subseteq> loaded_set s" "(a, a) \<notin> (edges (deps s))\<^sup>+"
  using replay_closed [of "deps s" "{}" "calls s" "loaded_set s"] assms by (auto simp: mm_inv_def)


lemma mm_Stop_stopped: "stopped s \<Longrightarrow> mm_Stop E s = Some (True, s)"
  by (simp add: mm_Stop_def)

subsection \<open>Properties\<close>

text \<open>Property C7. Whatever the modules' own functions answer and whatever sequence of starts and
  stops is made on an initialised manager, the manager returns, and the calls it makes are a legal
  history: a module is loaded only after all modules it depends on, and unloaded only after all
  modules that depend on it. A loaded module has all its dependencies loaded.\<close>

theorem modules_order:
  assumes "mm_Init E registry ModuleManager = Some (True, s)"
  shows "\<exists>s'. mm_run E cs s = Some s' \<and> replay (deps s) {} (calls s') = Some (loaded_set s')
     \<and> (\<forall>a\<in>loaded_set s'. deps s a \<subseteq> loaded_set s')"
  using mm_run_spec [OF mm_Init_spec(1) [OF assms], of E cs] inv_loaded(1)
  by (fastforce simp: succeeds_ex mm_inv_def same_edges_def)

text \<open>Property C25. Modules on a dependency cycle: the start is refused, no module of the cycle has
  been loaded, and the recursion has ended. The manager then counts as stopped, so that a stop
  returns without unloading the modules that had been loaded before the refusal.\<close>

theorem dependency_cycle_refused:
  assumes "mm_Init E registry ModuleManager = Some (True, s)"
    and "(n, a) \<in> set (modules s)" and "(a, a) \<in> (edges (deps s))\<^sup>+"
  shows "\<exists>s'. mm_Start E s = Some (False, s') \<and> a \<notin> loaded_set s' \<and> mm_Stop E s' = Some (True, s')"
proof -
  note I = mm_Init_spec [OF assms(1)]
  obtain r s' where l: "mm_Start E s = Some (r, s')" "mm_inv s'" "same_edges s s'" "stopped s' = (\<not> r)"
    "r \<longrightarrow> snd ` set (modules s) \<subseteq> loaded_set s'"
    by (rule succeeds_pairE [OF mm_Start_spec [OF I(1), where E = E and rank = "\<lambda>_. 0"]]) (use I(2) in blast)
  have "a \<notin> loaded_set s'" using inv_loaded(2) [OF l(2), of a] l(3) assms(3) by (auto simp: same_edges_def)
  moreover have "\<not> r" using calculation l(5) assms(2) by force
  ultimately show ?thesis using l(1,4) by (auto simp: mm_Stop_stopped)
qed










text \<open>Two sample registries: a module on top of another one, and two modules that depend on each
  other.\<close>

definition sample_virtuals :: virtuals where
  "sample_virtuals = \<lparr>DoInit = \<lambda>_ _. True, DoLoad = \<lambda>_ _. True, DoUnload = \<lambda>_ _. True, map_order = \<lambda>ks. rev [0..<length ks]\<rparr>"

definition chain_registry :: "(string \<times> creator) list" where
  "chain_registry = [(''A'', Some (Some [''B''])), (''B'', Some (Some []))]"

definition cycle_registry :: "(string \<times> creator) list" where
  "cycle_registry = [(''A'', Some (Some [''B''])), (''B'', Some (Some [''A'']))]"

lemmas init_defs = mm_Init_def ModuleManager_def bm_Init_def set_object_def BaseModule_def emplace_def InitDepends_def
  GetModule_def bind_func_def BeDepended_def sample_virtuals_def deps_def dep_list_def iteration_def in_order_def

lemma chain_init:
  "\<exists>s. mm_Init sample_virtuals chain_registry ModuleManager = Some (True, s) \<and> deps s 1 = {0} \<and> (\<forall>a. a \<noteq> 1 \<longrightarrow> deps s a = {})"
  by (simp add: chain_registry_def init_defs split: option.splits)

lemma cycle_init:
  "\<exists>s. mm_Init sample_virtuals cycle_registry ModuleManager = Some (True, s) \<and> deps s 0 = {1} \<and> deps s 1 = {0} \<and> (''B'', 0) \<in> set (modules s)"
  by (simp add: cycle_registry_def init_defs)

theorem modules_order_witness:
  "\<exists>s s'. mm_Init sample_virtuals chain_registry ModuleManager = Some (True, s)
     \<and> mm_run sample_virtuals [Cmd_Start, Cmd_Stop, Cmd_Start] s = Some s'
     \<and> replay (deps s) {} (calls s') = Some (loaded_set s')"
proof -
  obtain s where s: "mm_Init sample_virtuals chain_registry ModuleManager = Some (True, s)" using chain_init by blast
  from modules_order [OF s] obtain s' where "mm_run sample_virtuals [Cmd_Start, Cmd_Stop, Cmd_Start] s = Some s'"
    "replay (deps s) {} (calls s') = Some (loaded_set s')" by blast
  with s show ?thesis by (intro exI conjI)
qed

theorem dependency_cycle_refused_witness:
  "\<exists>s s'. mm_Init sample_virtuals cycle_registry ModuleManager = Some (True, s)
     \<and> mm_Start sample_virtuals s = Some (False, s') \<and> mm_Stop sample_virtuals s' = Some (True, s')"
proof -
  obtain s where s: "mm_Init sample_virtuals cycle_registry ModuleManager = Some (True, s)" "deps s 0 = {1}" "deps s 1 = {0}"
    "(''B'', 0) \<in> set (modules s)" using cycle_init by blast
  have "(0, 1) \<in> edges (deps s)" "(1, 0) \<in> edges (deps s)" using s(2,3) by (simp_all add: edges_def)
  then have "(0, 1) \<in> (edges (deps s))\<^sup>+" "(1, 0) \<in> (edges (deps s))\<^sup>+" by (simp_all add: r_into_trancl)
  then have "(0, 0) \<in> (edges (deps s))\<^sup>+" by (rule trancl_trans)
  from dependency_cycle_refused [OF s(1,4) this] obtain s' where
    "mm_Start sample_virtuals s = Some (False, s')" "mm_Stop sample_virtuals s' = Some (True, s')" by blast
  with s(1) show ?thesis by (intro exI conjI)
qed


end
