(* ===== verification/JsonText.thy ===== *)
theory JsonText
  imports Utf8 StringUtil "HOL-Library.List_Lexorder" "HOL-Library.Char_ord"
begin

text \<open>
  The lexical layer of the JSON library: quoting of strings (\<open>util/legacy/string_conversion.cpp\<close>),
  comments, blanks, fixed words and number literals (\<open>json_string_enhanced.cpp\<close>). A parser that
  advances a position in a string is a function from the rest of the string to the rest that is left.
  Exceptions are the left side of a sum; their messages are dropped.
\<close>

datatype json_error = JsonParserError | JsonNothingError

datatype quote_error = BadQuoteString

subsection \<open>Quoted strings\<close>

abbreviation quote :: char where "quote \<equiv> CHR 0x22"
abbreviation backslash :: char where "backslash \<equiv> CHR 0x5C"

definition escape :: "char \<Rightarrow> char option" where
  "escape c =
     (if c = quote then Some quote else if c = backslash then Some backslash else if c = CHR ''/'' then Some (CHR ''/'')
      else if c = CHR 0x08 then Some (CHR ''b'') else if c = CHR 0x0C then Some (CHR ''f'')
      else if c = CHR 0x0A then Some (CHR ''n'') else if c = CHR 0x0D then Some (CHR ''r'')
      else if c = CHR 0x09 then Some (CHR ''t'') else None)"

fun QuoteString :: "string \<Rightarrow> string" where
  "QuoteString [] = []"
| "QuoteString (c # s) =
     (case escape c of None \<Rightarrow> c # QuoteString s | Some e \<Rightarrow> backslash # e # QuoteString s)"

text \<open>The meaning of a character after a backslash, \<open>u\<close> apart.\<close>

definition unescape :: "char \<Rightarrow> char option" where
  "unescape c =
     (if c = quote then Some quote else if c = backslash then Some backslash else if c = CHR ''/'' then Some (CHR ''/'')
      else if c = CHR ''b'' then Some (CHR 0x08) else if c = CHR ''f'' then Some (CHR 0x0C)
      else if c = CHR ''n'' then Some (CHR 0x0A) else if c = CHR ''r'' then Some (CHR 0x0D)
      else if c = CHR ''t'' then Some (CHR 0x09) else None)"

definition hex_step :: "16 word \<Rightarrow> char \<Rightarrow> 16 word option" where
  "hex_step data b =
     (if 48 \<le> code b \<and> code b \<le> 57 then Some (or (push_bit 4 data) (and 0xF (of_nat (code b - 48))))
      else if 97 \<le> code b \<and> code b \<le> 102 then Some (or (push_bit 4 data) (and 0xF (of_nat (code b - 97 + 10))))
      else if 65 \<le> code b \<and> code b \<le> 70 then Some (or (push_bit 4 data) (and 0xF (of_nat (code b - 65 + 10))))
      else None)"

fun hex_digits :: "16 word \<Rightarrow> string \<Rightarrow> 16 word option" where
  "hex_digits data [] = Some data"
| "hex_digits data (b # s) = do { data \<leftarrow> hex_step data b; hex_digits data s }"

function UnquoteString :: "bool \<Rightarrow> string \<Rightarrow> string \<Rightarrow> quote_error + (string \<times> string)" where
  "UnquoteString escaped [] ret = (if escaped then Inl BadQuoteString else Inr ([], ret))"
| "UnquoteString escaped (byte # s) ret =
     (if escaped then
        case unescape byte of Some c \<Rightarrow> UnquoteString False s (ret @ [c])
        | None \<Rightarrow>
            if byte = CHR ''u'' then
              if length s < 4 then Inl BadQuoteString
              else case hex_digits 0 (take 4 s) of None \<Rightarrow> Inl BadQuoteString
                   | Some data \<Rightarrow> UnquoteString False (drop 4 s) (ret @ UnicodeToUtf8 data)
            else Inl BadQuoteString
      else if byte = backslash then UnquoteString True s ret
      else if byte = quote then Inr (byte # s, ret)
      else UnquoteString False s (ret @ [byte]))"
  by pat_completeness auto
termination
  by (relation "measure (\<lambda>(escaped, s, ret). length s)") auto

declare UnquoteString.simps [simp del]

subsection \<open>Blanks and comments\<close>

fun SkipMultiLineComment :: "bool \<Rightarrow> string \<Rightarrow> json_error + string" where
  "SkipMultiLineComment previsstar [] = Inl JsonParserError"
| "SkipMultiLineComment previsstar (b # s) =
     (if b = CHR ''*'' then SkipMultiLineComment True s
      else if previsstar \<and> b = CHR ''/'' then Inr s
      else SkipMultiLineComment False s)"

fun SkipSingleLineComment :: "string \<Rightarrow> string" where
  "SkipSingleLineComment [] = []"
| "SkipSingleLineComment (b # s) = (if b = CHR 0x0D \<or> b = CHR 0x0A then s else SkipSingleLineComment s)"

definition SkipComment :: "string \<Rightarrow> json_error + string" where
  "SkipComment is =
     (case is of [] \<Rightarrow> Inl JsonParserError
      | b # s \<Rightarrow> if b = CHR ''*'' then SkipMultiLineComment False s
          else if b = CHR ''/'' then Inr (SkipSingleLineComment s)
          else Inl JsonParserError)"

definition json_blank :: "char \<Rightarrow> bool" where
  "json_blank b \<longleftrightarrow> b = CHR '' '' \<or> b = CHR 0x09 \<or> b = CHR 0x0D \<or> b = CHR 0x0A"

function SkipSpace :: "string \<Rightarrow> json_error + string" where
  "SkipSpace [] = Inr []"
| "SkipSpace (b # s) =
     (if json_blank b then SkipSpace s
      else if b = CHR ''/'' then case SkipComment s of Inl e \<Rightarrow> Inl e | Inr s \<Rightarrow> SkipSpace s
      else Inr (b # s))"
  by pat_completeness auto

lemma SkipMultiLineComment_length: "SkipMultiLineComment p s = Inr t \<Longrightarrow> length t < length s"
  by (induction p s rule: SkipMultiLineComment.induct) (auto split: if_splits)

lemma SkipSingleLineComment_length: "length (SkipSingleLineComment s) \<le> length s"
  by (induction s) auto

lemma SkipComment_length: "SkipComment s = Inr t \<Longrightarrow> length t < length s"
  using SkipSingleLineComment_length [of "tl s"]
  by (auto simp: SkipComment_def split: list.splits if_splits dest: SkipMultiLineComment_length)

termination SkipSpace
  by (relation "measure length") (auto dest: SkipComment_length)

declare SkipSpace.simps [simp del]

definition SkipExact :: "string \<Rightarrow> string \<Rightarrow> json_error + string" where
  "SkipExact str is = (if take (length str) is = str then Inr (drop (length str) is) else Inl JsonParserError)"

definition ParseJsonString :: "string \<Rightarrow> json_error + (string \<times> string)" where
  "ParseJsonString is =
     (case SkipExact [quote] is of Inl e \<Rightarrow> Inl e
      | Inr s \<Rightarrow>
          case UnquoteString False s [] of Inl BadQuoteString \<Rightarrow> Inl JsonParserError
          | Inr (s, ret) \<Rightarrow> case SkipExact [quote] s of Inl e \<Rightarrow> Inl e | Inr s \<Rightarrow> Inr (ret, s))"

subsection \<open>Number literals\<close>

definition is_sign :: "char \<Rightarrow> bool" where
  "is_sign b \<longleftrightarrow> b = CHR ''+'' \<or> b = CHR ''-''"

definition is_exp :: "char \<Rightarrow> bool" where
  "is_exp b \<longleftrightarrow> b = CHR ''e'' \<or> b = CHR ''E''"

fun num_loop :: "bool \<Rightarrow> bool \<Rightarrow> bool \<Rightarrow> bool \<Rightarrow> string \<Rightarrow> string \<Rightarrow> json_error + (string \<times> string)" where
  "num_loop signOk dotOk eOk ed lit [] = Inr (lit, [])"
| "num_loop signOk dotOk eOk ed lit (byte # s) =
     (if is_sign byte then
        if \<not> signOk then Inl JsonParserError else num_loop False (\<not> ed) False ed (lit @ [byte]) s
      else if byte = CHR ''.'' then
        if \<not> dotOk then Inl JsonParserError else num_loop False False eOk ed (lit @ [byte]) s
      else if is_exp byte then
        if \<not> eOk then Inl JsonParserError else num_loop True False False True (lit @ [byte]) s
      else if isdigit byte then num_loop False dotOk (\<not> ed) ed (lit @ [byte]) s
      else Inr (lit, byte # s))"

definition bad_end :: "string \<Rightarrow> bool" where
  "bad_end lit \<longleftrightarrow> is_exp (last lit) \<or> is_sign (last lit) \<or> length lit = 2 \<and> last lit = CHR ''.'' \<and> is_sign (hd lit)"

definition ParseJsonNum :: "string \<Rightarrow> json_error + (string \<times> string)" where
  "ParseJsonNum is =
     (case num_loop True True False False [] is of Inl e \<Rightarrow> Inl e
      | Inr (lit, s) \<Rightarrow> if bad_end lit then Inl JsonParserError else Inr (lit, s))"

text \<open>The grammar the source documents:
  \<open>[+|-] x [e|E [+|-] digit+]\<close> with \<open>x = digit+ [. digit*] | digit* . digit+\<close>.\<close>

definition unsigned_part :: "string \<Rightarrow> string" where
  "unsigned_part s = (case s of [] \<Rightarrow> [] | c # t \<Rightarrow> if is_sign c then t else s)"

definition exponent_ok :: "string \<Rightarrow> bool" where
  "exponent_ok s \<longleftrightarrow> (case s of [] \<Rightarrow> True
     | c # t \<Rightarrow> is_exp c \<and> unsigned_part t \<noteq> [] \<and> list_all isdigit (unsigned_part t))"

definition json_number :: "string \<Rightarrow> bool" where
  "json_number s \<longleftrightarrow>
     (let t = unsigned_part s; ip = takeWhile isdigit t; r = dropWhile isdigit t
      in if r \<noteq> [] \<and> hd r = CHR ''.'' then
           (ip \<noteq> [] \<or> takeWhile isdigit (tl r) \<noteq> []) \<and> exponent_ok (dropWhile isdigit (tl r))
         else ip \<noteq> [] \<and> exponent_ok r)"

subsection \<open>Strings survive quoting\<close>

lemma escape_unescape: "escape c = Some e \<Longrightarrow> unescape e = Some c"
  by (auto simp: escape_def unescape_def split: if_splits)

lemma unquote_quote: "UnquoteString False (QuoteString s @ quote # r) ret = Inr (quote # r, ret @ s)"
proof (induction s arbitrary: ret)
  case (Cons c s)
  show ?case
  proof (cases "escape c")
    case None
    then have "c \<noteq> backslash" "c \<noteq> quote" by (auto simp: escape_def split: if_splits)
    then show ?thesis using None Cons by (simp add: UnquoteString.simps)
  next
    case (Some e)
    then show ?thesis using Cons escape_unescape [OF Some] by (simp add: UnquoteString.simps)
  qed
qed (simp add: UnquoteString.simps)

lemma UnquoteString_length: "UnquoteString b s ret = Inr (t, u) \<Longrightarrow> length t \<le> length s"
proof (induction b s ret rule: UnquoteString.induct)
  case (2 escaped byte s ret)
  show ?case using 2(1-4) 2(5)
    by (subst (asm) UnquoteString.simps) (fastforce split: if_splits option.splits)
qed (auto simp: UnquoteString.simps split: if_splits)

lemma SkipExact_Inr: "SkipExact str s = Inr t \<longleftrightarrow> s = str @ t"
  by (auto simp: SkipExact_def) (metis append_take_drop_id)

lemma SkipExact_append [simp]: "SkipExact str (str @ t) = Inr t"
  by (simp add: SkipExact_Inr)

lemma SkipExact_single [simp]: "SkipExact [c] (b # t) = (if b = c then Inr t else Inl JsonParserError)"
  by (simp add: SkipExact_def)

lemma ParseJsonString_quoted: "ParseJsonString (quote # QuoteString s @ quote # r) = Inr (s, r)"
  by (simp add: ParseJsonString_def unquote_quote)

lemma ParseJsonString_length: "ParseJsonString s = Inr (x, t) \<Longrightarrow> length t < length s"
  by (auto simp: ParseJsonString_def SkipExact_Inr split: sum.splits quote_error.splits dest!: UnquoteString_length)

subsection \<open>Blanks are skipped\<close>

lemma SkipSpace_blank: "list_all json_blank p \<Longrightarrow> SkipSpace (p @ s) = SkipSpace s"
  by (induction p) (auto simp: SkipSpace.simps)

lemma SkipSpace_stop: "\<not> json_blank c \<Longrightarrow> c \<noteq> CHR ''/'' \<Longrightarrow> SkipSpace (c # s) = Inr (c # s)"
  by (simp add: SkipSpace.simps)

lemma SkipSpace_Nil [simp]: "SkipSpace [] = Inr []"
  by (simp add: SkipSpace.simps)

lemma SkipSpace_result:
  "SkipSpace s = Inr t \<Longrightarrow> length t \<le> length s \<and> (t = [] \<or> \<not> json_blank (hd t) \<and> hd t \<noteq> CHR ''/'')"
proof (induction s rule: SkipSpace.induct)
  case (2 b s)
  from 2(3) show ?case unfolding SkipSpace.simps(2)
    using 2(1,2) by (fastforce split: if_splits sum.splits dest: SkipComment_length)
qed simp

lemmas SkipSpace_length = SkipSpace_result [THEN conjunct1]

lemma SkipSpace_twice: "SkipSpace s = Inr t \<Longrightarrow> SkipSpace t = Inr t"
  using SkipSpace_result [of s t] by (cases t) (auto simp: SkipSpace_stop)

subsection \<open>The number automaton and its grammar\<close>

definition sign_part :: "string \<Rightarrow> string" where
  "sign_part s = (case s of [] \<Rightarrow> [] | c # t \<Rightarrow> if is_sign c then [c] else [])"

definition num_char :: "char \<Rightarrow> bool" where
  "num_char b \<longleftrightarrow> is_sign b \<or> b = CHR ''.'' \<or> is_exp b \<or> isdigit b"

definition stops :: "string \<Rightarrow> bool" where
  "stops r \<longleftrightarrow> r = [] \<or> \<not> num_char (hd r)"

lemma sign_part_unsigned: "sign_part s @ unsigned_part s = s"
  by (cases s) (auto simp: sign_part_def unsigned_part_def)

lemma sign_part_cases: "sign_part s = [] \<or> (\<exists>c. sign_part s = [c] \<and> is_sign c)"
  by (cases s) (auto simp: sign_part_def)

lemma digit_kinds: "isdigit c \<Longrightarrow> \<not> is_sign c \<and> c \<noteq> CHR ''.'' \<and> \<not> is_exp c"
  by (auto simp: isdigit_def is_sign_def is_exp_def)

lemma kinds_exclusive: "is_sign c \<Longrightarrow> c \<noteq> CHR ''.'' \<and> \<not> is_exp c \<and> \<not> isdigit c" "is_exp c \<Longrightarrow> c \<noteq> CHR ''.'' \<and> \<not> isdigit c"
    "\<not> is_sign (CHR ''.'')" "\<not> is_exp (CHR ''.'')" "\<not> isdigit (CHR ''.'')"
  by (auto simp: isdigit_def is_sign_def is_exp_def)

lemma num_loop_digits:
  "list_all isdigit ds \<Longrightarrow> num_loop sO dO eO ed lit (ds @ s)
     = (if ds = [] then num_loop sO dO eO ed lit s else num_loop False dO (\<not> ed) ed (lit @ ds) s)"
  by (induction ds arbitrary: sO eO lit) (auto simp: digit_kinds)

lemma num_loop_all_digits: "list_all isdigit ds \<Longrightarrow> num_loop sO dO eO ed lit ds = Inr (lit @ ds, [])"
  using num_loop_digits [of ds sO dO eO ed lit "[]"] by simp

lemma num_loop_stops: "stops r \<Longrightarrow> num_loop sO dO eO ed lit r = Inr (lit, r)"
  by (cases r) (auto simp: stops_def num_char_def)

definition after_exp :: "string \<Rightarrow> string \<Rightarrow> json_error + (string \<times> string)" where
  "after_exp lit r = (if stops r then Inr (lit, r) else Inl JsonParserError)"

definition after_frac :: "string \<Rightarrow> bool \<Rightarrow> string \<Rightarrow> json_error + (string \<times> string)" where
  "after_frac lit eO r =
     (if stops r then Inr (lit, r)
      else if is_exp (hd r) \<and> eO then num_loop True False False True (lit @ [hd r]) (tl r) else Inl JsonParserError)"

lemma not_digit_dropWhile: "dropWhile isdigit s = [] \<or> \<not> isdigit (hd (dropWhile isdigit s))"
  using hd_dropWhile [of isdigit s] by blast

lemma num_exp_tail:
  "list_all isdigit ds \<Longrightarrow> r = [] \<or> \<not> isdigit (hd r) \<Longrightarrow> sO \<longrightarrow> r = [] \<or> ds \<noteq> [] \<or> \<not> is_sign (hd r) \<Longrightarrow>
   num_loop sO False False True l (ds @ r) = after_exp (l @ ds) r"
  by (cases r) (auto simp: num_loop_digits num_loop_all_digits after_exp_def stops_def num_char_def)

lemma num_frac_tail:
  "list_all isdigit ds \<Longrightarrow> r = [] \<or> \<not> isdigit (hd r) \<Longrightarrow>
   num_loop False False eO False l (ds @ r) = after_frac (l @ ds) (eO \<or> ds \<noteq> []) r"
  using kinds_exclusive by (cases r) (auto simp: num_loop_digits num_loop_all_digits after_frac_def stops_def num_char_def)

lemma list_all_takeWhile: "list_all P (takeWhile P s)"
  by (induction s) auto

lemma num_exp_phase:
  "num_loop True False False True lit s
     = after_exp (lit @ sign_part s @ takeWhile isdigit (unsigned_part s)) (dropWhile isdigit (unsigned_part s))"
proof -
  let ?ds = "takeWhile isdigit (unsigned_part s)" and ?r = "dropWhile isdigit (unsigned_part s)"
  have *: "num_loop sO False False True l (?ds @ ?r) = after_exp (l @ ?ds) ?r" if "sO \<longrightarrow> ?r = [] \<or> ?ds \<noteq> [] \<or> \<not> is_sign (hd ?r)" for sO l
    using that by (rule num_exp_tail [OF list_all_takeWhile not_digit_dropWhile])
  show ?thesis
  proof (cases "sign_part s = []")
    case True
    then have u: "unsigned_part s = s" "s = [] \<or> \<not> is_sign (hd s)" by (cases s; auto simp: sign_part_def unsigned_part_def split: if_splits)+
    show ?thesis using * [of True lit] u True by (cases s) (auto simp: u(1))
  next
    case False
    then obtain c t where "s = c # t" "is_sign c" by (cases s) (auto simp: sign_part_def split: if_splits)
    then show ?thesis using * [of False "lit @ [c]"] by (simp add: sign_part_def unsigned_part_def)
  qed
qed

lemma num_frac_phase:
  "num_loop False False eO False lit s
     = after_frac (lit @ takeWhile isdigit s) (eO \<or> takeWhile isdigit s \<noteq> []) (dropWhile isdigit s)"
  using num_frac_tail [OF list_all_takeWhile not_digit_dropWhile [of s], of eO lit s] by simp

definition after_int :: "string \<Rightarrow> bool \<Rightarrow> string \<Rightarrow> json_error + (string \<times> string)" where
  "after_int lit eO r =
     (if r \<noteq> [] \<and> hd r = CHR ''.''
      then after_frac (lit @ CHR ''.'' # takeWhile isdigit (tl r)) (eO \<or> takeWhile isdigit (tl r) \<noteq> []) (dropWhile isdigit (tl r))
      else after_frac lit eO r)"

lemma num_int_tail:
  "list_all isdigit ds \<Longrightarrow> r = [] \<or> \<not> isdigit (hd r) \<Longrightarrow> sO \<longrightarrow> r = [] \<or> ds \<noteq> [] \<or> \<not> is_sign (hd r) \<Longrightarrow>
   num_loop sO True False False l (ds @ r) = after_int (l @ ds) (ds \<noteq> []) r"
  using kinds_exclusive
  by (cases r) (auto simp: num_loop_digits num_loop_all_digits after_int_def after_frac_def num_frac_phase stops_def num_char_def)

lemma num_int_phase:
  "num_loop True True False False [] s
     = after_int (sign_part s @ takeWhile isdigit (unsigned_part s)) (takeWhile isdigit (unsigned_part s) \<noteq> []) (dropWhile isdigit (unsigned_part s))"
proof -
  let ?ds = "takeWhile isdigit (unsigned_part s)" and ?r = "dropWhile isdigit (unsigned_part s)"
  have *: "num_loop sO True False False l (?ds @ ?r) = after_int (l @ ?ds) (?ds \<noteq> []) ?r" if "sO \<longrightarrow> ?r = [] \<or> ?ds \<noteq> [] \<or> \<not> is_sign (hd ?r)" for sO l
    using that by (rule num_int_tail [OF list_all_takeWhile not_digit_dropWhile])
  show ?thesis
  proof (cases "sign_part s = []")
    case True
    then have u: "unsigned_part s = s" "s = [] \<or> \<not> is_sign (hd s)" by (cases s; auto simp: sign_part_def unsigned_part_def split: if_splits)+
    show ?thesis using * [of True "[]"] u True by (cases s) (auto simp: u(1))
  next
    case False
    then obtain c t where "s = c # t" "is_sign c" by (cases s) (auto simp: sign_part_def split: if_splits)
    then show ?thesis using * [of False "[c]"] by (simp add: sign_part_def unsigned_part_def)
  qed
qed

text \<open>Both directions: the automaton accepts exactly the documented literals and the single dot.\<close>

lemma takeWhile_digits:
  "list_all isdigit ds \<Longrightarrow> r = [] \<or> \<not> isdigit (hd r) \<Longrightarrow> takeWhile isdigit (ds @ r) = ds"
  "list_all isdigit ds \<Longrightarrow> r = [] \<or> \<not> isdigit (hd r) \<Longrightarrow> dropWhile isdigit (ds @ r) = r"
  by (induction ds; cases r; auto)+

definition literal_ok :: "string \<Rightarrow> bool" where
  "literal_ok lit \<longleftrightarrow> json_number lit \<or> lit = ''.''"

definition sign_ok :: "string \<Rightarrow> bool" where
  "sign_ok sg \<longleftrightarrow> sg = [] \<or> (\<exists>c. sg = [c] \<and> is_sign c)"

lemma unsigned_part_sign: "sign_ok sg \<Longrightarrow> t = [] \<or> \<not> is_sign (hd t) \<Longrightarrow> unsigned_part (sg @ t) = t"
  by (auto simp: sign_ok_def unsigned_part_def split: list.splits)

lemma digits_no_sign: "list_all isdigit ds \<Longrightarrow> ds = [] \<or> \<not> is_sign (hd ds)"
  by (cases ds) (auto simp: digit_kinds)

lemma exponent_intro: "is_exp c \<Longrightarrow> sign_ok sg \<Longrightarrow> list_all isdigit ds \<Longrightarrow> ds \<noteq> [] \<Longrightarrow> exponent_ok (c # sg @ ds)"
  using unsigned_part_sign [of sg ds, OF _ digits_no_sign] by (simp add: exponent_ok_def)

lemma exponent_start: "exponent_ok x \<Longrightarrow> x = [] \<or> is_exp (hd x) \<and> \<not> isdigit (hd x) \<and> hd x \<noteq> CHR ''.'' \<and> \<not> is_sign (hd x)"
  using kinds_exclusive by (cases x) (auto simp: exponent_ok_def)

lemma json_number_intro:
  assumes "sign_ok sg" "list_all isdigit ip" "exponent_ok x"
  shows "ip \<noteq> [] \<Longrightarrow> json_number (sg @ ip @ x)"
    "list_all isdigit fp \<Longrightarrow> ip \<noteq> [] \<or> fp \<noteq> [] \<Longrightarrow> json_number (sg @ ip @ CHR ''.'' # fp @ x)"
proof -
  note X = exponent_start [OF assms(3)]
  have "unsigned_part (sg @ ip @ x) = ip @ x" if "ip \<noteq> []"
    using that digits_no_sign [OF assms(2)] by (intro unsigned_part_sign [OF assms(1)]) auto
  moreover have "takeWhile isdigit (ip @ x) = ip" "dropWhile isdigit (ip @ x) = x"
    using X by (auto intro!: takeWhile_digits [OF assms(2)])
  ultimately show "ip \<noteq> [] \<Longrightarrow> json_number (sg @ ip @ x)" using assms(3) X by (auto simp: json_number_def)
  assume f: "list_all isdigit fp" "ip \<noteq> [] \<or> fp \<noteq> []"
  have "unsigned_part (sg @ ip @ CHR ''.'' # fp @ x) = ip @ CHR ''.'' # fp @ x"
    using digits_no_sign [OF assms(2)] kinds_exclusive(3) by (intro unsigned_part_sign [OF assms(1)]) (auto simp: hd_append)
  moreover have "takeWhile isdigit (ip @ CHR ''.'' # fp @ x) = ip" "dropWhile isdigit (ip @ CHR ''.'' # fp @ x) = CHR ''.'' # fp @ x"
    using kinds_exclusive(5) by (auto intro!: takeWhile_digits [OF assms(2)])
  moreover have "takeWhile isdigit (fp @ x) = fp" "dropWhile isdigit (fp @ x) = x"
    using X by (auto intro!: takeWhile_digits [OF f(1)])
  ultimately show "json_number (sg @ ip @ CHR ''.'' # fp @ x)" using assms(3) f kinds_exclusive(5) by (simp add: json_number_def)
qed

lemma sign_part_ok: "sign_ok (sign_part s)"
  using sign_part_cases [of s] by (simp add: sign_ok_def)

lemma after_frac_accepts:
  assumes "after_frac lit eO r = Inr (l, rest)" "\<not> bad_end l"
  shows "\<exists>x. l = lit @ x \<and> r = x @ rest \<and> exponent_ok x \<and> (x \<noteq> [] \<longrightarrow> eO)"
proof (cases "stops r")
  case True
  then show ?thesis using assms(1) by (auto simp: after_frac_def exponent_ok_def)
next
  case False
  then have r: "is_exp (hd r)" eO "r \<noteq> []" and n: "num_loop True False False True (lit @ [hd r]) (tl r) = Inr (l, rest)"
    using assms(1) by (auto simp: after_frac_def stops_def split: if_splits)
  define sg ds u where "sg = sign_part (tl r)" and "ds = takeWhile isdigit (unsigned_part (tl r))" and "u = dropWhile isdigit (unsigned_part (tl r))"
  have l: "l = lit @ hd r # sg @ ds" "rest = u"
    using n unfolding num_exp_phase after_exp_def sg_def ds_def u_def by (auto split: if_splits)
  have t: "tl r = sg @ ds @ u" using sign_part_unsigned [of "tl r"] by (simp add: sg_def ds_def u_def)
  have sg: "sign_ok sg" by (simp add: sg_def sign_part_ok)
  have "ds \<noteq> []"
  proof
    assume "ds = []"
    then have "bad_end l" using l(1) sg r(1) by (auto simp: bad_end_def sign_ok_def)
    then show False using assms(2) by simp
  qed
  then have "exponent_ok (hd r # sg @ ds)"
    using r(1) sg by (intro exponent_intro) (simp_all add: ds_def list_all_takeWhile)
  moreover have "r = (hd r # sg @ ds) @ rest" using t l(2) r(3) by (metis append.assoc append_Cons list.collapse)
  ultimately show ?thesis using l(1) r(2) by blast
qed

lemma ParseJsonNum_accepts:
  assumes "ParseJsonNum s = Inr (lit, rest)" "s \<noteq> []" "num_char (hd s)" "\<not> is_exp (hd s)"
  shows "s = lit @ rest \<and> literal_ok lit"
proof -
  define sg ip r where "sg = sign_part s" and "ip = takeWhile isdigit (unsigned_part s)" and "r = dropWhile isdigit (unsigned_part s)"
  have s: "s = sg @ ip @ r" using sign_part_unsigned [of s] by (simp add: sg_def ip_def r_def)
  have sg: "sign_ok sg" and ip: "list_all isdigit ip" by (simp_all add: sg_def ip_def sign_part_ok list_all_takeWhile)
  have a: "after_int (sg @ ip) (ip \<noteq> []) r = Inr (lit, rest)" and b: "\<not> bad_end lit"
    using assms(1) unfolding ParseJsonNum_def num_int_phase sg_def ip_def r_def by (auto split: sum.splits if_splits)
  show ?thesis
  proof (cases "r \<noteq> [] \<and> hd r = CHR ''.''")
    case True
    define fp u where "fp = takeWhile isdigit (tl r)" and "u = dropWhile isdigit (tl r)"
    have r: "r = CHR ''.'' # fp @ u" using True by (cases r) (auto simp: fp_def u_def)
    have "after_frac ((sg @ ip) @ CHR ''.'' # fp) (ip \<noteq> [] \<or> fp \<noteq> []) u = Inr (lit, rest)"
      using a True by (simp add: after_int_def fp_def u_def)
    from after_frac_accepts [OF this b] obtain x where x: "lit = (sg @ ip @ CHR ''.'' # fp) @ x" "u = x @ rest" "exponent_ok x"
      "x \<noteq> [] \<longrightarrow> ip \<noteq> [] \<or> fp \<noteq> []" by auto
    have "literal_ok lit"
    proof (cases "ip \<noteq> [] \<or> fp \<noteq> []")
      case True
      then show ?thesis using json_number_intro(2) [OF sg ip x(3), of fp] x(1) by (simp add: literal_ok_def fp_def list_all_takeWhile)
    next
      case False
      then have "lit = sg @ ''.''" using x by auto
      then show ?thesis using b sg by (auto simp: literal_ok_def sign_ok_def bad_end_def)
    qed
    then show ?thesis using s r x by simp
  next
    case False
    have "after_frac (sg @ ip) (ip \<noteq> []) r = Inr (lit, rest)" using a False by (auto simp: after_int_def)
    from after_frac_accepts [OF this b] obtain x where x: "lit = (sg @ ip) @ x" "r = x @ rest" "exponent_ok x" "x \<noteq> [] \<longrightarrow> ip \<noteq> []" by auto
    have "ip \<noteq> []"
    proof
      assume "ip = []"
      then have l: "lit = sg" "r = rest" using x by auto
      then show False
      proof (cases "sg = []")
        case True
        then have r: "r = s" using s \<open>ip = []\<close> by simp
        have "\<not> isdigit (hd s)" using not_digit_dropWhile [of "unsigned_part s", folded r_def] r assms(2) by simp
        moreover have "\<not> is_sign (hd s)" using True assms(2) by (cases s) (auto simp: sg_def sign_part_def split: if_splits)
        ultimately show ?thesis using False assms(2-4) r by (simp add: num_char_def)
      next
        case n: False
        then show ?thesis using b l(1) sg by (auto simp: bad_end_def sign_ok_def)
      qed
    qed
    then show ?thesis using json_number_intro(1) [OF sg ip x(3)] s x by (simp add: literal_ok_def)
  qed
qed

lemma num_loop_sign:
  assumes "sign_ok sg" "t = [] \<or> \<not> is_sign (hd t)"
  shows "num_loop True True False False l (sg @ t) = num_loop (sg = []) True False False (l @ sg) t"
    "num_loop True False False True l (sg @ t) = num_loop (sg = []) False False True (l @ sg) t"
  using assms by (auto simp: sign_ok_def)

lemma stops_start: "stops r \<Longrightarrow> r = [] \<or> \<not> isdigit (hd r) \<and> \<not> is_sign (hd r) \<and> hd r \<noteq> CHR ''.''"
  by (auto simp: stops_def num_char_def)

lemma exponent_elim:
  assumes "exponent_ok x" "x \<noteq> []"
  obtains c sg ds where "x = c # sg @ ds" "is_exp c" "sign_ok sg" "list_all isdigit ds" "ds \<noteq> []"
proof (cases x)
  case (Cons c t)
  then show ?thesis
    using assms sign_part_unsigned [of t] sign_part_ok [of t] that [of c "sign_part t" "unsigned_part t"]
    by (auto simp: exponent_ok_def)
qed (use assms in auto)

lemma after_frac_exponent:
  assumes "exponent_ok x" "stops rest" "x \<noteq> [] \<longrightarrow> eO"
  shows "after_frac lit eO (x @ rest) = Inr (lit @ x, rest)"
proof (cases "x = []")
  case True
  then show ?thesis using assms(2) by (simp add: after_frac_def)
next
  case False
  with assms(1) obtain c sg ds where x: "x = c # sg @ ds" "is_exp c" "sign_ok sg" "list_all isdigit ds" "ds \<noteq> []"
    by (rule exponent_elim)
  have "num_loop True False False True (lit @ [c]) (sg @ ds @ rest) = num_loop (sg = []) False False True (lit @ [c] @ sg) (ds @ rest)"
    using num_loop_sign(2) [OF x(3), of "ds @ rest"] digits_no_sign [OF x(4)] x(5) by simp
  also have "\<dots> = after_exp (lit @ [c] @ sg @ ds) rest"
    using num_exp_tail [OF x(4), of rest] stops_start [OF assms(2)] x(5) by auto
  finally have "num_loop True False False True (lit @ [c]) (sg @ ds @ rest) = Inr (lit @ x, rest)"
    using assms(2) x(1) by (simp add: after_exp_def)
  then show ?thesis using x(1,2) assms(3) False by (simp add: after_frac_def stops_def num_char_def)
qed

lemma bad_end_exponent: "exponent_ok x \<Longrightarrow> x \<noteq> [] \<Longrightarrow> \<not> bad_end (l @ x)"
proof (erule exponent_elim)
  fix c sg ds assume x: "x = c # sg @ ds" "is_exp c" "list_all isdigit ds" "ds \<noteq> []"
  then have "isdigit (last (l @ x))" by (simp add: list_all_iff)
  then show "\<not> bad_end (l @ x)" using digit_kinds [of "last (l @ x)"] by (auto simp: bad_end_def)
qed

lemma bad_end_digits: "list_all isdigit ds \<Longrightarrow> ds \<noteq> [] \<Longrightarrow> \<not> bad_end (l @ ds)"
  using digit_kinds [of "last (l @ ds)"] by (auto simp: bad_end_def list_all_iff)

lemma bad_end_dot: "sign_ok sg \<Longrightarrow> list_all isdigit ip \<Longrightarrow> ip \<noteq> [] \<Longrightarrow> \<not> bad_end (sg @ ip @ [CHR ''.''])"
  using kinds_exclusive(3,4) digit_kinds [of "hd ip"] by (cases ip) (auto simp: bad_end_def sign_ok_def)

lemma exponent_rest_start:
  "exponent_ok x \<Longrightarrow> stops rest \<Longrightarrow>
   x @ rest = [] \<or> \<not> isdigit (hd (x @ rest)) \<and> \<not> is_sign (hd (x @ rest)) \<and> hd (x @ rest) \<noteq> CHR ''.''"
  using exponent_start [of x] stops_start [of rest] by (cases x) auto

lemma ParseJsonNum_literal:
  assumes "literal_ok lit" "stops rest"
  shows "ParseJsonNum (lit @ rest) = Inr (lit, rest)"
proof (cases "lit = ''.''")
  case True
  then show ?thesis using assms(2) kinds_exclusive(3,4) by (simp add: ParseJsonNum_def num_loop_stops bad_end_def)
next
  case False
  define sg ip r where "sg = sign_part lit" and "ip = takeWhile isdigit (unsigned_part lit)" and "r = dropWhile isdigit (unsigned_part lit)"
  have lit: "lit = sg @ ip @ r" using sign_part_unsigned [of lit] by (simp add: sg_def ip_def r_def)
  have sg: "sign_ok sg" and ip: "list_all isdigit ip" by (simp_all add: sg_def ip_def sign_part_ok list_all_takeWhile)
  have J: "if r \<noteq> [] \<and> hd r = CHR ''.'' then (ip \<noteq> [] \<or> takeWhile isdigit (tl r) \<noteq> []) \<and> exponent_ok (dropWhile isdigit (tl r))
       else ip \<noteq> [] \<and> exponent_ok r"
    using assms(1) False unfolding literal_ok_def json_number_def Let_def sg_def ip_def r_def by blast
  show ?thesis
  proof (cases "r \<noteq> [] \<and> hd r = CHR ''.''")
    case True
    define fp x where "fp = takeWhile isdigit (tl r)" and "x = dropWhile isdigit (tl r)"
    have r: "r = CHR ''.'' # fp @ x" using True by (cases r) (auto simp: fp_def x_def)
    have fp: "list_all isdigit fp" by (simp add: fp_def list_all_takeWhile)
    have x: "ip \<noteq> [] \<or> fp \<noteq> []" "exponent_ok x" using J True by (auto simp: fp_def x_def)
    have h: "x @ rest = [] \<or> \<not> isdigit (hd (x @ rest))" using exponent_rest_start [OF x(2) assms(2)] by blast
    have t: "takeWhile isdigit (fp @ x @ rest) = fp" "dropWhile isdigit (fp @ x @ rest) = x @ rest"
      by (rule takeWhile_digits [OF fp h])+
    have "num_loop True True False False [] (lit @ rest) = num_loop (sg = []) True False False sg (ip @ r @ rest)"
      using num_loop_sign(1) [OF sg, of "ip @ r @ rest" "[]"] digits_no_sign [OF ip] kinds_exclusive(3) by (cases "ip = []") (simp_all add: lit r)
    also have "\<dots> = after_int (sg @ ip) (ip \<noteq> []) (r @ rest)"
      using kinds_exclusive(3,5) by (intro num_int_tail [OF ip]) (auto simp: r)
    also have "\<dots> = Inr (lit, rest)"
      using after_frac_exponent [OF x(2) assms(2), of "ip \<noteq> [] \<or> fp \<noteq> []"] x(1) by (simp add: after_int_def lit r t)
    finally have "num_loop True True False False [] (lit @ rest) = Inr (lit, rest)" .
    moreover have "\<not> bad_end lit"
      using bad_end_exponent [OF x(2), of "sg @ ip @ CHR ''.'' # fp"] bad_end_digits [OF fp, of "sg @ ip @ ''.''"] bad_end_dot [OF sg ip] x(1)
      by (cases "x = []"; cases "fp = []") (auto simp: lit r)
    ultimately show ?thesis by (simp add: ParseJsonNum_def)
  next
    case no: False
    have x: "ip \<noteq> []" "exponent_ok r" using J no by (auto split: if_splits)
    note h = exponent_rest_start [OF x(2) assms(2)]
    have "num_loop True True False False [] (lit @ rest) = num_loop (sg = []) True False False sg (ip @ r @ rest)"
      using num_loop_sign(1) [OF sg, of "ip @ r @ rest" "[]"] digits_no_sign [OF ip] x(1) by (simp add: lit hd_append)
    also have "\<dots> = after_int (sg @ ip) (ip \<noteq> []) (r @ rest)"
      using h x(1) by (intro num_int_tail [OF ip]) blast+
    also have "\<dots> = after_frac (sg @ ip) (ip \<noteq> []) (r @ rest)"
      using h unfolding after_int_def by presburger
    also have "\<dots> = Inr (lit, rest)"
      using after_frac_exponent [OF x(2) assms(2), of "ip \<noteq> []"] x(1) by (simp add: lit)
    finally have "num_loop True True False False [] (lit @ rest) = Inr (lit, rest)" .
    moreover have "\<not> bad_end lit"
      using bad_end_exponent [OF x(2), of "sg @ ip"] bad_end_digits [OF ip x(1), of sg] by (cases "r = []") (auto simp: lit)
    ultimately show ?thesis by (simp add: ParseJsonNum_def)
  qed
qed

end
