(* ===== verification/Json.thy ===== *)
theory Json
  imports JsonText
begin

text \<open>
  The JSON parser and printer over strings (\<open>util/legacy/json_string_enhanced.cpp\<close>, with the values
  of \<open>json.h\<close> and \<open>any.h\<close>). A \<open>std::map\<close> is an association list sorted by its keys. The parser has
  one fuel unit per call and per turn of a loop, and its result is \<open>None\<close> when the fuel runs out;
  twice the length of the input and one unit more are always enough, which is the fuel the entry
  points use.
\<close>

subsection \<open>Values\<close>

text \<open>The types a JSON value can have; \<open>A_other\<close> is any type the printer does not support.
  Floating point values, whose text the C library decides, are left out.\<close>

datatype any = A_null | A_bool bool | A_string string | A_array "any list" | A_map "(string \<times> any) list"
  | A_number string | A_int int_type int | A_other

fun GetJsonTypeName :: "any \<Rightarrow> string" where
  "GetJsonTypeName A_null = ''null''"
| "GetJsonTypeName (A_bool b) = ''bool''"
| "GetJsonTypeName (A_string s) = ''string''"
| "GetJsonTypeName (A_array xs) = ''array''"
| "GetJsonTypeName (A_map kvs) = ''map''"
| "GetJsonTypeName (A_number s) = ''number''"
| "GetJsonTypeName (A_int ty v) = ''number''"
| "GetJsonTypeName A_other = ''unknown''"

text \<open>\<open>std::map::insert\<close> of a new key.\<close>

fun map_insert :: "string \<Rightarrow> any \<Rightarrow> (string \<times> any) list \<Rightarrow> (string \<times> any) list" where
  "map_insert k v [] = [(k, v)]"
| "map_insert k v ((k', v') # m) = (if k < k' then (k, v) # (k', v') # m else (k', v') # map_insert k v m)"

definition has_key :: "string \<Rightarrow> (string \<times> any) list \<Rightarrow> bool" where
  "has_key k m \<longleftrightarrow> k \<in> fst ` set m"

subsection \<open>Parsing\<close>

type_synonym 'a parsed = "(json_error + 'a) option"

definition throw :: "'a parsed" where
  "throw = Some (Inl JsonParserError)"

text \<open>Sequencing: the rest of the work gets the result of a step, unless it threw.\<close>

definition andthen :: "'a parsed \<Rightarrow> ('a \<Rightarrow> 'b parsed) \<Rightarrow> 'b parsed" where
  "andthen c f = (case c of None \<Rightarrow> None | Some (Inl e) \<Rightarrow> Some (Inl e) | Some (Inr x) \<Rightarrow> f x)"

text \<open>\<open>catch (JsonNothingError &)\<close>.\<close>

definition something :: "'a parsed \<Rightarrow> 'a parsed" where
  "something c = (if c = Some (Inl JsonNothingError) then throw else c)"

lemma andthen_cong [fundef_cong]: "c = d \<Longrightarrow> (\<And>x. d = Some (Inr x) \<Longrightarrow> f x = g x) \<Longrightarrow> andthen c f = andthen d g"
  by (auto simp: andthen_def split: option.splits sum.splits)

definition is_num_start :: "char \<Rightarrow> bool" where
  "is_num_start b \<longleftrightarrow> is_sign b \<or> b = CHR ''.'' \<or> isdigit b"

fun ParseJson :: "nat \<Rightarrow> string \<Rightarrow> (any \<times> string) parsed"
  and ParseJsonArray :: "nat \<Rightarrow> bool \<Rightarrow> any list \<Rightarrow> string \<Rightarrow> (any \<times> string) parsed"
  and ParseJsonMap :: "nat \<Rightarrow> bool \<Rightarrow> (string \<times> any) list \<Rightarrow> string \<Rightarrow> (any \<times> string) parsed" where
  "ParseJson 0 is = None"
| "ParseJson (Suc n) is =
     andthen (Some (SkipSpace is)) (\<lambda>is.
       case is of [] \<Rightarrow> Some (Inl JsonNothingError)
       | byte # s \<Rightarrow>
           if byte = CHR ''['' then
             andthen (Some (SkipExact ''['' is)) (\<lambda>is. andthen (Some (SkipSpace is)) (\<lambda>is. ParseJsonArray n False [] is))
           else if byte = CHR ''{'' then
             andthen (Some (SkipExact ''{'' is)) (\<lambda>is. andthen (Some (SkipSpace is)) (\<lambda>is. ParseJsonMap n False [] is))
           else if byte = quote then andthen (Some (ParseJsonString is)) (\<lambda>(ret, is). Some (Inr (A_string ret, is)))
           else if byte = CHR ''t'' then andthen (Some (SkipExact ''true'' is)) (\<lambda>is. Some (Inr (A_bool True, is)))
           else if byte = CHR ''f'' then andthen (Some (SkipExact ''false'' is)) (\<lambda>is. Some (Inr (A_bool False, is)))
           else if byte = CHR ''n'' then andthen (Some (SkipExact ''null'' is)) (\<lambda>is. Some (Inr (A_null, is)))
           else if is_num_start byte then andthen (Some (ParseJsonNum is)) (\<lambda>(lit, is). Some (Inr (A_number lit, is)))
           else throw)"
| "ParseJsonArray 0 expectComma ret is = None"
| "ParseJsonArray (Suc n) expectComma ret is =
     (case is of [] \<Rightarrow> throw
      | byte # s \<Rightarrow>
          if byte = CHR '','' then
            if \<not> expectComma then throw
            else andthen (Some (SkipSpace s)) (\<lambda>is. ParseJsonArray n False ret is)
          else if byte = CHR '']'' then
            if \<not> expectComma \<and> ret \<noteq> [] then throw else Some (Inr (A_array ret, s))
          else if expectComma then throw
          else andthen (ParseJson n is) (\<lambda>(a, is).
                 andthen (Some (SkipSpace is)) (\<lambda>is. ParseJsonArray n True (ret @ [a]) is)))"
| "ParseJsonMap 0 expectComma ret is = None"
| "ParseJsonMap (Suc n) expectComma ret is =
     (case is of [] \<Rightarrow> throw
      | byte # s \<Rightarrow>
          if byte = CHR ''}'' then
            if \<not> expectComma \<and> ret \<noteq> [] then throw else Some (Inr (A_map ret, s))
          else if byte = CHR '','' then
            if \<not> expectComma then throw
            else andthen (Some (SkipSpace s)) (\<lambda>is. ParseJsonMap n False ret is)
          else if expectComma then throw
          else andthen (Some (ParseJsonString is)) (\<lambda>(name, is).
                 if has_key name ret then throw
                 else andthen (Some (SkipSpace is)) (\<lambda>is.
                   andthen (Some (SkipExact '':'' is)) (\<lambda>is.
                     andthen (something (ParseJson n is)) (\<lambda>(a, is).
                       andthen (Some (SkipSpace is)) (\<lambda>is.
                         ParseJsonMap n True (map_insert name a ret) is))))))"

definition enough_fuel :: "string \<Rightarrow> nat" where
  "enough_fuel is = 2 * length is + 1"

text \<open>The entry points: from a position on, and of a whole string.\<close>

definition ParseJson_at :: "string \<Rightarrow> (any \<times> string) parsed" where
  "ParseJson_at is = ParseJson (enough_fuel is) is"

definition ParseJson_all :: "string \<Rightarrow> any parsed" where
  "ParseJson_all is =
     andthen (ParseJson_at is) (\<lambda>(ret, is).
       andthen (Some (SkipSpace is)) (\<lambda>is. if is \<noteq> [] then throw else Some (Inr ret)))"

subsection \<open>Printing\<close>

datatype print_error = ParameterInvalidException

definition line_end :: "bool \<Rightarrow> string" where
  "line_end isCompact = (if \<not> isCompact then [CHR 0x0A] else [])"

definition deeper :: "bool \<Rightarrow> string \<Rightarrow> string" where
  "deeper isCompact pre = pre @ (if isCompact then [] else ''  '')"

fun ToString :: "bool \<Rightarrow> string \<Rightarrow> any \<Rightarrow> print_error + string"
  and ToString_items :: "bool \<Rightarrow> string \<Rightarrow> bool \<Rightarrow> any list \<Rightarrow> print_error + string"
  and ToString_entries :: "bool \<Rightarrow> string \<Rightarrow> bool \<Rightarrow> (string \<times> any) list \<Rightarrow> print_error + string" where
  "ToString isCompact pre A_null = Inr (pre @ ''null'')"
| "ToString isCompact pre (A_array v) =
     (case ToString_items isCompact pre True v of Inl e \<Rightarrow> Inl e
      | Inr os \<Rightarrow> Inr (pre @ ''['' @ os @ line_end isCompact @ pre @ '']''))"
| "ToString isCompact pre (A_map m) =
     (case ToString_entries isCompact pre True m of Inl e \<Rightarrow> Inl e
      | Inr os \<Rightarrow> Inr (pre @ ''{'' @ os @ line_end isCompact @ pre @ ''}''))"
| "ToString isCompact pre (A_string s) = Inr (pre @ [quote] @ QuoteString s @ [quote])"
| "ToString isCompact pre (A_bool b) = Inr (pre @ (if b then ''true'' else ''false''))"
| "ToString isCompact pre (A_int ty v) = Inr (pre @ c_dec v)"
| "ToString isCompact pre (A_number lit) = Inr (pre @ lit)"
| "ToString isCompact pre A_other = Inl ParameterInvalidException"
| "ToString_items isCompact pre first [] = Inr []"
| "ToString_items isCompact pre first (x # xs) =
     (case ToString isCompact (deeper isCompact pre) x of Inl e \<Rightarrow> Inl e
      | Inr os \<Rightarrow> case ToString_items isCompact pre False xs of Inl e \<Rightarrow> Inl e
          | Inr os' \<Rightarrow> Inr ((if \<not> first then '','' else []) @ line_end isCompact @ os @ os'))"
| "ToString_entries isCompact pre first [] = Inr []"
| "ToString_entries isCompact pre first ((k, x) # kvs) =
     (case ToString isCompact (deeper isCompact pre) x of Inl e \<Rightarrow> Inl e
      | Inr os \<Rightarrow> case ToString_entries isCompact pre False kvs of Inl e \<Rightarrow> Inl e
          | Inr os' \<Rightarrow> Inr ((if \<not> first then '','' else []) @ line_end isCompact @ pre @ [quote] @ QuoteString k
              @ [quote] @ '':'' @ line_end isCompact @ os @ os'))"

subsection \<open>Fuel\<close>

lemma andthen_simps [simp]: "andthen None f = None" "andthen (Some (Inl e)) f = Some (Inl e)" "andthen (Some (Inr x)) f = f x"
  by (simp_all add: andthen_def)

lemma andthen_Inr: "andthen c f = Some (Inr y) \<longleftrightarrow> (\<exists>x. c = Some (Inr x) \<and> f x = Some (Inr y))"
  by (auto simp: andthen_def split: option.splits sum.splits)

lemma andthen_None: "andthen c f = None \<longleftrightarrow> c = None \<or> (\<exists>x. c = Some (Inr x) \<and> f x = None)"
  by (auto simp: andthen_def split: option.splits sum.splits)

lemma andthen_Some: "andthen c f = Some r \<longleftrightarrow> (\<exists>e. c = Some (Inl e) \<and> r = Inl e) \<or> (\<exists>x. c = Some (Inr x) \<and> f x = Some r)"
  by (auto simp: andthen_def split: option.splits sum.splits)

lemma something_simps: "something c = None \<longleftrightarrow> c = None" "something c = Some (Inr x) \<longleftrightarrow> c = Some (Inr x)"
  by (auto simp: something_def throw_def)

lemma throw_simps [simp]: "throw \<noteq> None" "throw \<noteq> Some (Inr x)"
  by (simp_all add: throw_def)

lemma num_start_char: "is_num_start c \<Longrightarrow> num_char c \<and> \<not> is_exp c"
  using digit_kinds [of c] kinds_exclusive(1,4) by (auto simp: is_num_start_def num_char_def)

lemma ParseJsonNum_start:
  assumes "ParseJsonNum (c # s) = Inr (lit, t)" "is_num_start c"
  shows "length t < length (c # s)" "literal_ok lit"
proof -
  have a: "c # s = lit @ t \<and> literal_ok lit" using ParseJsonNum_accepts [OF assms(1)] num_start_char [OF assms(2)] by simp
  then show "literal_ok lit" by simp
  moreover have "\<not> literal_ok []" by (simp add: literal_ok_def json_number_def unsigned_part_def)
  ultimately have "lit \<noteq> []" by auto
  then have "length t < length (lit @ t)" by simp
  then show "length t < length (c # s)" using a by simp
qed

lemma ParseJson_Nil: "SkipSpace s = Inr [] \<Longrightarrow> ParseJson (Suc n) s = Some (Inl JsonNothingError)"
  by simp

lemma ParseJson_Inl: "SkipSpace s = Inl e \<Longrightarrow> ParseJson (Suc n) s = Some (Inl e)"
  by simp

text \<open>What a value that starts with a given character is made of.\<close>

lemma ParseJson_Cons:
  "SkipSpace s = Inr (b # u) \<Longrightarrow> ParseJson (Suc n) s =
    (if b = CHR ''['' then andthen (Some (SkipSpace u)) (\<lambda>is. ParseJsonArray n False [] is)
     else if b = CHR ''{'' then andthen (Some (SkipSpace u)) (\<lambda>is. ParseJsonMap n False [] is)
     else if b = quote then andthen (Some (ParseJsonString (b # u))) (\<lambda>(ret, is). Some (Inr (A_string ret, is)))
     else if b = CHR ''t'' then andthen (Some (SkipExact ''true'' (b # u))) (\<lambda>is. Some (Inr (A_bool True, is)))
     else if b = CHR ''f'' then andthen (Some (SkipExact ''false'' (b # u))) (\<lambda>is. Some (Inr (A_bool False, is)))
     else if b = CHR ''n'' then andthen (Some (SkipExact ''null'' (b # u))) (\<lambda>is. Some (Inr (A_null, is)))
     else if is_num_start b then andthen (Some (ParseJsonNum (b # u))) (\<lambda>(lit, is). Some (Inr (A_number lit, is)))
     else throw)"
  by simp

lemma ParseJson_Inr:
  assumes "ParseJson (Suc n) s = Some (Inr (a, t))"
  obtains b u where "SkipSpace s = Inr (b # u)"
proof (cases "SkipSpace s")
  case (Inr v)
  then show ?thesis using assms that by (cases v) auto
qed (use assms in simp)

text \<open>One entry of a map, after its first character has been looked at.\<close>

definition map_entry :: "nat \<Rightarrow> (string \<times> any) list \<Rightarrow> string \<Rightarrow> (any \<times> string) parsed" where
  "map_entry n m is =
     andthen (Some (ParseJsonString is)) (\<lambda>(name, is).
       if has_key name m then throw
       else andthen (Some (SkipSpace is)) (\<lambda>is. andthen (Some (SkipExact '':'' is)) (\<lambda>is.
         andthen (something (ParseJson n is)) (\<lambda>(a, is). andthen (Some (SkipSpace is)) (\<lambda>is.
           ParseJsonMap n True (map_insert name a m) is)))))"

lemma ParseJsonMap_Cons:
  "ParseJsonMap (Suc n) c m (b # s) =
     (if b = CHR ''}'' then if \<not> c \<and> m \<noteq> [] then throw else Some (Inr (A_map m, s))
      else if b = CHR '','' then if \<not> c then throw else andthen (Some (SkipSpace s)) (\<lambda>is. ParseJsonMap n False m is)
      else if c then throw else map_entry n m (b # s))"
  by (simp add: map_entry_def)

lemma map_entry_Inr:
  assumes "map_entry n m s = Some (Inr r)"
  obtains name u v w a x y where "ParseJsonString s = Inr (name, u)" "\<not> has_key name m" "SkipSpace u = Inr (CHR '':'' # w)"
    "ParseJson n w = Some (Inr (a, x))" "SkipSpace x = Inr y" "ParseJsonMap n True (map_insert name a m) y = Some (Inr r)"
  using assms that unfolding map_entry_def
  by (auto simp: andthen_Inr something_simps SkipExact_Inr split: if_splits)

lemma ParseJsonArray_Cons:
  "ParseJsonArray (Suc n) c xs (b # s) =
     (if b = CHR '','' then if \<not> c then throw else andthen (Some (SkipSpace s)) (\<lambda>is. ParseJsonArray n False xs is)
      else if b = CHR '']'' then if \<not> c \<and> xs \<noteq> [] then throw else Some (Inr (A_array xs, s))
      else if c then throw
      else andthen (ParseJson n (b # s)) (\<lambda>(a, is). andthen (Some (SkipSpace is)) (\<lambda>is. ParseJsonArray n True (xs @ [a]) is)))"
  by simp

lemma parse_loops_Nil [simp]: "ParseJsonArray (Suc n) c xs [] = throw" "ParseJsonMap (Suc n) c m [] = throw"
  by simp_all

declare ParseJson.simps(2) [simp del] ParseJsonArray.simps(2) [simp del] ParseJsonMap.simps(2) [simp del]

text \<open>A value takes at least one character.\<close>

lemma ParseJson_consumes:
  "ParseJson n s = Some (Inr (a, t)) \<Longrightarrow> length t < length s"
  "ParseJsonArray n c xs s = Some (Inr (a, t)) \<Longrightarrow> length t < length s"
  "ParseJsonMap n c m s = Some (Inr (a, t)) \<Longrightarrow> length t < length s"
proof (induction n arbitrary: s a t c xs m)
  case (Suc n)
  {
    case 1
    then obtain b u where u: "SkipSpace s = Inr (b # u)" by (rule ParseJson_Inr)
    have "length t < length (b # u)"
      using 1 unfolding ParseJson_Cons [OF u]
      by (auto simp: andthen_Inr SkipExact_Inr split: if_splits dest!: SkipSpace_length Suc.IH(2,3) ParseJsonString_length ParseJsonNum_start(1))
    then show ?case using SkipSpace_length [OF u] by simp
  next
    case 2
    then obtain b u where s: "s = b # u" by (cases s) auto
    show ?case using 2 unfolding s ParseJsonArray_Cons
      by (auto simp: andthen_Inr split: if_splits dest!: SkipSpace_length Suc.IH(1,2))
  next
    case 3
    then obtain b u where s: "s = b # u" by (cases s) auto
    show ?case using 3 unfolding s ParseJsonMap_Cons
      by (auto simp: andthen_Inr split: if_splits elim!: map_entry_Inr dest!: SkipSpace_length Suc.IH(1,3) ParseJsonString_length)
  }
qed simp_all

lemma andthen_not_None: "c \<noteq> None \<Longrightarrow> (\<And>x. c = Some (Inr x) \<Longrightarrow> f x \<noteq> None) \<Longrightarrow> andthen c f \<noteq> None"
  by (simp add: andthen_None)

lemma if_not_None: "x \<noteq> None \<Longrightarrow> y \<noteq> None \<Longrightarrow> (if b then x else y) \<noteq> None"
  by simp

lemma fuel_suffices:
  "2 * length s + 1 \<le> n \<Longrightarrow> ParseJson n s \<noteq> None"
  "2 * length s + 2 \<le> n \<Longrightarrow> ParseJsonArray n c xs s \<noteq> None"
  "2 * length s + 2 \<le> n \<Longrightarrow> ParseJsonMap n c m s \<noteq> None"
proof (induction n arbitrary: s c xs m)
  case (Suc n)
  have A: "ParseJsonArray n d ys w \<noteq> None" "ParseJsonMap n d kvs w \<noteq> None"
    if "SkipSpace v = Inr w" "2 * length v + 2 \<le> n" for v w d ys kvs
    using Suc.IH(2,3) [of w] SkipSpace_length [OF that(1)] that(2) by auto
  {
    case 1
    show ?case
    proof (cases "SkipSpace s")
      case (Inr u)
      show ?thesis
      proof (cases u)
        case (Cons b v)
        have u: "SkipSpace s = Inr (b # v)" using Inr Cons by simp
        have l: "2 * length v + 2 \<le> n" using SkipSpace_length [OF u] 1 by simp
        have a: "andthen (Some (SkipSpace v)) (\<lambda>is. ParseJsonArray n False [] is) \<noteq> None"
          "andthen (Some (SkipSpace v)) (\<lambda>is. ParseJsonMap n False [] is) \<noteq> None"
          by (rule andthen_not_None; use A l in simp)+
        have z: "andthen (Some c) (\<lambda>(x, is). Some (Inr (f x, is))) \<noteq> None" "andthen (Some d) (\<lambda>is. Some (Inr (y, is))) \<noteq> None"
          for c :: "json_error + string \<times> string" and f :: "string \<Rightarrow> any" and d :: "json_error + string" and y :: any
          by (rule andthen_not_None; auto)+
        show ?thesis unfolding ParseJson_Cons [OF u] by (intro if_not_None a z throw_simps(1))
      qed (use Inr in \<open>simp add: ParseJson_Nil\<close>)
    qed (simp add: ParseJson_Inl)
  next
    case 2
    show ?case
    proof (cases s)
      case (Cons b u)
      have P: "ParseJson n (b # u) \<noteq> None" using Suc.IH(1) [of s] 2 Cons by simp
      have L: "2 * length t + 2 \<le> n" if "ParseJson n (b # u) = Some (Inr (a, t))" for a t
        using ParseJson_consumes(1) [OF that] 2 Cons by simp
      have l: "2 * length u + 2 \<le> n" using 2 Cons by simp
      have a: "andthen (Some (SkipSpace u)) (\<lambda>is. ParseJsonArray n False xs is) \<noteq> None"
        by (rule andthen_not_None; use A l in simp)
      have e: "andthen (ParseJson n (b # u)) (\<lambda>(a, is). andthen (Some (SkipSpace is)) (\<lambda>is. ParseJsonArray n True (xs @ [a]) is)) \<noteq> None"
      proof (rule andthen_not_None [OF P])
        fix x assume x: "ParseJson n (b # u) = Some (Inr x)"
        obtain a t where e: "x = (a, t)" by fastforce
        have "andthen (Some (SkipSpace t)) (\<lambda>is. ParseJsonArray n True (xs @ [a]) is) \<noteq> None"
          by (rule andthen_not_None) (use A(1) L [of a t] x e in auto)
        then show "(case x of (a, is) \<Rightarrow> andthen (Some (SkipSpace is)) (\<lambda>is. ParseJsonArray n True (xs @ [a]) is)) \<noteq> None"
          by (simp only: e prod.case not_False_eq_True)
      qed
      show ?thesis unfolding Cons ParseJsonArray_Cons by (intro if_not_None a e throw_simps(1) option.discI [OF refl])
    qed simp
  next
    case 3
    show ?case
    proof (cases s)
      case (Cons b u)
      have e: "map_entry n m (b # u) \<noteq> None"
      proof
        assume "map_entry n m (b # u) = None"
        then obtain k v w where k: "ParseJsonString (b # u) = Inr (k, v)" "SkipSpace v = Inr (CHR '':'' # w)"
          and z: "ParseJson n w = None \<or> (\<exists>a x y. ParseJson n w = Some (Inr (a, x)) \<and> SkipSpace x = Inr y \<and> ParseJsonMap n True (map_insert k a m) y = None)"
          unfolding map_entry_def by (auto simp: andthen_None something_simps SkipExact_Inr split: if_splits)
        have "length w < length u" using ParseJsonString_length [OF k(1)] SkipSpace_length [OF k(2)] by simp
        then have l: "2 * length w + 2 \<le> n" using 3 Cons by simp
        show False using z
        proof (elim disjE exE conjE)
          assume "ParseJson n w = None"
          then show False using Suc.IH(1) [of w] l by simp
        next
          fix a x y assume h: "ParseJson n w = Some (Inr (a, x))" "SkipSpace x = Inr y" "ParseJsonMap n True (map_insert k a m) y = None"
          have "2 * length x + 2 \<le> n" using ParseJson_consumes(1) [OF h(1)] l by simp
          then show False using A(2) [OF h(2)] h(3) by blast
        qed
      qed
      have l: "2 * length u + 2 \<le> n" using 3 Cons by simp
      have a: "andthen (Some (SkipSpace u)) (\<lambda>is. ParseJsonMap n False m is) \<noteq> None"
        by (rule andthen_not_None; use A l in simp)
      show ?thesis unfolding Cons ParseJsonMap_Cons by (intro if_not_None a e throw_simps(1) option.discI [OF refl])
    qed simp
  }
qed simp_all

lemma andthen_mono:
  assumes "andthen c f = Some r" "\<And>r. c = Some r \<Longrightarrow> c' = Some r" "\<And>x r. f x = Some r \<Longrightarrow> f' x = Some r"
  shows "andthen c' f' = Some r"
  using assms by (auto simp: andthen_Some)

lemma something_mono: "something c = Some r \<Longrightarrow> (\<And>r. c = Some r \<Longrightarrow> c' = Some r) \<Longrightarrow> something c' = Some r"
  by (cases c) (auto simp: something_def throw_def split: if_splits)

text \<open>More fuel does not change a result.\<close>

lemma fuel_step:
  "ParseJson n s = Some r \<Longrightarrow> ParseJson (Suc n) s = Some r"
  "ParseJsonArray n c xs s = Some r \<Longrightarrow> ParseJsonArray (Suc n) c xs s = Some r"
  "ParseJsonMap n c m s = Some r \<Longrightarrow> ParseJsonMap (Suc n) c m s = Some r"
proof (induction n arbitrary: s r c xs m)
  case (Suc n)
  {
    case 1
    show ?case
    proof (cases "SkipSpace s")
      case (Inr u)
      show ?thesis
      proof (cases u)
        case (Cons b v)
        have u: "SkipSpace s = Inr (b # v)" using Inr Cons by simp
        show ?thesis using 1 unfolding ParseJson_Cons [OF u] by (auto split: if_splits elim!: andthen_mono intro: Suc.IH(2,3))
      qed (use Inr 1 in \<open>simp add: ParseJson_Nil\<close>)
    qed (use 1 in \<open>simp add: ParseJson_Inl\<close>)
  next
    case 2
    show ?case
    proof (cases s)
      case (Cons b u)
      show ?thesis using 2 unfolding Cons ParseJsonArray_Cons
        by (auto split: if_splits elim!: andthen_mono intro: Suc.IH(1,2))
    qed (use 2 in simp)
  next
    case 3
    show ?case
    proof (cases s)
      case (Cons b u)
      have e: "map_entry n m (b # u) = Some r \<Longrightarrow> map_entry (Suc n) m (b # u) = Some r" for m
        unfolding map_entry_def
        by (auto split: if_splits elim!: andthen_mono something_mono intro: Suc.IH(1,3))
      show ?thesis using 3 unfolding Cons ParseJsonMap_Cons
        by (auto split: if_splits elim!: andthen_mono intro: Suc.IH(3) e)
    qed (use 3 in simp)
  }
qed simp_all

lemma fuel_mono:
  assumes "n \<le> k"
  shows "ParseJson n s = Some r \<Longrightarrow> ParseJson k s = Some r"
    "ParseJsonArray n c xs s = Some r \<Longrightarrow> ParseJsonArray k c xs s = Some r"
    "ParseJsonMap n c m s = Some r \<Longrightarrow> ParseJsonMap k c m s = Some r"
proof -
  show "ParseJson n s = Some r \<Longrightarrow> ParseJson k s = Some r"
    using assms by (induction rule: dec_induct) (auto intro: fuel_step)
  show "ParseJsonArray n c xs s = Some r \<Longrightarrow> ParseJsonArray k c xs s = Some r"
    using assms by (induction rule: dec_induct) (auto intro: fuel_step)
  show "ParseJsonMap n c m s = Some r \<Longrightarrow> ParseJsonMap k c m s = Some r"
    using assms by (induction rule: dec_induct) (auto intro: fuel_step)
qed

text \<open>The entry point decides what any amount of fuel can find out.\<close>

lemma ParseJson_at_total: "\<exists>r. ParseJson_at s = Some r"
  using fuel_suffices(1) [of s "enough_fuel s"] by (simp add: ParseJson_at_def enough_fuel_def)

lemma ParseJson_at_fuel: "ParseJson n s = Some r \<Longrightarrow> ParseJson_at s = Some r"
proof -
  assume n: "ParseJson n s = Some r"
  obtain r' where r': "ParseJson (enough_fuel s) s = Some r'" using ParseJson_at_total [of s] by (auto simp: ParseJson_at_def)
  have "ParseJson (max n (enough_fuel s)) s = Some r" "ParseJson (max n (enough_fuel s)) s = Some r'"
    by (rule fuel_mono(1) [OF max.cobounded1 n] fuel_mono(1) [OF max.cobounded2 r'])+
  then show "ParseJson_at s = Some r" using r' by (simp add: ParseJson_at_def)
qed

subsection \<open>Well-formed values\<close>

fun json_ok :: "any \<Rightarrow> bool" where
  "json_ok (A_array xs) \<longleftrightarrow> (\<forall>x\<in>set xs. json_ok x)"
| "json_ok (A_map m) \<longleftrightarrow> sorted_wrt (<) (map fst m) \<and> (\<forall>(k, x)\<in>set m. json_ok x)"
| "json_ok (A_number lit) \<longleftrightarrow> literal_ok lit"
| "json_ok A_other \<longleftrightarrow> False"
| "json_ok _ \<longleftrightarrow> True"

text \<open>What is left of a value when it has been printed and read: integers become literals.\<close>

fun normal :: "any \<Rightarrow> any" where
  "normal (A_array xs) = A_array (map normal xs)"
| "normal (A_map m) = A_map (map (\<lambda>(k, x). (k, normal x)) m)"
| "normal (A_int ty v) = A_number (c_dec v)"
| "normal a = a"

lemma map_insert_sorted:
  "sorted_wrt (<) (map fst m) \<Longrightarrow> \<not> has_key k m \<Longrightarrow> sorted_wrt (<) (map fst (map_insert k v m))"
  "set (map_insert k v m) = insert (k, v) (set m)"
proof -
  show s: "set (map_insert k v m) = insert (k, v) (set m)" for m
  proof (induction m)
    case (Cons x m)
    then show ?case by (cases x) auto
  qed simp
  show "sorted_wrt (<) (map fst m) \<Longrightarrow> \<not> has_key k m \<Longrightarrow> sorted_wrt (<) (map fst (map_insert k v m))"
  proof (induction m)
    case (Cons x m)
    obtain k' v' where x: "x = (k', v')" by fastforce
    have k: "k \<noteq> k'" "\<not> has_key k m" using Cons(3) by (auto simp: has_key_def x)
    have m: "sorted_wrt (<) (map fst m)" "\<forall>y\<in>set (map fst m). k' < y" using Cons(2) by (simp_all add: x)
    show ?case
    proof (cases "k < k'")
      case True
      then show ?thesis using m by (auto simp: x intro: less_trans)
    next
      case False
      then have "k' < k" using k(1) by simp
      then show ?thesis using False Cons(1) [OF m(1) k(2)] m(2) s [of m] by (auto simp: x)
    qed
  qed simp
qed

definition parsed_ok :: "any \<Rightarrow> bool" where
  "parsed_ok a \<longleftrightarrow> json_ok a \<and> normal a = a"

lemma parsed_ok_map: "parsed_ok (A_map m) \<longleftrightarrow> sorted_wrt (<) (map fst m) \<and> (\<forall>(k, x)\<in>set m. parsed_ok x)"
  by (induction m) (auto simp: parsed_ok_def)

lemma parsed_ok_array: "parsed_ok (A_array xs) \<longleftrightarrow> (\<forall>x\<in>set xs. parsed_ok x)"
  by (induction xs) (auto simp: parsed_ok_def)

lemma parse_ok:
  "ParseJson n s = Some (Inr (a, t)) \<Longrightarrow> parsed_ok a"
  "ParseJsonArray n c xs s = Some (Inr (a, t)) \<Longrightarrow> parsed_ok (A_array xs) \<Longrightarrow> parsed_ok a"
  "ParseJsonMap n c m s = Some (Inr (a, t)) \<Longrightarrow> parsed_ok (A_map m) \<Longrightarrow> parsed_ok a"
proof (induction n arbitrary: s a t c xs m)
  case (Suc n)
  {
    case 1
    then obtain b u where u: "SkipSpace s = Inr (b # u)" by (rule ParseJson_Inr)
    have e: "parsed_ok (A_array [])" "parsed_ok (A_map [])" "parsed_ok (A_string x)" "parsed_ok (A_bool y)" "parsed_ok A_null"
      "literal_ok x \<Longrightarrow> parsed_ok (A_number x)" for x y
      by (simp_all add: parsed_ok_def)
    show ?case using 1 unfolding ParseJson_Cons [OF u]
      by (auto simp: andthen_Inr e split: if_splits dest: Suc.IH(2,3) ParseJsonNum_start(2))
  next
    case 2
    then obtain b u where s: "s = b # u" by (cases s) auto
    show ?case using 2 unfolding s ParseJsonArray_Cons
      by (auto simp: andthen_Inr split: if_splits dest: Suc.IH(1,2)) (metis (no_types, lifting) Suc.IH(1,2) Un_iff empty_iff insert_iff list.set parsed_ok_array set_append)
  next
    case 3
    then obtain b u where s: "s = b # u" by (cases s) auto
    have e: "parsed_ok a" if "map_entry n m (b # u) = Some (Inr (a, t))"
    proof (rule map_entry_Inr [OF that])
      fix name u v w x y z assume h: "\<not> has_key name m" "ParseJson n w = Some (Inr (x, y))" "ParseJsonMap n True (map_insert name x m) z = Some (Inr (a, t))"
      have "parsed_ok (A_map (map_insert name x m))"
        using 3(2) Suc.IH(1) [OF h(2)] h(1) unfolding parsed_ok_map by (auto simp: map_insert_sorted)
      then show "parsed_ok a" using Suc.IH(3) [OF h(3)] by simp
    qed
    show ?case using 3 unfolding s ParseJsonMap_Cons
      by (auto simp: andthen_Inr split: if_splits dest: Suc.IH(3) e)
  }
qed simp_all

subsection \<open>Printed values are read back\<close>

definition parses :: "string \<Rightarrow> any \<Rightarrow> string \<Rightarrow> bool" where
  "parses s a t \<longleftrightarrow> (\<exists>n. ParseJson n s = Some (Inr (a, t)))"

definition array_parses :: "bool \<Rightarrow> any list \<Rightarrow> string \<Rightarrow> any \<Rightarrow> string \<Rightarrow> bool" where
  "array_parses c xs s a t \<longleftrightarrow> (\<exists>n. ParseJsonArray n c xs s = Some (Inr (a, t)))"

definition map_parses :: "bool \<Rightarrow> (string \<times> any) list \<Rightarrow> string \<Rightarrow> any \<Rightarrow> string \<Rightarrow> bool" where
  "map_parses c m s a t \<longleftrightarrow> (\<exists>n. ParseJsonMap n c m s = Some (Inr (a, t)))"

lemma parses_SkipSpace:
  assumes "SkipSpace s = SkipSpace s'"
  shows "parses s a t = parses s' a t"
proof -
  have "ParseJson n s = ParseJson n s'" for n using assms by (cases n) (simp_all add: ParseJson.simps(2))
  then show ?thesis by (simp add: parses_def)
qed

lemma parses_ParseJson_at: "parses s a t \<Longrightarrow> ParseJson_at s = Some (Inr (a, t))"
  by (auto simp: parses_def dest: ParseJson_at_fuel)

lemma parses_array: "SkipSpace s = Inr (CHR ''['' # u) \<Longrightarrow> SkipSpace u = Inr v \<Longrightarrow> array_parses False [] v a t \<Longrightarrow> parses s a t"
  unfolding parses_def array_parses_def by (elim exE, rule_tac x = "Suc n" in exI) (simp add: ParseJson_Cons)

lemma parses_map: "SkipSpace s = Inr (CHR ''{'' # u) \<Longrightarrow> SkipSpace u = Inr v \<Longrightarrow> map_parses False [] v a t \<Longrightarrow> parses s a t"
  unfolding parses_def map_parses_def by (elim exE, rule_tac x = "Suc n" in exI) (simp add: ParseJson_Cons)

lemma array_parses_end: "c \<or> xs = [] \<Longrightarrow> array_parses c xs (CHR '']'' # t) (A_array xs) t"
  unfolding array_parses_def by (rule exI [of _ "Suc 0"]) (auto simp: ParseJsonArray_Cons)

lemma array_parses_comma: "SkipSpace s = Inr u \<Longrightarrow> array_parses False xs u a t \<Longrightarrow> array_parses True xs (CHR '','' # s) a t"
  unfolding array_parses_def by (elim exE, rule_tac x = "Suc n" in exI) (simp add: ParseJsonArray_Cons)

lemma array_parses_item:
  assumes "b \<noteq> CHR '',''" "b \<noteq> CHR '']''" "parses (b # s) x u" "SkipSpace u = Inr v" "array_parses True (xs @ [x]) v a t"
  shows "array_parses False xs (b # s) a t"
proof -
  obtain i j where f: "ParseJson i (b # s) = Some (Inr (x, u))" "ParseJsonArray j True (xs @ [x]) v = Some (Inr (a, t))"
    using assms(3,5) by (auto simp: parses_def array_parses_def)
  have "ParseJson (max i j) (b # s) = Some (Inr (x, u))" "ParseJsonArray (max i j) True (xs @ [x]) v = Some (Inr (a, t))"
    by (rule fuel_mono(1) [OF max.cobounded1 f(1)] fuel_mono(2) [OF max.cobounded2 f(2)])+
  then show ?thesis unfolding array_parses_def
    by (intro exI [of _ "Suc (max i j)"]) (simp add: ParseJsonArray_Cons assms(1,2,4))
qed

lemma map_parses_end: "c \<or> m = [] \<Longrightarrow> map_parses c m (CHR ''}'' # t) (A_map m) t"
  unfolding map_parses_def by (rule exI [of _ "Suc 0"]) (auto simp: ParseJsonMap_Cons)

lemma map_parses_comma: "SkipSpace s = Inr u \<Longrightarrow> map_parses False m u a t \<Longrightarrow> map_parses True m (CHR '','' # s) a t"
  unfolding map_parses_def by (elim exE, rule_tac x = "Suc n" in exI) (simp add: ParseJsonMap_Cons)

lemma map_parses_entry:
  assumes "\<not> has_key k m" "parses s x u" "SkipSpace u = Inr v" "map_parses True (map_insert k x m) v a t"
  shows "map_parses False m (quote # QuoteString k @ quote # CHR '':'' # s) a t"
proof -
  obtain i j where f: "ParseJson i s = Some (Inr (x, u))" "ParseJsonMap j True (map_insert k x m) v = Some (Inr (a, t))"
    using assms(2,4) by (auto simp: parses_def map_parses_def)
  have h: "ParseJson (max i j) s = Some (Inr (x, u))" "ParseJsonMap (max i j) True (map_insert k x m) v = Some (Inr (a, t))"
    by (rule fuel_mono(1) [OF max.cobounded1 f(1)] fuel_mono(3) [OF max.cobounded2 f(2)])+
  have "SkipSpace (CHR '':'' # s) = Inr (CHR '':'' # s)" by (rule SkipSpace_stop) (simp_all add: json_blank_def)
  then have "map_entry (max i j) m (quote # QuoteString k @ quote # CHR '':'' # s) = Some (Inr (a, t))"
    using h assms(1,3) by (simp add: map_entry_def ParseJsonString_quoted something_simps something_def)
  then show ?thesis unfolding map_parses_def by (intro exI [of _ "Suc (max i j)"]) (simp add: ParseJsonMap_Cons)
qed

text \<open>Printed text starts, after blanks, with a character that neither ends nor separates.\<close>

definition value_start :: "char \<Rightarrow> bool" where
  "value_start c \<longleftrightarrow> \<not> json_blank c \<and> c \<notin> {CHR ''/'', CHR '','', CHR '']'', CHR ''}'', CHR '':''}"

definition starts_value :: "string \<Rightarrow> bool" where
  "starts_value s \<longleftrightarrow> (\<exists>q c t. s = q @ c # t \<and> list_all json_blank q \<and> value_start c)"

lemma starts_value_skip: "starts_value s \<Longrightarrow> \<exists>c u. SkipSpace (s @ r) = Inr (c # u) \<and> value_start c"
proof -
  assume "starts_value s"
  then obtain q c t where s: "s = q @ c # t" "list_all json_blank q" "value_start c" by (auto simp: starts_value_def)
  have "SkipSpace (q @ c # t @ r) = SkipSpace (c # t @ r)" by (rule SkipSpace_blank [OF s(2)])
  also have "\<dots> = Inr (c # t @ r)" using s(3) by (intro SkipSpace_stop) (auto simp: value_start_def)
  finally show ?thesis using s by auto
qed

definition blanks :: "string \<Rightarrow> bool" where
  "blanks s \<longleftrightarrow> list_all json_blank s"

lemma blanks_simps [simp]: "blanks []" "blanks (line_end c)" "blanks p \<Longrightarrow> blanks (deeper c p)" "blanks (p @ q) \<longleftrightarrow> blanks p \<and> blanks q"
  by (auto simp: blanks_def line_end_def deeper_def json_blank_def)

lemma starts_value_blanks: "blanks p \<Longrightarrow> starts_value s \<Longrightarrow> starts_value (p @ s)"
  unfolding starts_value_def blanks_def by (metis append.assoc list_all_append)

lemma starts_value_Cons: "value_start c \<Longrightarrow> starts_value (c # s)"
  unfolding starts_value_def by (intro exI [of _ "[]"]) auto

lemma literal_start: "literal_ok lit \<Longrightarrow> \<exists>c t. lit = c # t \<and> is_num_start c"
proof -
  assume l: "literal_ok lit"
  show ?thesis
  proof (cases lit)
    case Nil
    then show ?thesis using l by (simp add: literal_ok_def json_number_def unsigned_part_def)
  next
    case (Cons c t)
    have "is_num_start c"
    proof (rule ccontr)
      assume n: "\<not> is_num_start c"
      then have "unsigned_part lit = lit" "\<not> isdigit c" "c \<noteq> CHR ''.''" by (simp_all add: Cons unsigned_part_def is_num_start_def)
      then show False using l by (auto simp: literal_ok_def json_number_def Cons)
    qed
    then show ?thesis using Cons by simp
  qed
qed

lemma num_start_value: "is_num_start c \<Longrightarrow> value_start c \<and> c \<notin> {CHR ''['', CHR ''{'', quote, CHR ''t'', CHR ''f'', CHR ''n''}"
  by (auto simp: is_num_start_def value_start_def is_sign_def isdigit_def json_blank_def)

lemma c_dec_literal: "literal_ok (c_dec v)"
proof -
  obtain c t where d: "dec (nat \<bar>v\<bar>) = c # t" "isdigit c" "list_all isdigit t" using dec_Cons by blast
  have "json_number ([] @ dec (nat \<bar>v\<bar>) @ [])" "json_number ([CHR ''-''] @ dec (nat \<bar>v\<bar>) @ [])"
    by (rule json_number_intro(1); simp add: sign_ok_def is_sign_def dec_digits exponent_ok_def)+
  then show ?thesis by (auto simp: c_dec_def literal_ok_def)
qed

lemma parses_literal:
  assumes "literal_ok lit" "stops r" "blanks p"
  shows "parses (p @ lit @ r) (A_number lit) r"
proof -
  obtain c t where l: "lit = c # t" "is_num_start c" using literal_start [OF assms(1)] by blast
  note v = num_start_value [OF l(2)]
  have "SkipSpace (p @ lit @ r) = Inr (c # t @ r)"
    using v SkipSpace_blank [of p "lit @ r"] SkipSpace_stop [of c "t @ r"] assms(3) by (auto simp: l(1) blanks_def value_start_def)
  moreover have "ParseJsonNum (c # t @ r) = Inr (lit, r)" using ParseJsonNum_literal [OF assms(1,2)] by (simp add: l(1))
  ultimately have "ParseJson (Suc 0) (p @ lit @ r) = Some (Inr (A_number lit, r))"
    using v l(2) by (simp add: ParseJson_Cons)
  then show ?thesis by (auto simp: parses_def)
qed

lemma parses_word:
  assumes "SkipSpace (w @ r) = Inr (w @ r)" "blanks p"
  shows "w = ''null'' \<Longrightarrow> parses (p @ w @ r) A_null r" "w = ''true'' \<Longrightarrow> parses (p @ w @ r) (A_bool True) r"
    "w = ''false'' \<Longrightarrow> parses (p @ w @ r) (A_bool False) r"
proof -
  have s: "SkipSpace (p @ w @ r) = Inr (w @ r)" using SkipSpace_blank [of p "w @ r"] assms by (simp add: blanks_def)
  show "w = ''null'' \<Longrightarrow> parses (p @ w @ r) A_null r" "w = ''true'' \<Longrightarrow> parses (p @ w @ r) (A_bool True) r"
    "w = ''false'' \<Longrightarrow> parses (p @ w @ r) (A_bool False) r"
    unfolding parses_def using s by (intro exI [of _ "Suc 0"]; simp add: ParseJson_Cons SkipExact_def)+
qed

lemma word_start: "w \<in> {''null'', ''true'', ''false''} \<Longrightarrow> SkipSpace (w @ r) = Inr (w @ r) \<and> starts_value w"
  by (auto intro!: SkipSpace_stop starts_value_Cons simp: json_blank_def value_start_def)

lemma parses_quoted:
  assumes "blanks p"
  shows "parses (p @ quote # QuoteString s @ quote # r) (A_string s) r"
proof -
  have "SkipSpace (p @ quote # QuoteString s @ quote # r) = Inr (quote # QuoteString s @ quote # r)"
    using SkipSpace_blank [of p] SkipSpace_stop [of quote] assms by (simp add: blanks_def json_blank_def)
  then show ?thesis unfolding parses_def
    by (intro exI [of _ "Suc 0"]) (simp add: ParseJson_Cons ParseJsonString_quoted)
qed

text \<open>The text a value is printed as, and what follows it.\<close>

definition reads_back :: "string \<Rightarrow> any \<Rightarrow> bool" where
  "reads_back out a \<longleftrightarrow> starts_value out \<and> (\<forall>r. stops r \<longrightarrow> parses (out @ r) (normal a) r)"

definition items_read :: "bool \<Rightarrow> string \<Rightarrow> any list \<Rightarrow> bool" where
  "items_read first out xs \<longleftrightarrow> (\<not> first \<longrightarrow> out = [] \<or> hd out = CHR '','') \<and>
     (\<forall>ws r ys. blanks ws \<longrightarrow> (first \<longrightarrow> ys = []) \<longrightarrow>
        (\<exists>s. SkipSpace (out @ ws @ CHR '']'' # r) = Inr s \<and> array_parses (\<not> first) ys s (A_array (ys @ map normal xs)) r))"

definition entries_read :: "bool \<Rightarrow> string \<Rightarrow> (string \<times> any) list \<Rightarrow> bool" where
  "entries_read first out m \<longleftrightarrow> (\<not> first \<longrightarrow> out = [] \<or> hd out = CHR '','') \<and>
     (\<forall>ws r ys. blanks ws \<longrightarrow> (first \<longrightarrow> ys = []) \<longrightarrow> sorted_wrt (<) (map fst (ys @ m)) \<longrightarrow>
        (\<exists>s. SkipSpace (out @ ws @ CHR ''}'' # r) = Inr s
           \<and> map_parses (\<not> first) ys s (A_map (ys @ map (\<lambda>(k, x). (k, normal x)) m)) r))"

lemma items_readD:
  "items_read first out xs \<Longrightarrow> blanks ws \<Longrightarrow> first \<longrightarrow> ys = [] \<Longrightarrow>
   \<exists>s. SkipSpace (out @ ws @ CHR '']'' # r) = Inr s \<and> array_parses (\<not> first) ys s (A_array (ys @ map normal xs)) r"
  unfolding items_read_def by blast

lemma entries_readD:
  "entries_read first out m \<Longrightarrow> blanks ws \<Longrightarrow> first \<longrightarrow> ys = [] \<Longrightarrow> sorted_wrt (<) (map fst (ys @ m)) \<Longrightarrow>
   \<exists>s. SkipSpace (out @ ws @ CHR ''}'' # r) = Inr s \<and> map_parses (\<not> first) ys s (A_map (ys @ map (\<lambda>(k, x). (k, normal x)) m)) r"
  unfolding entries_read_def by blast

lemma items_read_False:
  assumes "items_read False out xs" "blanks ws"
  obtains s where "SkipSpace (out @ ws @ CHR '']'' # r) = Inr s" "array_parses True ys s (A_array (ys @ map normal xs)) r"
  using items_readD [OF assms, of ys r] that by auto

lemma entries_read_False:
  assumes "entries_read False out m" "blanks ws" "sorted_wrt (<) (map fst (ys @ m))"
  obtains s where "SkipSpace (out @ ws @ CHR ''}'' # r) = Inr s" "map_parses True ys s (A_map (ys @ map (\<lambda>(k, x). (k, normal x)) m)) r"
  using entries_readD [OF assms(1,2) _ assms(3), of r] that by auto

lemma SkipSpace_before: "blanks ws \<Longrightarrow> \<not> json_blank c \<Longrightarrow> c \<noteq> CHR ''/'' \<Longrightarrow> SkipSpace (ws @ c # r) = Inr (c # r)"
  using SkipSpace_blank [of ws "c # r"] by (simp add: SkipSpace_stop blanks_def)

lemma stops_after:
  assumes "out = [] \<or> hd out = CHR '',''" "blanks ws" "c = CHR '']'' \<or> c = CHR ''}''"
  shows "stops (out @ ws @ c # r)"
proof -
  have c: "\<not> num_char d" if "d = CHR '','' \<or> c = d \<or> json_blank d" for d
    using that assms(3) by (auto simp: num_char_def is_sign_def is_exp_def isdigit_def json_blank_def)
  show ?thesis using assms(1,2) c by (cases out; cases ws) (auto simp: stops_def blanks_def)
qed

lemma items_read_Cons:
  assumes "reads_back o1 x" "items_read False os xs"
  shows "items_read first ((if \<not> first then '','' else []) @ line_end c @ o1 @ os) (x # xs)"
  unfolding items_read_def
proof (intro conjI allI impI)
  fix ws r and ys :: "any list"
  assume ws: "blanks ws" and f: "first \<longrightarrow> ys = []"
  let ?t = "os @ ws @ CHR '']'' # r"
  obtain u where u: "SkipSpace ?t = Inr u" "array_parses True (ys @ [normal x]) u (A_array ((ys @ [normal x]) @ map normal xs)) r"
    by (rule items_read_False [OF assms(2) ws])
  have st: "stops ?t" using assms(2) ws by (intro stops_after) (auto simp: items_read_def)
  obtain b v where b: "SkipSpace (o1 @ ?t) = Inr (b # v)" "value_start b"
    using starts_value_skip assms(1) by (force simp: reads_back_def)
  have "parses (o1 @ ?t) (normal x) ?t" using assms(1) st by (simp add: reads_back_def)
  then have "parses (b # v) (normal x) ?t"
    using parses_SkipSpace [of "b # v" "o1 @ ?t"] SkipSpace_twice [OF b(1)] b(1) by simp
  then have a: "array_parses False ys (b # v) (A_array (ys @ map normal (x # xs))) r"
    using array_parses_item [OF _ _ _ u(1), of b v "normal x" ys] u(2) b(2) by (simp add: value_start_def)
  have le: "SkipSpace (line_end c @ o1 @ ?t) = Inr (b # v)" using SkipSpace_blank [of "line_end c"] b(1) by (simp add: blanks_def [symmetric])
  show "\<exists>s. SkipSpace (((if \<not> first then '','' else []) @ line_end c @ o1 @ os) @ ws @ CHR '']'' # r) = Inr s \<and>
      array_parses (\<not> first) ys s (A_array (ys @ map normal (x # xs))) r"
  proof (cases first)
    case True
    then show ?thesis using le a by simp
  next
    case False
    then show ?thesis using array_parses_comma [OF le a] by (simp add: SkipSpace_stop json_blank_def)
  qed
qed simp

lemma entries_read_Cons:
  assumes "reads_back o1 x" "entries_read False os m" "blanks p"
  shows "entries_read first ((if \<not> first then '','' else []) @ line_end c @ p @ [quote] @ QuoteString k @ [quote] @ '':'' @ line_end c @ o1 @ os) ((k, x) # m)"
  unfolding entries_read_def
proof (intro conjI allI impI)
  fix ws r and ys :: "(string \<times> any) list"
  assume ws: "blanks ws" and f: "first \<longrightarrow> ys = []" and so: "sorted_wrt (<) (map fst (ys @ (k, x) # m))"
  let ?t = "os @ ws @ CHR ''}'' # r" and ?m = "map (\<lambda>(k, x). (k, normal x))"
  have ks: "\<forall>y\<in>set ys. fst y < k" using so by (auto simp: sorted_wrt_append)
  have hk: "\<not> has_key k ys" using ks by (auto simp: has_key_def)
  have ins: "map_insert k (normal x) ys = ys @ [(k, normal x)]" using ks
  proof (induction ys)
    case (Cons y ys)
    then show ?case by (cases y) auto
  qed simp
  have so': "sorted_wrt (<) (map fst ((ys @ [(k, normal x)]) @ m))" using so by simp
  obtain u where u: "SkipSpace ?t = Inr u" "map_parses True (ys @ [(k, normal x)]) u (A_map ((ys @ [(k, normal x)]) @ ?m m)) r"
    by (rule entries_read_False [OF assms(2) ws so'])
  have st: "stops ?t" using assms(2) ws by (intro stops_after) (auto simp: entries_read_def)
  have "SkipSpace (line_end c @ o1 @ ?t) = SkipSpace (o1 @ ?t)" using SkipSpace_blank [of "line_end c"] by (simp add: blanks_def [symmetric])
  then have "parses (line_end c @ o1 @ ?t) (normal x) ?t"
    using parses_SkipSpace [of "line_end c @ o1 @ ?t" "o1 @ ?t"] assms(1) st by (simp add: reads_back_def)
  then have a: "map_parses False ys (quote # QuoteString k @ quote # CHR '':'' # line_end c @ o1 @ ?t) (A_map (ys @ ?m ((k, x) # m))) r"
    using map_parses_entry [OF hk _ u(1)] u(2) by (simp add: ins)
  have le: "SkipSpace (line_end c @ p @ quote # QuoteString k @ quote # CHR '':'' # line_end c @ o1 @ ?t)
      = Inr (quote # QuoteString k @ quote # CHR '':'' # line_end c @ o1 @ ?t)"
    using SkipSpace_before [of "line_end c @ p" quote] assms(3) by (simp add: json_blank_def)
  show "\<exists>s. SkipSpace (((if \<not> first then '','' else []) @ line_end c @ p @ [quote] @ QuoteString k @ [quote] @ '':'' @ line_end c @ o1 @ os) @ ws @ CHR ''}'' # r) = Inr s \<and>
      map_parses (\<not> first) ys s (A_map (ys @ ?m ((k, x) # m))) r"
  proof (cases first)
    case True
    then show ?thesis using le a by simp
  next
    case False
    then show ?thesis using map_parses_comma [OF le a] by (simp add: SkipSpace_stop json_blank_def)
  qed
qed simp

lemma items_read_Nil: "items_read first [] []"
  unfolding items_read_def by (auto simp: SkipSpace_before json_blank_def intro!: array_parses_end)

lemma entries_read_Nil: "entries_read first [] []"
  unfolding entries_read_def by (auto simp: SkipSpace_before json_blank_def intro!: map_parses_end)

lemma reads_back_array:
  assumes "items_read True os xs" "blanks p"
  shows "reads_back (p @ ''['' @ os @ line_end c @ p @ '']'') (A_array xs)"
  unfolding reads_back_def
proof (intro conjI allI impI)
  show "starts_value (p @ ''['' @ os @ line_end c @ p @ '']'')"
    by (rule starts_value_blanks [OF assms(2)]) (simp add: starts_value_Cons value_start_def json_blank_def)
  fix r assume "stops r"
  obtain s where "SkipSpace (os @ (line_end c @ p) @ CHR '']'' # r) = Inr s" "array_parses False [] s (A_array (map normal xs)) r"
    using items_readD [OF assms(1), of "line_end c @ p" "[]" r] assms(2) by auto
  moreover have "SkipSpace (p @ CHR ''['' # os @ line_end c @ p @ CHR '']'' # r) = Inr (CHR ''['' # os @ line_end c @ p @ CHR '']'' # r)"
    using assms(2) by (intro SkipSpace_before) (simp_all add: json_blank_def)
  ultimately show "parses ((p @ ''['' @ os @ line_end c @ p @ '']'') @ r) (normal (A_array xs)) r"
    using parses_array by simp
qed

lemma reads_back_map:
  assumes "entries_read True os m" "blanks p" "sorted_wrt (<) (map fst m)"
  shows "reads_back (p @ ''{'' @ os @ line_end c @ p @ ''}'') (A_map m)"
  unfolding reads_back_def
proof (intro conjI allI impI)
  show "starts_value (p @ ''{'' @ os @ line_end c @ p @ ''}'')"
    by (rule starts_value_blanks [OF assms(2)]) (simp add: starts_value_Cons value_start_def json_blank_def)
  fix r assume "stops r"
  obtain s where "SkipSpace (os @ (line_end c @ p) @ CHR ''}'' # r) = Inr s" "map_parses False [] s (normal (A_map m)) r"
    using entries_readD [OF assms(1), of "line_end c @ p" "[]" r] assms(2,3) by auto
  moreover have "SkipSpace (p @ CHR ''{'' # os @ line_end c @ p @ CHR ''}'' # r) = Inr (CHR ''{'' # os @ line_end c @ p @ CHR ''}'' # r)"
    using assms(2) by (intro SkipSpace_before) (simp_all add: json_blank_def)
  ultimately show "parses ((p @ ''{'' @ os @ line_end c @ p @ ''}'') @ r) (normal (A_map m)) r"
    using parses_map by simp
qed

lemma reads_back_literal:
  assumes "literal_ok lit" "blanks p" "normal a = A_number lit"
  shows "reads_back (p @ lit) a"
  unfolding reads_back_def
proof (intro conjI allI impI)
  obtain c t where "lit = c # t" "is_num_start c" using literal_start [OF assms(1)] by blast
  then show "starts_value (p @ lit)"
    using num_start_value [of c] by (auto intro!: starts_value_blanks [OF assms(2)] starts_value_Cons)
  fix r assume "stops r"
  then show "parses ((p @ lit) @ r) (normal a) r" using parses_literal [OF assms(1) _ assms(2)] by (simp add: assms(3))
qed

lemma reads_back_word:
  assumes "blanks p"
  shows "reads_back (p @ ''null'') A_null" "reads_back (p @ (if b then ''true'' else ''false'')) (A_bool b)"
  using parses_word [OF _ assms] word_start assms
  by (auto simp: reads_back_def intro!: starts_value_blanks) (metis append_Cons append_Nil)+

lemma reads_back_quoted: "blanks p \<Longrightarrow> reads_back (p @ [quote] @ QuoteString s @ [quote]) (A_string s)"
  using parses_quoted [of p s]
  by (auto simp: reads_back_def intro!: starts_value_blanks starts_value_Cons simp: value_start_def json_blank_def)

lemma ToString_reads_back:
  "blanks p \<Longrightarrow> json_ok a \<Longrightarrow> \<exists>out. ToString c p a = Inr out \<and> reads_back out a"
  "blanks p \<Longrightarrow> \<forall>x\<in>set xs. json_ok x \<Longrightarrow> \<exists>out. ToString_items c p f xs = Inr out \<and> items_read f out xs"
  "blanks p \<Longrightarrow> \<forall>(k, x)\<in>set m. json_ok x \<Longrightarrow> \<exists>out. ToString_entries c p f m = Inr out \<and> entries_read f out m"
proof (induction c p a and c p f xs and c p f m rule: ToString_ToString_items_ToString_entries.induct)
  case (2 c p v)
  then show ?case using reads_back_array [of _ v p c] by fastforce
next
  case (3 c p m)
  then show ?case using reads_back_map [of _ m p c] by fastforce
next
  case (10 c p f x xs)
  obtain o1 where o1: "ToString c (deeper c p) x = Inr o1" "reads_back o1 x" using 10 by auto
  obtain os where os: "ToString_items c p False xs = Inr os" "items_read False os xs" using 10 o1 by auto
  show ?case using o1 os items_read_Cons [OF o1(2) os(2), of f c] by simp
next
  case (12 c p f k x m)
  obtain o1 where o1: "ToString c (deeper c p) x = Inr o1" "reads_back o1 x" using 12 by auto
  obtain os where os: "ToString_entries c p False m = Inr os" "entries_read False os m" using 12 o1 by auto
  show ?case using o1 os entries_read_Cons [OF o1(2) os(2) 12(3), of f c k] by simp
next
  case (4 c p s)
  then show ?case using reads_back_quoted [of p s] by simp
qed (auto simp: reads_back_word reads_back_literal c_dec_literal items_read_Nil entries_read_Nil)

lemma print_parse:
  assumes "blanks p" "json_ok a"
  shows "\<exists>out. ToString c p a = Inr out \<and> ParseJson_all out = Some (Inr (normal a))"
proof -
  obtain out where o: "ToString c p a = Inr out" "reads_back out a" using ToString_reads_back(1) [OF assms] by blast
  have "stops []" by (simp add: stops_def)
  then have "parses out (normal a) []" using o(2) by (metis append_Nil2 reads_back_def)
  then show ?thesis using o(1) parses_ParseJson_at by (auto simp: ParseJson_all_def)
qed

subsection \<open>Properties\<close>

text \<open>Property C9. A value printed in either format, behind any indentation, and parsed again is
  that value, integers having become number literals. The value may hold arbitrary strings, sorted
  maps, nested arrays and every number literal of the documented grammar.\<close>

theorem json_round_trip:
  assumes "blanks p" "json_ok a"
  shows "\<exists>out. ToString c p a = Inr out \<and> ParseJson_all out = Some (Inr (normal a))"
  by (rule print_parse [OF assms])

theorem json_round_trip_witness:
  "\<exists>out. ToString False '' '' (A_map [(''a'', A_array [A_int I32 (- 5), A_null, A_number ''1.5e3'']), (''b'', A_string [quote, CHR 0xFF])]) = Inr out
     \<and> ParseJson_all out = Some (Inr (A_map [(''a'', A_array [A_number (c_dec (- 5)), A_null, A_number ''1.5e3'']), (''b'', A_string [quote, CHR 0xFF])]))"
proof -
  have b: "blanks '' ''" by (simp add: blanks_def json_blank_def)
  have n: "literal_ok ''1.5e3''" by code_simp
  have "''a'' < (''b'' :: string)" by code_simp
  with n have "json_ok (A_map [(''a'', A_array [A_int I32 (- 5), A_null, A_number ''1.5e3'']), (''b'', A_string [quote, CHR 0xFF])])" by simp
  from json_round_trip [OF b this, of False] show ?thesis by simp
qed

text \<open>Property C20. Whatever text the parser accepts, the value it returns is well-formed: it holds
  only the six JSON types, the keys of its maps are strictly increasing, and its number literals are
  those of the documented grammar or a single dot. Hence printing it and parsing the result gives the
  same value.\<close>

theorem json_well_formed:
  assumes "ParseJson_all s = Some (Inr a)"
  shows "json_ok a \<and> normal a = a
     \<and> (\<exists>out. ToString c [] a = Inr out \<and> ParseJson_all out = Some (Inr a))"
proof -
  obtain t where "ParseJson (enough_fuel s) s = Some (Inr (a, t))"
    using assms by (auto simp: ParseJson_all_def ParseJson_at_def andthen_Inr split: if_splits)
  then have ok: "json_ok a" "normal a = a" using parse_ok(1) by (auto simp: parsed_ok_def)
  show ?thesis using print_parse [of "[]" a c] ok by simp
qed

theorem json_well_formed_witness:
  "ParseJson_all ''[1, .]'' = Some (Inr (A_array [A_number ''1'', A_number ''.'']))
   \<and> json_ok (A_array [A_number ''1'', A_number ''.''])"
proof -
  have p: "ParseJson_all ''[1, .]'' = Some (Inr (A_array [A_number ''1'', A_number ''.'']))" by code_simp
  from json_well_formed [OF p] p show ?thesis by blast
qed

end
