(* ===== verification/JsonStream.thy ===== *)
theory JsonStream
  imports Json
begin

text \<open>
  The JSON parser and printer over streams (\<open>util/legacy/json.cpp\<close>, and \<open>UnquoteString\<close> on a stream in
  \<open>string_conversion.cpp\<close>). A stream is the list of the characters that are left; \<open>peek\<close> looks at the
  first one, \<open>get\<close> removes it, and \<open>good\<close> fails after a \<open>peek\<close> at the end. The functions carry the
  names of their counterparts over strings with \<open>s_\<close> in front, and are compared with these.
\<close>

subsection \<open>Lexical functions\<close>

text \<open>A character that is not a hexadecimal digit leaves the number as it is: the exception is
  constructed, but not thrown.\<close>

fun s_hex_digits :: "16 word \<Rightarrow> string \<Rightarrow> 16 word" where
  "s_hex_digits data [] = data"
| "s_hex_digits data (b # s) = s_hex_digits (case hex_step data b of None \<Rightarrow> data | Some data \<Rightarrow> data) s"

function s_UnquoteString :: "bool \<Rightarrow> string \<Rightarrow> string \<Rightarrow> quote_error + (string \<times> string)" where
  "s_UnquoteString escaped [] str = (if escaped then Inl BadQuoteString else Inr ([], str))"
| "s_UnquoteString escaped (byte # is) str =
     (if escaped then
        case unescape byte of Some c \<Rightarrow> s_UnquoteString False is (str @ [c])
        | None \<Rightarrow>
            if byte = CHR ''u'' then
              if length is < 4 then Inl BadQuoteString
              else s_UnquoteString False (drop 4 is) (str @ UnicodeToUtf8 (s_hex_digits 0 (take 4 is)))
            else Inl BadQuoteString
      else if byte = backslash then s_UnquoteString True is str
      else if byte = quote then Inr (byte # is, str)
      else s_UnquoteString False is (str @ [byte]))"
  by pat_completeness auto
termination
  by (relation "measure (\<lambda>(escaped, s, ret). length s)") auto

declare s_UnquoteString.simps [simp del]

fun s_SkipMultiLineComment :: "bool \<Rightarrow> string \<Rightarrow> json_error + string" where
  "s_SkipMultiLineComment prevIsStar [] = Inl JsonParserError"
| "s_SkipMultiLineComment prevIsStar (b # is) =
     (if b = CHR ''*'' then s_SkipMultiLineComment True is
      else if prevIsStar \<and> b = CHR ''/'' then Inr is
      else s_SkipMultiLineComment False is)"

fun s_SkipSingleLineComment :: "string \<Rightarrow> string" where
  "s_SkipSingleLineComment [] = []"
| "s_SkipSingleLineComment (b # is) = (if b = CHR 0x0D \<or> b = CHR 0x0A then is else s_SkipSingleLineComment is)"

definition s_SkipComment :: "string \<Rightarrow> json_error + string" where
  "s_SkipComment is =
     (if is = [] \<or> hd is \<noteq> CHR ''*'' \<and> hd is \<noteq> CHR ''/'' then Inl JsonParserError
      else if hd is = CHR ''*'' then s_SkipMultiLineComment False (tl is)
      else Inr (s_SkipSingleLineComment (tl is)))"

lemma s_comment_eq: "s_SkipMultiLineComment p s = SkipMultiLineComment p s" "s_SkipSingleLineComment s = SkipSingleLineComment s"
proof -
  show "s_SkipMultiLineComment p s = SkipMultiLineComment p s" by (induction p s rule: SkipMultiLineComment.induct) auto
  show "s_SkipSingleLineComment s = SkipSingleLineComment s" by (induction s) auto
qed

lemma s_SkipComment_eq: "s_SkipComment s = SkipComment s"
  by (cases s) (simp_all add: s_SkipComment_def SkipComment_def s_comment_eq)

function s_SkipSpace :: "string \<Rightarrow> json_error + string" where
  "s_SkipSpace [] = Inr []"
| "s_SkipSpace (b # is) =
     (if json_blank b then s_SkipSpace is
      else if b = CHR ''/'' then case s_SkipComment is of Inl e \<Rightarrow> Inl e | Inr is \<Rightarrow> s_SkipSpace is
      else Inr (b # is))"
  by pat_completeness auto
termination
  by (relation "measure length") (auto simp: s_SkipComment_eq dest: SkipComment_length)

declare s_SkipSpace.simps [simp del]

fun s_SkipExact :: "string \<Rightarrow> string \<Rightarrow> json_error + string" where
  "s_SkipExact [] is = Inr is"
| "s_SkipExact (c # str) is = (case is of [] \<Rightarrow> Inl JsonParserError
     | byte # is \<Rightarrow> if byte = c then s_SkipExact str is else Inl JsonParserError)"

definition s_ParseJsonString :: "string \<Rightarrow> json_error + (string \<times> string)" where
  "s_ParseJsonString is =
     (case s_SkipExact [quote] is of Inl e \<Rightarrow> Inl e
      | Inr is \<Rightarrow>
          case s_UnquoteString False is [] of Inl BadQuoteString \<Rightarrow> Inl JsonParserError
          | Inr (is, str) \<Rightarrow> case s_SkipExact [quote] is of Inl e \<Rightarrow> Inl e | Inr is \<Rightarrow> Inr (str, is))"

fun s_num_loop :: "bool \<Rightarrow> bool \<Rightarrow> bool \<Rightarrow> bool \<Rightarrow> string \<Rightarrow> string \<Rightarrow> json_error + (string \<times> string)" where
  "s_num_loop signOk dotOk eOk ed s [] = Inr (s, [])"
| "s_num_loop signOk dotOk eOk ed s (byte # is) =
     (if is_sign byte then
        if \<not> signOk then Inl JsonParserError else s_num_loop False (\<not> ed) False ed (s @ [byte]) is
      else if byte = CHR ''.'' then
        if \<not> dotOk then Inl JsonParserError else s_num_loop False False eOk ed (s @ [byte]) is
      else if is_exp byte then
        if \<not> eOk then Inl JsonParserError else s_num_loop True False False True (s @ [byte]) is
      else if isdigit byte then s_num_loop False dotOk (\<not> ed) ed (s @ [byte]) is
      else Inr (s, byte # is))"

definition s_ParseJsonNum :: "string \<Rightarrow> json_error + (string \<times> string)" where
  "s_ParseJsonNum is =
     (case s_num_loop True True False False [] is of Inl e \<Rightarrow> Inl e
      | Inr (s, is) \<Rightarrow>
          if is_exp (last s) \<or> is_sign (last s) \<or> s = ''+.'' \<or> s = ''-.'' then Inl JsonParserError else Inr (s, is))"

subsection \<open>Parsing\<close>

fun s_ParseJson :: "nat \<Rightarrow> string \<Rightarrow> (any \<times> string) parsed"
  and s_ParseJsonArray :: "nat \<Rightarrow> bool \<Rightarrow> any list \<Rightarrow> string \<Rightarrow> (any \<times> string) parsed"
  and s_ParseJsonMap :: "nat \<Rightarrow> bool \<Rightarrow> (string \<times> any) list \<Rightarrow> string \<Rightarrow> (any \<times> string) parsed" where
  "s_ParseJson 0 is = None"
| "s_ParseJson (Suc n) is =
     andthen (Some (s_SkipSpace is)) (\<lambda>is.
       case is of [] \<Rightarrow> Some (Inl JsonNothingError)
       | byte # s \<Rightarrow>
           if byte = CHR ''['' then
             andthen (Some (s_SkipExact ''['' is)) (\<lambda>is. andthen (Some (s_SkipSpace is)) (\<lambda>is. s_ParseJsonArray n False [] is))
           else if byte = CHR ''{'' then
             andthen (Some (s_SkipExact ''{'' is)) (\<lambda>is. andthen (Some (s_SkipSpace is)) (\<lambda>is. s_ParseJsonMap n False [] is))
           else if byte = quote then andthen (Some (s_ParseJsonString is)) (\<lambda>(str, is). Some (Inr (A_string str, is)))
           else if byte = CHR ''t'' then andthen (Some (s_SkipExact ''true'' is)) (\<lambda>is. Some (Inr (A_bool True, is)))
           else if byte = CHR ''f'' then andthen (Some (s_SkipExact ''false'' is)) (\<lambda>is. Some (Inr (A_bool False, is)))
           else if byte = CHR ''n'' then andthen (Some (s_SkipExact ''null'' is)) (\<lambda>is. Some (Inr (A_null, is)))
           else if is_num_start byte then andthen (Some (s_ParseJsonNum is)) (\<lambda>(s, is). Some (Inr (A_number s, is)))
           else throw)"
| "s_ParseJsonArray 0 expectComma array is = None"
| "s_ParseJsonArray (Suc n) expectComma array is =
     (case is of [] \<Rightarrow> throw
      | byte # s \<Rightarrow>
          if byte = CHR '','' then
            if \<not> expectComma then throw
            else andthen (Some (s_SkipSpace s)) (\<lambda>is. s_ParseJsonArray n False array is)
          else if byte = CHR '']'' then
            if \<not> expectComma \<and> array \<noteq> [] then throw else Some (Inr (A_array array, s))
          else if expectComma then throw
          else andthen (s_ParseJson n is) (\<lambda>(a, is).
                 andthen (Some (s_SkipSpace is)) (\<lambda>is. s_ParseJsonArray n True (array @ [a]) is)))"
| "s_ParseJsonMap 0 expectComma dict is = None"
| "s_ParseJsonMap (Suc n) expectComma dict is =
     (case is of [] \<Rightarrow> throw
      | byte # s \<Rightarrow>
          if byte = CHR ''}'' then
            if \<not> expectComma \<and> dict \<noteq> [] then throw else Some (Inr (A_map dict, s))
          else if byte = CHR '','' then
            if \<not> expectComma then throw
            else andthen (Some (s_SkipSpace s)) (\<lambda>is. s_ParseJsonMap n False dict is)
          else if expectComma then throw
          else andthen (Some (s_ParseJsonString is)) (\<lambda>(name, is).
                 andthen (Some (s_SkipSpace is)) (\<lambda>is.
                   andthen (Some (s_SkipExact '':'' is)) (\<lambda>is.
                     andthen (something (s_ParseJson n is)) (\<lambda>(value, is).
                       if has_key name dict then throw
                       else andthen (Some (s_SkipSpace is)) (\<lambda>is.
                         s_ParseJsonMap n True (map_insert name value dict) is))))))"

definition s_ParseJson_at :: "string \<Rightarrow> (any \<times> string) parsed" where
  "s_ParseJson_at is = s_ParseJson (enough_fuel is) is"

subsection \<open>Printing\<close>

fun ToStream :: "bool \<Rightarrow> string \<Rightarrow> any \<Rightarrow> print_error + string"
  and ToStream_items :: "bool \<Rightarrow> string \<Rightarrow> bool \<Rightarrow> any list \<Rightarrow> print_error + string"
  and ToStream_entries :: "bool \<Rightarrow> string \<Rightarrow> bool \<Rightarrow> (string \<times> any) list \<Rightarrow> print_error + string" where
  "ToStream isCompact pre A_null = Inr (pre @ ''null'')"
| "ToStream isCompact pre (A_array v) =
     (case ToStream_items isCompact pre True v of Inl e \<Rightarrow> Inl e
      | Inr os \<Rightarrow> Inr (pre @ ''['' @ os @ line_end isCompact @ pre @ '']''))"
| "ToStream isCompact pre (A_map m) =
     (case ToStream_entries isCompact pre True m of Inl e \<Rightarrow> Inl e
      | Inr os \<Rightarrow> Inr (pre @ ''{'' @ os @ line_end isCompact @ pre @ ''}''))"
| "ToStream isCompact pre (A_string s) = Inr (pre @ [quote] @ QuoteString s @ [quote])"
| "ToStream isCompact pre (A_bool b) = Inr (pre @ (if b then ''true'' else ''false''))"
| "ToStream isCompact pre (A_int ty v) = Inr (pre @ c_dec v)"
| "ToStream isCompact pre (A_number lit) = Inr (pre @ lit)"
| "ToStream isCompact pre A_other = Inl ParameterInvalidException"
| "ToStream_items isCompact pre first [] = Inr []"
| "ToStream_items isCompact pre first (x # xs) =
     (case ToStream isCompact (deeper isCompact pre) x of Inl e \<Rightarrow> Inl e
      | Inr os \<Rightarrow> case ToStream_items isCompact pre False xs of Inl e \<Rightarrow> Inl e
          | Inr os' \<Rightarrow> Inr ((if \<not> first then '','' else []) @ line_end isCompact @ os @ os'))"
| "ToStream_entries isCompact pre first [] = Inr []"
| "ToStream_entries isCompact pre first ((k, x) # kvs) =
     (case ToStream isCompact (deeper isCompact pre) x of Inl e \<Rightarrow> Inl e
      | Inr os \<Rightarrow> case ToStream_entries isCompact pre False kvs of Inl e \<Rightarrow> Inl e
          | Inr os' \<Rightarrow> Inr ((if \<not> first then '','' else []) @ line_end isCompact @ pre @ [quote] @ QuoteString k
              @ [quote, CHR '':''] @ line_end isCompact @ os @ os'))"

subsection \<open>Comparison\<close>

lemma s_SkipSpace_eq: "s_SkipSpace s = SkipSpace s"
proof (induction s rule: SkipSpace.induct)
  case (2 b s)
  then show ?case unfolding SkipSpace.simps(2) s_SkipSpace.simps(2) by (auto simp: s_SkipComment_eq split: sum.splits)
qed (simp add: s_SkipSpace.simps)

lemma s_SkipExact_eq: "s_SkipExact str s = SkipExact str s"
proof (induction str s rule: s_SkipExact.induct)
  case (2 c str s)
  then show ?case by (cases s) (auto simp: SkipExact_def)
qed (simp add: SkipExact_def)

lemma s_num_loop_eq: "s_num_loop a b c d l s = num_loop a b c d l s"
  by (induction s arbitrary: a b c d l) simp_all

lemma bad_end_eq: "bad_end lit \<longleftrightarrow> is_exp (last lit) \<or> is_sign (last lit) \<or> lit = ''+.'' \<or> lit = ''-.''"
proof -
  have "length lit = 2 \<and> last lit = CHR ''.'' \<and> is_sign (hd lit) \<longleftrightarrow> lit = ''+.'' \<or> lit = ''-.''"
    by (auto simp: length_Suc_conv numeral_2_eq_2 is_sign_def)
  then show ?thesis by (auto simp: bad_end_def)
qed

lemma s_ParseJsonNum_eq: "s_ParseJsonNum s = ParseJsonNum s"
  unfolding s_ParseJsonNum_def ParseJsonNum_def s_num_loop_eq bad_end_eq by (rule refl)

lemma s_hex_digits_eq: "hex_digits d s = Some d' \<Longrightarrow> s_hex_digits d s = d'"
  by (induction d s rule: hex_digits.induct) (auto split: bind_splits)

lemma s_UnquoteString_accepts: "UnquoteString b s ret = Inr r \<Longrightarrow> s_UnquoteString b s ret = Inr r"
proof (induction b s ret rule: UnquoteString.induct)
  case (2 escaped byte s ret)
  from 2(5) show ?case unfolding UnquoteString.simps(2) s_UnquoteString.simps(2)
    using 2(1-4) by (auto split: if_splits option.splits simp: s_hex_digits_eq)
qed (simp add: UnquoteString.simps s_UnquoteString.simps)

lemma s_ParseJsonString_accepts: "ParseJsonString s = Inr r \<Longrightarrow> s_ParseJsonString s = Inr r"
  by (auto simp: ParseJsonString_def s_ParseJsonString_def s_SkipExact_eq split: sum.splits quote_error.splits
      dest!: s_UnquoteString_accepts)

lemmas s_eqs = s_SkipSpace_eq s_SkipExact_eq s_ParseJsonNum_eq

lemma stream_accepts:
  "ParseJson n s = Some (Inr (a, t)) \<Longrightarrow> s_ParseJson n s = Some (Inr (a, t))"
  "ParseJsonArray n c xs s = Some (Inr (a, t)) \<Longrightarrow> s_ParseJsonArray n c xs s = Some (Inr (a, t))"
  "ParseJsonMap n c m s = Some (Inr (a, t)) \<Longrightarrow> s_ParseJsonMap n c m s = Some (Inr (a, t))"
proof (induction n arbitrary: s a t c xs m)
  case (Suc n)
  {
    case 1
    then obtain b u where u: "SkipSpace s = Inr (b # u)" by (rule ParseJson_Inr)
    show ?case using 1 unfolding ParseJson_Cons [OF u]
      by (auto simp: u s_eqs andthen_Inr split: if_splits dest: Suc.IH(2,3) s_ParseJsonString_accepts)
  next
    case 2
    then obtain b u where s: "s = b # u" by (cases s) auto
    show ?case using 2 unfolding s ParseJsonArray_Cons
      by (auto simp: s_eqs andthen_Inr split: if_splits dest!: Suc.IH(1,2))
  next
    case 3
    then obtain b u where s: "s = b # u" by (cases s) auto
    show ?case using 3 unfolding s ParseJsonMap_Cons
      by (auto simp: s_eqs andthen_Inr something_simps split: if_splits elim!: map_entry_Inr dest!: Suc.IH(1,3) s_ParseJsonString_accepts)
  }
qed simp_all

lemma ToStream_eq:
  "ToStream c p a = ToString c p a" "ToStream_items c p f xs = ToString_items c p f xs" "ToStream_entries c p f m = ToString_entries c p f m"
  by (induction c p a and c p f xs and c p f m rule: ToString_ToString_items_ToString_entries.induct)
    (auto split: sum.splits)

text \<open>Property C21. Both parsers are given the same text. The parser over strings always returns,
  and what it accepts, the parser over streams accepts with the same value and the same rest. The
  converse fails: after a unicode escape the parser over streams takes any four characters. The two
  printers give the same text.\<close>

theorem json_parsers_agree:
  "(\<exists>r. ParseJson_at s = Some r)
   \<and> (\<forall>a t. ParseJson_at s = Some (Inr (a, t)) \<longrightarrow> s_ParseJson_at s = Some (Inr (a, t)))
   \<and> ParseJson_at (quote # backslash # ''uWXYZ'' @ [quote]) = Some (Inl JsonParserError)
   \<and> s_ParseJson_at (quote # backslash # ''uWXYZ'' @ [quote]) = Some (Inr (A_string [NUL], []))
   \<and> ToStream c p x = ToString c p x"
proof (intro conjI allI impI)
  show "\<exists>r. ParseJson_at s = Some r" by (rule ParseJson_at_total)
  show "s_ParseJson_at s = Some (Inr (a, t))" if "ParseJson_at s = Some (Inr (a, t))" for a t
    using stream_accepts(1) that by (simp add: ParseJson_at_def s_ParseJson_at_def)
  show "ParseJson_at (quote # backslash # ''uWXYZ'' @ [quote]) = Some (Inl JsonParserError)" by code_simp
  show "s_ParseJson_at (quote # backslash # ''uWXYZ'' @ [quote]) = Some (Inr (A_string [NUL], []))" by code_simp
  show "ToStream c p x = ToString c p x" by (rule ToStream_eq(1))
qed

theorem json_parsers_agree_witness:
  "ParseJson_at ''[1]x'' = Some (Inr (A_array [A_number ''1''], ''x'')) \<and> s_ParseJson_at ''[1]x'' = Some (Inr (A_array [A_number ''1''], ''x''))"
proof -
  have "ParseJson_at ''[1]x'' = Some (Inr (A_array [A_number ''1''], ''x''))" by code_simp
  then show ?thesis using json_parsers_agree [of "''[1]x''" True "[]" A_null] by blast
qed

end
