(* ===== verification/Spec2Isabelle.thy ===== *)
theory Spec2Isabelle
  imports DataBuffer PacketQueues ChannelPool Packets Requests HttpFragments Base64 Md5 Utf8 StringUtil Modules JsonStream
begin

text \<open>
  A verification development of the agent engine: the network library \<open>anet\<close>
  (\<open>src/agent_engine/network/anet\<close>), the engine's modules and worker
  (\<open>src/agent_engine/engine/common\<close>) and the utility library (\<open>src/agent_engine/util\<close>).

  \<^bold>\<open>The program.\<close> A worker loads its modules in dependency order and runs until it is
  stopped. A network connection takes packets from the threads of the application, queues them,
  encodes them into an output buffer with a packet streamer, writes the buffer to a socket, reads
  the answers, decodes them with the streamer, finds the channel that waits for an answer, and calls
  the handler of the request. Two wire formats exist: frames with a fixed header
  (\<open>DefaultPacketStreamer\<close>) and HTTP (\<open>HTTPStreamer\<close>). The utility library has the codecs
  and string functions the rest uses.

  \<^bold>\<open>Conventions\<close> (\<open>AE_Prelude\<close>). C++ objects are records, enumerations are datatypes,
  integers have their width wherever it matters. A pointer is an optional address, and linked
  structures live in explicit heaps. Undefined behaviour, a failed assertion and a loop that does
  not end are the value \<open>None\<close>, so that a theorem which gives \<open>Some\<close> is a statement of
  memory safety and termination. Exceptions are the left side of a sum. Virtual functions of classes
  that are not fixed are parameters.

  \<^bold>\<open>Theories and what they show.\<close>

  \<^item> \<open>Float32\<close>, \<open>DataBuffer\<close>: \<open>databuffer.h\<close>, every operation of the byte buffer with its
    raw block and its read and write positions; the growth loop in single precision floating point,
    modelled exactly. With at most 2 ^ 24 bytes of data, and requests of at most 2 ^ 24 bytes, every request for room
    is served and the buffer refines a byte queue; integers and strings written within this bound are read
    back. Beyond it single precision can no longer represent every size, and at 2 ^ 25 bytes a
    request is shown to be served with too small a block. The search finds the first occurrence of a pattern that
    starts with a byte below 128.

  \<^item> \<open>PacketQueues\<close>: \<open>packetqueue.cpp\<close>, \<open>orderedpacketqueue.cpp\<close>. Intrusive singly linked lists. The
    locale \<open>packet_queue\<close> states the contract of a queue and is interpreted for the plain and for the
    ordered queue. The ordered queue is a stable sort by expiry time, its merge loop computes the
    merge, the timeout scan splits the queue, destruction frees every packet once.

  \<^item> \<open>ChannelPool\<close>: \<open>channelpool.cpp\<close>, \<open>channel.cpp\<close>. Doubly linked waiting list, free list, id map
    and clusters. Any sequence of operations of clients that put a channel on the waiting list at most once, under an id
    no waiting channel has, keeps the lists linked, disjoint and complete and the waiting list sorted. Up to
    2 ^ 32 / 3 successive ids differ in their low 32 bits; that an id is not still in use when it
    is given out again is a condition on the clients.

  \<^item> \<open>Packets\<close>, \<open>Streamers\<close>: \<open>packet.h\<close>, \<open>defaultpacket.cpp\<close>, \<open>controlpacket.h\<close>, \<open>streamingcontext.cpp\<close>,
    \<open>defaultpacketstreamer.cpp\<close> and the receiving side of \<open>tcpconnection.cpp\<close>. The locales
    \<open>packet_codec\<close> and \<open>packet_streamer\<close> are the contracts of a packet class and of a streamer. Up to
    16 MiB of packets with bodies of up to 8 MiB are received as they were sent, in order, however the bytes are cut
    into reads of up to 4 MiB; malformed frames break the connection.

  \<^item> \<open>CStrings\<close>, \<open>HttpPacket\<close>, \<open>HttpStreamer\<close>, \<open>HttpMessages\<close>, \<open>HttpFragments\<close>: the C string functions
    used, \<open>httppacket.cpp\<close>, \<open>httpstreamer.cpp\<close>. The locale \<open>header_map\<close> is the contract of the header
    map. The verdict of the parser, and without an error its result, do not depend on the
    fragmentation, if no piece ends in a CR that is followed by something other than LF; within the package limit encoded messages are
    parsed back; a message that ends before the connection does is within the limits, however it arrives.

  \<^item> \<open>Connections\<close>, \<open>Exchanges\<close>, \<open>Requests\<close>: \<open>connection.cpp\<close> and the sending side of
    \<open>tcpconnection.cpp\<close>. Code that runs under the connection's lock is one definition; callbacks and
    wake-ups are recorded in the state; \<open>cn_reach\<close> is the inductive reachability of states of a
    client under posting, writing, replies, timeouts, changes of the queue limit and of the queue timeout, opening and
    closing in any order. The default handler is fixed, and a post needs a free channel id and an expire
    time. Every accepted request is answered exactly once or outstanding; closing answers all when no write is under
    way; a write returns when the encoder copes with the queued packets, as the one for default packets
    does; the number of outstanding requests keeps to the limits set.

  \<^item> \<open>Modules\<close>: \<open>base_module.cc\<close>, \<open>creator_factory.h\<close>, \<open>module_manager.cc\<close>, \<open>worker_base.cc\<close>. The
    history of load and unload calls respects the dependencies whatever the modules do and in whatever order the
    maps are visited; cycles are refused; a worker whose modules succeed ends with every module
    unloaded, for every schedule of signals and of calls of \<open>Stop\<close>, each in two parts. In the second
    part the test of the manager's pointer and its use are taken together.

  \<^item> \<open>Base64\<close>, \<open>Md5\<close>, \<open>Utf8\<close>, \<open>StringUtil\<close>: \<open>base64.cpp\<close>, \<open>md5.cpp\<close>, \<open>string_utf8.cpp\<close>,
    \<open>string_util.cc\<close>. Round trips, agreement of the two decoders, the digest as a fold of the reference
    compression function over the padded message, splitting and joining, conversions at their widths. The order in which the
    operands of one expression of \<open>Utf8ToUnicode\<close> are evaluated is a parameter.

  \<^item> \<open>JsonText\<close>, \<open>Json\<close>, \<open>JsonStream\<close>: \<open>json_string_enhanced.cpp\<close>, \<open>json.cpp\<close> and the quoting of
    \<open>string_conversion.cpp\<close>. The number automaton accepts the documented grammar and a single dot;
    printed values are parsed back; parsed values are well-formed; the parser over streams accepts
    what the parser over strings accepts.

  \<^bold>\<open>Bounds.\<close> Loops that may not end are \<open>partial_function (option)\<close>, and where a property says that
  such a loop returns, this is proved. The recursion of the module manager ends by its own depth
  limit of 64. Only the JSON parsers have fuel, one unit per call or turn of a loop; twice the length
  of the input and one unit more are enough (\<open>fuel_suffices\<close>), because every second step consumes a
  character, and more fuel does not change a result (\<open>fuel_mono\<close>).

  \<^bold>\<open>Not modelled.\<close> Sockets, the event loop, transports, acceptors, the threads and locks of both
  libraries and the thread pools are calls of the operating system and its memory model: a
  connection is modelled at the granularity of its critical sections, with socket results as inputs.
  The admin server, statistics and logging (\<open>alog\<close>) format text for people. \<open>arpc\<close> and \<open>grpc\<close> are
  layers over Protocol Buffers and gRPC, which are not part of the sources. Floating point
  conversions of strings depend on the C library.
\<close>

end
